(* ===== verification/Prelude.thy ===== *)
theory Prelude
  imports Main "HOL-Library.Word"
begin

text \<open>
  What the components share: the machine integers of the target (64-bit), the
  outcomes of a Rust call (a value, a panic with its message, or undefined behaviour),
  the standard library primitives the sources call on integers and on raw memory, and
  the generic lemmas about them.

  A \<open>MaybeUninit\<close> array is a list of options: \<open>None\<close> is memory that was never
  written. Reading such a slot as initialised, or copying outside the allocation, is
  \<open>UB\<close>, so a theorem that an operation returns \<open>Ret\<close> is also a memory safety
  theorem.
\<close>

unbundle bit_operations_syntax

type_synonym u8 = "8 word"
type_synonym u32 = "32 word"
type_synonym u64 = "64 word"
type_synonym usize = "64 word"

named_theorems run_simps \<open>evaluation of outcomes and of memory primitives\<close>
named_theorems std_defs \<open>definitions of the modelled standard library primitives\<close>

section \<open>Outcomes of a call\<close>

datatype 'a run = Ret 'a | Panic string | UB

fun run_bind :: "'a run \<Rightarrow> ('a \<Rightarrow> 'b run) \<Rightarrow> 'b run" where
  "run_bind (Ret x) f = f x"
| "run_bind (Panic m) f = Panic m"
| "run_bind UB f = UB"

fun run_map :: "('a \<Rightarrow> 'b) \<Rightarrow> 'a run \<Rightarrow> 'b run" where
  "run_map f (Ret x) = Ret (f x)"
| "run_map f (Panic m) = Panic m"
| "run_map f UB = UB"

lemma run_bind_eq_Ret [run_simps]:
  "run_bind r f = Ret y \<longleftrightarrow> (\<exists>x. r = Ret x \<and> f x = Ret y)"
  by (cases r) auto

lemma run_map_eq_Ret [run_simps]:
  "run_map f r = Ret y \<longleftrightarrow> (\<exists>x. r = Ret x \<and> y = f x)"
  by (cases r) auto

text \<open>
  Related outcomes: both return related values, or both panic with the same message. \<open>UB\<close>
  is related to nothing, so a refinement proved with it excludes undefined behaviour.
\<close>

fun run_rel :: "('a \<Rightarrow> 'b \<Rightarrow> bool) \<Rightarrow> 'a run \<Rightarrow> 'b run \<Rightarrow> bool" where
  "run_rel R (Ret x) (Ret y) \<longleftrightarrow> R x y"
| "run_rel R (Panic m) (Panic n) \<longleftrightarrow> m = n"
| "run_rel R _ _ \<longleftrightarrow> False"

lemma run_rel_Ret_right [run_simps]: "run_rel R r (Ret y) \<longleftrightarrow> (\<exists>x. r = Ret x \<and> R x y)"
  by (cases r) auto

lemma run_rel_Panic_right [run_simps]: "run_rel R r (Panic m) \<longleftrightarrow> r = Panic m"
  by (cases r) auto

lemma run_rel_bind:
  assumes "run_rel R r r'" and "\<And>x y. R x y \<Longrightarrow> run_rel Q (f x) (g y)"
  shows "run_rel Q (run_bind r f) (run_bind r' g)"
  using assms by (cases "(R, r, r')" rule: run_rel.cases) auto

lemma run_rel_map:
  "run_rel (\<lambda>x y. Q (f x) (g y)) r r' \<Longrightarrow> run_rel Q (run_map f r) (run_map g r')"
  by (cases r; cases r') auto

lemma run_map_eq_bind: "run_map f r = run_bind r (\<lambda>x. Ret (f x))"
  by (cases r) auto

lemma run_rel_mono: "run_rel R r r' \<Longrightarrow> (\<And>x y. R x y \<Longrightarrow> Q x y) \<Longrightarrow> run_rel Q r r'"
  by (cases "(R, r, r')" rule: run_rel.cases) auto

text \<open>\<open>std::task::Poll\<close>.\<close>

datatype 'a poll = Ready 'a | Pending

text \<open>
  The wakers are values of a parameter type, \<open>will_wake\<close> is a relation \<open>ww\<close> on them: waking
  \<open>w\<close> wakes the task whose waker is \<open>cur\<close> when they are equal or \<open>w.will_wake(cur)\<close>.
\<close>

definition wakes_task :: "('w \<Rightarrow> 'w \<Rightarrow> bool) \<Rightarrow> 'w \<Rightarrow> 'w \<Rightarrow> bool" where
  "wakes_task ww cur w \<longleftrightarrow> w = cur \<or> ww w cur"

text \<open>
  Tasks are numbered, a parked task has the waker of its last poll; waking a list of wakers
  takes the tasks they wake out of the parked ones.
\<close>

definition unpark :: "('w \<Rightarrow> 'w \<Rightarrow> bool) \<Rightarrow> 'w list \<Rightarrow> (nat \<Rightarrow> 'w option) \<Rightarrow> nat \<Rightarrow> 'w option" where
  "unpark ww woken parked = (\<lambda>f.
     case parked f of None \<Rightarrow> None
     | Some w \<Rightarrow> (if list_ex (wakes_task ww w) woken then None else Some w))"

lemma unpark_Nil [simp]: "unpark ww [] parked = parked"
  by (auto simp: unpark_def fun_eq_iff split: option.split)

section \<open>Machine integers\<close>

definition usize_max :: nat where
  "usize_max = 2 ^ 64 - 1"

definition checked_add :: "nat \<Rightarrow> nat \<Rightarrow> nat option" where
  [std_defs]: "checked_add a b = (if a + b \<le> usize_max then Some (a + b) else None)"

definition saturating_add :: "nat \<Rightarrow> nat \<Rightarrow> nat" where
  [std_defs]: "saturating_add a b = min (a + b) usize_max"

lemma saturating_add_le_iff: "n < usize_max \<Longrightarrow> saturating_add a b \<le> n \<longleftrightarrow> a + b \<le> n"
  by (auto simp: saturating_add_def)

section \<open>Raw memory\<close>

text \<open>
  \<open>assume_init_read\<close> of element \<open>i\<close> of an array of \<open>MaybeUninit\<close>; the index is
  bounds-checked by the array, the initialisation is not checked.
\<close>

definition index_panic :: string where
  "index_panic = ''index out of bounds''"

definition assume_init_read :: "'a option list \<Rightarrow> nat \<Rightarrow> 'a run" where
  [std_defs]: "assume_init_read xs i =
     (if i < length xs then (case xs ! i of Some x \<Rightarrow> Ret x | None \<Rightarrow> UB)
      else Panic index_panic)"

text \<open>
  \<open>ptr::copy\<close> within one allocation (a memmove of \<open>n\<close> elements from index \<open>src\<close>
  to index \<open>dst\<close>) and \<open>ptr::copy_nonoverlapping\<close> between two allocations.
\<close>

definition ptr_copy :: "'a list \<Rightarrow> nat \<Rightarrow> nat \<Rightarrow> nat \<Rightarrow> 'a list run" where
  [std_defs]: "ptr_copy xs src dst n =
     (if src + n \<le> length xs \<and> dst + n \<le> length xs
      then Ret (take dst xs @ take n (drop src xs) @ drop (dst + n) xs)
      else UB)"

definition ptr_copy_to :: "'a list \<Rightarrow> nat \<Rightarrow> 'a list \<Rightarrow> nat \<Rightarrow> nat \<Rightarrow> 'a list run" where
  [std_defs]: "ptr_copy_to xs src ys dst n =
     (if src + n \<le> length xs \<and> dst + n \<le> length ys
      then Ret (take dst ys @ take n (drop src xs) @ drop (dst + n) ys)
      else UB)"

text \<open>\<open>slice::from_raw_parts\<close> at the start of an allocation of \<open>MaybeUninit\<close>.\<close>

definition raw_slice :: "'a option list \<Rightarrow> nat \<Rightarrow> 'a list run" where
  [std_defs]: "raw_slice xs n =
     (if n \<le> length xs then (case those (take n xs) of Some ys \<Rightarrow> Ret ys | None \<Rightarrow> UB)
      else UB)"

section \<open>Runs of calls\<close>

text \<open>A list of calls on a state, with what each returned.\<close>

fun run_calls :: "('c \<Rightarrow> 's \<Rightarrow> 's \<times> 'o) \<Rightarrow> 'c list \<Rightarrow> 's \<Rightarrow> 's \<times> 'o list" where
  "run_calls f [] s = (s, [])"
| "run_calls f (c # cs) s =
     (case f c s of (s', r) \<Rightarrow> (case run_calls f cs s' of (s'', rs) \<Rightarrow> (s'', r # rs)))"

text \<open>A simulation of single calls is a simulation of runs.\<close>

lemma run_calls_simulation:
  assumes "\<And>c s a. R s a \<Longrightarrow> P c \<Longrightarrow> R (fst (f c s)) (fst (g c a)) \<and> snd (f c s) = snd (g c a)"
    and "R s a" and "\<forall>c \<in> set cs. P c"
  shows "R (fst (run_calls f cs s)) (fst (run_calls g cs a))
    \<and> snd (run_calls f cs s) = snd (run_calls g cs a)"
  using assms(2,3)
proof (induction cs arbitrary: s a)
  case (Cons c cs)
  have "R (fst (f c s)) (fst (g c a))" "snd (f c s) = snd (g c a)"
    using assms(1) Cons.prems by auto
  then show ?case using Cons.IH [of "fst (f c s)" "fst (g c a)"] Cons.prems
    by (simp add: case_prod_beta)
qed simp

lemma run_calls_invariant:
  assumes "\<And>c s. I s \<Longrightarrow> I (fst (f c s))" "I s"
  shows "I (fst (run_calls f cs s))"
  using assms(2) by (induction cs arbitrary: s) (auto simp: assms(1) case_prod_beta)

lemma run_calls_append:
  "run_calls f (cs @ ds) s = (case run_calls f cs s of (s', rs) \<Rightarrow>
     (case run_calls f ds s' of (s'', rs') \<Rightarrow> (s'', rs @ rs')))"
  by (induction cs arbitrary: s) (auto simp: case_prod_beta)

section \<open>Generic lemmas\<close>

lemma those_map_Some [simp]: "those (map Some xs) = Some xs"
  by (induction xs) auto

lemma those_eq_Some_iff: "those xs = Some ys \<longleftrightarrow> xs = map Some ys"
proof (induction xs arbitrary: ys)
  case Nil
  then show ?case by auto
next
  case (Cons x xs)
  then show ?case by (cases ys) (auto split: option.splits)
qed

lemma all_Some_ex_map: "(\<forall>x \<in> set xs. x \<noteq> None) \<Longrightarrow> \<exists>ys. xs = map Some ys"
proof (induction xs)
  case Nil
  then show ?case by simp
next
  case (Cons x xs)
  then obtain ys y where "xs = map Some ys" "x = Some y" by auto
  then have "x # xs = map Some (y # ys)" by simp
  then show ?case ..
qed

lemma take_Suc_update: "n < length xs \<Longrightarrow> take (Suc n) (xs[n := x]) = take n xs @ [x]"
  by (simp add: take_Suc_conv_app_nth)

lemma drop_eq_Cons: "n < length xs \<Longrightarrow> drop n xs = xs ! n # drop (Suc n) xs"
  by (simp add: Cons_nth_drop_Suc)

end
