(* ===== verification/AtomicWaker.thy ===== *)
theory AtomicWaker
  imports Prelude
begin

text \<open>
  The \<open>AtomicWaker\<close> of \<open>src/atomic_waker/mod.rs\<close>: a state word with two lock
  bits and a cell that holds at most one waker. \<open>aw_step\<close> is the program, one
  atomic access or one access to the cell at a time, so that any number of threads can
  be interleaved; \<open>aw_register\<close> and \<open>aw_wake\<close> are the uncontended calls that the
  channels use.

  A waker is a value of an arbitrary type with the standard library's \<open>will_wake\<close>
  as a parameter \<open>ww\<close>. The last component of a step is the list of wakers on which it
  called \<open>wake\<close>.
\<close>

section \<open>The state and the two critical sections\<close>

definition WAITING :: usize where "WAITING = 0"

definition REGISTERING :: usize where "REGISTERING = 1"

definition WAKING :: usize where "WAKING = 2"

lemmas aw_states = WAITING_def REGISTERING_def WAKING_def

record 'w atomic_waker =
  aw_state :: usize
  aw_cell :: "'w option"

definition aw_new :: "'w atomic_waker" where
  "aw_new = \<lparr>aw_state = WAITING, aw_cell = None\<rparr>"

text \<open>
  The program counters: \<open>Reg\<dots>\<close> of a call of \<open>register\<close>, \<open>Take\<dots>\<close> of a call of
  \<open>take\<close> made by \<open>wake\<close>. \<open>AwFault\<close> is a failed \<open>debug_assert\<close> or the
  \<open>unwrap\<close> of an empty cell.
\<close>

datatype 'w aw_pc =
    RegCas 'w
  | RegStore 'w
  | RegRelease
  | RegTake
  | RegSwap 'w
  | RegWake 'w
  | RegWakeByRef 'w
  | TakeFetchOr
  | TakeCell
  | TakeSwap "'w option"
  | TakeWake "'w option"
  | AwDone
  | AwFault

fun aw_step :: "('w \<Rightarrow> 'w \<Rightarrow> bool) \<Rightarrow> 'w atomic_waker \<Rightarrow> 'w aw_pc
    \<Rightarrow> 'w atomic_waker \<times> 'w aw_pc \<times> 'w list" where
  "aw_step ww a (RegCas w) =
     (if aw_state a = WAITING then (a\<lparr>aw_state := REGISTERING\<rparr>, RegStore w, [])
      else if aw_state a = WAKING then (a, RegWakeByRef w, [])
      else if aw_state a = REGISTERING \<or> aw_state a = REGISTERING OR WAKING
      then (a, AwDone, []) else (a, AwFault, []))"
| "aw_step ww a (RegStore w) =
     (case aw_cell a of
        Some old \<Rightarrow> (if ww old w then a else a\<lparr>aw_cell := Some w\<rparr>, RegRelease, [])
      | None \<Rightarrow> (a\<lparr>aw_cell := Some w\<rparr>, RegRelease, []))"
| "aw_step ww a RegRelease =
     (if aw_state a = REGISTERING then (a\<lparr>aw_state := WAITING\<rparr>, AwDone, [])
      else if aw_state a = REGISTERING OR WAKING then (a, RegTake, []) else (a, AwFault, []))"
| "aw_step ww a RegTake =
     (case aw_cell a of
        Some w \<Rightarrow> (a\<lparr>aw_cell := None\<rparr>, RegSwap w, [])
      | None \<Rightarrow> (a, AwFault, []))"
| "aw_step ww a (RegSwap w) = (a\<lparr>aw_state := WAITING\<rparr>, RegWake w, [])"
| "aw_step ww a (RegWake w) = (a, AwDone, [w])"
| "aw_step ww a (RegWakeByRef w) = (a, AwDone, [w])"
| "aw_step ww a TakeFetchOr =
     (if aw_state a = WAITING then (a\<lparr>aw_state := aw_state a OR WAKING\<rparr>, TakeCell, [])
      else if aw_state a = REGISTERING \<or> aw_state a = REGISTERING OR WAKING
        \<or> aw_state a = WAKING
      then (a\<lparr>aw_state := aw_state a OR WAKING\<rparr>, TakeWake None, [])
      else (a\<lparr>aw_state := aw_state a OR WAKING\<rparr>, AwFault, []))"
| "aw_step ww a TakeCell = (a\<lparr>aw_cell := None\<rparr>, TakeSwap (aw_cell a), [])"
| "aw_step ww a (TakeSwap w) =
     (a\<lparr>aw_state := WAITING\<rparr>, if aw_state a = WAKING then TakeWake w else AwFault, [])"
| "aw_step ww a (TakeWake w) = (a, AwDone, case w of Some w' \<Rightarrow> [w'] | None \<Rightarrow> [])"
| "aw_step ww a AwDone = (a, AwDone, [])"
| "aw_step ww a AwFault = (a, AwFault, [])"

text \<open>A call that runs alone, with the wakers it woke; six steps end every call.\<close>

fun aw_exec :: "('w \<Rightarrow> 'w \<Rightarrow> bool) \<Rightarrow> nat \<Rightarrow> 'w atomic_waker \<Rightarrow> 'w aw_pc
    \<Rightarrow> 'w atomic_waker \<times> 'w aw_pc \<times> 'w list" where
  "aw_exec ww 0 a p = (a, p, [])"
| "aw_exec ww (Suc n) a p =
     (case aw_step ww a p of (a', p', ws) \<Rightarrow>
      (case aw_exec ww n a' p' of (a'', p'', ws') \<Rightarrow> (a'', p'', ws @ ws')))"

definition aw_register :: "('w \<Rightarrow> 'w \<Rightarrow> bool) \<Rightarrow> 'w \<Rightarrow> 'w atomic_waker
    \<Rightarrow> 'w atomic_waker \<times> 'w list" where
  "aw_register ww w a = (case aw_exec ww 6 a (RegCas w) of (a', p, ws) \<Rightarrow> (a', ws))"

definition aw_wake :: "('w \<Rightarrow> 'w \<Rightarrow> bool) \<Rightarrow> 'w atomic_waker \<Rightarrow> 'w atomic_waker \<times> 'w list" where
  "aw_wake ww a = (case aw_exec ww 6 a TakeFetchOr of (a', p, ws) \<Rightarrow> (a', ws))"

section \<open>Threads\<close>

text \<open>
  Any number of threads share one \<open>AtomicWaker\<close>. An idle thread (\<open>AwDone\<close>) may
  call \<open>register\<close> with any waker or \<open>wake\<close>; a busy thread does its next step. The log
  holds the wakers woken so far, the latest first.
\<close>

record 'w aw_sys =
  sys_aw :: "'w atomic_waker"
  sys_pc :: "nat \<Rightarrow> 'w aw_pc"
  sys_log :: "'w list"

definition aw_sys_init :: "'w aw_sys" where
  "aw_sys_init = \<lparr>sys_aw = aw_new, sys_pc = (\<lambda>_. AwDone), sys_log = []\<rparr>"

inductive aw_sys_step :: "('w \<Rightarrow> 'w \<Rightarrow> bool) \<Rightarrow> 'w aw_sys \<Rightarrow> 'w aw_sys \<Rightarrow> bool"
  for ww :: "'w \<Rightarrow> 'w \<Rightarrow> bool" where
  call_register: "sys_pc s t = AwDone \<Longrightarrow>
     aw_sys_step ww s (s\<lparr>sys_pc := (sys_pc s)(t := RegCas w)\<rparr>)"
| call_wake: "sys_pc s t = AwDone \<Longrightarrow>
     aw_sys_step ww s (s\<lparr>sys_pc := (sys_pc s)(t := TakeFetchOr)\<rparr>)"
| thread_step: "aw_step ww (sys_aw s) (sys_pc s t) = (a, p, ws) \<Longrightarrow>
     aw_sys_step ww s (s\<lparr>sys_aw := a, sys_pc := (sys_pc s)(t := p), sys_log := ws @ sys_log s\<rparr>)"

inductive aw_reachable :: "('w \<Rightarrow> 'w \<Rightarrow> bool) \<Rightarrow> 'w aw_sys \<Rightarrow> bool"
  for ww :: "'w \<Rightarrow> 'w \<Rightarrow> bool" where
  aw_start: "aw_reachable ww aw_sys_init"
| aw_next: "aw_reachable ww s \<Longrightarrow> aw_sys_step ww s t \<Longrightarrow> aw_reachable ww t"

section \<open>The invariant\<close>

text \<open>
  \<open>aw_reg\<close> and \<open>aw_tak\<close> are the program counters that hold the lock on the cell,
  \<open>aw_pc_ok\<close> what each program counter knows of the shared state, and \<open>aw_ok\<close> the
  invariant of an \<open>AtomicWaker\<close> under a family of threads.
\<close>

fun aw_reg :: "'w aw_pc \<Rightarrow> bool" where
  "aw_reg (RegStore w) = True"
| "aw_reg RegRelease = True"
| "aw_reg RegTake = True"
| "aw_reg (RegSwap w) = True"
| "aw_reg _ = False"

fun aw_tak :: "'w aw_pc \<Rightarrow> bool" where
  "aw_tak TakeCell = True"
| "aw_tak (TakeSwap w) = True"
| "aw_tak _ = False"

definition aw_crit :: "'w aw_pc \<Rightarrow> bool" where
  "aw_crit p \<longleftrightarrow> aw_reg p \<or> aw_tak p"

fun aw_pc_ok :: "'w atomic_waker \<Rightarrow> 'w aw_pc \<Rightarrow> bool" where
  "aw_pc_ok a (RegStore w) \<longleftrightarrow> aw_state a = 1 \<or> aw_state a = 3"
| "aw_pc_ok a RegRelease \<longleftrightarrow> (aw_state a = 1 \<or> aw_state a = 3) \<and> aw_cell a \<noteq> None"
| "aw_pc_ok a RegTake \<longleftrightarrow> aw_state a = 3 \<and> aw_cell a \<noteq> None"
| "aw_pc_ok a (RegSwap w) \<longleftrightarrow> aw_state a = 3 \<and> aw_cell a = None"
| "aw_pc_ok a TakeCell \<longleftrightarrow> aw_state a = 2"
| "aw_pc_ok a (TakeSwap w) \<longleftrightarrow> aw_state a = 2 \<and> aw_cell a = None"
| "aw_pc_ok a AwFault \<longleftrightarrow> False"
| "aw_pc_ok a _ \<longleftrightarrow> True"

definition aw_ok :: "'w atomic_waker \<Rightarrow> (nat \<Rightarrow> 'w aw_pc) \<Rightarrow> bool" where
  "aw_ok a pc \<longleftrightarrow>
     aw_state a \<in> {0, 1, 2, 3}
   \<and> (\<forall>t. aw_pc_ok a (pc t))
   \<and> (\<forall>t u. aw_crit (pc t) \<longrightarrow> aw_crit (pc u) \<longrightarrow> t = u)
   \<and> (aw_state a \<noteq> 0 \<longrightarrow> (\<exists>t. aw_crit (pc t)))"

lemma aw_word_facts [simp]:
  "(1::usize) OR 2 = 3" "(2::usize) OR 2 = 2" "(3::usize) OR 2 = 3"
  by simp_all

text \<open>One step of thread \<open>p\<close>, seen by itself and by another thread at \<open>q\<close>.\<close>

lemma aw_step_self:
  assumes "aw_pc_ok a p" "aw_state a \<in> {0, 1, 2, 3}" "aw_step ww a p = (a', p', ws)"
  shows "aw_pc_ok a' p'" "aw_state a' \<in> {0, 1, 2, 3}"
  using assms by (cases p; auto simp: aw_states split: if_splits option.splits)+

lemma aw_step_other:
  assumes "aw_pc_ok a p" "aw_pc_ok a q" "\<not> (aw_crit p \<and> aw_crit q)"
    and "aw_step ww a p = (a', p', ws)"
  shows "aw_pc_ok a' q" "\<not> (aw_crit p' \<and> aw_crit q)"
  using assms
  by (cases p; cases q; auto simp: aw_states aw_crit_def split: if_splits option.splits)+

lemma aw_step_busy:
  assumes "aw_pc_ok a p" "aw_step ww a p = (a', p', ws)" "aw_state a' \<noteq> 0" "\<not> aw_crit p'"
  shows "aw_state a \<noteq> 0 \<and> \<not> aw_crit p"
  using assms by (cases p; auto simp: aw_states aw_crit_def split: if_splits option.splits)

lemma aw_ok_step:
  assumes ok: "aw_ok a pc" and st: "aw_step ww a (pc t) = (a', p', ws)"
  shows "aw_ok a' (pc(t := p'))"
proof -
  have self: "aw_pc_ok a (pc t)" and sts: "aw_state a \<in> {0, 1, 2, 3}"
    using ok by (auto simp: aw_ok_def)
  have oth: "aw_pc_ok a' (pc u) \<and> \<not> (aw_crit p' \<and> aw_crit (pc u))" if "u \<noteq> t" for u
    using aw_step_other [OF self _ _ st, of "pc u"] ok that by (auto simp: aw_ok_def)
  have "\<exists>v. aw_crit ((pc(t := p')) v)" if nz: "aw_state a' \<noteq> 0"
  proof (cases "aw_crit p'")
    case True
    then show ?thesis by (metis fun_upd_same)
  next
    case False
    then have "aw_state a \<noteq> 0" "\<not> aw_crit (pc t)"
      using aw_step_busy [OF self st nz] by auto
    then show ?thesis using ok unfolding aw_ok_def by (metis fun_upd_other)
  qed
  then show ?thesis
    using oth aw_step_self [OF self sts st] ok unfolding aw_ok_def by (auto split: if_splits)
qed

lemma aw_ok_idle: "aw_ok a pc \<Longrightarrow> \<not> aw_crit (pc t) \<Longrightarrow> \<not> aw_crit p \<Longrightarrow> aw_pc_ok a p \<Longrightarrow> aw_ok a (pc(t := p))"
  unfolding aw_ok_def by (auto split: if_splits)

lemma aw_sys_step_ok:
  assumes "aw_sys_step ww s t" "aw_ok (sys_aw s) (sys_pc s)"
  shows "aw_ok (sys_aw t) (sys_pc t)"
  using assms
proof cases
  case (thread_step u a p ws)
  then show ?thesis using aw_ok_step [OF assms(2) thread_step(2)] by simp
qed (use assms in \<open>auto intro!: aw_ok_idle simp: aw_crit_def simp del: fun_upd_apply\<close>)

lemma aw_reachable_ok: "aw_reachable ww s \<Longrightarrow> aw_ok (sys_aw s) (sys_pc s)"
proof (induction rule: aw_reachable.induct)
  case aw_start
  show ?case by (simp add: aw_ok_def aw_sys_init_def aw_new_def WAITING_def aw_crit_def)
next
  case (aw_next s t)
  then show ?case by (auto intro: aw_sys_step_ok)
qed

section \<open>Uncontended calls\<close>

lemma aw_exec_done [simp]: "aw_exec ww n a AwDone = (a, AwDone, [])"
  by (induction n) auto

lemma aw_register_idle:
  assumes "aw_state a = WAITING"
  shows "aw_register ww w a = (a\<lparr>aw_cell := Some (case aw_cell a of
           Some old \<Rightarrow> if ww old w then old else w | None \<Rightarrow> w)\<rparr>, [])"
  using assms
  by (cases a) (auto simp: aw_register_def eval_nat_numeral aw_states split: option.splits)

lemma aw_wake_idle:
  assumes "aw_state a = WAITING"
  shows "aw_wake ww a = (a\<lparr>aw_cell := None\<rparr>, case aw_cell a of Some w \<Rightarrow> [w] | None \<Rightarrow> [])"
  using assms
  by (cases a) (auto simp: aw_wake_def eval_nat_numeral aw_states split: option.splits)

text \<open>
  What the channels rely on: a slot that holds at most one waker, where \<open>register\<close>
  leaves a waker of the caller's task and \<open>wake\<close> wakes and removes it.
\<close>

locale waker_slot =
  fixes idle :: "'s \<Rightarrow> bool"
    and slot :: "'s \<Rightarrow> 'w option"
    and register :: "'w \<Rightarrow> 's \<Rightarrow> 's \<times> 'w list"
    and wake :: "'s \<Rightarrow> 's \<times> 'w list"
    and same :: "'w \<Rightarrow> 'w \<Rightarrow> bool"
  assumes register_idle: "idle s \<Longrightarrow> idle (fst (register w s))"
    and register_silent: "idle s \<Longrightarrow> snd (register w s) = []"
    and register_slot: "idle s \<Longrightarrow>
          \<exists>w'. slot (fst (register w s)) = Some w' \<and> (w' = w \<or> same w' w)"
    and wake_idle: "idle s \<Longrightarrow> idle (fst (wake s))"
    and wake_slot: "idle s \<Longrightarrow> slot (fst (wake s)) = None"
    and wake_log: "idle s \<Longrightarrow> snd (wake s) = (case slot s of Some w \<Rightarrow> [w] | None \<Rightarrow> [])"
begin

lemma register_then_wake:
  "idle s \<Longrightarrow> \<exists>w'. snd (wake (fst (register w s))) = [w'] \<and> (w' = w \<or> same w' w)"
  using register_slot [of s w] register_idle [of s w] by (auto simp: wake_log)

lemma wake_is_one_shot: "idle s \<Longrightarrow> snd (wake (fst (wake s))) = []"
  by (simp add: wake_log wake_idle wake_slot)

lemma wake_log_eq_Nil: "idle s \<Longrightarrow> snd (wake s) = [] \<longleftrightarrow> slot s = None"
  by (simp add: wake_log split: option.splits)

end

interpretation aw: waker_slot "\<lambda>a. aw_state a = WAITING" aw_cell "aw_register ww" "aw_wake ww" ww
  for ww :: "'w \<Rightarrow> 'w \<Rightarrow> bool"
  by unfold_locales (auto simp: aw_register_idle aw_wake_idle split: option.splits)

text \<open>
  For the channels, which use a waker through these calls: whether the cell holds a waker of
  the task, and whether the task is among those that were woken.
\<close>

definition in_cell :: "('w \<Rightarrow> 'w \<Rightarrow> bool) \<Rightarrow> 'w \<Rightarrow> 'w atomic_waker \<Rightarrow> bool" where
  "in_cell ww cur a \<longleftrightarrow> (\<exists>w. aw_cell a = Some w \<and> wakes_task ww cur w)"

definition heard :: "('w \<Rightarrow> 'w \<Rightarrow> bool) \<Rightarrow> 'w \<Rightarrow> 'w list \<Rightarrow> bool" where
  "heard ww cur ws = list_ex (wakes_task ww cur) ws"

lemma in_cell_register:
  assumes "aw_state a = WAITING" and "aw_register ww w a = (a', ws)"
  shows "in_cell ww w a' \<and> aw_state a' = WAITING \<and> ws = []"
  using aw.register_slot [OF assms(1), of ww w] aw.register_idle [OF assms(1), of ww w]
    aw.register_silent [OF assms(1), of ww w] assms(2)
  by (auto simp: in_cell_def wakes_task_def)

lemma in_cell_wake:
  assumes "aw_state a = WAITING" and "aw_wake ww a = (a', ws)"
  shows "aw_state a' = WAITING \<and> (in_cell ww cur a \<longrightarrow> heard ww cur ws)"
  using aw.wake_idle [OF assms(1), of ww] aw.wake_log [OF assms(1), of ww] assms(2)
  by (auto simp: in_cell_def heard_def)

section \<open>A task that waits for a flag\<close>

text \<open>
  The protocol of the module documentation (the \<open>Flag\<close> of its example), which is also
  the one of the channels: the task (thread 0) polls by testing the flag, registering its
  waker and testing the flag again; every other thread signals by setting the flag and
  calling \<open>wake\<close>. All accesses interleave. \<open>fl_notified\<close> records whether a waker of
  the task's current registration has been woken since that poll began.
\<close>

datatype poll_phase = PollIdle | Polling | PollParked | PollReady

record 'w flag_sys =
  fl_aw :: "'w atomic_waker"
  fl_set :: bool
  fl_phase :: poll_phase
  fl_pc :: "nat \<Rightarrow> 'w aw_pc"
  fl_cur :: 'w
  fl_notified :: bool

definition flag_init :: "'w \<Rightarrow> 'w flag_sys" where
  "flag_init w = \<lparr>fl_aw = aw_new, fl_set = False, fl_phase = PollIdle,
     fl_pc = (\<lambda>_. AwDone), fl_cur = w, fl_notified = False\<rparr>"

inductive flag_step :: "('w \<Rightarrow> 'w \<Rightarrow> bool) \<Rightarrow> 'w flag_sys \<Rightarrow> 'w flag_sys \<Rightarrow> bool"
  for ww :: "'w \<Rightarrow> 'w \<Rightarrow> bool" where
  poll_quick: "fl_phase s \<in> {PollIdle, PollParked} \<Longrightarrow> fl_set s \<Longrightarrow>
     flag_step ww s (s\<lparr>fl_phase := PollReady\<rparr>)"
| poll_register: "fl_phase s \<in> {PollIdle, PollParked} \<Longrightarrow> \<not> fl_set s \<Longrightarrow>
     flag_step ww s (s\<lparr>fl_phase := Polling, fl_pc := (fl_pc s)(0 := RegCas w), fl_cur := w,
       fl_notified := False\<rparr>)"
| poll_check: "fl_phase s = Polling \<Longrightarrow> fl_pc s 0 = AwDone \<Longrightarrow>
     flag_step ww s (s\<lparr>fl_phase := (if fl_set s then PollReady else PollParked)\<rparr>)"
| signal_set: "t \<noteq> 0 \<Longrightarrow> fl_pc s t = AwDone \<Longrightarrow>
     flag_step ww s (s\<lparr>fl_set := True, fl_pc := (fl_pc s)(t := TakeFetchOr)\<rparr>)"
| flag_thread: "aw_step ww (fl_aw s) (fl_pc s t) = (a, p, ws) \<Longrightarrow>
     flag_step ww s (s\<lparr>fl_aw := a, fl_pc := (fl_pc s)(t := p),
       fl_notified := (fl_notified s \<or> (\<exists>w \<in> set ws. wakes_task ww (fl_cur s) w))\<rparr>)"

inductive flag_reachable :: "('w \<Rightarrow> 'w \<Rightarrow> bool) \<Rightarrow> 'w flag_sys \<Rightarrow> bool"
  for ww :: "'w \<Rightarrow> 'w \<Rightarrow> bool" where
  flag_start: "flag_reachable ww (flag_init w)"
| flag_next: "flag_reachable ww s \<Longrightarrow> flag_step ww s t \<Longrightarrow> flag_reachable ww t"

fun task_pc_ok :: "('w \<Rightarrow> bool) \<Rightarrow> 'w \<Rightarrow> 'w atomic_waker \<Rightarrow> 'w aw_pc \<Rightarrow> bool" where
  "task_pc_ok g cur a (RegCas w) \<longleftrightarrow> w = cur"
| "task_pc_ok g cur a (RegStore w) \<longleftrightarrow> w = cur"
| "task_pc_ok g cur a (RegWakeByRef w) \<longleftrightarrow> w = cur"
| "task_pc_ok g cur a (RegSwap w) \<longleftrightarrow> g w"
| "task_pc_ok g cur a (RegWake w) \<longleftrightarrow> g w"
| "task_pc_ok g cur a RegRelease \<longleftrightarrow> (\<exists>w. aw_cell a = Some w \<and> g w)"
| "task_pc_ok g cur a RegTake \<longleftrightarrow> (\<exists>w. aw_cell a = Some w \<and> g w)"
| "task_pc_ok g cur a AwDone \<longleftrightarrow> True"
| "task_pc_ok g cur a _ \<longleftrightarrow> False"

fun waker_pc :: "'w aw_pc \<Rightarrow> bool" where
  "waker_pc TakeFetchOr = True"
| "waker_pc TakeCell = True"
| "waker_pc (TakeSwap w) = True"
| "waker_pc (TakeWake w) = True"
| "waker_pc AwDone = True"
| "waker_pc _ = False"

fun pc_carries :: "('w \<Rightarrow> bool) \<Rightarrow> 'w aw_pc \<Rightarrow> bool" where
  "pc_carries g (TakeSwap (Some w)) = g w"
| "pc_carries g (TakeWake (Some w)) = g w"
| "pc_carries g _ = False"

definition flag_held :: "('w \<Rightarrow> bool) \<Rightarrow> 'w flag_sys \<Rightarrow> bool" where
  "flag_held g s \<longleftrightarrow> (\<exists>w. aw_cell (fl_aw s) = Some w \<and> g w)
     \<or> (\<exists>t. t \<noteq> 0 \<and> pc_carries g (fl_pc s t))"

definition pc_coming :: "('w \<Rightarrow> bool) \<Rightarrow> 'w aw_pc \<Rightarrow> bool" where
  "pc_coming g p \<longleftrightarrow> p = TakeFetchOr \<or> p = TakeCell \<or> pc_carries g p"

definition flag_ok :: "('w \<Rightarrow> 'w \<Rightarrow> bool) \<Rightarrow> 'w flag_sys \<Rightarrow> bool" where
  "flag_ok ww s \<longleftrightarrow>
     aw_ok (fl_aw s) (fl_pc s)
   \<and> task_pc_ok (wakes_task ww (fl_cur s)) (fl_cur s) (fl_aw s) (fl_pc s 0)
   \<and> (\<forall>t. t \<noteq> 0 \<longrightarrow> waker_pc (fl_pc s t))
   \<and> (fl_phase s \<noteq> Polling \<longrightarrow> fl_pc s 0 = AwDone)
   \<and> (fl_phase s \<in> {Polling, PollParked} \<longrightarrow> fl_pc s 0 = AwDone \<longrightarrow> \<not> fl_notified s \<longrightarrow>
        flag_held (wakes_task ww (fl_cur s)) s)
   \<and> (fl_phase s = PollParked \<longrightarrow> fl_set s \<longrightarrow> \<not> fl_notified s \<longrightarrow>
        (\<exists>t. t \<noteq> 0 \<and> pc_coming (wakes_task ww (fl_cur s)) (fl_pc s t)))"

text \<open>
  A busy state is busy because of the task when a registration is in progress, and
  because of a signalling thread otherwise.
\<close>

lemma aw_reg_state: "aw_pc_ok a p \<Longrightarrow> aw_crit p \<Longrightarrow> aw_state a = 1 \<or> aw_state a = 3 \<Longrightarrow> aw_reg p"
  by (cases p) (auto simp: aw_crit_def)

lemma waker_pc_not_reg: "waker_pc p \<Longrightarrow> \<not> aw_reg p"
  by (cases p) auto

lemma task_pc_not_tak: "task_pc_ok g cur a p \<Longrightarrow> \<not> aw_tak p"
  by (cases p) auto

lemma flag_busy_owner:
  assumes "aw_ok (fl_aw s) (fl_pc s)" "\<forall>t. t \<noteq> 0 \<longrightarrow> waker_pc (fl_pc s t)"
    and "task_pc_ok g cur (fl_aw s) (fl_pc s 0)" "aw_state (fl_aw s) \<noteq> 0"
  shows "if aw_state (fl_aw s) = 2 then \<exists>t. t \<noteq> 0 \<and> aw_tak (fl_pc s t) else aw_reg (fl_pc s 0)"
proof -
  obtain t where t: "aw_crit (fl_pc s t)" "aw_pc_ok (fl_aw s) (fl_pc s t)"
    using assms(1,4) by (auto simp: aw_ok_def)
  show ?thesis
  proof (cases "aw_state (fl_aw s) = 2")
    case True
    then have "aw_tak (fl_pc s t)" using t by (cases "fl_pc s t") (auto simp: aw_crit_def)
    with True assms(3) show ?thesis by (metis task_pc_not_tak)
  next
    case False
    then have "aw_reg (fl_pc s t)" using t assms(1,4) aw_reg_state by (auto simp: aw_ok_def)
    with False assms(2) show ?thesis by (metis waker_pc_not_reg)
  qed
qed

lemma task_pc_step:
  assumes "task_pc_ok (wakes_task ww cur) cur a p" "aw_pc_ok a p" "aw_state a \<in> {0, 1, 2, 3}"
    and "aw_step ww a p = (a', p', ws)"
  shows "task_pc_ok (wakes_task ww cur) cur a' p'"
  using assms by (cases p; auto simp: aw_states wakes_task_def split: if_splits option.splits)

lemma task_pc_finish:
  assumes "task_pc_ok (wakes_task ww cur) cur a p" "p \<noteq> AwDone"
    and "aw_state a = 0 \<or> aw_state a = 2 \<or> aw_reg p"
    and "aw_step ww a p = (a', AwDone, ws)"
  shows "(\<exists>w \<in> set ws. wakes_task ww cur w) \<or> (\<exists>w. aw_cell a' = Some w \<and> wakes_task ww cur w)"
  using assms by (cases p; auto simp: aw_states wakes_task_def split: if_splits option.splits)

lemma waker_pc_step:
  assumes "waker_pc p" "aw_pc_ok a p" "aw_state a \<in> {0, 1, 2, 3}" "aw_step ww a p = (a', p', ws)"
  shows "waker_pc p'"
  using assms by (cases p; auto simp: aw_states split: if_splits option.splits)

lemma task_pc_frame:
  assumes "task_pc_ok g cur a q" "waker_pc p" "\<not> (aw_crit p \<and> aw_crit q)"
    and "aw_step ww a p = (a', p', ws)"
  shows "task_pc_ok g cur a' q"
  using assms by (cases p; cases q; auto simp: aw_crit_def split: if_splits)

lemma waker_cell_step:
  assumes "waker_pc p" "aw_step ww a p = (a', p', ws)" "aw_cell a = Some w" "g w"
  shows "aw_cell a' = Some w \<or> pc_carries g p'"
  using assms by (cases p; auto split: if_splits option.splits)

lemma waker_carries_step:
  assumes "aw_pc_ok a p" "pc_carries g p" "aw_step ww a p = (a', p', ws)"
  shows "pc_carries g p' \<or> (\<exists>w \<in> set ws. g w)"
proof (cases p)
  case (TakeSwap x)
  then show ?thesis using assms by (cases x) (auto simp: aw_states)
next
  case (TakeWake x)
  then show ?thesis using assms by (cases x) auto
qed (use assms in auto)

lemma flag_thread_task:
  assumes ok: "flag_ok ww s" and st: "aw_step ww (fl_aw s) (fl_pc s 0) = (a, p, ws)"
    and nd: "fl_pc s 0 \<noteq> AwDone"
  shows "flag_ok ww (s\<lparr>fl_aw := a, fl_pc := (fl_pc s)(0 := p),
    fl_notified := (fl_notified s \<or> (\<exists>w \<in> set ws. wakes_task ww (fl_cur s) w))\<rparr>)"
proof -
  have ph: "fl_phase s = Polling" using ok nd by (auto simp: flag_ok_def)
  have pc: "aw_pc_ok (fl_aw s) (fl_pc s 0)" "aw_state (fl_aw s) \<in> {0, 1, 2, 3}"
    and tp: "task_pc_ok (wakes_task ww (fl_cur s)) (fl_cur s) (fl_aw s) (fl_pc s 0)"
    and ao: "aw_ok (fl_aw s) (fl_pc s)" and wp: "\<forall>t. t \<noteq> 0 \<longrightarrow> waker_pc (fl_pc s t)"
    using ok by (auto simp: flag_ok_def aw_ok_def)
  have own: "aw_state (fl_aw s) = 0 \<or> aw_state (fl_aw s) = 2 \<or> aw_reg (fl_pc s 0)"
    using flag_busy_owner [OF ao wp tp] by (auto split: if_splits)
  have fin: "(\<exists>w \<in> set ws. wakes_task ww (fl_cur s) w)
      \<or> (\<exists>w. aw_cell a = Some w \<and> wakes_task ww (fl_cur s) w)" if "p = AwDone"
    using task_pc_finish [OF tp nd own] st that by blast
  show ?thesis
    using aw_ok_step [OF ao st] task_pc_step [OF tp pc st] fin wp ph
    by (auto simp: flag_ok_def flag_held_def)
qed

lemma flag_thread_waker:
  assumes ok: "flag_ok ww s" and st: "aw_step ww (fl_aw s) (fl_pc s t) = (a, p, ws)"
    and t0: "t \<noteq> 0"
  shows "flag_ok ww (s\<lparr>fl_aw := a, fl_pc := (fl_pc s)(t := p),
    fl_notified := (fl_notified s \<or> (\<exists>w \<in> set ws. wakes_task ww (fl_cur s) w))\<rparr>)"
    (is "flag_ok ww ?s")
proof -
  let ?g = "wakes_task ww (fl_cur s)"
  have pc: "aw_pc_ok (fl_aw s) (fl_pc s t)" "aw_state (fl_aw s) \<in> {0, 1, 2, 3}"
    and tp: "task_pc_ok ?g (fl_cur s) (fl_aw s) (fl_pc s 0)"
    and ao: "aw_ok (fl_aw s) (fl_pc s)" and wp: "\<forall>t. t \<noteq> 0 \<longrightarrow> waker_pc (fl_pc s t)"
    and ex: "\<not> (aw_crit (fl_pc s t) \<and> aw_crit (fl_pc s 0))"
    using ok t0 by (auto simp: flag_ok_def aw_ok_def)
  have held: "flag_held ?g ?s \<or> fl_notified ?s" if h: "flag_held ?g s"
  proof -
    from h consider w where "aw_cell (fl_aw s) = Some w" "?g w"
      | u where "u \<noteq> 0" "pc_carries ?g (fl_pc s u)"
      by (auto simp: flag_held_def)
    then show ?thesis
    proof cases
      case 1
      have "aw_cell a = Some w \<or> pc_carries ?g p"
        using waker_cell_step [where g = "?g", OF _ st 1] wp t0 by blast
      then show ?thesis using 1 t0 by (auto simp: flag_held_def)
    next
      case 2
      then show ?thesis
        using waker_carries_step [OF pc(1) _ st, of ?g] t0
        by (cases "u = t") (auto simp: flag_held_def)
    qed
  qed
  have coming: "(\<exists>u. u \<noteq> 0 \<and> pc_coming ?g (fl_pc ?s u)) \<or> fl_notified ?s"
    if pk: "fl_phase s = PollParked" and nn: "\<not> fl_notified s"
      and c: "u \<noteq> 0" "pc_coming ?g (fl_pc s u)" for u
  proof (cases "u = t")
    case False
    then show ?thesis using c by auto
  next
    case ut: True
    have d0: "fl_pc s 0 = AwDone" and hs: "flag_held ?g s" using ok pk nn by (auto simp: flag_ok_def)
    have own: "aw_state (fl_aw s) = 0 \<or> (aw_state (fl_aw s) = 2 \<and> (\<exists>v. v \<noteq> 0 \<and> aw_tak (fl_pc s v)))"
      using flag_busy_owner [OF ao wp tp] d0 by (auto split: if_splits)
    from c ut consider "pc_carries ?g (fl_pc s t)" | "fl_pc s t = TakeCell" | "fl_pc s t = TakeFetchOr"
      by (auto simp: pc_coming_def)
    then show ?thesis
    proof cases
      case 1
      then show ?thesis using waker_carries_step [OF pc(1) 1 st] t0 by (auto simp: pc_coming_def)
    next
      case 2
      with held [OF hs] st nn show ?thesis
        by (auto simp: flag_held_def pc_coming_def split: if_splits)
    next
      case 3
      show ?thesis
      proof (cases "aw_state (fl_aw s) = 0")
        case True
        with 3 st t0 have "p = TakeCell" by (auto simp: aw_states)
        with t0 show ?thesis by (auto simp: pc_coming_def)
      next
        case False
        with own obtain v where v: "v \<noteq> 0" "aw_tak (fl_pc s v)" by auto
        with 3 have vt: "v \<noteq> t" by auto
        have pv: "aw_pc_ok (fl_aw s) (fl_pc s v)" using ao by (auto simp: aw_ok_def)
        show ?thesis
        proof (cases "fl_pc s v = TakeCell")
          case True
          then show ?thesis using v vt by (auto simp: pc_coming_def)
        next
          case False
          with v pv have "aw_cell (fl_aw s) = None" by (cases "fl_pc s v") auto
          with hs obtain x where x: "x \<noteq> 0" "pc_carries ?g (fl_pc s x)" by (auto simp: flag_held_def)
          with 3 have "x \<noteq> t" by auto
          with x show ?thesis by (auto simp: pc_coming_def)
        qed
      qed
    qed
  qed
  have 1: "aw_ok (fl_aw ?s) (fl_pc ?s)" using aw_ok_step [OF ao st] by simp
  have 2: "task_pc_ok ?g (fl_cur ?s) (fl_aw ?s) (fl_pc ?s 0)"
    using task_pc_frame [OF tp _ ex st] wp t0 by simp
  have 3: "\<forall>u. u \<noteq> 0 \<longrightarrow> waker_pc (fl_pc ?s u)"
    using waker_pc_step [OF _ pc st] wp t0 by simp
  have 4: "fl_phase s = PollParked \<Longrightarrow> fl_set s \<Longrightarrow> \<not> fl_notified ?s \<Longrightarrow>
      \<exists>u. u \<noteq> 0 \<and> pc_coming ?g (fl_pc ?s u)"
    using coming ok by (auto simp: flag_ok_def simp del: fun_upd_apply)
  have 5: "fl_phase s \<in> {Polling, PollParked} \<Longrightarrow> fl_pc s 0 = AwDone \<Longrightarrow> \<not> fl_notified ?s \<Longrightarrow>
      flag_held ?g ?s"
    using held ok by (auto simp: flag_ok_def simp del: fun_upd_apply)
  show ?thesis
    using 1 2 3 4 5 ok t0 by (auto simp: flag_ok_def)
qed

lemma flag_step_ok:
  assumes "flag_step ww s t" "flag_ok ww s"
  shows "flag_ok ww t"
  using assms(1)
proof cases
  case (flag_thread u a p ws)
  show ?thesis
  proof (cases "u = 0")
    case True
    show ?thesis
    proof (cases "fl_pc s 0 = AwDone")
      case True
      with flag_thread \<open>u = 0\<close> have "t = s" by (cases s) auto
      with assms(2) show ?thesis by simp
    next
      case False
      with flag_thread \<open>u = 0\<close> show ?thesis using flag_thread_task [OF assms(2)] by simp
    qed
  next
    case False
    with flag_thread show ?thesis using flag_thread_waker [OF assms(2)] by simp
  qed
next
  case (poll_register w)
  then have "aw_ok (fl_aw s) ((fl_pc s)(0 := RegCas w))"
    using assms(2) by (intro aw_ok_idle) (auto simp: flag_ok_def aw_crit_def)
  then show ?thesis using assms(2) poll_register by (auto simp: flag_ok_def)
next
  case (signal_set u)
  then have ok: "aw_ok (fl_aw s) ((fl_pc s)(u := TakeFetchOr))"
    using assms(2) by (intro aw_ok_idle) (auto simp: flag_ok_def aw_crit_def)
  have held: "flag_held g t" if "flag_held g s" for g
  proof -
    from that consider w where "aw_cell (fl_aw s) = Some w" "g w"
      | v where "v \<noteq> 0" "v \<noteq> u" "pc_carries g (fl_pc s v)"
      using signal_set by (auto simp: flag_held_def) (metis pc_carries.simps(14))
    then show ?thesis using signal_set(1) by cases (auto simp: flag_held_def)
  qed
  have "pc_coming g (fl_pc t u)" for g using signal_set(1) by (simp add: pc_coming_def)
  then show ?thesis
    using assms(2) signal_set(1,2) ok held unfolding flag_ok_def
    by (simp, blast)
qed (use assms(2) in \<open>auto simp: flag_ok_def flag_held_def\<close>)

lemma flag_reachable_ok: "flag_reachable ww s \<Longrightarrow> flag_ok ww s"
proof (induction rule: flag_reachable.induct)
  case (flag_start w)
  show ?case
    by (simp add: flag_ok_def flag_init_def aw_ok_def aw_new_def WAITING_def aw_crit_def)
next
  case (flag_next s t)
  then show ?case by (auto intro: flag_step_ok)
qed

section \<open>Schedules\<close>

text \<open>Executable schedules, to reach concrete states of the two systems.\<close>

datatype 'w aw_cmd = DoRegister nat 'w | DoWake nat | DoStep nat

fun aw_do :: "('w \<Rightarrow> 'w \<Rightarrow> bool) \<Rightarrow> 'w aw_cmd \<Rightarrow> 'w aw_sys \<Rightarrow> 'w aw_sys" where
  "aw_do ww (DoRegister t w) s =
     (if sys_pc s t = AwDone then s\<lparr>sys_pc := (sys_pc s)(t := RegCas w)\<rparr> else s)"
| "aw_do ww (DoWake t) s =
     (if sys_pc s t = AwDone then s\<lparr>sys_pc := (sys_pc s)(t := TakeFetchOr)\<rparr> else s)"
| "aw_do ww (DoStep t) s =
     (case aw_step ww (sys_aw s) (sys_pc s t) of (a, p, ws) \<Rightarrow>
       s\<lparr>sys_aw := a, sys_pc := (sys_pc s)(t := p), sys_log := ws @ sys_log s\<rparr>)"

lemma aw_do_reachable: "aw_reachable ww s \<Longrightarrow> aw_reachable ww (aw_do ww c s)"
  by (cases c) (auto intro: aw_next aw_sys_step.intros simp del: fun_upd_apply split: prod.splits)

lemma aw_sched_reachable: "aw_reachable ww s \<Longrightarrow> aw_reachable ww (fold (aw_do ww) cs s)"
  by (induction cs arbitrary: s) (auto intro: aw_do_reachable)

datatype 'w flag_cmd = DoPoll 'w | DoCheck | DoSignal nat | DoThread nat

fun flag_do :: "('w \<Rightarrow> 'w \<Rightarrow> bool) \<Rightarrow> 'w flag_cmd \<Rightarrow> 'w flag_sys \<Rightarrow> 'w flag_sys" where
  "flag_do ww (DoPoll w) s =
     (if fl_phase s \<in> {PollIdle, PollParked}
      then if fl_set s then s\<lparr>fl_phase := PollReady\<rparr>
        else s\<lparr>fl_phase := Polling, fl_pc := (fl_pc s)(0 := RegCas w), fl_cur := w,
               fl_notified := False\<rparr>
      else s)"
| "flag_do ww DoCheck s =
     (if fl_phase s = Polling \<and> fl_pc s 0 = AwDone
      then s\<lparr>fl_phase := (if fl_set s then PollReady else PollParked)\<rparr> else s)"
| "flag_do ww (DoSignal t) s =
     (if t \<noteq> 0 \<and> fl_pc s t = AwDone
      then s\<lparr>fl_set := True, fl_pc := (fl_pc s)(t := TakeFetchOr)\<rparr> else s)"
| "flag_do ww (DoThread t) s =
     (case aw_step ww (fl_aw s) (fl_pc s t) of (a, p, ws) \<Rightarrow>
       s\<lparr>fl_aw := a, fl_pc := (fl_pc s)(t := p),
         fl_notified := (fl_notified s \<or> (\<exists>w \<in> set ws. wakes_task ww (fl_cur s) w))\<rparr>)"

lemma flag_do_step: "flag_do ww c s = s \<or> flag_step ww s (flag_do ww c s)"
proof (cases c)
  case (DoThread t)
  obtain a p ws where "aw_step ww (fl_aw s) (fl_pc s t) = (a, p, ws)"
    by (cases "aw_step ww (fl_aw s) (fl_pc s t)") auto
  then show ?thesis using flag_thread [of ww s t a p ws] DoThread by simp
next
  case DoCheck
  then show ?thesis using poll_check [of s ww] by (simp split: if_splits)
qed (auto intro: flag_step.intros simp del: fun_upd_apply)

lemma flag_sched_reachable: "flag_reachable ww s \<Longrightarrow> flag_reachable ww (fold (flag_do ww) cs s)"
proof (induction cs arbitrary: s)
  case (Cons c cs)
  have "flag_reachable ww (flag_do ww c s)"
    using flag_do_step [of ww c s] Cons.prems by (auto intro: flag_next)
  then show ?case using Cons.IH by simp
qed simp

section \<open>Properties\<close>

text \<open>
  No lost wake-up: when the task's poll returned Pending and the flag is set, then as
  soon as no call of \<open>wake\<close> is in progress the task has been woken since that poll
  began. Any number of threads signal, and every atomic access interleaves.
\<close>

theorem aw_no_lost_wakeup:
  assumes "flag_reachable ww s" and "fl_phase s = PollParked" and "fl_set s"
    and "\<forall>t. fl_pc s t = AwDone"
  shows "fl_notified s"
  using flag_reachable_ok [OF assms(1)] assms(2-)
  by (auto simp: flag_ok_def pc_coming_def)

text \<open>The waker is taken between registration and test, by a thread that signals late.\<close>

theorem aw_no_lost_wakeup_witness:
  "let s = fold (flag_do (=))
     [DoPoll 7, DoThread 0, DoThread 0, DoThread 0, DoCheck, DoSignal 1, DoThread 1,
      DoSignal 2, DoThread 2, DoThread 2, DoThread 1, DoThread 1, DoThread 1]
     (flag_init (7::nat))
   in fl_phase s = PollParked \<and> fl_set s \<and> (\<forall>t. fl_pc s t = AwDone) \<and> fl_notified s"
proof -
  define s where "s = fold (flag_do (=))
     [DoPoll 7, DoThread 0, DoThread 0, DoThread 0, DoCheck, DoSignal 1, DoThread 1,
      DoSignal 2, DoThread 2, DoThread 2, DoThread 1, DoThread 1, DoThread 1]
     (flag_init (7::nat))"
  have r: "flag_reachable (=) s"
    unfolding s_def by (rule flag_sched_reachable [OF flag_start])
  have h: "fl_phase s = PollParked" "fl_set s" "\<forall>t. fl_pc s t = AwDone"
    by (simp_all add: s_def flag_init_def aw_new_def aw_states)
  show ?thesis unfolding Let_def s_def [symmetric] using h aw_no_lost_wakeup [OF r h] by simp
qed

text \<open>
  The two lock bits protect the cell: in every reachable state of any number of
  threads that register and wake, no \<open>debug_assert\<close> and no \<open>unwrap\<close> of the source has
  failed, at most one thread is in a section that accesses the cell, and when no thread is
  in one the lock is free.
\<close>

theorem aw_cell_exclusive:
  assumes "aw_reachable ww s"
  shows "sys_pc s t \<noteq> AwFault
    \<and> (aw_crit (sys_pc s t) \<and> aw_crit (sys_pc s u) \<longrightarrow> t = u)
    \<and> ((\<forall>v. \<not> aw_crit (sys_pc s v)) \<longrightarrow> aw_state (sys_aw s) = WAITING)"
proof -
  have ok: "aw_ok (sys_aw s) (sys_pc s)" using assms by (rule aw_reachable_ok)
  then have "aw_pc_ok (sys_aw s) (sys_pc s t)" by (simp add: aw_ok_def)
  then have "sys_pc s t \<noteq> AwFault" by (cases "sys_pc s t") auto
  then show ?thesis using ok by (auto simp: aw_ok_def WAITING_def)
qed

text \<open>A \<open>wake\<close> that arrives during a registration: the registering thread keeps the lock.\<close>

theorem aw_cell_exclusive_witness:
  "let s = fold (aw_do (=))
     [DoRegister 1 5, DoStep 1, DoWake 2, DoStep 2] (aw_sys_init :: nat aw_sys)
   in aw_crit (sys_pc s 1) \<and> sys_pc s 2 \<noteq> AwFault \<and> aw_state (sys_aw s) = 3"
proof -
  define s where "s = fold (aw_do (=))
     [DoRegister 1 5, DoStep 1, DoWake 2, DoStep 2] (aw_sys_init :: nat aw_sys)"
  have r: "aw_reachable (=) s"
    unfolding s_def by (rule aw_sched_reachable [OF aw_start])
  have "aw_crit (sys_pc s 1)" "aw_state (sys_aw s) = 3"
    by (simp_all add: s_def aw_sys_init_def aw_new_def aw_states aw_crit_def)
  then show ?thesis
    unfolding Let_def s_def [symmetric] using aw_cell_exclusive [OF r, of 2] by simp
qed

end
