(* ===== verification/WakerPanic.thy ===== *)
theory WakerPanic
  imports AtomicWaker
begin

text \<open>
  \<open>register\<close> of \<open>src/atomic_waker/mod.rs\<close> clones the waker it is given while it holds the cell. The
  clone is code of the waker, which may panic: the call unwinds between its two accesses to
  \<open>state\<close> and releases nothing. These are the threads of \<open>AtomicWaker\<close> with that step.
\<close>

section \<open>The step that panics\<close>

text \<open>A waker of the same task in the cell is kept, and then nothing is cloned.\<close>

definition aw_clones :: "('w \<Rightarrow> 'w \<Rightarrow> bool) \<Rightarrow> 'w atomic_waker \<Rightarrow> 'w aw_pc \<Rightarrow> bool" where
  "aw_clones ww a p = (case p of
     RegStore w \<Rightarrow> (case aw_cell a of Some old \<Rightarrow> \<not> ww old w | None \<Rightarrow> True) | _ \<Rightarrow> False)"

definition aw_unwind_step :: "('w \<Rightarrow> 'w \<Rightarrow> bool) \<Rightarrow> bool \<Rightarrow> 'w atomic_waker \<Rightarrow> 'w aw_pc
    \<Rightarrow> 'w atomic_waker \<times> 'w aw_pc \<times> 'w list" where
  "aw_unwind_step ww panics a p = (if panics \<and> aw_clones ww a p then (a, AwDone, []) else aw_step ww a p)"

text \<open>\<open>ap_stuck\<close> records that a clone has panicked, \<open>ap_log\<close> the wakers woken, the latest first.\<close>

record 'w panic_sys =
  ap_aw :: "'w atomic_waker"
  ap_pc :: "nat \<Rightarrow> 'w aw_pc"
  ap_log :: "'w list"
  ap_stuck :: bool

definition ap_init :: "'w panic_sys" where
  "ap_init = \<lparr>ap_aw = aw_new, ap_pc = (\<lambda>_. AwDone), ap_log = [], ap_stuck = False\<rparr>"

datatype 'w ap_cmd = ApRegister nat 'w | ApWake nat | ApStep nat bool

fun ap_do :: "('w \<Rightarrow> 'w \<Rightarrow> bool) \<Rightarrow> 'w ap_cmd \<Rightarrow> 'w panic_sys \<Rightarrow> 'w panic_sys" where
  "ap_do ww (ApRegister t w) s =
     (case ap_pc s t of AwDone \<Rightarrow> s\<lparr>ap_pc := (ap_pc s)(t := RegCas w)\<rparr> | _ \<Rightarrow> s)"
| "ap_do ww (ApWake t) s =
     (case ap_pc s t of AwDone \<Rightarrow> s\<lparr>ap_pc := (ap_pc s)(t := TakeFetchOr)\<rparr> | _ \<Rightarrow> s)"
| "ap_do ww (ApStep t panics) s =
     (case aw_unwind_step ww panics (ap_aw s) (ap_pc s t) of (a, p, ws) \<Rightarrow>
       s\<lparr>ap_aw := a, ap_pc := (ap_pc s)(t := p), ap_log := ws @ ap_log s,
         ap_stuck := (ap_stuck s \<or> panics \<and> aw_clones ww (ap_aw s) (ap_pc s t))\<rparr>)"

section \<open>The invariant\<close>

text \<open>
  Until a clone panics, that of the waker. Then the state has \<open>REGISTERING\<close> for ever and nobody is
  in the cell.
\<close>

definition ap_wedged :: "'w panic_sys \<Rightarrow> bool" where
  "ap_wedged s \<longleftrightarrow> (aw_state (ap_aw s) = 1 \<or> aw_state (ap_aw s) = 3)
     \<and> (\<forall>t. ap_pc s t \<noteq> AwFault \<and> \<not> aw_crit (ap_pc s t))"

definition ap_ok :: "'w panic_sys \<Rightarrow> bool" where
  "ap_ok s \<longleftrightarrow> (if ap_stuck s then ap_wedged s else aw_ok (ap_aw s) (ap_pc s))"

lemma wedged_step:
  assumes "ap_wedged s"
  shows "ap_wedged (ap_do ww c s)" "aw_cell (ap_aw (ap_do ww c s)) = aw_cell (ap_aw s)"
proof -
  have "ap_wedged (ap_do ww c s) \<and> aw_cell (ap_aw (ap_do ww c s)) = aw_cell (ap_aw s)"
  proof (cases c)
    case (ApStep t panics)
    have p: "ap_pc s t \<noteq> AwFault" "\<not> aw_crit (ap_pc s t)"
      and st: "aw_state (ap_aw s) = 1 \<or> aw_state (ap_aw s) = 3"
      using assms by (auto simp: ap_wedged_def)
    then have nc: "\<not> aw_clones ww (ap_aw s) (ap_pc s t)"
      by (auto simp: aw_clones_def aw_crit_def split: aw_pc.splits)
    obtain a q ws where step: "aw_step ww (ap_aw s) (ap_pc s t) = (a, q, ws)"
      by (cases "aw_step ww (ap_aw s) (ap_pc s t)")
    have "(aw_state a = 1 \<or> aw_state a = 3) \<and> aw_cell a = aw_cell (ap_aw s) \<and> q \<noteq> AwFault \<and> \<not> aw_crit q"
      using p st step by (cases "ap_pc s t") (auto simp: aw_states aw_crit_def)
    then show ?thesis using assms ApStep step nc by (simp add: aw_unwind_step_def ap_wedged_def)
  qed (use assms in \<open>auto simp: ap_wedged_def aw_crit_def split: aw_pc.splits\<close>)
  then show "ap_wedged (ap_do ww c s)" "aw_cell (ap_aw (ap_do ww c s)) = aw_cell (ap_aw s)" by auto
qed

lemma clone_panics_wedged:
  assumes ok: "aw_ok (ap_aw s) (ap_pc s)" and cl: "aw_clones ww (ap_aw s) (ap_pc s t)"
  shows "ap_wedged (s\<lparr>ap_pc := (ap_pc s)(t := AwDone), ap_stuck := True\<rparr>)"
proof -
  obtain w where p: "ap_pc s t = RegStore w" using cl by (auto simp: aw_clones_def split: aw_pc.splits)
  have pok: "aw_pc_ok (ap_aw s) (ap_pc s u)" for u using ok by (simp add: aw_ok_def)
  have "\<not> aw_crit (ap_pc s u)" if "u \<noteq> t" for u
    using ok p that by (auto simp: aw_ok_def aw_crit_def)
  moreover have "ap_pc s u \<noteq> AwFault" for u using pok [of u] by auto
  ultimately show ?thesis using pok [of t] p by (auto simp: ap_wedged_def aw_crit_def)
qed

lemma ap_do_ok: "ap_ok s \<Longrightarrow> ap_ok (ap_do ww c s)"
proof -
  assume ok: "ap_ok s"
  show ?thesis
  proof (cases "ap_stuck s")
    case True
    then have "ap_stuck (ap_do ww c s)" by (cases c) (auto split: aw_pc.splits prod.splits)
    then show ?thesis using wedged_step(1) [of s ww c] ok True by (simp add: ap_ok_def del: ap_do.simps)
  next
    case False
    then have aok: "aw_ok (ap_aw s) (ap_pc s)" using ok by (simp add: ap_ok_def)
    have call: "aw_ok (ap_aw s) ((ap_pc s)(t := p))" if "ap_pc s t = AwDone" "\<not> aw_crit p" "aw_pc_ok (ap_aw s) p" for t p
      using that by (intro aw_ok_idle [OF aok]) (auto simp: aw_crit_def)
    show ?thesis
    proof (cases c)
      case (ApStep t panics)
      show ?thesis
      proof (cases "panics \<and> aw_clones ww (ap_aw s) (ap_pc s t)")
        case True
        then show ?thesis using clone_panics_wedged [OF aok, of ww t] ApStep
          by (simp add: ap_ok_def aw_unwind_step_def ap_wedged_def)
      next
        case nc: False
        obtain a q ws where step: "aw_step ww (ap_aw s) (ap_pc s t) = (a, q, ws)"
          by (cases "aw_step ww (ap_aw s) (ap_pc s t)")
        then show ?thesis using aw_ok_step [OF aok step] False nc ApStep
          by (auto simp: ap_ok_def aw_unwind_step_def)
      qed
    qed (use False call aok in \<open>auto simp: ap_ok_def aw_crit_def simp del: fun_upd_apply split: aw_pc.splits\<close>)
  qed
qed

lemma ap_run_ok: "ap_ok (fold (ap_do ww) cs ap_init)"
proof (induction cs rule: rev_induct)
  case Nil
  show ?case by (simp add: ap_ok_def ap_init_def aw_ok_def aw_new_def WAITING_def aw_crit_def)
next
  case (snoc c cs)
  then show ?case by (simp add: ap_do_ok del: ap_do.simps)
qed

text \<open>A wedged waker whose calls have all returned wakes nobody any more.\<close>

fun ap_quiet_pc :: "'w aw_pc \<Rightarrow> bool" where
  "ap_quiet_pc (RegWake w) \<longleftrightarrow> False"
| "ap_quiet_pc (RegWakeByRef w) \<longleftrightarrow> False"
| "ap_quiet_pc (TakeWake (Some w)) \<longleftrightarrow> False"
| "ap_quiet_pc p \<longleftrightarrow> True"

lemma wedged_silent:
  assumes "ap_wedged s" "\<And>t. ap_quiet_pc (ap_pc s t)"
  shows "ap_log (ap_do ww c s) = ap_log s \<and> (\<forall>t. ap_quiet_pc (ap_pc (ap_do ww c s) t))"
proof (cases c)
  case (ApStep t panics)
  have p: "ap_pc s t \<noteq> AwFault" "\<not> aw_crit (ap_pc s t)" "ap_quiet_pc (ap_pc s t)"
    and st: "aw_state (ap_aw s) = 1 \<or> aw_state (ap_aw s) = 3"
    using assms by (auto simp: ap_wedged_def)
  then have nc: "\<not> aw_clones ww (ap_aw s) (ap_pc s t)"
    by (auto simp: aw_clones_def aw_crit_def split: aw_pc.splits)
  obtain a q ws where step: "aw_step ww (ap_aw s) (ap_pc s t) = (a, q, ws)"
    by (cases "aw_step ww (ap_aw s) (ap_pc s t)")
  have q: "ws = [] \<and> ap_quiet_pc q"
    using p st step by (cases "ap_pc s t" rule: ap_quiet_pc.cases) (auto simp: aw_states aw_crit_def)
  show ?thesis using ApStep step nc q assms(2) by (simp add: aw_unwind_step_def)
qed (use assms(2) in \<open>auto split: aw_pc.splits\<close>)

lemma wedged_silent_run:
  "ap_wedged s \<Longrightarrow> (\<And>t. ap_quiet_pc (ap_pc s t)) \<Longrightarrow>
   ap_log (fold (ap_do ww) ds s) = ap_log s \<and> aw_cell (ap_aw (fold (ap_do ww) ds s)) = aw_cell (ap_aw s)"
proof (induction ds arbitrary: s)
  case (Cons d ds)
  then show ?case using wedged_step [of s ww d] wedged_silent [of s ww d] by (simp del: ap_do.simps)
qed simp

section \<open>What a panic of the clone does\<close>

text \<open>
  Whatever the schedule and whichever clones panic, no assertion of the module fails, no empty cell is
  unwrapped, and at most one thread is inside the cell.
\<close>

theorem aw_clone_panic_safe:
  "let s = fold (ap_do ww) cs ap_init in
     ap_pc s t \<noteq> AwFault \<and> \<not> (t \<noteq> u \<and> aw_crit (ap_pc s t) \<and> aw_crit (ap_pc s u))"
proof -
  define s where "s = fold (ap_do ww) cs ap_init"
  have "ap_ok s" unfolding s_def by (rule ap_run_ok)
  then have "ap_wedged s \<or> aw_ok (ap_aw s) (ap_pc s)" by (auto simp: ap_ok_def split: if_splits)
  then show ?thesis unfolding s_def [symmetric] Let_def
    by (metis ap_wedged_def aw_ok_def aw_pc_ok.simps(7))
qed

text \<open>
  C38. After a clone has panicked the waker is dead: once the calls then under way have returned, no
  later call wakes anybody and none changes the cell, however the calls interleave.
\<close>

theorem aw_clone_panic_wedges:
  assumes "ap_stuck (fold (ap_do ww) cs ap_init)"
    and "\<And>t. ap_pc (fold (ap_do ww) cs ap_init) t = AwDone"
  shows "ap_log (fold (ap_do ww) (cs @ ds) ap_init) = ap_log (fold (ap_do ww) cs ap_init)
    \<and> aw_cell (ap_aw (fold (ap_do ww) (cs @ ds) ap_init)) = aw_cell (ap_aw (fold (ap_do ww) cs ap_init))"
  using assms ap_run_ok [of ww cs] wedged_silent_run [of "fold (ap_do ww) cs ap_init" ww ds]
  by (simp add: ap_ok_def)

text \<open>A registration that panics, then a registration and a wake that come too late.\<close>

lemma aw_clone_panic_wedges_witness:
  "ap_log (fold (ap_do (=)) ([ApRegister 0 (7::nat), ApStep 0 False, ApStep 0 True] @
     [ApRegister 0 8, ApStep 0 False, ApStep 0 False, ApWake 1, ApStep 1 False, ApStep 1 False]) ap_init) = []"
proof -
  let ?s = "fold (ap_do (=)) [ApRegister 0 (7::nat), ApStep 0 False, ApStep 0 True] ap_init"
  have st: "ap_stuck ?s" "ap_log ?s = []" by code_simp+
  have "ap_pc ?s t = AwDone" for t
    by (simp add: ap_init_def aw_unwind_step_def aw_clones_def aw_new_def aw_states)
  from aw_clone_panic_wedges [OF st(1) this] st(2) show ?thesis by metis
qed

end
