(* ===== verification/SpscRing.thy ===== *)
theory SpscRing
  imports Prelude
begin

text \<open>
  The lock-free ring of \<open>src/spsc.rs\<close> (\<open>Slot\<close>, \<open>Cursor\<close>, \<open>Ring\<close>). \<open>rg_step\<close> is the
  program of \<open>Ring::push\<close>, \<open>Ring::pop\<close> and \<open>Ring::len\<close>, one atomic access at a time;
  \<open>rg_exec\<close> runs one call alone, with an oracle for the spurious failures that
  \<open>compare_exchange_weak\<close> allows. Positions and stamps are 64-bit words and wrap.

  A ring that is not in the middle of a call represents a list of items
  (\<open>rg_rep\<close>); every call is refined by the bounded queue on that list.
\<close>

section \<open>Data\<close>

record 'a rg_slot =
  slot_stamp :: usize
  slot_value :: "'a option"

record 'a ring =
  rg_slots :: "'a rg_slot list"
  rg_lap :: usize
  rg_read :: usize
  rg_write :: usize

text \<open>\<open>usize::next_power_of_two\<close>\<close>

function np2_from :: "nat \<Rightarrow> nat \<Rightarrow> nat" where
  "np2_from p n = (if 0 < p \<and> p < n then np2_from (2 * p) n else p)"
  by pat_completeness auto
termination
  by (relation "measure (\<lambda>(p, n). n - p)") auto

declare np2_from.simps [simp del]

definition next_power_of_two :: "nat \<Rightarrow> nat" where
  "next_power_of_two n = np2_from 1 n"

definition rg_new :: "nat \<Rightarrow> 'a ring" where
  "rg_new capacity =
     \<lparr>rg_slots = map (\<lambda>index. \<lparr>slot_stamp = of_nat (index * 2), slot_value = None\<rparr>) [0..<capacity],
      rg_lap = of_nat (next_power_of_two capacity * 2),
      rg_read = 0, rg_write = 0\<rparr>"

definition rg_capacity :: "'a ring \<Rightarrow> nat" where
  "rg_capacity r = length (rg_slots r)"

definition rg_offset :: "'a ring \<Rightarrow> usize \<Rightarrow> usize" where
  "rg_offset r position = drop_bit 1 (position AND (rg_lap r - 1))"

definition rg_next :: "'a ring \<Rightarrow> usize \<Rightarrow> usize" where
  "rg_next r position =
     (if rg_offset r position + 1 = of_nat (length (rg_slots r))
      then (position AND NOT (rg_lap r - 1)) + rg_lap r else position + 2)"

definition rg_index :: "'a ring \<Rightarrow> usize \<Rightarrow> nat" where
  "rg_index r position = unat (rg_offset r position)"

definition rg_stamp :: "'a ring \<Rightarrow> usize \<Rightarrow> usize" where
  "rg_stamp r position = slot_stamp (rg_slots r ! rg_index r position)"

definition rg_value :: "'a ring \<Rightarrow> usize \<Rightarrow> 'a option" where
  "rg_value r position = slot_value (rg_slots r ! rg_index r position)"

definition rg_set_stamp :: "'a ring \<Rightarrow> usize \<Rightarrow> usize \<Rightarrow> 'a ring" where
  "rg_set_stamp r position s = r\<lparr>rg_slots := (rg_slots r)[rg_index r position :=
     (rg_slots r ! rg_index r position)\<lparr>slot_stamp := s\<rparr>]\<rparr>"

definition rg_set_value :: "'a ring \<Rightarrow> usize \<Rightarrow> 'a \<Rightarrow> 'a ring" where
  "rg_set_value r position x = r\<lparr>rg_slots := (rg_slots r)[rg_index r position :=
     (rg_slots r ! rg_index r position)\<lparr>slot_value := Some x\<rparr>]\<rparr>"

section \<open>The program, one access at a time\<close>

text \<open>
  A program counter carries the local variables of its call. \<open>RgFault\<close> is a slice index
  out of bounds or the read of a slot that was never written.
\<close>

datatype 'a rg_pc =
    PushLoad 'a bool
  | PushStamp 'a bool usize
  | PushCas 'a bool usize
  | PushWrite 'a usize
  | PushFull 'a bool usize
  | PushReserve 'a usize
  | PushStoreWrite 'a usize
  | PushReplace 'a usize
  | PushPublish usize "'a option"
  | PopLoad
  | PopStamp usize
  | PopCas usize
  | PopRead usize
  | PopPublish usize 'a
  | PopEmpty usize
  | LenRead
  | LenWrite usize
  | LenCheck usize usize
  | PushOk "'a option"
  | PushErr 'a
  | Popped "'a option"
  | Counted usize
  | RgFault

fun rg_step :: "bool \<Rightarrow> 'a ring \<Rightarrow> 'a rg_pc \<Rightarrow> 'a ring \<times> 'a rg_pc" where
  "rg_step spurious r (PushLoad item ow) = (r, PushStamp item ow (rg_write r))"
| "rg_step spurious r (PushStamp item ow position) =
     (if rg_index r position < length (rg_slots r)
      then if rg_stamp r position = position then (r, PushCas item ow position)
        else if rg_stamp r position = position - rg_lap r + 1 then (r, PushFull item ow position)
        else (r, PushLoad item ow)
      else (r, RgFault))"
| "rg_step spurious r (PushCas item ow position) =
     (if rg_write r = position \<and> \<not> spurious
      then (r\<lparr>rg_write := rg_next r position\<rparr>, PushWrite item position)
      else (r, PushLoad item ow))"
| "rg_step spurious r (PushWrite item position) =
     (rg_set_value r position item, PushPublish position None)"
| "rg_step spurious r (PushFull item ow position) =
     (if rg_read r = position - rg_lap r
      then if ow then (r, PushReserve item position) else (r, PushErr item)
      else (r, PushLoad item ow))"
| "rg_step spurious r (PushReserve item position) =
     (if rg_read r = position - rg_lap r
      then (r\<lparr>rg_read := rg_next r (position - rg_lap r)\<rparr>, PushStoreWrite item position)
      else (r, PushLoad item True))"
| "rg_step spurious r (PushStoreWrite item position) =
     (r\<lparr>rg_write := rg_next r position\<rparr>, PushReplace item position)"
| "rg_step spurious r (PushReplace item position) =
     (case rg_value r position of
        Some displaced \<Rightarrow> (rg_set_value r position item, PushPublish position (Some displaced))
      | None \<Rightarrow> (r, RgFault))"
| "rg_step spurious r (PushPublish position displaced) =
     (rg_set_stamp r position (position + 1), PushOk displaced)"
| "rg_step spurious r PopLoad = (r, PopStamp (rg_read r))"
| "rg_step spurious r (PopStamp position) =
     (if rg_index r position < length (rg_slots r)
      then if rg_stamp r position = position + 1 then (r, PopCas position)
        else if rg_stamp r position = position then (r, PopEmpty position)
        else (r, PopLoad)
      else (r, RgFault))"
| "rg_step spurious r (PopCas position) =
     (if rg_read r = position \<and> \<not> spurious
      then (r\<lparr>rg_read := rg_next r position\<rparr>, PopRead position)
      else (r, PopLoad))"
| "rg_step spurious r (PopRead position) =
     (case rg_value r position of
        Some item \<Rightarrow> (r, PopPublish position item)
      | None \<Rightarrow> (r, RgFault))"
| "rg_step spurious r (PopPublish position item) =
     (rg_set_stamp r position (position + rg_lap r), Popped (Some item))"
| "rg_step spurious r (PopEmpty position) =
     (if rg_write r = position then (r, Popped None) else (r, PopLoad))"
| "rg_step spurious r LenRead = (r, LenWrite (rg_read r))"
| "rg_step spurious r (LenWrite read) = (r, LenCheck read (rg_write r))"
| "rg_step spurious r (LenCheck read write) =
     (if read = rg_read r
      then (r, Counted
        (if read = write then 0
         else if rg_offset r write > rg_offset r read then rg_offset r write - rg_offset r read
         else of_nat (length (rg_slots r)) - rg_offset r read + rg_offset r write))
      else (r, LenRead))"
| "rg_step spurious r pc = (r, pc)"

text \<open>
  One call run alone, over a schedule that says for each step whether a
  \<open>compare_exchange_weak\<close> in it fails spuriously. A call has returned when the program
  counter is a result, and steps no more. \<open>rg_call\<close> is a call without spurious failure:
  the longest path, an overwrite, is seven steps.
\<close>

fun rg_exec :: "bool list \<Rightarrow> 'a ring \<Rightarrow> 'a rg_pc \<Rightarrow> 'a ring \<times> 'a rg_pc" where
  "rg_exec [] r pc = (r, pc)"
| "rg_exec (b # bs) r pc = (case rg_step b r pc of (r', pc') \<Rightarrow> rg_exec bs r' pc')"

definition rg_call :: "'a rg_pc \<Rightarrow> 'a ring \<Rightarrow> 'a ring \<times> 'a rg_pc" where
  "rg_call pc r = rg_exec (replicate 7 False) r pc"

fun rg_returned :: "'a rg_pc \<Rightarrow> bool" where
  "rg_returned (PushOk d) = True"
| "rg_returned (PushErr x) = True"
| "rg_returned (Popped x) = True"
| "rg_returned (Counted n) = True"
| "rg_returned _ = False"

lemma rg_step_returned [simp]: "rg_returned pc \<Longrightarrow> rg_step b r pc = (r, pc)"
  by (cases pc) auto

lemma rg_exec_returned [simp]: "rg_returned pc \<Longrightarrow> rg_exec bs r pc = (r, pc)"
  by (induction bs) auto

section \<open>Tickets\<close>

text \<open>
  The cursors count operations: the \<open>k\<close>th position is lap \<open>k div cap\<close>, slot
  \<open>k mod cap\<close>, in a word whose low bits hold twice the slot index. \<open>m\<close> is the binary
  logarithm of the capacity rounded up.
\<close>

definition enc :: "nat \<Rightarrow> nat \<Rightarrow> nat \<Rightarrow> usize" where
  "enc m cap k = of_nat (k div cap * 2 ^ Suc m + 2 * (k mod cap))"

lemma np2_from_pow2: "0 < n \<Longrightarrow> 2 ^ i < 2 * n \<Longrightarrow> \<exists>m. np2_from (2 ^ i) n = 2 ^ m \<and> n \<le> 2 ^ m \<and> 2 ^ m < 2 * n"
proof (induction "n - 2 ^ i" arbitrary: i rule: less_induct)
  case less
  show ?case
  proof (cases "2 ^ i < n")
    case True
    then have "2 ^ Suc i < 2 * n" "n - 2 ^ Suc i < n - 2 ^ i"
      by (auto intro!: diff_less_mono2)
    with less obtain m where "np2_from (2 ^ Suc i) n = 2 ^ m \<and> n \<le> 2 ^ m \<and> 2 ^ m < 2 * n" by blast
    then show ?thesis using True by (subst np2_from.simps) auto
  next
    case False
    then show ?thesis using less.prems by (subst np2_from.simps) auto
  qed
qed

lemma next_power_of_two_ge:
  "0 < n \<Longrightarrow> \<exists>m. next_power_of_two n = 2 ^ m \<and> n \<le> 2 ^ m \<and> 2 ^ m < 2 * n"
  using np2_from_pow2 [of n 0] by (simp add: next_power_of_two_def)

lemma unat_of_nat_64: "n < 2 ^ 64 \<Longrightarrow> unat (of_nat n :: usize) = n"
  by (simp add: unat_of_nat take_bit_eq_mod)

lemma of_nat_unat_usize: "(of_nat (unat w) :: usize) = w"
  by simp

lemma lap_mask: "(of_nat (2 ^ n) :: usize) - 1 = mask n"
  by (simp add: mask_eq_exp_minus_1)

lemma unat_take_bit_of_nat:
  "n \<le> 64 \<Longrightarrow> unat (take_bit n (of_nat a :: usize)) = a mod 2 ^ n"
  by (simp add: unsigned_take_bit_eq unsigned_of_nat min_absorb1, simp add: take_bit_eq_mod)

lemma and_not_mask_usize: "(a :: usize) AND NOT (mask n) = a - take_bit n a"
proof -
  have "a - take_bit n a = a AND NOT (take_bit n a)"
    by (rule disjunctive_diff_eq_and_not) (auto simp: bit_eq_iff bit_simps)
  also have "\<dots> = a AND NOT (mask n)"
    by (auto simp: bit_eq_iff bit_simps)
  finally show ?thesis ..
qed

section \<open>What the invariant says of a position\<close>

text \<open>
  \<open>cap_ok m r\<close>: the ring was built for its number of slots, and the lap fits the word.
  The allocation of the slots cannot be larger than \<open>2 ^ 60\<close> (eight bytes of stamp each,
  at most \<open>isize::MAX\<close> bytes), so \<open>m \<le> 60\<close> in every ring that exists.
\<close>

definition cap_ok :: "nat \<Rightarrow> 'a ring \<Rightarrow> bool" where
  "cap_ok m r \<longleftrightarrow> 0 < length (rg_slots r) \<and> length (rg_slots r) \<le> 2 ^ m \<and> m \<le> 60
     \<and> rg_lap r = of_nat (2 ^ Suc m)"

lemma enc_mod: "cap \<le> 2 ^ m \<Longrightarrow> 0 < cap \<Longrightarrow> m \<le> 60 \<Longrightarrow> unat (take_bit (Suc m) (enc m cap k)) = 2 * (k mod cap)"
proof -
  assume a: "cap \<le> 2 ^ m" "0 < cap" "m \<le> 60"
  then have "k mod cap < 2 ^ m" using mod_less_divisor [of cap k] by linarith
  then have "(k div cap * 2 ^ Suc m + 2 * (k mod cap)) mod 2 ^ Suc m = 2 * (k mod cap)"
    by (metis mod_less mod_mult_self3 mult_less_cancel1 power_Suc zero_less_numeral)
  then show ?thesis unfolding enc_def using a by (subst unat_take_bit_of_nat) auto
qed

lemma rg_offset_enc:
  assumes "cap_ok m r"
  shows "rg_offset r (enc m (length (rg_slots r)) k) = of_nat (k mod length (rg_slots r))"
proof -
  let ?c = "length (rg_slots r)"
  have c: "?c \<le> 2 ^ m" "0 < ?c" "m \<le> 60" and l: "rg_lap r - 1 = mask (Suc m)"
    using assms lap_mask [of "Suc m"] by (auto simp: cap_ok_def)
  have "rg_offset r (enc m ?c k) = drop_bit 1 (take_bit (Suc m) (enc m ?c k))"
    by (simp only: rg_offset_def l take_bit_eq_mask)
  then have "unat (rg_offset r (enc m ?c k)) = unat (take_bit (Suc m) (enc m ?c k)) div 2"
    by (simp only: drop_bit_eq_div) (simp add: unat_div)
  also have "\<dots> = k mod ?c" using enc_mod [OF c] by simp
  finally show ?thesis by (metis of_nat_unat_usize)
qed

lemma rg_index_enc:
  assumes "cap_ok m r"
  shows "rg_index r (enc m (length (rg_slots r)) k) = k mod length (rg_slots r)"
proof -
  have "k mod length (rg_slots r) < 2 ^ 64"
  proof -
    have "k mod length (rg_slots r) < length (rg_slots r)" using assms by (simp add: cap_ok_def)
    also have "\<dots> \<le> 2 ^ m" using assms by (simp add: cap_ok_def)
    also have "\<dots> \<le> 2 ^ 64" using assms by (intro power_increasing) (auto simp: cap_ok_def)
    finally show ?thesis .
  qed
  then show ?thesis by (simp add: rg_index_def rg_offset_enc [OF assms] unat_of_nat_64)
qed

lemma enc_add_cap:
  "0 < cap \<Longrightarrow> enc m cap (k + cap) = enc m cap k + of_nat (2 ^ Suc m)"
  unfolding enc_def by (simp only: div_add_self2 mod_add_self2) (simp add: algebra_simps)

lemma enc_Suc:
  assumes "0 < cap"
  shows "enc m cap (Suc k) = (if Suc (k mod cap) = cap
    then of_nat (k div cap * 2 ^ Suc m) + of_nat (2 ^ Suc m) else enc m cap k + 2)"
proof (cases "Suc (k mod cap) = cap")
  case True
  then have "Suc k mod cap = 0" "Suc k div cap = Suc (k div cap)"
    by (simp_all add: mod_Suc div_Suc)
  with True show ?thesis by (simp add: enc_def algebra_simps)
next
  case False
  then have "Suc k mod cap = Suc (k mod cap)" "Suc k div cap = k div cap"
    by (simp_all add: mod_Suc div_Suc)
  with False show ?thesis by (simp add: enc_def algebra_simps)
qed

lemma rg_next_enc:
  assumes ok: "cap_ok m r"
  shows "rg_next r (enc m (length (rg_slots r)) k) = enc m (length (rg_slots r)) (Suc k)"
proof -
  let ?c = "length (rg_slots r)"
  have c: "?c \<le> 2 ^ m" "0 < ?c" "m \<le> 60" and l: "rg_lap r = of_nat (2 ^ Suc m)"
    using ok by (auto simp: cap_ok_def)
  have small: "x < 2 ^ 64" if "x \<le> ?c" for x
  proof -
    have "x \<le> 2 ^ m" using that c(1) by simp
    also have "\<dots> < 2 ^ 64" using c(3) by (intro power_strict_increasing) auto
    finally show ?thesis .
  qed
  have last: "rg_offset r (enc m ?c k) + 1 = of_nat ?c \<longleftrightarrow> Suc (k mod ?c) = ?c"
  proof -
    have "rg_offset r (enc m ?c k) + 1 = (of_nat (Suc (k mod ?c)) :: usize)"
      by (simp add: rg_offset_enc [OF ok] add.commute)
    moreover have "Suc (k mod ?c) \<le> ?c" using c(2) by (simp add: Suc_leI)
    ultimately show ?thesis
      using small [of "Suc (k mod ?c)"] small [of ?c] by (metis order_refl unat_of_nat_64)
  qed
  have tb: "take_bit (Suc m) (enc m ?c k) = of_nat (2 * (k mod ?c))"
    using enc_mod [OF c] by (metis of_nat_unat_usize)
  have "rg_lap r - 1 = mask (Suc m)" using l lap_mask [of "Suc m"] by simp
  then have "enc m ?c k AND NOT (rg_lap r - 1) = enc m ?c k - of_nat (2 * (k mod ?c))"
    using and_not_mask_usize [of "enc m ?c k" "Suc m"] tb by (simp only:)
  then have "enc m ?c k AND NOT (rg_lap r - 1) = of_nat (k div ?c * 2 ^ Suc m)"
    by (simp add: enc_def)
  then show ?thesis by (simp add: rg_next_def last enc_Suc [OF c(2)] l)
qed

text \<open>Stamps that are compared: a free slot is even, a full one odd.\<close>

lemma even_enc: "\<exists>j. enc m cap k = of_nat (2 * j)"
  by (rule exI [of _ "k div cap * 2 ^ m + k mod cap"]) (simp add: enc_def algebra_simps)

lemma even_ne_odd_usize: "(of_nat (2 * i) :: usize) \<noteq> of_nat (2 * j) + 1"
proof
  assume "(of_nat (2 * i) :: usize) = of_nat (2 * j) + 1"
  then have "odd (of_nat (2 * i) :: usize)" by simp
  then show False by simp
qed

lemma enc_ne_Suc_enc [simp]: "enc m cap i \<noteq> enc m cap j + 1" "enc m cap j + 1 \<noteq> enc m cap i"
  using even_enc [of m cap i] even_enc [of m cap j] even_ne_odd_usize by metis+

section \<open>A ring represents a queue\<close>

text \<open>
  \<open>rg_rep m h r q\<close>: ring \<open>r\<close> holds the items \<open>q\<close>, oldest first, and \<open>h\<close> items have left
  it. The slot of ticket \<open>k\<close> is full when \<open>k\<close> is one of the \<open>length q\<close> tickets from
  \<open>h\<close>, and free for \<open>k\<close> otherwise.
\<close>

definition rg_rep :: "nat \<Rightarrow> nat \<Rightarrow> 'a ring \<Rightarrow> 'a list \<Rightarrow> bool" where
  "rg_rep m h r q \<longleftrightarrow> cap_ok m r \<and> length q \<le> rg_capacity r
     \<and> rg_read r = enc m (rg_capacity r) h
     \<and> rg_write r = enc m (rg_capacity r) (h + length q)
     \<and> (\<forall>i < rg_capacity r. let s = rg_slots r ! ((h + i) mod rg_capacity r) in
          if i < length q
          then slot_stamp s = enc m (rg_capacity r) (h + i) + 1 \<and> slot_value s = Some (q ! i)
          else slot_stamp s = enc m (rg_capacity r) (h + i))"

lemma rg_repD:
  assumes "rg_rep m h r q"
  shows "cap_ok m r" "0 < rg_capacity r" "length q \<le> rg_capacity r"
    "rg_read r = enc m (rg_capacity r) h"
    "rg_write r = enc m (rg_capacity r) (h + length q)"
    "rg_lap r = of_nat (2 ^ Suc m)"
  using assms by (auto simp: rg_rep_def cap_ok_def rg_capacity_def)

lemma rg_rep_full:
  assumes "rg_rep m h r q" "i < length q"
  shows "rg_stamp r (enc m (rg_capacity r) (h + i)) = enc m (rg_capacity r) (h + i) + 1"
    "rg_value r (enc m (rg_capacity r) (h + i)) = Some (q ! i)"
  using assms rg_index_enc [OF rg_repD(1) [OF assms(1)], of "h + i"]
  by (auto simp: rg_rep_def rg_stamp_def rg_value_def rg_capacity_def Let_def)

lemma rg_rep_free:
  assumes "rg_rep m h r q" "length q \<le> i" "i < rg_capacity r"
  shows "rg_stamp r (enc m (rg_capacity r) (h + i)) = enc m (rg_capacity r) (h + i)"
  using assms rg_index_enc [OF rg_repD(1) [OF assms(1)], of "h + i"]
  by (auto simp: rg_rep_def rg_stamp_def rg_capacity_def Let_def)

lemma rg_index_bound:
  assumes "rg_rep m h r q"
  shows "rg_index r (enc m (rg_capacity r) k) < length (rg_slots r)"
  using rg_index_enc [OF rg_repD(1) [OF assms], of k] rg_repD(2) [OF assms]
  by (simp add: rg_capacity_def)

lemma mod_add_inj:
  assumes "(h + i) mod c = (h + j) mod (c::nat)" "i < c" "j < c"
  shows "i = j"
proof -
  have "a = b" if "a \<le> b" "(h + b) mod c = (h + a) mod c" "b < c" for a b
  proof -
    from that have "c dvd b - a" using mod_eq_dvd_iff_nat [of "h + a" "h + b" c] by simp
    then show ?thesis using that by (metis dvd_imp_le diff_is_0_eq le_antisym less_imp_diff_less
      linorder_not_less zero_less_iff_neq_zero)
  qed
  then show ?thesis using assms by (metis nat_le_linear)
qed

text \<open>Replacing one slot, and moving the window of tickets.\<close>

lemma rg_rep_push:
  assumes rep: "rg_rep m h r q" and room: "length q < rg_capacity r"
    and r': "r' = r\<lparr>rg_write := enc m (rg_capacity r) (Suc (h + length q)),
      rg_slots := (rg_slots r)[(h + length q) mod rg_capacity r :=
        \<lparr>slot_stamp = enc m (rg_capacity r) (h + length q) + 1, slot_value = Some x\<rparr>]\<rparr>"
  shows "rg_rep m h r' (q @ [x])"
proof -
  let ?c = "rg_capacity r"
  have c: "rg_capacity r' = ?c" "cap_ok m r'" "0 < ?c"
    using rep r' by (auto simp: rg_rep_def cap_ok_def rg_capacity_def)
  have "let s = rg_slots r' ! ((h + i) mod ?c) in
      if i < length (q @ [x])
      then slot_stamp s = enc m ?c (h + i) + 1 \<and> slot_value s = Some ((q @ [x]) ! i)
      else slot_stamp s = enc m ?c (h + i)" if i: "i < ?c" for i
  proof (cases "i = length q")
    case True
    then show ?thesis using r' c by (simp add: rg_capacity_def)
  next
    case False
    with mod_add_inj [of h i ?c "length q"] i room
    have "(h + i) mod ?c \<noteq> (h + length q) mod ?c" by blast
    then have "rg_slots r' ! ((h + i) mod ?c) = rg_slots r ! ((h + i) mod ?c)"
      using r' by simp
    then show ?thesis using rep i False by (auto simp: rg_rep_def Let_def nth_append)
  qed
  then have sl: "\<forall>i < ?c. let s = rg_slots r' ! ((h + i) mod ?c) in
      if i < length (q @ [x])
      then slot_stamp s = enc m ?c (h + i) + 1 \<and> slot_value s = Some ((q @ [x]) ! i)
      else slot_stamp s = enc m ?c (h + i)" by blast
  have "rg_read r' = enc m ?c h" "rg_write r' = enc m ?c (h + length (q @ [x]))"
    using rep r' by (auto simp: rg_rep_def)
  then show ?thesis unfolding rg_rep_def c(1) using c(2) room by (intro conjI sl) auto
qed

lemma rg_rep_shift:
  assumes rep: "rg_rep m h r (y # q)"
    and r': "r' = r\<lparr>rg_read := enc m (rg_capacity r) (Suc h), rg_write := wr,
      rg_slots := (rg_slots r)[h mod rg_capacity r := \<lparr>slot_stamp = st, slot_value = v\<rparr>]\<rparr>"
    and cases: "xs = [] \<and> st = enc m (rg_capacity r) (h + rg_capacity r)
        \<and> wr = enc m (rg_capacity r) (Suc (h + length q))
      \<or> (\<exists>x. xs = [x] \<and> Suc (length q) = rg_capacity r \<and> v = Some x
        \<and> st = enc m (rg_capacity r) (h + rg_capacity r) + 1
        \<and> wr = enc m (rg_capacity r) (Suc (h + rg_capacity r)))"
  shows "rg_rep m (Suc h) r' (q @ xs)"
proof -
  let ?c = "rg_capacity r"
  have c: "rg_capacity r' = ?c" "cap_ok m r'" "0 < ?c"
    using rep r' by (auto simp: rg_rep_def cap_ok_def rg_capacity_def)
  have len: "length (q @ xs) \<le> ?c" using rep cases by (auto simp: rg_rep_def)
  have "let s = rg_slots r' ! ((Suc h + i) mod ?c) in
      if i < length (q @ xs)
      then slot_stamp s = enc m ?c (Suc h + i) + 1 \<and> slot_value s = Some ((q @ xs) ! i)
      else slot_stamp s = enc m ?c (Suc h + i)" if i: "i < ?c" for i
  proof (cases "Suc i = ?c")
    case True
    then have hi: "Suc h + i = h + ?c" by simp
    have "rg_slots r' ! ((Suc h + i) mod ?c) = \<lparr>slot_stamp = st, slot_value = v\<rparr>"
      unfolding hi using r' c by (simp add: rg_capacity_def)
    moreover have "length (q @ xs) \<le> i \<or> (\<exists>x. xs = [x] \<and> length q = i)"
      using rep cases True by (auto simp: rg_rep_def)
    ultimately show ?thesis
      unfolding hi using cases True by (auto simp: Let_def nth_append)
  next
    case False
    then have i': "Suc i < ?c" using i by simp
    with mod_add_inj [of h "Suc i" ?c 0] have "(Suc h + i) mod ?c \<noteq> h mod ?c" by auto
    then have "rg_slots r' ! ((Suc h + i) mod ?c) = rg_slots r ! ((h + Suc i) mod ?c)"
      using r' by simp
    then show ?thesis using rep i' cases by (auto simp: rg_rep_def Let_def nth_append)
  qed
  then have sl: "\<forall>i < ?c. let s = rg_slots r' ! ((Suc h + i) mod ?c) in
      if i < length (q @ xs)
      then slot_stamp s = enc m ?c (Suc h + i) + 1 \<and> slot_value s = Some ((q @ xs) ! i)
      else slot_stamp s = enc m ?c (Suc h + i)" by blast
  have "rg_read r' = enc m ?c (Suc h)" "rg_write r' = enc m ?c (Suc h + length (q @ xs))"
    using cases r' by auto
  then show ?thesis unfolding rg_rep_def c(1) using c(2) len by (intro conjI sl) auto
qed

section \<open>Every call, alone, is the call on the queue\<close>

text \<open>The reference: a bounded queue of items, oldest first.\<close>

fun bq_call :: "nat \<Rightarrow> 'a rg_pc \<Rightarrow> 'a list \<Rightarrow> 'a list \<times> 'a rg_pc" where
  "bq_call cap (PushLoad x ow) q =
     (if length q < cap then (q @ [x], PushOk None)
      else if ow then (tl q @ [x], PushOk (Some (hd q))) else (q, PushErr x))"
| "bq_call cap PopLoad q = (case q of [] \<Rightarrow> ([], Popped None) | y # ys \<Rightarrow> (ys, Popped (Some y)))"
| "bq_call cap LenRead q = (q, Counted (of_nat (length q)))"
| "bq_call cap pc q = (q, pc)"

lemma rg_access_simps [simp]:
  "rg_index (r\<lparr>rg_write := w\<rparr>) p = rg_index r p" "rg_index (r\<lparr>rg_read := w\<rparr>) p = rg_index r p"
  "rg_stamp (r\<lparr>rg_write := w\<rparr>) p = rg_stamp r p" "rg_stamp (r\<lparr>rg_read := w\<rparr>) p = rg_stamp r p"
  "rg_value (r\<lparr>rg_write := w\<rparr>) p = rg_value r p" "rg_value (r\<lparr>rg_read := w\<rparr>) p = rg_value r p"
  "rg_index (r\<lparr>rg_slots := xs\<rparr>) p = rg_index r p"
  "rg_next (r\<lparr>rg_write := w\<rparr>) p = rg_next r p" "rg_next (r\<lparr>rg_read := w\<rparr>) p = rg_next r p"
  by (simp_all add: rg_index_def rg_stamp_def rg_value_def rg_next_def rg_offset_def)

lemma slot_eta [simp]:
  "(s :: 'a rg_slot)\<lparr>slot_value := v, slot_stamp := t\<rparr> = \<lparr>slot_stamp = t, slot_value = v\<rparr>"
  by (cases s) simp

lemma slot_eta_stamp:
  "(s :: 'a rg_slot)\<lparr>slot_stamp := t\<rparr> = \<lparr>slot_stamp = t, slot_value = slot_value s\<rparr>"
  by (cases s) simp

lemma rg_exec_push_room:
  assumes rep: "rg_rep m h r q" and room: "length q < rg_capacity r"
  shows "\<exists>r'. rg_exec (b1 # b2 # False # b4 # b5 # bs) r (PushLoad x ow) = (r', PushOk None)
    \<and> rg_rep m h r' (q @ [x]) \<and> rg_capacity r' = rg_capacity r"
proof -
  let ?p = "enc m (rg_capacity r) (h + length q)"
  note [simp] = rg_repD(5) [OF rep] rg_index_bound [OF rep] rg_rep_free [OF rep le_refl room]
  have nx: "rg_next r ?p = enc m (rg_capacity r) (Suc (h + length q))"
    using rg_next_enc [OF rg_repD(1) [OF rep]] by (simp add: rg_capacity_def)
  have ix: "rg_index r ?p = (h + length q) mod rg_capacity r"
    using rg_index_enc [OF rg_repD(1) [OF rep]] by (simp add: rg_capacity_def)
  have lt: "(h + length q) mod rg_capacity r < length (rg_slots r)"
    using rg_index_bound [OF rep, of "h + length q"] ix by simp
  let ?r = "rg_set_stamp (rg_set_value (r\<lparr>rg_write := rg_next r ?p\<rparr>) ?p x) ?p (?p + 1)"
  have "rg_rep m h ?r (q @ [x])"
    by (rule rg_rep_push [OF rep room])
      (simp add: rg_set_stamp_def rg_set_value_def nx ix lt)
  moreover have "rg_exec (b1 # b2 # False # b4 # b5 # bs) r (PushLoad x ow) = (?r, PushOk None)"
    by simp
  moreover have "rg_capacity ?r = rg_capacity r"
    by (simp add: rg_capacity_def rg_set_stamp_def rg_set_value_def)
  ultimately show ?thesis by blast
qed

lemma full_window:
  assumes rep: "rg_rep m h r q" and full: "length q = rg_capacity r"
  shows "enc m (rg_capacity r) (h + length q) - rg_lap r = enc m (rg_capacity r) h"
    "rg_index r (enc m (rg_capacity r) (h + length q)) = h mod rg_capacity r"
    "rg_stamp r (enc m (rg_capacity r) (h + length q)) = enc m (rg_capacity r) h + 1"
    "rg_value r (enc m (rg_capacity r) (h + length q)) = Some (hd q)"
proof -
  note D = rg_repD [OF rep]
  show "enc m (rg_capacity r) (h + length q) - rg_lap r = enc m (rg_capacity r) h"
    using enc_add_cap [OF D(2), of m h] D(6) full by simp
  show ix: "rg_index r (enc m (rg_capacity r) (h + length q)) = h mod rg_capacity r"
    using rg_index_enc [OF D(1), of "h + length q"] full by (simp add: rg_capacity_def)
  have ix0: "rg_index r (enc m (rg_capacity r) h) = h mod rg_capacity r"
    using rg_index_enc [OF D(1), of h] by (simp add: rg_capacity_def)
  have "0 < length q" using D(2) full by simp
  then show "rg_stamp r (enc m (rg_capacity r) (h + length q)) = enc m (rg_capacity r) h + 1"
    "rg_value r (enc m (rg_capacity r) (h + length q)) = Some (hd q)"
    using rg_rep_full [OF rep, of 0] ix ix0 by (auto simp: rg_stamp_def rg_value_def hd_conv_nth)
qed

lemma rg_exec_push_full:
  assumes rep: "rg_rep m h r q" and full: "length q = rg_capacity r"
  shows "rg_exec (b1 # b2 # b3 # bs) r (PushLoad x False) = (r, PushErr x)"
  using rg_index_bound [OF rep, of "h + length q"] rg_repD(4,5) [OF rep] full_window [OF rep full]
  by simp

lemma rg_exec_overwrite:
  assumes rep: "rg_rep m h r q" and full: "length q = rg_capacity r"
  shows "\<exists>r'. rg_exec (b1 # b2 # b3 # b4 # b5 # b6 # b7 # bs) r (PushLoad x True)
      = (r', PushOk (Some (hd q)))
    \<and> rg_rep m (Suc h) r' (tl q @ [x]) \<and> rg_capacity r' = rg_capacity r"
proof -
  let ?c = "rg_capacity r"
  let ?p = "enc m ?c (h + length q)"
  note D = rg_repD [OF rep] and F = full_window [OF rep full]
  have q: "q = hd q # tl q" using D(2) full by (cases q) auto
  have lt: "rg_index r ?p < length (rg_slots r)" by (rule rg_index_bound [OF rep])
  have nx: "rg_next r ?p = enc m ?c (Suc (h + ?c))" "rg_next r (enc m ?c h) = enc m ?c (Suc h)"
    using rg_next_enc [OF D(1)] full by (simp_all add: rg_capacity_def)
  let ?r = "rg_set_stamp (rg_set_value (r\<lparr>rg_read := enc m ?c (Suc h),
      rg_write := enc m ?c (Suc (h + ?c))\<rparr>) ?p x) ?p (?p + 1)"
  have "rg_rep m (Suc h) ?r (tl q @ [x])"
  proof (rule rg_rep_shift [where y = "hd q"])
    show "rg_rep m h r (hd q # tl q)" using rep q by simp
    show "?r = r\<lparr>rg_read := enc m ?c (Suc h), rg_write := enc m ?c (Suc (h + ?c)),
        rg_slots := (rg_slots r)[h mod ?c := \<lparr>slot_stamp = ?p + 1, slot_value = Some x\<rparr>]\<rparr>"
      using lt F(2) by (simp add: rg_set_stamp_def rg_set_value_def)
    show "[x] = [] \<and> ?p + 1 = enc m ?c (h + ?c)
        \<and> enc m ?c (Suc (h + ?c)) = enc m ?c (Suc (h + length (tl q)))
      \<or> (\<exists>x'. [x] = [x'] \<and> Suc (length (tl q)) = ?c \<and> Some x = Some x'
        \<and> ?p + 1 = enc m ?c (h + ?c) + 1 \<and> enc m ?c (Suc (h + ?c)) = enc m ?c (Suc (h + ?c)))"
      using full D(2) by simp
  qed
  moreover have "rg_exec (b1 # b2 # b3 # b4 # b5 # b6 # b7 # bs) r (PushLoad x True)
      = (?r, PushOk (Some (hd q)))"
    using lt D(4,5) F(1,3,4) nx by simp
  moreover have "rg_capacity ?r = ?c"
    by (simp add: rg_capacity_def rg_set_stamp_def rg_set_value_def)
  ultimately show ?thesis by blast
qed

lemma rg_exec_pop:
  assumes rep: "rg_rep m h r (y # q)"
  shows "\<exists>r'. rg_exec (b1 # b2 # False # b4 # b5 # bs) r PopLoad = (r', Popped (Some y))
    \<and> rg_rep m (Suc h) r' q \<and> rg_capacity r' = rg_capacity r"
proof -
  let ?c = "rg_capacity r"
  let ?p = "enc m ?c h"
  note D = rg_repD [OF rep] and F = rg_rep_full [OF rep, of 0, simplified]
  have lt: "rg_index r ?p < length (rg_slots r)" by (rule rg_index_bound [OF rep])
  have ix: "rg_index r ?p = h mod ?c"
    using rg_index_enc [OF D(1), of h] by (simp add: rg_capacity_def)
  have nx: "rg_next r ?p = enc m ?c (Suc h)"
    using rg_next_enc [OF D(1)] by (simp add: rg_capacity_def)
  let ?r = "rg_set_stamp (r\<lparr>rg_read := enc m ?c (Suc h)\<rparr>) ?p (?p + rg_lap r)"
  have "rg_rep m (Suc h) ?r (q @ [])"
  proof (rule rg_rep_shift [OF rep])
    show "?r = r\<lparr>rg_read := enc m ?c (Suc h), rg_write := enc m ?c (Suc (h + length q)),
        rg_slots := (rg_slots r)[h mod ?c := \<lparr>slot_stamp = ?p + rg_lap r, slot_value = Some y\<rparr>]\<rparr>"
      using lt ix D(5) F
      by (intro ring.equality) (simp_all add: rg_set_stamp_def rg_value_def slot_eta_stamp)
    show "([] :: 'a list) = [] \<and> ?p + rg_lap r = enc m ?c (h + ?c)
        \<and> enc m ?c (Suc (h + length q)) = enc m ?c (Suc (h + length q))
      \<or> (\<exists>x. [] = [x] \<and> Suc (length q) = ?c \<and> Some y = Some x
        \<and> ?p + rg_lap r = enc m ?c (h + ?c) + 1
        \<and> enc m ?c (Suc (h + length q)) = enc m ?c (Suc (h + ?c)))"
      using enc_add_cap [OF D(2), of m h] D(6) by simp
  qed
  moreover have "rg_exec (b1 # b2 # False # b4 # b5 # bs) r PopLoad = (?r, Popped (Some y))"
    using lt D(4) F nx by simp
  moreover have "rg_capacity ?r = ?c" by (simp add: rg_capacity_def rg_set_stamp_def)
  ultimately show ?thesis by auto
qed

lemma rg_exec_pop_empty:
  assumes rep: "rg_rep m h r []"
  shows "rg_exec (b1 # b2 # b3 # bs) r PopLoad = (r, Popped None)"
  using rg_index_bound [OF rep, of h] rg_repD(2,4,5) [OF rep] rg_rep_free [OF rep, of 0]
  by simp

text \<open>\<open>len\<close> counts the items.\<close>

lemma lap_ne_0: "m \<le> 60 \<Longrightarrow> (of_nat (2 ^ Suc m) :: usize) \<noteq> 0"
proof -
  assume "m \<le> 60"
  then have "(2::nat) ^ Suc m < 2 ^ 64" by (intro power_strict_increasing) auto
  then have "unat (of_nat (2 ^ Suc m) :: usize) = 2 ^ Suc m" by (rule unat_of_nat_64)
  then show ?thesis by (metis power_not_zero unat_0 zero_neq_numeral)
qed

lemma rg_count:
  assumes ok: "cap_ok m r" and n: "n \<le> length (rg_slots r)"
  defines "p k \<equiv> enc m (length (rg_slots r)) k"
  shows "(if p h = p (h + n) then 0
    else if rg_offset r (p (h + n)) > rg_offset r (p h) then rg_offset r (p (h + n)) - rg_offset r (p h)
    else of_nat (length (rg_slots r)) - rg_offset r (p h) + rg_offset r (p (h + n))) = of_nat n"
proof -
  let ?c = "length (rg_slots r)"
  have c: "0 < ?c" "m \<le> 60" "?c < 2 ^ 64"
  proof -
    have "?c \<le> 2 ^ m" "m \<le> 60" using ok by (auto simp: cap_ok_def)
    moreover from this(2) have "(2::nat) ^ m < 2 ^ 64" by (intro power_strict_increasing) auto
    ultimately show "m \<le> 60" "?c < 2 ^ 64" by auto
  qed (use ok in \<open>simp add: cap_ok_def\<close>)
  have off: "rg_offset r (p k) = of_nat (k mod ?c)" for k
    unfolding p_def by (rule rg_offset_enc [OF ok])
  have inj: "(of_nat (i mod ?c) :: usize) = of_nat (j mod ?c) \<Longrightarrow> i mod ?c = j mod ?c"
    and less: "(of_nat (i mod ?c) :: usize) < of_nat (j mod ?c) \<longleftrightarrow> i mod ?c < j mod ?c" for i j
  proof -
    have s: "k mod ?c < 2 ^ 64" for k using c by (meson less_trans mod_less_divisor)
    then show "(of_nat (i mod ?c) :: usize) = of_nat (j mod ?c) \<Longrightarrow> i mod ?c = j mod ?c"
      by (metis unat_of_nat_64)
    show "(of_nat (i mod ?c) :: usize) < of_nat (j mod ?c) \<longleftrightarrow> i mod ?c < j mod ?c"
      using s by (simp add: word_less_nat_alt unat_of_nat_64)
  qed
  consider "n = 0" | "n = ?c" | "0 < n" "n < ?c" using n by linarith
  then show ?thesis
  proof cases
    case 2
    then have "p h \<noteq> p (h + n)"
      using enc_add_cap [OF c(1), of m h] lap_ne_0 [OF c(2)] by (simp add: p_def)
    then show ?thesis using 2 by (simp add: off)
  next
    case 3
    have ne: "(h + n) mod ?c \<noteq> h mod ?c" using mod_add_inj [of h n ?c 0] 3 c(1) by auto
    then have rw: "p h \<noteq> p (h + n)" using off inj by metis
    have hc: "h mod ?c < ?c" using c by simp
    have "(h + n) mod ?c = (h mod ?c + n) mod ?c" by (simp add: mod_simps)
    then have hn: "(h + n) mod ?c = (if h mod ?c + n < ?c then h mod ?c + n else h mod ?c + n - ?c)"
      using 3 hc add_less_mono [OF hc 3(2)] by (simp add: le_mod_geq less_diff_conv2)
    show ?thesis
    proof (cases "h mod ?c + n < ?c")
      case True
      then show ?thesis unfolding off less if_not_P [OF rw] using hn 3 by simp
    next
      case False
      then have "(of_nat (h mod ?c + n - ?c) :: usize) = of_nat (h mod ?c) + of_nat n - of_nat ?c"
        by (simp add: of_nat_diff)
      moreover have "\<not> h mod ?c + n - ?c > h mod ?c" using 3 by simp
      ultimately show ?thesis unfolding off less if_not_P [OF rw] using hn False by simp
    qed
  qed simp
qed

lemma rg_exec_len:
  assumes rep: "rg_rep m h r q"
  shows "rg_exec (b1 # b2 # b3 # bs) r LenRead = (r, Counted (of_nat (length q)))"
  using rg_count [OF rg_repD(1) [OF rep], of "length q" h] rg_repD(3,4,5) [OF rep]
  by (simp add: rg_capacity_def)

text \<open>A new ring is empty.\<close>

lemma rg_new_rep_lap:
  assumes "0 < capacity" "capacity \<le> 2 ^ 60"
  obtains m where "rg_rep m 0 (rg_new capacity) []" "2 ^ m < 2 * capacity"
proof -
  obtain m where m: "next_power_of_two capacity = 2 ^ m" "capacity \<le> 2 ^ m" "2 ^ m < 2 * capacity"
    using next_power_of_two_ge [OF assms(1)] by blast
  from m(3) assms(2) have "(2::nat) ^ m < 2 ^ 61" by simp
  then have "m \<le> 60" using power_less_imp_less_exp [of "2::nat" m 61] by simp
  then have "cap_ok m (rg_new capacity)"
    using m assms(1) by (simp add: cap_ok_def rg_new_def)
  then have "rg_rep m 0 (rg_new capacity) []"
    using assms(1) by (simp add: rg_rep_def rg_capacity_def rg_new_def enc_def Let_def mult.commute)
  then show thesis using m(3) that by blast
qed

lemma rg_new_rep:
  assumes "0 < capacity" "capacity \<le> 2 ^ 60"
  shows "\<exists>m. rg_rep m 0 (rg_new capacity) []" "rg_capacity (rg_new capacity) = capacity"
proof -
  show "\<exists>m. rg_rep m 0 (rg_new capacity) []" using rg_new_rep_lap [OF assms] by blast
qed (simp add: rg_capacity_def rg_new_def)

text \<open>
  The whole refinement: a call that runs alone, after any number of spurious failures of
  its \<open>compare_exchange_weak\<close>, returns what the bounded queue returns.
\<close>

definition rg_queue :: "nat \<Rightarrow> 'a ring \<Rightarrow> 'a list \<Rightarrow> bool" where
  "rg_queue cap r q \<longleftrightarrow> rg_capacity r = cap \<and> (\<exists>m h. rg_rep m h r q)"

fun rg_entry :: "'a rg_pc \<Rightarrow> bool" where
  "rg_entry (PushLoad x ow) = True"
| "rg_entry PopLoad = True"
| "rg_entry LenRead = True"
| "rg_entry _ = False"

lemma rg_queueD: "rg_queue cap r q \<Longrightarrow> 0 < cap \<and> length q \<le> cap"
  unfolding rg_queue_def using rg_repD by blast

lemma replicate_3: "replicate (3 + n) x = x # x # x # replicate n x"
  by (simp add: numeral_3_eq_3)

lemma rg_retry_room:
  assumes "rg_rep m h r q" "length q < rg_capacity r"
  shows "rg_exec (replicate (3 * j) True @ bs) r (PushLoad x ow) = rg_exec bs r (PushLoad x ow)"
  using rg_index_bound [OF assms(1), of "h + length q"] rg_repD(5) [OF assms(1)]
    rg_rep_free [OF assms(1) le_refl assms(2)]
  by (induction j) (simp_all add: replicate_3)

lemma rg_retry_pop:
  assumes "rg_rep m h r (y # q)"
  shows "rg_exec (replicate (3 * j) True @ bs) r PopLoad = rg_exec bs r PopLoad"
  using rg_index_bound [OF assms, of h] rg_repD(4) [OF assms] rg_rep_full [OF assms, of 0]
  by (induction j) (simp_all add: replicate_3)

lemma seven_elements:
  "7 \<le> length xs \<Longrightarrow> \<exists>b1 b2 b3 b4 b5 b6 b7 cs. xs = b1 # b2 # b3 # b4 # b5 # b6 # b7 # cs"
  by (auto simp: Suc_le_length_iff eval_nat_numeral)

lemma seven_steps: "\<exists>b1 b2 b3 b4 b5 b6 b7 cs.
  replicate (3 * j) True @ replicate 7 False = b1 # b2 # b3 # b4 # b5 # b6 # b7 # cs"
  by (rule seven_elements) simp

lemma rg_exec_refines:
  assumes "rg_queue cap r q" "rg_entry pc"
  shows "\<exists>r'. rg_exec (replicate (3 * j) True @ replicate 7 False) r pc = (r', snd (bq_call cap pc q))
    \<and> rg_queue cap r' (fst (bq_call cap pc q))"
proof -
  obtain m h where rep: "rg_rep m h r q" and cap: "rg_capacity r = cap"
    using assms(1) by (auto simp: rg_queue_def)
  obtain b1 b2 b3 b4 b5 b6 b7 cs where bs:
    "replicate (3 * j) True @ replicate 7 False = b1 # b2 # b3 # b4 # b5 # b6 # b7 # cs"
    using seven_steps by blast
  have F: "replicate 7 False = [False, False, False, False, False, False, False]"
    by (simp add: eval_nat_numeral)
  from assms(2) consider x ow where "pc = PushLoad x ow" | "pc = PopLoad" | "pc = LenRead"
    by (cases pc) auto
  then show ?thesis
  proof cases
    case (1 x ow)
    consider "length q < cap" | "length q = cap" using rg_repD(3) [OF rep] cap by linarith
    then show ?thesis
    proof cases
      case 1
      then have room: "length q < rg_capacity r" using cap by simp
      obtain r' where r': "rg_exec (replicate 7 False) r (PushLoad x ow) = (r', PushOk None)"
        "rg_rep m h r' (q @ [x])" "rg_capacity r' = rg_capacity r"
        using rg_exec_push_room [OF rep room, of False False False False "[False, False]" x ow]
        unfolding F by blast
      then show ?thesis
        using rg_retry_room [OF rep room, of j "replicate 7 False" x ow] \<open>pc = PushLoad x ow\<close> 1 cap
        by (auto simp: rg_queue_def simp del: rg_exec.simps)
    next
      case 2
      then show ?thesis
        using rg_exec_overwrite [OF rep, of b1 b2 b3 b4 b5 b6 b7 cs x] cap bs \<open>pc = PushLoad x ow\<close>
          rg_exec_push_full [OF rep, of b1 b2 b3 "b4 # b5 # b6 # b7 # cs" x] assms(1)
        by (cases ow) (auto simp: rg_queue_def simp del: rg_exec.simps)
    qed
  next
    case 2
    show ?thesis
    proof (cases q)
      case Nil
      then show ?thesis
        using rg_exec_pop_empty [of m h r b1 b2 b3] rep bs 2 assms(1) by (auto simp del: rg_exec.simps)
    next
      case (Cons y ys)
      then have ry: "rg_rep m h r (y # ys)" using rep by simp
      obtain r' where "rg_exec (replicate 7 False) r PopLoad = (r', Popped (Some y))"
        "rg_rep m (Suc h) r' ys" "rg_capacity r' = rg_capacity r"
        using rg_exec_pop [OF ry, of False False False False "[False, False]"] unfolding F by blast
      then show ?thesis
        using rg_retry_pop [OF ry, of j "replicate 7 False"] 2 Cons cap
        by (auto simp: rg_queue_def simp del: rg_exec.simps)
    qed
  next
    case 3
    then show ?thesis
      using rg_exec_len [OF rep, of b1 b2 b3] bs assms(1) by (auto simp del: rg_exec.simps)
  qed
qed

section \<open>The interface the handles use\<close>

text \<open>
  What a client of the ring relies on: a relation \<open>holds\<close> between its state and a list of
  at most \<open>cap\<close> items, and every call acting on the list as \<open>bq_call\<close> does.
\<close>

locale ring_queue =
  fixes holds :: "'r \<Rightarrow> 'a list \<Rightarrow> bool"
    and cap :: nat
    and call :: "'a rg_pc \<Rightarrow> 'r \<Rightarrow> 'r \<times> 'a rg_pc"
  assumes bounded: "holds r q \<Longrightarrow> 0 < cap \<and> length q \<le> cap"
    and refines: "holds r q \<Longrightarrow> rg_entry pc \<Longrightarrow>
      holds (fst (call pc r)) (fst (bq_call cap pc q)) \<and> snd (call pc r) = snd (bq_call cap pc q)"
begin

lemma run_refines:
  "holds r q \<Longrightarrow> \<forall>pc \<in> set pcs. rg_entry pc \<Longrightarrow>
     holds (fst (run_calls call pcs r)) (fst (run_calls (bq_call cap) pcs q))
     \<and> snd (run_calls call pcs r) = snd (run_calls (bq_call cap) pcs q)"
  by (rule run_calls_simulation [where P = rg_entry]) (auto dest: refines)

lemma pop_refines:
  "holds r (y # q) \<Longrightarrow> \<exists>r'. call PopLoad r = (r', Popped (Some y)) \<and> holds r' q"
  "holds r [] \<Longrightarrow> \<exists>r'. call PopLoad r = (r', Popped None) \<and> holds r' []"
  using refines [of r "y # q" PopLoad] refines [of r "[]" PopLoad]
  by (auto simp: prod_eq_iff)

lemma push_refines:
  "holds r q \<Longrightarrow> length q < cap \<Longrightarrow> \<exists>r'. call (PushLoad x ow) r = (r', PushOk None) \<and> holds r' (q @ [x])"
  "holds r q \<Longrightarrow> length q = cap \<Longrightarrow> \<exists>r'. call (PushLoad x False) r = (r', PushErr x) \<and> holds r' q"
  "holds r q \<Longrightarrow> length q = cap \<Longrightarrow>
     \<exists>r'. call (PushLoad x True) r = (r', PushOk (Some (hd q))) \<and> holds r' (tl q @ [x])"
  using refines [of r q "PushLoad x ow"] refines [of r q "PushLoad x False"]
    refines [of r q "PushLoad x True"]
  by (auto simp: prod_eq_iff)

end

interpretation rg: ring_queue "rg_queue cap" cap rg_call for cap
proof unfold_locales
  show "rg_queue cap r q \<Longrightarrow> 0 < cap \<and> length q \<le> cap" for r :: "'a ring" and q
    by (rule rg_queueD)
  show "rg_queue cap r q \<Longrightarrow> rg_entry pc \<Longrightarrow>
      rg_queue cap (fst (rg_call pc r)) (fst (bq_call cap pc q))
      \<and> snd (rg_call pc r) = snd (bq_call cap pc q)" for r :: "'a ring" and q pc
    using rg_exec_refines [of cap r q pc 0] by (auto simp: rg_call_def)
qed

text \<open>\<open>Drop for Ring\<close>: pop until the ring is empty; \<open>None\<close> would be a ring that never is.\<close>

partial_function (option) rg_drop :: "'a ring \<Rightarrow> 'a list \<Rightarrow> 'a list option" where
  "rg_drop r dropped =
     (case rg_call PopLoad r of (r', pc) \<Rightarrow>
       (case pc of Popped (Some item) \<Rightarrow> rg_drop r' (dropped @ [item]) | _ \<Rightarrow> Some dropped))"

lemma rg_drop_items: "rg_queue cap r q \<Longrightarrow> rg_drop r ds = Some (ds @ q)"
proof (induction q arbitrary: r ds)
  case Nil
  from rg.pop_refines(2) [OF Nil] show ?case by (subst rg_drop.simps) auto
next
  case (Cons y q)
  from rg.pop_refines(1) [OF Cons.prems] Cons.IH show ?case by (subst rg_drop.simps) auto
qed

section \<open>Properties\<close>

text \<open>
  Functional refinement: from a new ring of any capacity up to \<open>2 ^ 60\<close>, every run of
  pushes, overwriting pushes, pops and counts returns exactly what the bounded queue
  returns, however often the cursors have wrapped around the 64-bit word.
\<close>

theorem ring_run_refines_queue:
  assumes "0 < capacity" and "capacity \<le> 2 ^ 60" and "\<forall>pc \<in> set pcs. rg_entry pc"
  shows "snd (run_calls rg_call pcs (rg_new capacity)) = snd (run_calls (bq_call capacity) pcs [])"
proof -
  have "rg_queue capacity (rg_new capacity) []"
    using rg_new_rep [OF assms(1,2)] by (auto simp: rg_queue_def)
  from rg.run_refines [OF this assms(3)] show ?thesis by simp
qed

theorem ring_run_refines_queue_witness:
  "snd (run_calls rg_call [PushLoad (1::nat) False, PushLoad 2 False, PushLoad 3 False,
     PushLoad 4 True, LenRead, PopLoad, PopLoad, PopLoad] (rg_new 2))
   = [PushOk None, PushOk None, PushErr 3, PushOk (Some 1), Counted 2,
      Popped (Some 2), Popped (Some 4), Popped None]"
  by (subst ring_run_refines_queue) simp_all

text \<open>
  A call that runs alone returns, after any number of spurious failures of its
  \<open>compare_exchange_weak\<close>, with the result and the contents of the bounded queue, and no
  slot is read before it was written.
\<close>

theorem ring_call_terminates:
  assumes "rg_queue cap r q" and "rg_entry pc"
  shows "\<exists>r'. rg_exec (replicate (3 * j) True @ replicate 7 False) r pc = (r', snd (bq_call cap pc q))
    \<and> rg_queue cap r' (fst (bq_call cap pc q)) \<and> rg_returned (snd (bq_call cap pc q))"
proof -
  have "rg_returned (snd (bq_call cap pc q))"
    using assms(2) by (cases pc) (auto split: list.splits)
  then show ?thesis using rg_exec_refines [OF assms] by blast
qed

theorem ring_call_terminates_witness:
  "\<exists>r'. rg_exec (replicate 9 True @ replicate 7 False) (rg_new 3) (PushLoad (1::nat) False)
      = (r', PushOk None) \<and> rg_queue 3 r' [1]"
proof -
  have "rg_queue 3 (rg_new 3) []" using rg_new_rep [of 3] by (auto simp: rg_queue_def)
  from ring_call_terminates [OF this, of "PushLoad (1::nat) False" 3] show ?thesis by simp
qed

text \<open>Dropping the ring pops and drops every remaining item once, oldest first.\<close>

theorem ring_drop_all:
  assumes "rg_queue cap r q"
  shows "rg_drop r [] = Some q"
  using rg_drop_items [OF assms, of "[]"] by simp

theorem ring_drop_all_witness:
  "rg_drop (fst (run_calls rg_call [PushLoad (1::nat) False, PushLoad 2 False, PopLoad,
     PushLoad 3 False] (rg_new 2))) [] = Some [2, 3]"
proof -
  have "rg_queue 2 (rg_new 2) []" using rg_new_rep [of 2] by (auto simp: rg_queue_def)
  from rg.run_refines [OF this, of "[PushLoad (1::nat) False, PushLoad 2 False, PopLoad,
    PushLoad 3 False]"]
  show ?thesis by (intro ring_drop_all [where cap = 2]) simp
qed

end
