(* ===== verification/RingThreads.thy ===== *)
theory RingThreads
  imports SpscRing
begin

text \<open>
  The ring of \<open>src/spsc.rs\<close> shared by any number of threads that push, overwrite, pop and count
  at the same time, one atomic access of \<open>rg_step\<close> at a time. \<open>Ring\<close> is \<open>Sync\<close> and both handles
  take \<open>&self\<close>, so this is the use that the source allows.

  Beside the ring runs the bounded queue \<open>bq_call\<close>: \<open>rg_effect\<close> names the access at which a call
  takes effect on the queue and the result the queue gives it. An overwriting push is two calls
  of the queue, a pop and a push.

  Positions are words that repeat after at least \<open>2 ^ 62\<close> operations; the results are for schedules
  of at most \<open>2 ^ 61\<close> accesses, in which no position is used twice.
\<close>

section \<open>The threads and the queue beside them\<close>

record 'a ring_sys =
  rs_ring :: "'a ring"
  rs_pc :: "nat \<Rightarrow> 'a rg_pc"
  rs_queue :: "'a list"
  rs_lin :: "nat \<Rightarrow> 'a rg_pc option"

definition rs_init :: "nat \<Rightarrow> 'a ring_sys" where
  "rs_init cap = \<lparr>rs_ring = rg_new cap, rs_pc = (\<lambda>_. Counted 0), rs_queue = [],
     rs_lin = (\<lambda>_. Some (Counted 0))\<rparr>"

definition bq_take :: "'a list \<Rightarrow> 'a list \<times> 'a rg_pc option" where
  "bq_take q = (case bq_call 0 PopLoad q of
     (q', Popped d) \<Rightarrow> (q', Some (PushOk d)) | (q', _) \<Rightarrow> (q', None))"

fun rg_effect :: "nat \<Rightarrow> bool \<Rightarrow> 'a ring \<Rightarrow> 'a rg_pc \<Rightarrow> 'a list \<times> 'a rg_pc option
    \<Rightarrow> 'a list \<times> 'a rg_pc option" where
  "rg_effect cap spurious r (PushCas x ow position) (q, res) =
     (if rg_write r = position \<and> \<not> spurious
      then map_prod id Some (bq_call cap (PushLoad x False) q) else (q, res))"
| "rg_effect cap spurious r (PushFull x ow position) (q, res) =
     (if rg_read r = position - rg_lap r \<and> \<not> ow
      then map_prod id Some (bq_call cap (PushLoad x False) q) else (q, res))"
| "rg_effect cap spurious r (PushReserve x position) (q, res) =
     (if rg_read r = position - rg_lap r then bq_take q else (q, res))"
| "rg_effect cap spurious r (PushStoreWrite x position) (q, res) =
     (fst (bq_call cap (PushLoad x False) q), res)"
| "rg_effect cap spurious r (PopCas position) (q, res) =
     (if rg_read r = position \<and> \<not> spurious
      then map_prod id Some (bq_call cap PopLoad q) else (q, res))"
| "rg_effect cap spurious r (PopEmpty position) (q, res) =
     (if rg_write r = position then map_prod id Some (bq_call cap PopLoad q) else (q, res))"
| "rg_effect cap spurious r (LenWrite read) (q, res) = map_prod id Some (bq_call cap LenRead q)"
| "rg_effect cap spurious r pc (q, res) = (q, res)"

datatype 'a ring_cmd = RingCall nat "'a rg_pc" | RingStep nat bool

fun rs_do :: "nat \<Rightarrow> 'a ring_cmd \<Rightarrow> 'a ring_sys \<Rightarrow> 'a ring_sys" where
  "rs_do cap (RingCall t pc) s =
     (if rg_returned (rs_pc s t) \<and> rg_entry pc
      then s\<lparr>rs_pc := (rs_pc s)(t := pc), rs_lin := (rs_lin s)(t := None)\<rparr> else s)"
| "rs_do cap (RingStep t spurious) s =
     (case rg_step spurious (rs_ring s) (rs_pc s t) of (r', pc') \<Rightarrow>
      case rg_effect cap spurious (rs_ring s) (rs_pc s t) (rs_queue s, rs_lin s t) of (q', res) \<Rightarrow>
        \<lparr>rs_ring = r', rs_pc = (rs_pc s)(t := pc'), rs_queue = q', rs_lin = (rs_lin s)(t := res)\<rparr>)"

section \<open>Positions do not repeat\<close>

lemma enc_unat:
  assumes c: "cap \<le> 2 ^ m" "0 < cap" "2 ^ m < 2 * cap" "m \<le> 60" and k: "k < 2 ^ 62"
  shows "unat (enc m cap k) = k div cap * 2 ^ Suc m + 2 * (k mod cap)"
proof -
  have "(2::nat) ^ (63 - m) * 2 ^ m = 2 ^ 63" using c(4) by (simp flip: power_add)
  moreover have "(2::nat) ^ (63 - m) * 2 ^ m < 2 ^ (63 - m) * (2 * cap)" using c(3) by simp
  ultimately have "k < 2 ^ (63 - m) * cap" using k by (simp add: mult.commute)
  then have "k div cap < 2 ^ (63 - m)" by (simp add: less_mult_imp_div_less)
  then have "Suc (k div cap) * 2 ^ Suc m \<le> 2 ^ (63 - m) * 2 ^ Suc m" by (intro mult_right_mono) auto
  also have "(2::nat) ^ (63 - m) * 2 ^ Suc m = 2 ^ 64"
    using c(4) by (simp flip: power_add power_Suc)
  finally have "k div cap * 2 ^ Suc m + 2 ^ Suc m \<le> (2::nat) ^ 64" by simp
  moreover have "2 * (k mod cap) < 2 ^ Suc m"
    using mod_less_divisor [OF c(2), of k] c(1) by simp
  ultimately show ?thesis unfolding enc_def by (intro unat_of_nat_64) linarith
qed

lemma enc_inj:
  assumes c: "cap \<le> 2 ^ m" "0 < cap" "2 ^ m < 2 * cap" "m \<le> 60" and k: "i < 2 ^ 62" "j < 2 ^ 62"
  shows "enc m cap i = enc m cap j \<longleftrightarrow> i = j"
proof
  assume e: "enc m cap i = enc m cap j"
  have "2 * (i mod cap) = 2 * (j mod cap)"
    using enc_mod [OF c(1,2,4)] e by metis
  moreover have "i div cap * 2 ^ Suc m + 2 * (i mod cap) = j div cap * 2 ^ Suc m + 2 * (j mod cap)"
    using enc_unat [OF c k(1)] enc_unat [OF c k(2)] e by simp
  ultimately have "i mod cap = j mod cap" "i div cap = j div cap" by simp_all
  then show "i = j" by (metis div_mult_mod_eq)
qed simp

section \<open>The invariant\<close>

text \<open>
  Ticket \<open>k\<close> is the position \<open>enc m c k\<close>, in slot \<open>k mod c\<close>. \<open>h\<close> tickets have been claimed by
  pops, \<open>h + length q\<close> by pushes. A thread holds a ticket while it may access the cell of its
  slot: a push the ticket it claimed, a pop the ticket that will use the slot next.
\<close>

fun rg_hold :: "usize \<Rightarrow> 'a rg_pc \<Rightarrow> usize option" where
  "rg_hold lap (PushWrite x p) = Some p"
| "rg_hold lap (PushStoreWrite x p) = Some p"
| "rg_hold lap (PushReplace x p) = Some p"
| "rg_hold lap (PushPublish p d) = Some p"
| "rg_hold lap (PopRead p) = Some (p + lap)"
| "rg_hold lap (PopPublish p x) = Some (p + lap)"
| "rg_hold lap _ = None"

text \<open>
  What a program counter knows, from the head \<open>h\<close>, the queue, the stamp and the value in the
  slot of each ticket, the tickets that are held, and the result the queue gave the call.
\<close>

definition tick_at :: "(nat \<Rightarrow> usize) \<Rightarrow> usize \<Rightarrow> (nat \<Rightarrow> bool) \<Rightarrow> bool" where
  "tick_at e p P \<longleftrightarrow> (\<exists>k. p = e k \<and> P k)"

lemma tick_at_mono: "tick_at e p P \<Longrightarrow> (\<And>k. p = e k \<Longrightarrow> P k \<Longrightarrow> Q k) \<Longrightarrow> tick_at e p Q"
  by (auto simp: tick_at_def)

lemma tick_atI: "P k \<Longrightarrow> tick_at e (e k) P"
  by (auto simp: tick_at_def)

lemma tick_atE: "tick_at e p P \<Longrightarrow> (\<And>k. p = e k \<Longrightarrow> P k \<Longrightarrow> Q) \<Longrightarrow> Q"
  by (auto simp: tick_at_def)

fun rg_pc_ok :: "(nat \<Rightarrow> usize) \<Rightarrow> nat \<Rightarrow> nat \<Rightarrow> 'a list \<Rightarrow> (nat \<Rightarrow> usize) \<Rightarrow> (nat \<Rightarrow> 'a option)
    \<Rightarrow> (nat \<Rightarrow> bool) \<Rightarrow> 'a rg_pc option \<Rightarrow> 'a rg_pc \<Rightarrow> bool" where
  "rg_pc_ok e c h q st val held res (PushLoad x ow) \<longleftrightarrow> res = None"
| "rg_pc_ok e c h q st val held res (PushStamp x ow p) \<longleftrightarrow>
     res = None \<and> tick_at e p (\<lambda>j. j \<le> h + length q)"
| "rg_pc_ok e c h q st val held res (PushCas x ow p) \<longleftrightarrow> res = None \<and> tick_at e p (\<lambda>j.
     j \<le> h + length q \<and> (j = h + length q \<longrightarrow> length q < c \<and> \<not> held j))"
| "rg_pc_ok e c h q st val held res (PushFull x ow p) \<longleftrightarrow>
     res = None \<and> tick_at e p (\<lambda>j. j \<le> h + length q \<and> (j = h + c \<longrightarrow> \<not> held h))"
| "rg_pc_ok e c h q st val held res (PushReserve x p) \<longleftrightarrow>
     res = None \<and> tick_at e p (\<lambda>j. j \<le> h + length q \<and> (j = h + c \<longrightarrow> \<not> held h))"
| "rg_pc_ok e c h q st val held res (PushWrite x p) \<longleftrightarrow> res = Some (PushOk None)
     \<and> tick_at e p (\<lambda>k. h \<le> k \<and> k < h + length q \<and> q ! (k - h) = x \<and> st k = e k)"
| "rg_pc_ok e c h q st val held res (PushStoreWrite x p) \<longleftrightarrow> tick_at e p (\<lambda>k.
     k = h + length q \<and> length q < c \<and> c \<le> k \<and> st k = e (k - c) + 1
     \<and> (\<exists>d. val k = Some d \<and> res = Some (PushOk (Some d))))"
| "rg_pc_ok e c h q st val held res (PushReplace x p) \<longleftrightarrow> tick_at e p (\<lambda>k.
     h \<le> k \<and> k < h + length q \<and> q ! (k - h) = x \<and> c \<le> k \<and> st k = e (k - c) + 1
     \<and> (\<exists>d. val k = Some d \<and> res = Some (PushOk (Some d))))"
| "rg_pc_ok e c h q st val held res (PushPublish p d) \<longleftrightarrow> res = Some (PushOk d)
     \<and> tick_at e p (\<lambda>k. h \<le> k \<and> k < h + length q \<and> val k = Some (q ! (k - h))
          \<and> (st k = e k \<or> c \<le> k \<and> st k = e (k - c) + 1))"
| "rg_pc_ok e c h q st val held res PopLoad \<longleftrightarrow> res = None"
| "rg_pc_ok e c h q st val held res (PopStamp p) \<longleftrightarrow> res = None \<and> tick_at e p (\<lambda>j. j \<le> h)"
| "rg_pc_ok e c h q st val held res (PopCas p) \<longleftrightarrow>
     res = None \<and> tick_at e p (\<lambda>j. j \<le> h \<and> (j = h \<longrightarrow> q \<noteq> [] \<and> \<not> held h))"
| "rg_pc_ok e c h q st val held res (PopRead p) \<longleftrightarrow> tick_at e p (\<lambda>j.
     j < h \<and> h + length q \<le> j + c \<and> st (j + c) = e j + 1
       \<and> (\<exists>x. val (j + c) = Some x \<and> res = Some (Popped (Some x))))"
| "rg_pc_ok e c h q st val held res (PopPublish p x) \<longleftrightarrow> res = Some (Popped (Some x))
     \<and> tick_at e p (\<lambda>j. j < h \<and> h + length q \<le> j + c \<and> st (j + c) = e j + 1)"
| "rg_pc_ok e c h q st val held res (PopEmpty p) \<longleftrightarrow> res = None \<and> tick_at e p (\<lambda>j. j \<le> h)"
| "rg_pc_ok e c h q st val held res LenRead \<longleftrightarrow> True"
| "rg_pc_ok e c h q st val held res (LenWrite p) \<longleftrightarrow> tick_at e p (\<lambda>j. j \<le> h)"
| "rg_pc_ok e c h q st val held res (LenCheck p w) \<longleftrightarrow> tick_at e p (\<lambda>j. j \<le> h
     \<and> (j = h \<longrightarrow> (\<exists>n \<le> c. w = e (h + n) \<and> res = Some (Counted (of_nat n)))))"
| "rg_pc_ok e c h q st val held res RgFault \<longleftrightarrow> False"
| "rg_pc_ok e c h q st val held res pc \<longleftrightarrow> res = Some pc"

definition rg_shape :: "nat \<Rightarrow> nat \<Rightarrow> nat \<Rightarrow> nat \<Rightarrow> 'a ring \<Rightarrow> 'a list \<Rightarrow> bool" where
  "rg_shape m c h n r q \<longleftrightarrow> cap_ok m r \<and> length (rg_slots r) = c \<and> 2 ^ m < 2 * c \<and> length q \<le> c
     \<and> rg_read r = enc m c h \<and> rg_write r = enc m c (h + length q) \<and> h + length q \<le> n \<and> n \<le> 2 ^ 61"

text \<open>A slot that nobody holds is full or free.\<close>

definition rg_slots_ok :: "(nat \<Rightarrow> usize) \<Rightarrow> nat \<Rightarrow> nat \<Rightarrow> 'a list \<Rightarrow> (nat \<Rightarrow> usize)
    \<Rightarrow> (nat \<Rightarrow> 'a option) \<Rightarrow> (nat \<Rightarrow> bool) \<Rightarrow> bool" where
  "rg_slots_ok e c h q st val held \<longleftrightarrow> (\<forall>k. h \<le> k \<longrightarrow> k < h + c \<longrightarrow> \<not> held k \<longrightarrow>
     (if k < h + length q then st k = e k + 1 \<and> val k = Some (q ! (k - h)) else st k = e k))"

abbreviation st_of :: "nat \<Rightarrow> nat \<Rightarrow> 'a ring \<Rightarrow> nat \<Rightarrow> usize" where
  "st_of m c r k \<equiv> rg_stamp r (enc m c k)"

abbreviation val_of :: "nat \<Rightarrow> nat \<Rightarrow> 'a ring \<Rightarrow> nat \<Rightarrow> 'a option" where
  "val_of m c r k \<equiv> rg_value r (enc m c k)"

definition held_by :: "nat \<Rightarrow> nat \<Rightarrow> usize \<Rightarrow> (nat \<Rightarrow> 'a rg_pc) \<Rightarrow> nat \<Rightarrow> bool" where
  "held_by m c lap pc k \<longleftrightarrow> (\<exists>t. rg_hold lap (pc t) = Some (enc m c k))"

definition rg_threads_ok :: "nat \<Rightarrow> nat \<Rightarrow> nat \<Rightarrow> nat \<Rightarrow> 'a ring_sys \<Rightarrow> bool" where
  "rg_threads_ok m c h n s \<longleftrightarrow>
     rg_shape m c h n (rs_ring s) (rs_queue s)
   \<and> rg_slots_ok (enc m c) c h (rs_queue s) (st_of m c (rs_ring s)) (val_of m c (rs_ring s))
       (held_by m c (rg_lap (rs_ring s)) (rs_pc s))
   \<and> (\<forall>t. rg_pc_ok (enc m c) c h (rs_queue s) (st_of m c (rs_ring s)) (val_of m c (rs_ring s))
       (held_by m c (rg_lap (rs_ring s)) (rs_pc s)) (rs_lin s t) (rs_pc s t))
   \<and> (\<forall>t u p. rg_hold (rg_lap (rs_ring s)) (rs_pc s t) = Some p \<longrightarrow>
       rg_hold (rg_lap (rs_ring s)) (rs_pc s u) = Some p \<longrightarrow> t = u)"

section \<open>What other threads and slots keep\<close>

definition tickets :: "(nat \<Rightarrow> usize) \<Rightarrow> nat \<Rightarrow> usize \<Rightarrow> bool" where
  "tickets e c lap \<longleftrightarrow> 0 < c \<and> c \<le> 2 ^ 60 \<and> (\<forall>k. e (k + c) = e k + lap)
     \<and> (\<forall>i j. e i \<noteq> e j + 1) \<and> (\<forall>i j. i < 2 ^ 62 \<longrightarrow> j < 2 ^ 62 \<longrightarrow> e i = e j \<longrightarrow> i = j)"

lemma ticketsD:
  assumes "tickets e c lap"
  shows "0 < c" "c \<le> 2 ^ 60" "e (k + c) = e k + lap" "e i \<noteq> e j + 1"
    "i < 2 ^ 62 \<Longrightarrow> j < 2 ^ 62 \<Longrightarrow> e i = e j \<longleftrightarrow> i = j"
  using assms by (auto simp: tickets_def)

text \<open>A push claims the next ticket, or an overwriting push that holds it gives it out.\<close>

lemma pc_ok_append:
  assumes tk: "tickets e c lap" and room: "length q < c"
    and ok: "rg_pc_ok e c h q st val held res p" and ex: "rg_hold lap p \<noteq> Some (e (h + length q))"
    and held: "held' h \<Longrightarrow> held h \<or> q = []"
  shows "rg_pc_ok e c h (q @ [x]) st val held' res p"
proof -
  have T: "e j + lap = e (j + c)" for j using ticketsD(3) [OF tk] by simp
  have neq: "e j + lap \<noteq> e (h + length q) \<Longrightarrow> j + c \<noteq> h + length q" for j
    by (metis T)
  show ?thesis
    using ok ex room held
    by (cases p) (auto elim!: tick_at_mono dest!: neq simp: nth_append)
qed

text \<open>A pop or an overwriting push claims the head.\<close>

lemma pc_ok_take:
  assumes b: "length q \<le> c" "q \<noteq> []"
    and ok: "rg_pc_ok e c h q st val held res p" and ex: "rg_hold lap p \<noteq> Some (e h)"
    and held: "held' (h + length q) \<Longrightarrow> held (h + length q) \<or> length q = c"
  shows "rg_pc_ok e c (Suc h) (tl q) st val held' res p"
proof -
  obtain y ys where q: "q = y # ys" using b(2) by (cases q) auto
  have *: "(y # ys) ! (k - h) = ys ! (k - Suc h) \<and> Suc h \<le> k" if "h \<le> k" "e k \<noteq> e h" for k
  proof -
    have "h < k" using that by (cases "k = h") auto
    then obtain n where "k = Suc (h + n)" using less_imp_Suc_add by blast
    then show ?thesis by simp
  qed
  show ?thesis
    using ok b(1) ex held unfolding q
    by (cases p) (auto elim!: tick_at_mono simp: *)
qed

text \<open>A thread that holds a ticket writes to its slot.\<close>

lemma window_inj:
  assumes "h \<le> k" "k < h + c" "h \<le> k0" "k0 < h + c" "k mod c = k0 mod (c::nat)"
  shows "k = k0"
proof -
  have "k - h = k0 - h"
    using mod_add_inj [of h "k - h" c "k0 - h"] assms by simp
  then show ?thesis using assms by linarith
qed

lemma pc_ok_slot:
  assumes tk: "tickets e c lap" and k0: "h \<le> k0" "k0 < h + c" and len: "length q \<le> c"
    and ok: "rg_pc_ok e c h q st val held res p" and ex: "rg_hold lap p \<noteq> Some (e k0)"
    and held: "\<And>k. held' k \<Longrightarrow> held k"
    and same: "\<And>k. k mod c \<noteq> k0 mod c \<Longrightarrow> st' k = st k \<and> val' k = val k"
  shows "rg_pc_ok e c h q st' val' held' res p"
proof -
  have T: "e j + lap = e (j + c)" for j using ticketsD(3) [OF tk] by simp
  have *: "st' k = st k \<and> val' k = val k" if "h \<le> k" "k < h + c" "e k \<noteq> e k0" for k
    using window_inj [of h k c k0] that k0 same [of k] by blast
  have **: "st' (j + c) = st (j + c) \<and> val' (j + c) = val (j + c)"
    if "j < h" "h + length q \<le> j + c" "e (j + c) \<noteq> e k0" for j
    using * [of "j + c"] that by simp
  show ?thesis
    using ok len ex held
    by (cases p) (auto elim!: tick_at_mono simp: T * **)
qed

text \<open>The slots, under the same three changes.\<close>

lemma slots_ok_append:
  assumes ok: "rg_slots_ok e c h q st val held" and held: "\<And>k. held k \<Longrightarrow> held' k"
    and mine: "held' (h + length q)"
  shows "rg_slots_ok e c h (q @ [x]) st val held'"
  unfolding rg_slots_ok_def
proof (intro allI impI)
  fix k assume k: "h \<le> k" "k < h + c" "\<not> held' k"
  then have "\<not> held k" "k \<noteq> h + length q" using held mine by auto
  then show "if k < h + length (q @ [x]) then st k = e k + 1 \<and> val k = Some ((q @ [x]) ! (k - h))
      else st k = e k"
    using ok k by (auto simp: rg_slots_ok_def nth_append)
qed

lemma slots_ok_take:
  assumes ok: "rg_slots_ok e c h q st val held" and held: "\<And>k. held k \<Longrightarrow> held' k"
    and mine: "held' (h + c)" and q: "q \<noteq> []"
  shows "rg_slots_ok e c (Suc h) (tl q) st val held'"
proof -
  obtain y ys where q: "q = y # ys" using q by (cases q) auto
  have *: "(y # ys) ! (k - h) = ys ! (k - Suc h)" if "Suc h \<le> k" for k
  proof -
    from that obtain n where "k = Suc (h + n)" using less_imp_Suc_add [of h k] by auto
    then show ?thesis by simp
  qed
  show ?thesis
    unfolding rg_slots_ok_def
  proof (intro allI impI)
    fix k assume k: "Suc h \<le> k" "k < Suc h + c" "\<not> held' k"
    then have "\<not> held k" "k \<noteq> h + c" using held mine by auto
    then show "if k < Suc h + length (tl q) then st k = e k + 1 \<and> val k = Some (tl q ! (k - Suc h))
        else st k = e k"
      using ok k * [OF k(1)] by (simp add: rg_slots_ok_def q)
  qed
qed

lemma slots_ok_slot:
  assumes ok: "rg_slots_ok e c h q st val held" and k0: "h \<le> k0" "k0 < h + c"
    and held: "\<And>k. held k \<Longrightarrow> k < 2 ^ 62 \<Longrightarrow> held' k \<or> k = k0" and b: "h + c \<le> 2 ^ 62"
    and same: "\<And>k. k mod c \<noteq> k0 mod c \<Longrightarrow> st' k = st k \<and> val' k = val k"
    and mine: "held' k0 \<or> (if k0 < h + length q then st' k0 = e k0 + 1 \<and> val' k0 = Some (q ! (k0 - h))
      else st' k0 = e k0)"
  shows "rg_slots_ok e c h q st' val' held'"
  unfolding rg_slots_ok_def
proof (intro allI impI)
  fix k assume k: "h \<le> k" "k < h + c" "\<not> held' k"
  show "if k < h + length q then st' k = e k + 1 \<and> val' k = Some (q ! (k - h)) else st' k = e k"
  proof (cases "k = k0")
    case True
    then show ?thesis using mine k(3) by simp
  next
    case False
    have "k mod c \<noteq> k0 mod c" using window_inj [of h k c k0] k k0 False by blast
    moreover have "\<not> held k" using held [of k] k b False by auto
    ultimately show ?thesis using ok k same [of k] by (simp add: rg_slots_ok_def)
  qed
qed

section \<open>What a stamp tells\<close>

lemma hold_pc:
  "rg_hold lap p = Some w \<Longrightarrow> rg_pc_ok e c h q st val held res p \<Longrightarrow> tickets e c lap
    \<Longrightarrow> length q \<le> c \<Longrightarrow> \<exists>k. w = e k \<and> h \<le> k \<and> k < h + c
      \<and> (k < h + length q \<and> st k = e k \<or> c \<le> k \<and> st k = e (k - c) + 1)"
  by (cases p) (auto elim!: tick_atE simp flip: ticketsD(3))

section \<open>One access of one thread\<close>

lemma rg_shapeD:
  assumes "rg_shape m c h n r q"
  shows "cap_ok m r" "length (rg_slots r) = c" "length q \<le> c" "rg_read r = enc m c h"
    "rg_write r = enc m c (h + length q)" "tickets (enc m c) c (rg_lap r)" "0 < c" "c \<le> 2 ^ 60"
    "h + length q \<le> 2 ^ 61" "rg_index r (enc m c k) = k mod c" "rg_index r (enc m c k) < length (rg_slots r)"
    "rg_next r (enc m c k) = enc m c (Suc k)"
proof -
  show ok: "cap_ok m r" and len: "length (rg_slots r) = c" and "length q \<le> c"
    "rg_read r = enc m c h" "rg_write r = enc m c (h + length q)" "h + length q \<le> 2 ^ 61"
    using assms by (auto simp: rg_shape_def)
  show c: "0 < c" and ix: "rg_index r (enc m c k) = k mod c"
    and "rg_next r (enc m c k) = enc m c (Suc k)"
    using ok rg_index_enc [OF ok, of k] rg_next_enc [OF ok, of k] len by (auto simp: cap_ok_def)
  then show "rg_index r (enc m c k) < length (rg_slots r)" using len by simp
  have "c \<le> 2 ^ m" "m \<le> 60" using ok len by (auto simp: cap_ok_def)
  moreover from this(2) have "(2::nat) ^ m \<le> 2 ^ 60" by (intro power_increasing) auto
  ultimately show c60: "c \<le> 2 ^ 60" by linarith
  show "tickets (enc m c) c (rg_lap r)"
    using enc_add_cap [OF c, of m] enc_inj [of c m] assms c c60 ok len
    by (auto simp: tickets_def rg_shape_def cap_ok_def)
qed

lemma held_by_upd:
  "held_by m c lap (pc(t := p)) k \<longleftrightarrow>
     rg_hold lap p = Some (enc m c k) \<or> (\<exists>u. u \<noteq> t \<and> rg_hold lap (pc u) = Some (enc m c k))"
  unfolding held_by_def by (metis fun_upd_other fun_upd_same)

lemma held_by_split:
  "held_by m c lap pc k \<longleftrightarrow>
     rg_hold lap (pc t) = Some (enc m c k) \<or> (\<exists>u. u \<noteq> t \<and> rg_hold lap (pc u) = Some (enc m c k))"
  unfolding held_by_def by metis

lemma threads_step:
  fixes s :: "'a ring_sys" and t :: nat and p' :: "'a rg_pc" and m c :: nat
  defines "held' \<equiv> held_by m c (rg_lap (rs_ring s)) ((rs_pc s)(t := p'))"
  assumes ok: "rg_threads_ok m c h n s"
    and shape: "rg_shape m c h' n' r' q'" and lap: "rg_lap r' = rg_lap (rs_ring s)"
    and own: "\<And>w u. rg_hold (rg_lap (rs_ring s)) p' = Some w \<Longrightarrow> u \<noteq> t \<Longrightarrow>
      rg_hold (rg_lap (rs_ring s)) (rs_pc s u) \<noteq> Some w"
    and slots: "rg_slots_ok (enc m c) c h' q' (st_of m c r') (val_of m c r') held'"
    and self: "rg_pc_ok (enc m c) c h' q' (st_of m c r') (val_of m c r') held' res p'"
    and others: "\<And>u. u \<noteq> t \<Longrightarrow> rg_pc_ok (enc m c) c h' q' (st_of m c r') (val_of m c r') held'
      (rs_lin s u) (rs_pc s u)"
  shows "rg_threads_ok m c h' n'
    \<lparr>rs_ring = r', rs_pc = (rs_pc s)(t := p'), rs_queue = q', rs_lin = (rs_lin s)(t := res)\<rparr>"
proof -
  have "a = b" if "rg_hold (rg_lap (rs_ring s)) (((rs_pc s)(t := p')) a) = Some w"
    "rg_hold (rg_lap (rs_ring s)) (((rs_pc s)(t := p')) b) = Some w" for a b w
  proof (cases "a = t \<or> b = t")
    case True
    then show ?thesis using that own [of w a] own [of w b] by (auto split: if_splits)
  next
    case False
    then show ?thesis using that ok unfolding rg_threads_ok_def by (metis fun_upd_other)
  qed
  moreover have "rg_pc_ok (enc m c) c h' q' (st_of m c r') (val_of m c r') held'
      (((rs_lin s)(t := res)) u) (((rs_pc s)(t := p')) u)" for u
    using self others [of u] by (cases "u = t") simp_all
  ultimately show ?thesis
    using shape slots unfolding rg_threads_ok_def ring_sys.select_convs lap held'_def by blast
qed

lemma rg_threads_okD:
  assumes "rg_threads_ok m c h n s"
  shows "rg_shape m c h n (rs_ring s) (rs_queue s)"
    "rg_slots_ok (enc m c) c h (rs_queue s) (st_of m c (rs_ring s)) (val_of m c (rs_ring s))
       (held_by m c (rg_lap (rs_ring s)) (rs_pc s))"
    "rg_pc_ok (enc m c) c h (rs_queue s) (st_of m c (rs_ring s)) (val_of m c (rs_ring s))
       (held_by m c (rg_lap (rs_ring s)) (rs_pc s)) (rs_lin s t) (rs_pc s t)"
    "rg_hold (rg_lap (rs_ring s)) (rs_pc s t) = Some p \<Longrightarrow>
       rg_hold (rg_lap (rs_ring s)) (rs_pc s u) = Some p \<Longrightarrow> t = u"
  using assms unfolding rg_threads_ok_def by blast+

text \<open>An access that changes nothing that is shared.\<close>

lemma threads_local:
  assumes ok: "rg_threads_ok m c h n s" and n: "n \<le> n'" "n' \<le> 2 ^ 61"
    and hold: "rg_hold (rg_lap (rs_ring s)) (rs_pc s t) = None" "rg_hold (rg_lap (rs_ring s)) p' = None"
    and self: "rg_pc_ok (enc m c) c h (rs_queue s) (st_of m c (rs_ring s)) (val_of m c (rs_ring s))
      (held_by m c (rg_lap (rs_ring s)) (rs_pc s)) res p'"
  shows "rg_threads_ok m c h n' \<lparr>rs_ring = rs_ring s, rs_pc = (rs_pc s)(t := p'),
    rs_queue = rs_queue s, rs_lin = (rs_lin s)(t := res)\<rparr>"
proof -
  have h: "held_by m c (rg_lap (rs_ring s)) ((rs_pc s)(t := p')) = held_by m c (rg_lap (rs_ring s)) (rs_pc s)"
    using hold by (auto simp: fun_eq_iff held_by_upd held_by_split [where pc = "rs_pc s" and t = t])
  show ?thesis
    by (rule threads_step [OF ok])
      (use rg_threads_okD [OF ok] self n in \<open>auto simp: h hold rg_shape_def\<close>)
qed

text \<open>A held ticket is in the window, and its slot has a stamp of the last round or a fresh one.\<close>

lemma threads_held:
  assumes ok: "rg_threads_ok m c h n s" and w: "rg_hold (rg_lap (rs_ring s)) (rs_pc s t) = Some w"
  obtains k where "w = enc m c k" "h \<le> k" "k < h + c"
    "k < h + length (rs_queue s) \<and> st_of m c (rs_ring s) k = enc m c k
     \<or> c \<le> k \<and> st_of m c (rs_ring s) k = enc m c (k - c) + 1"
proof -
  note D = rg_threads_okD [OF ok] and S = rg_shapeD [OF rg_threads_okD(1) [OF ok]]
  from hold_pc [OF w D(3) S(6,3)] that show thesis by blast
qed

lemma threads_inj:
  assumes "rg_threads_ok m c h n s" "i \<le> h + c" "j \<le> h + c" "enc m c i = enc m c j"
  shows "i = j"
proof -
  note S = rg_shapeD [OF rg_threads_okD(1) [OF assms(1)]]
  have "h + c < 2 ^ 62" using S(8,9) by simp
  then show ?thesis using ticketsD(5) [OF S(6), of i j] assms(2-4) by simp
qed

lemma threads_append:
  fixes s :: "'a ring_sys" and m c h :: nat and x :: 'a
  defines "w \<equiv> h + length (rs_queue s)"
    and "r' \<equiv> rs_ring s\<lparr>rg_write := enc m c (Suc (h + length (rs_queue s)))\<rparr>"
  assumes ok: "rg_threads_ok m c h n s" and n: "Suc n \<le> 2 ^ 61" and room: "length (rs_queue s) < c"
    and mine: "\<And>u. u \<noteq> t \<Longrightarrow> rg_hold (rg_lap (rs_ring s)) (rs_pc s u) \<noteq> Some (enc m c w)"
    and hold: "\<And>v. rg_hold (rg_lap (rs_ring s)) (rs_pc s t) = Some v \<Longrightarrow> v = enc m c w"
      "rg_hold (rg_lap (rs_ring s)) p' = Some (enc m c w)"
    and self: "rg_pc_ok (enc m c) c h (rs_queue s @ [x]) (st_of m c r') (val_of m c r')
      (held_by m c (rg_lap (rs_ring s)) ((rs_pc s)(t := p'))) res p'"
  shows "rg_threads_ok m c h (Suc n) \<lparr>rs_ring = r', rs_pc = (rs_pc s)(t := p'),
    rs_queue = rs_queue s @ [x], rs_lin = (rs_lin s)(t := res)\<rparr>"
proof -
  note D = rg_threads_okD [OF ok] and S = rg_shapeD [OF rg_threads_okD(1) [OF ok]]
  let ?held = "held_by m c (rg_lap (rs_ring s)) (rs_pc s)"
    and ?held' = "held_by m c (rg_lap (rs_ring s)) ((rs_pc s)(t := p'))"
  have up: "?held k \<Longrightarrow> ?held' k" for k
    unfolding held_by_upd held_by_split [where pc = "rs_pc s" and t = t] using hold by auto
  have w: "?held' w" using hold(2) by (simp add: held_by_upd)
  have down: "?held h \<or> rs_queue s = []" if "?held' h"
  proof -
    have "enc m c h = enc m c w \<Longrightarrow> h = w"
      using room by (intro threads_inj [OF ok]) (auto simp: w_def)
    then show ?thesis
      using that hold(2) unfolding held_by_upd held_by_split [where pc = "rs_pc s" and t = t]
      by (auto simp: w_def)
  qed
  have v: "st_of m c r' = st_of m c (rs_ring s)" "val_of m c r' = val_of m c (rs_ring s)"
    by (auto simp: r'_def fun_eq_iff)
  show ?thesis
  proof (rule threads_step [OF ok])
    show "rg_shape m c h (Suc n) r' (rs_queue s @ [x])"
      using D(1) room n by (auto simp: rg_shape_def r'_def cap_ok_def)
    show "rg_slots_ok (enc m c) c h (rs_queue s @ [x]) (st_of m c r') (val_of m c r') ?held'"
      unfolding v using slots_ok_append [OF D(2) up] w by (simp add: w_def)
    show "rg_pc_ok (enc m c) c h (rs_queue s @ [x]) (st_of m c r') (val_of m c r') ?held'
        (rs_lin s u) (rs_pc s u)" if "u \<noteq> t" for u
      unfolding v using D(3) [of u] mine [OF that] down room
      by (intro pc_ok_append [OF S(6)]) (auto simp: w_def)
  qed (use self mine hold in \<open>auto simp: r'_def\<close>)
qed

lemma threads_take:
  fixes s :: "'a ring_sys" and m c h :: nat
  defines "r' \<equiv> rs_ring s\<lparr>rg_read := enc m c (Suc h)\<rparr>"
  assumes ok: "rg_threads_ok m c h n s" and n: "Suc n \<le> 2 ^ 61" and q: "rs_queue s \<noteq> []"
    and free: "\<not> held_by m c (rg_lap (rs_ring s)) (rs_pc s) h"
    and hold: "rg_hold (rg_lap (rs_ring s)) (rs_pc s t) = None"
      "rg_hold (rg_lap (rs_ring s)) p' = Some (enc m c (h + c))"
    and self: "rg_pc_ok (enc m c) c (Suc h) (tl (rs_queue s)) (st_of m c r') (val_of m c r')
      (held_by m c (rg_lap (rs_ring s)) ((rs_pc s)(t := p'))) res p'"
  shows "rg_threads_ok m c (Suc h) (Suc n) \<lparr>rs_ring = r', rs_pc = (rs_pc s)(t := p'),
    rs_queue = tl (rs_queue s), rs_lin = (rs_lin s)(t := res)\<rparr>"
proof -
  note D = rg_threads_okD [OF ok] and S = rg_shapeD [OF rg_threads_okD(1) [OF ok]]
  let ?held = "held_by m c (rg_lap (rs_ring s)) (rs_pc s)"
    and ?held' = "held_by m c (rg_lap (rs_ring s)) ((rs_pc s)(t := p'))"
  have up: "?held k \<Longrightarrow> ?held' k" for k
    unfolding held_by_upd held_by_split [where pc = "rs_pc s" and t = t] using hold by auto
  have mine: "rg_hold (rg_lap (rs_ring s)) (rs_pc s u) \<noteq> Some (enc m c (h + c))" for u
  proof
    assume "rg_hold (rg_lap (rs_ring s)) (rs_pc s u) = Some (enc m c (h + c))"
    then obtain k where "enc m c (h + c) = enc m c k" "k < h + c" by (rule threads_held [OF ok])
    then show False using threads_inj [OF ok, of "h + c" k] by simp
  qed
  have w: "?held' (h + c)" using hold(2) by (simp add: held_by_upd)
  have down: "?held (h + length (rs_queue s)) \<or> length (rs_queue s) = c"
    if "?held' (h + length (rs_queue s))"
  proof -
    have "enc m c (h + length (rs_queue s)) = enc m c (h + c) \<Longrightarrow> h + length (rs_queue s) = h + c"
      using S(3) by (intro threads_inj [OF ok]) auto
    then show ?thesis
      using that hold(2) unfolding held_by_upd held_by_split [where pc = "rs_pc s" and t = t]
      by auto
  qed
  have v: "st_of m c r' = st_of m c (rs_ring s)" "val_of m c r' = val_of m c (rs_ring s)"
    by (auto simp: r'_def fun_eq_iff)
  show ?thesis
  proof (rule threads_step [OF ok])
    show "rg_shape m c (Suc h) (Suc n) r' (tl (rs_queue s))"
      using D(1) q n by (cases "rs_queue s") (auto simp: rg_shape_def r'_def cap_ok_def)
    show "rg_slots_ok (enc m c) c (Suc h) (tl (rs_queue s)) (st_of m c r') (val_of m c r') ?held'"
      unfolding v using D(2) up w q by (rule slots_ok_take)
    show "rg_pc_ok (enc m c) c (Suc h) (tl (rs_queue s)) (st_of m c r') (val_of m c r') ?held'
        (rs_lin s u) (rs_pc s u)" if "u \<noteq> t" for u
      unfolding v
    proof (rule pc_ok_take [OF S(3) q D(3) _ down])
      show "rg_hold (rg_lap (rs_ring s)) (rs_pc s u) \<noteq> Some (enc m c h)"
        using free by (auto simp: held_by_def)
    qed
  qed (use self mine hold in \<open>auto simp: r'_def\<close>)
qed

lemma threads_slot:
  fixes s :: "'a ring_sys" and m c h :: nat and r' :: "'a ring"
  assumes ok: "rg_threads_ok m c h n s" and k0: "h \<le> k0" "k0 < h + c"
    and shape: "rg_shape m c h n' r' (rs_queue s)" and lap: "rg_lap r' = rg_lap (rs_ring s)"
    and same: "\<And>k. k mod c \<noteq> k0 mod c \<Longrightarrow>
      st_of m c r' k = st_of m c (rs_ring s) k \<and> val_of m c r' k = val_of m c (rs_ring s) k"
    and hold: "rg_hold (rg_lap (rs_ring s)) (rs_pc s t) = Some (enc m c k0)"
      "rg_hold (rg_lap (rs_ring s)) p' = Some (enc m c k0)
       \<or> rg_hold (rg_lap (rs_ring s)) p' = None \<and> (if k0 < h + length (rs_queue s)
          then st_of m c r' k0 = enc m c k0 + 1 \<and> val_of m c r' k0 = Some (rs_queue s ! (k0 - h))
          else st_of m c r' k0 = enc m c k0)"
    and self: "rg_pc_ok (enc m c) c h (rs_queue s) (st_of m c r') (val_of m c r')
      (held_by m c (rg_lap (rs_ring s)) ((rs_pc s)(t := p'))) res p'"
  shows "rg_threads_ok m c h n' \<lparr>rs_ring = r', rs_pc = (rs_pc s)(t := p'),
    rs_queue = rs_queue s, rs_lin = (rs_lin s)(t := res)\<rparr>"
proof -
  note D = rg_threads_okD [OF ok] and S = rg_shapeD [OF rg_threads_okD(1) [OF ok]]
  let ?held = "held_by m c (rg_lap (rs_ring s)) (rs_pc s)"
    and ?held' = "held_by m c (rg_lap (rs_ring s)) ((rs_pc s)(t := p'))"
  have mine: "rg_hold (rg_lap (rs_ring s)) (rs_pc s u) \<noteq> Some (enc m c k0)" if "u \<noteq> t" for u
    using D(4) [OF hold(1)] that by blast
  have down: "?held' k \<Longrightarrow> ?held k" for k
    unfolding held_by_upd held_by_split [where pc = "rs_pc s" and t = t] using hold by auto
  have up: "?held' k \<or> k = k0" if "?held k" "k < 2 ^ 62" for k
  proof -
    have "enc m c k0 = enc m c k \<longleftrightarrow> k0 = k"
      using k0 S(8,9) that(2) by (intro ticketsD(5) [OF S(6)]) simp_all
    then show ?thesis
      using that(1) hold(1) unfolding held_by_upd held_by_split [where pc = "rs_pc s" and t = t] by auto
  qed
  have fin: "?held' k0 \<or> (if k0 < h + length (rs_queue s)
      then st_of m c r' k0 = enc m c k0 + 1 \<and> val_of m c r' k0 = Some (rs_queue s ! (k0 - h))
      else st_of m c r' k0 = enc m c k0)"
    using hold(2) by (auto simp: held_by_upd)
  show ?thesis
  proof (rule threads_step [OF ok shape lap])
    show "rg_slots_ok (enc m c) c h (rs_queue s) (st_of m c r') (val_of m c r') ?held'"
      using S(8,9) by (intro slots_ok_slot [OF D(2) k0 up _ same fin]) simp_all
    show "rg_pc_ok (enc m c) c h (rs_queue s) (st_of m c r') (val_of m c r') ?held'
        (rs_lin s u) (rs_pc s u)" if "u \<noteq> t" for u
      by (rule pc_ok_slot [OF S(6) k0 S(3) D(3) mine [OF that] down same])
  qed (use self mine hold in auto)
qed

text \<open>What the writes to a slot do to the slots of the tickets.\<close>

lemma set_slot_facts:
  assumes "rg_shape m c h n r q"
  shows "st_of m c (rg_set_stamp r (enc m c k0) w) k = (if k mod c = k0 mod c then w else st_of m c r k)"
    "val_of m c (rg_set_stamp r (enc m c k0) w) k = val_of m c r k"
    "st_of m c (rg_set_value r (enc m c k0) x) k = st_of m c r k"
    "val_of m c (rg_set_value r (enc m c k0) x) k = (if k mod c = k0 mod c then Some x else val_of m c r k)"
    "rg_lap (rg_set_stamp r p w) = rg_lap r" "rg_lap (rg_set_value r p x) = rg_lap r"
    "n \<le> n' \<Longrightarrow> n' \<le> 2 ^ 61 \<Longrightarrow> rg_shape m c h n' (rg_set_stamp r p w) q"
    "n \<le> n' \<Longrightarrow> n' \<le> 2 ^ 61 \<Longrightarrow> rg_shape m c h n' (rg_set_value r p x) q"
proof -
  note S = rg_shapeD [OF assms]
  have lt: "k0 mod c < length (rg_slots r)" using S(2,7) by simp
  have ix: "rg_index (rg_set_stamp r p w) = rg_index r" "rg_index (rg_set_value r p x) = rg_index r" for p
    by (auto simp: fun_eq_iff rg_set_stamp_def rg_set_value_def)
  show "st_of m c (rg_set_stamp r (enc m c k0) w) k = (if k mod c = k0 mod c then w else st_of m c r k)"
    "val_of m c (rg_set_stamp r (enc m c k0) w) k = val_of m c r k"
    "st_of m c (rg_set_value r (enc m c k0) x) k = st_of m c r k"
    "val_of m c (rg_set_value r (enc m c k0) x) k = (if k mod c = k0 mod c then Some x else val_of m c r k)"
    unfolding rg_stamp_def rg_value_def ix S(10)
    using lt by (auto simp: rg_set_stamp_def rg_set_value_def S(10) nth_list_update)
  show "n \<le> n' \<Longrightarrow> n' \<le> 2 ^ 61 \<Longrightarrow> rg_shape m c h n' (rg_set_stamp r p w) q"
    "n \<le> n' \<Longrightarrow> n' \<le> 2 ^ 61 \<Longrightarrow> rg_shape m c h n' (rg_set_value r p x) q"
    "rg_lap (rg_set_stamp r p w) = rg_lap r" "rg_lap (rg_set_value r p x) = rg_lap r"
    using assms by (auto simp: rg_shape_def cap_ok_def rg_set_stamp_def rg_set_value_def)
qed

text \<open>What a thread learns from the stamp it reads.\<close>

lemma stamp_full:
  assumes ok: "rg_threads_ok m c h n s"
    and st: "st_of m c (rs_ring s) h = enc m c h + 1"
  shows "rs_queue s \<noteq> [] \<and> \<not> held_by m c (rg_lap (rs_ring s)) (rs_pc s) h"
proof -
  note D = rg_threads_okD [OF ok] and S = rg_shapeD [OF rg_threads_okD(1) [OF ok]]
  have free: "\<not> held_by m c (rg_lap (rs_ring s)) (rs_pc s) h"
  proof
    assume "held_by m c (rg_lap (rs_ring s)) (rs_pc s) h"
    then obtain u where "rg_hold (rg_lap (rs_ring s)) (rs_pc s u) = Some (enc m c h)"
      by (auto simp: held_by_def)
    then obtain k where k: "enc m c h = enc m c k" "h \<le> k" "k < h + c"
      "k < h + length (rs_queue s) \<and> st_of m c (rs_ring s) k = enc m c k
       \<or> c \<le> k \<and> st_of m c (rs_ring s) k = enc m c (k - c) + 1"
      by (rule threads_held [OF ok])
    then have "k = h" using threads_inj [OF ok, of h k] by simp
    with k(4) st have "c \<le> h" "enc m c (h - c) = enc m c h" by auto
    then have "h - c = h" by (intro threads_inj [OF ok]) auto
    then show False using S(7) \<open>c \<le> h\<close> by linarith
  qed
  moreover have "rs_queue s \<noteq> []"
  proof
    assume "rs_queue s = []"
    with D(2) free S(7) have "st_of m c (rs_ring s) h = enc m c h" by (simp add: rg_slots_ok_def)
    then show False using st by simp
  qed
  ultimately show ?thesis by blast
qed

lemma stamp_free:
  assumes ok: "rg_threads_ok m c h n s"
    and st: "st_of m c (rs_ring s) (h + length (rs_queue s)) = enc m c (h + length (rs_queue s))"
  shows "length (rs_queue s) < c
    \<and> \<not> held_by m c (rg_lap (rs_ring s)) (rs_pc s) (h + length (rs_queue s))"
proof -
  note D = rg_threads_okD [OF ok] and S = rg_shapeD [OF rg_threads_okD(1) [OF ok]]
  let ?w = "h + length (rs_queue s)"
  have holder: "False" if "held_by m c (rg_lap (rs_ring s)) (rs_pc s) j" "j \<le> ?w"
    "st_of m c (rs_ring s) j = enc m c ?w" for j
  proof -
    from that(1) obtain u where "rg_hold (rg_lap (rs_ring s)) (rs_pc s u) = Some (enc m c j)"
      by (auto simp: held_by_def)
    then obtain k where k: "enc m c j = enc m c k" "h \<le> k" "k < h + c"
      "k < ?w \<and> st_of m c (rs_ring s) k = enc m c k
       \<or> c \<le> k \<and> st_of m c (rs_ring s) k = enc m c (k - c) + 1"
      by (rule threads_held [OF ok])
    then have "k = j" using threads_inj [OF ok, of j k] that(2) S(3) by simp
    with k(4) that(3) have "k < ?w" "enc m c k = enc m c ?w" by auto
    then show False using threads_inj [OF ok, of k ?w] S(3) by simp
  qed
  have room: "length (rs_queue s) < c"
  proof (rule ccontr)
    assume "\<not> length (rs_queue s) < c"
    then have full: "length (rs_queue s) = c" using S(3) by simp
    have sth: "st_of m c (rs_ring s) h = enc m c ?w"
      using st full by (simp add: rg_stamp_def S(10))
    then have "\<not> held_by m c (rg_lap (rs_ring s)) (rs_pc s) h" using holder [of h] by auto
    then have "st_of m c (rs_ring s) h = enc m c h + 1"
      using D(2) S(7) full by (simp add: rg_slots_ok_def)
    then show False using sth by simp
  qed
  then show ?thesis using holder [of ?w] st by auto
qed

section \<open>Every access keeps the invariant\<close>

lemma slot_again:
  assumes "rg_shape m c h n r q"
  shows "st_of m c r (k + c) = st_of m c r k" "val_of m c r (k + c) = val_of m c r k"
    "enc m c (k + c) - rg_lap r = enc m c k" "enc m c k + rg_lap r = enc m c (k + c)"
proof -
  show "st_of m c r (k + c) = st_of m c r k" "val_of m c r (k + c) = val_of m c r k"
    by (simp_all add: rg_stamp_def rg_value_def rg_shapeD(10) [OF assms])
  show "enc m c (k + c) - rg_lap r = enc m c k" "enc m c k + rg_lap r = enc m c (k + c)"
    using ticketsD(3) [OF rg_shapeD(6) [OF assms], of k] by simp_all
qed

text \<open>The accesses after which nothing that is shared has changed.\<close>

fun rg_reads :: "'a rg_pc \<Rightarrow> bool" where
  "rg_reads (PushLoad x ow) = True"
| "rg_reads (PushStamp x ow p) = True"
| "rg_reads (PushFull x ow p) = True"
| "rg_reads PopLoad = True"
| "rg_reads (PopStamp p) = True"
| "rg_reads (PopEmpty p) = True"
| "rg_reads LenRead = True"
| "rg_reads (LenWrite p) = True"
| "rg_reads (LenCheck p w) = True"
| "rg_reads p = rg_returned p"

abbreviation pc_ok_in :: "nat \<Rightarrow> nat \<Rightarrow> nat \<Rightarrow> 'a ring_sys \<Rightarrow> 'a rg_pc option \<Rightarrow> 'a rg_pc \<Rightarrow> bool" where
  "pc_ok_in m c h s res p \<equiv> rg_pc_ok (enc m c) c h (rs_queue s) (st_of m c (rs_ring s))
     (val_of m c (rs_ring s)) (held_by m c (rg_lap (rs_ring s)) (rs_pc s)) res p"

lemma reads_push:
  assumes ok: "rg_threads_ok m c h n s" and p: "pc_ok_in m c h s res (PushStamp x ow p)"
  shows "\<exists>p'. rg_step b (rs_ring s) (PushStamp x ow p) = (rs_ring s, p')
    \<and> rg_hold lap p' = None \<and> pc_ok_in m c h s res p'"
proof -
  note S = rg_shapeD [OF rg_threads_okD(1) [OF ok]] and A = slot_again [OF rg_threads_okD(1) [OF ok]]
  from p obtain j where j: "p = enc m c j" "j \<le> h + length (rs_queue s)" and res: "res = None"
    by (auto elim: tick_atE)
  have lt: "rg_index (rs_ring s) p < length (rg_slots (rs_ring s))" using S(11) j by simp
  have free: "length (rs_queue s) < c \<and> \<not> held_by m c (rg_lap (rs_ring s)) (rs_pc s) j"
    if "rg_stamp (rs_ring s) p = p" "j = h + length (rs_queue s)"
    using stamp_free [OF ok] that j by simp
  have full: "\<not> held_by m c (rg_lap (rs_ring s)) (rs_pc s) h"
    if "rg_stamp (rs_ring s) p = p - rg_lap (rs_ring s) + 1" "j = h + c"
    using stamp_full [OF ok] that j A by simp
  show ?thesis using lt free full j res by (auto intro!: tick_atI)
qed

lemma reads_pop:
  assumes ok: "rg_threads_ok m c h n s" and p: "pc_ok_in m c h s res (PopStamp p)"
  shows "\<exists>p'. rg_step b (rs_ring s) (PopStamp p) = (rs_ring s, p')
    \<and> rg_hold lap p' = None \<and> pc_ok_in m c h s res p'"
proof -
  note S = rg_shapeD [OF rg_threads_okD(1) [OF ok]]
  from p obtain j where j: "p = enc m c j" "j \<le> h" and res: "res = None"
    by (auto elim: tick_atE)
  have lt: "rg_index (rs_ring s) p < length (rg_slots (rs_ring s))" using S(11) j by simp
  have full: "rs_queue s \<noteq> [] \<and> \<not> held_by m c (rg_lap (rs_ring s)) (rs_pc s) h"
    if "rg_stamp (rs_ring s) p = p + 1" "j = h"
    using stamp_full [OF ok] that j by simp
  show ?thesis using lt full j res by (auto intro!: tick_atI)
qed

lemma reads_full:
  assumes ok: "rg_threads_ok m c h n s" and p: "pc_ok_in m c h s res (PushFull x ow p)"
  shows "\<exists>p' res'. rg_step b (rs_ring s) (PushFull x ow p) = (rs_ring s, p')
    \<and> rg_effect c b (rs_ring s) (PushFull x ow p) (rs_queue s, res) = (rs_queue s, res')
    \<and> rg_hold lap p' = None \<and> pc_ok_in m c h s res' p'"
proof -
  note S = rg_shapeD [OF rg_threads_okD(1) [OF ok]] and A = slot_again [OF rg_threads_okD(1) [OF ok]]
  from p obtain j where j: "p = enc m c j" "j \<le> h + length (rs_queue s)"
      "j = h + c \<longrightarrow> \<not> held_by m c (rg_lap (rs_ring s)) (rs_pc s) h" and res: "res = None"
    by (auto elim: tick_atE)
  have full: "j = h + c \<and> length (rs_queue s) = c" if "rg_read (rs_ring s) = p - rg_lap (rs_ring s)"
  proof -
    have "enc m c (h + c) = enc m c j" using that j(1) S(4) A(4) [of h] by simp
    then have "h + c = j" using j(2) S(3) by (intro threads_inj [OF ok]) auto
    then show ?thesis using j(2) S(3) by simp
  qed
  show ?thesis using full j res by (auto intro!: tick_atI)
qed

lemma reads_empty:
  assumes ok: "rg_threads_ok m c h n s" and p: "pc_ok_in m c h s res (PopEmpty p)"
  shows "\<exists>p' res'. rg_step b (rs_ring s) (PopEmpty p) = (rs_ring s, p')
    \<and> rg_effect c b (rs_ring s) (PopEmpty p) (rs_queue s, res) = (rs_queue s, res')
    \<and> rg_hold lap p' = None \<and> pc_ok_in m c h s res' p'"
proof -
  note S = rg_shapeD [OF rg_threads_okD(1) [OF ok]]
  from p obtain j where j: "p = enc m c j" "j \<le> h" and res: "res = None"
    by (auto elim: tick_atE)
  have "rs_queue s = []" if "rg_write (rs_ring s) = p"
  proof -
    have "enc m c (h + length (rs_queue s)) = enc m c j" using that j(1) S(5) by simp
    then have "h + length (rs_queue s) = j" using j(2) S(3) by (intro threads_inj [OF ok]) auto
    then have "length (rs_queue s) = 0" using j(2) by linarith
    then show ?thesis by simp
  qed
  then show ?thesis using j res by auto
qed

lemma reads_len:
  assumes ok: "rg_threads_ok m c h n s" and p: "pc_ok_in m c h s res (LenCheck p w)"
  shows "\<exists>p'. rg_step b (rs_ring s) (LenCheck p w) = (rs_ring s, p')
    \<and> rg_hold lap p' = None \<and> pc_ok_in m c h s res p'"
proof -
  note S = rg_shapeD [OF rg_threads_okD(1) [OF ok]]
  from p obtain j where j: "p = enc m c j" "j \<le> h"
    "j = h \<longrightarrow> (\<exists>n \<le> c. w = enc m c (h + n) \<and> res = Some (Counted (of_nat n)))"
    unfolding rg_pc_ok.simps by (rule tick_atE) blast
  show ?thesis
  proof (cases "p = rg_read (rs_ring s)")
    case True
    then have "enc m c j = enc m c h" using j(1) S(4) by simp
    then have "j = h" using j(2) by (intro threads_inj [OF ok]) auto
    with j obtain i where i: "i \<le> c" "w = enc m c (h + i)" "res = Some (Counted (of_nat i))" by blast
    have "rg_step b (rs_ring s) (LenCheck p w) = (rs_ring s, Counted (of_nat i))"
      using rg_count [OF S(1), of i h, unfolded S(2), OF i(1)] i(2) True S(2,4)
      by (simp split del: if_split cong: if_cong)
    then show ?thesis using i by simp
  next
    case False
    then show ?thesis by simp
  qed
qed

lemma threads_reads:
  assumes ok: "rg_threads_ok m c h n s" and n: "Suc n \<le> 2 ^ 61" and p: "rg_reads (rs_pc s t)"
  shows "rg_threads_ok m c h (Suc n) (rs_do c (RingStep t b) s)"
proof -
  note D = rg_threads_okD [OF ok] and S = rg_shapeD [OF rg_threads_okD(1) [OF ok]]
  have "\<exists>p' res'. rg_step b (rs_ring s) (rs_pc s t) = (rs_ring s, p')
    \<and> rg_effect c b (rs_ring s) (rs_pc s t) (rs_queue s, rs_lin s t) = (rs_queue s, res')
    \<and> rg_hold (rg_lap (rs_ring s)) p' = None \<and> pc_ok_in m c h s res' p'"
  proof (cases "rs_pc s t")
    case (PushStamp x ow w)
    then show ?thesis using reads_push [OF ok, of "rs_lin s t" x ow w] D(3) [of t] by simp
  next
    case (PushFull x ow w)
    then show ?thesis using reads_full [OF ok, of "rs_lin s t" x ow w] D(3) [of t] by simp
  next
    case (PopStamp w)
    then show ?thesis using reads_pop [OF ok, of "rs_lin s t" w] D(3) [of t] by simp
  next
    case (PopEmpty w)
    then show ?thesis using reads_empty [OF ok, of "rs_lin s t" w] D(3) [of t] by simp
  next
    case (LenCheck a w)
    then show ?thesis using reads_len [OF ok, of "rs_lin s t" a w] D(3) [of t] by simp
  qed (use p D(3) [of t] S(3,4,5) in \<open>auto intro!: tick_atI elim!: tick_at_mono\<close>)
  then obtain p' res' where 1: "rg_step b (rs_ring s) (rs_pc s t) = (rs_ring s, p')"
    "rg_effect c b (rs_ring s) (rs_pc s t) (rs_queue s, rs_lin s t) = (rs_queue s, res')"
    "rg_hold (rg_lap (rs_ring s)) p' = None" "pc_ok_in m c h s res' p'" by blast
  have "rg_hold (rg_lap (rs_ring s)) (rs_pc s t) = None" using p by (cases "rs_pc s t") auto
  then show ?thesis using threads_local [OF ok _ n _ 1(3,4), of t] by (simp add: 1(1,2))
qed

lemma slots_full:
  "rg_slots_ok e c h q st val held \<Longrightarrow> \<not> held k \<Longrightarrow> h \<le> k \<Longrightarrow> k < h + length q \<Longrightarrow> length q \<le> c
    \<Longrightarrow> st k = e k + 1 \<and> val k = Some (q ! (k - h))"
  by (simp add: rg_slots_ok_def)

lemma slots_free:
  "rg_slots_ok e c h q st val held \<Longrightarrow> \<not> held k \<Longrightarrow> h + length q \<le> k \<Longrightarrow> k < h + c \<Longrightarrow> st k = e k"
  by (simp add: rg_slots_ok_def)

text \<open>A push claims a ticket.\<close>

lemma threads_push_cas:
  assumes ok: "rg_threads_ok m c h n s" and n: "Suc n \<le> 2 ^ 61"
    and p: "rs_pc s t = PushCas x ow w"
  shows "rg_threads_ok m c h (Suc n) (rs_do c (RingStep t b) s)"
proof -
  note D = rg_threads_okD [OF ok] and S = rg_shapeD [OF rg_threads_okD(1) [OF ok]]
  let ?w = "h + length (rs_queue s)"
  obtain j where j: "w = enc m c j" "j \<le> ?w" "rs_lin s t = None"
    "j = ?w \<longrightarrow> length (rs_queue s) < c \<and> \<not> held_by m c (rg_lap (rs_ring s)) (rs_pc s) j"
    using D(3) [of t] p by (auto elim: tick_atE)
  show ?thesis
  proof (cases "rg_write (rs_ring s) = w \<and> \<not> b")
    case True
    then have "enc m c ?w = enc m c j" using S(5) j(1) by simp
    then have jw: "j = ?w" using j(2) S(3) by (intro threads_inj [OF ok]) auto
    then have room: "length (rs_queue s) < c"
      and free: "rg_hold (rg_lap (rs_ring s)) (rs_pc s u) \<noteq> Some (enc m c ?w)" for u
      using j(4) by (auto simp: held_by_def)
    have w: "w = enc m c ?w" "rg_write (rs_ring s) = enc m c ?w" using j(1) jw S(5) by simp_all
    have fresh: "st_of m c (rs_ring s) ?w = enc m c ?w"
      using slots_free [OF D(2), of ?w] room j(4) jw by simp
    have "rg_pc_ok (enc m c) c h (rs_queue s @ [x])
      (st_of m c (rs_ring s\<lparr>rg_write := enc m c (Suc ?w)\<rparr>)) v
      hd (Some (PushOk None)) (PushWrite x w)" for v hd
      unfolding w using fresh by (auto intro!: tick_atI)
    then show ?thesis
      using threads_append [OF ok n room free, where x = x and t = t
          and p' = "PushWrite x w" and res = "Some (PushOk None)"]
        p room True w(2) by (simp add: w(1) S(12))
  next
    case False
    then show ?thesis
      using threads_local [OF ok _ n, of t "PushLoad x ow" None] p j(3) by auto
  qed
qed

text \<open>A pop or an overwriting push claims the head, which nobody holds.\<close>

lemma threads_pop_cas:
  assumes ok: "rg_threads_ok m c h n s" and n: "Suc n \<le> 2 ^ 61"
    and p: "rs_pc s t = PopCas w"
  shows "\<exists>h'. rg_threads_ok m c h' (Suc n) (rs_do c (RingStep t b) s)"
proof -
  note D = rg_threads_okD [OF ok] and S = rg_shapeD [OF rg_threads_okD(1) [OF ok]]
    and A = slot_again [OF rg_threads_okD(1) [OF ok]]
  obtain j where j: "w = enc m c j" "j \<le> h" "rs_lin s t = None"
    "j = h \<longrightarrow> rs_queue s \<noteq> [] \<and> \<not> held_by m c (rg_lap (rs_ring s)) (rs_pc s) h"
    using D(3) [of t] p by (auto elim: tick_atE)
  show ?thesis
  proof (cases "rg_read (rs_ring s) = w \<and> \<not> b")
    case True
    then have "enc m c h = enc m c j" using S(4) j(1) by simp
    then have jh: "j = h" using j(2) by (intro threads_inj [OF ok]) auto
    then have q: "rs_queue s \<noteq> []"
      and free: "\<not> held_by m c (rg_lap (rs_ring s)) (rs_pc s) h" using j(4) by auto
    then have full: "st_of m c (rs_ring s) h = enc m c h + 1"
      "val_of m c (rs_ring s) h = Some (hd (rs_queue s))"
      using slots_full [OF D(2) free _ _ S(3)] by (auto simp: hd_conv_nth)
    have w: "w = enc m c h" "rg_read (rs_ring s) = enc m c h" using j(1) jh S(4) by simp_all
    have "rg_pc_ok (enc m c) c (Suc h) (tl (rs_queue s))
      (st_of m c (rs_ring s\<lparr>rg_read := enc m c (Suc h)\<rparr>))
      (val_of m c (rs_ring s\<lparr>rg_read := enc m c (Suc h)\<rparr>)) hd'
      (Some (Popped (Some (hd (rs_queue s))))) (PopRead w)" for hd'
      unfolding w using full q S(3)
      by (cases "rs_queue s") (auto intro!: tick_atI simp: A(1,2))
    from threads_take [OF ok n q free _ _ this, where t = t] p A(4) [of h]
    have "rg_threads_ok m c (Suc h) (Suc n) \<lparr>rs_ring = rs_ring s\<lparr>rg_read := enc m c (Suc h)\<rparr>,
      rs_pc = (rs_pc s)(t := PopRead w), rs_queue = tl (rs_queue s),
      rs_lin = (rs_lin s)(t := Some (Popped (Some (hd (rs_queue s)))))\<rparr>" by (simp add: w)
    moreover have "rs_do c (RingStep t b) s = \<lparr>rs_ring = rs_ring s\<lparr>rg_read := enc m c (Suc h)\<rparr>,
      rs_pc = (rs_pc s)(t := PopRead w), rs_queue = tl (rs_queue s),
      rs_lin = (rs_lin s)(t := Some (Popped (Some (hd (rs_queue s)))))\<rparr>"
      using p True w q by (cases "rs_queue s") (simp_all add: S(12))
    ultimately show ?thesis by metis
  next
    case False
    then show ?thesis
      using threads_local [OF ok _ n, of t PopLoad None] p j(3) by auto
  qed
qed

lemma threads_reserve:
  assumes ok: "rg_threads_ok m c h n s" and n: "Suc n \<le> 2 ^ 61"
    and p: "rs_pc s t = PushReserve x w"
  shows "\<exists>h'. rg_threads_ok m c h' (Suc n) (rs_do c (RingStep t b) s)"
proof -
  note D = rg_threads_okD [OF ok] and S = rg_shapeD [OF rg_threads_okD(1) [OF ok]]
    and A = slot_again [OF rg_threads_okD(1) [OF ok]]
  obtain j where j: "w = enc m c j" "j \<le> h + length (rs_queue s)" "rs_lin s t = None"
    "j = h + c \<longrightarrow> \<not> held_by m c (rg_lap (rs_ring s)) (rs_pc s) h"
    using D(3) [of t] p by (auto elim: tick_atE)
  show ?thesis
  proof (cases "rg_read (rs_ring s) = w - rg_lap (rs_ring s)")
    case True
    have "enc m c (h + c) = enc m c j" using True j(1) S(4) A(4) [of h] by simp
    then have jh: "h + c = j" using j(2) S(3) by (intro threads_inj [OF ok]) auto
    then have len: "length (rs_queue s) = c" and q: "rs_queue s \<noteq> []"
      and free: "\<not> held_by m c (rg_lap (rs_ring s)) (rs_pc s) h" using j(2,4) S(3,7) by auto
    then have full: "st_of m c (rs_ring s) h = enc m c h + 1"
      "val_of m c (rs_ring s) h = Some (hd (rs_queue s))"
      using slots_full [OF D(2) free _ _ S(3)] by (auto simp: hd_conv_nth)
    then have full2: "st_of m c (rs_ring s) (h + c) = enc m c h + 1"
      "val_of m c (rs_ring s) (h + c) = Some (hd (rs_queue s))" by (simp_all only: A(1,2))
    have w: "w = enc m c (h + c)" "w - rg_lap (rs_ring s) = enc m c h"
      using j(1) jh A(3) [of h] by simp_all
    have "rg_pc_ok (enc m c) c (Suc h) (tl (rs_queue s))
      (st_of m c (rs_ring s\<lparr>rg_read := enc m c (Suc h)\<rparr>))
      (val_of m c (rs_ring s\<lparr>rg_read := enc m c (Suc h)\<rparr>)) hd'
      (Some (PushOk (Some (hd (rs_queue s))))) (PushStoreWrite x w)" for hd'
      unfolding w(1) using full2 q len
      by (auto intro!: tick_atI)
    from threads_take [OF ok n q free _ _ this, where t = t] p
    have "rg_threads_ok m c (Suc h) (Suc n) \<lparr>rs_ring = rs_ring s\<lparr>rg_read := enc m c (Suc h)\<rparr>,
      rs_pc = (rs_pc s)(t := PushStoreWrite x w), rs_queue = tl (rs_queue s),
      rs_lin = (rs_lin s)(t := Some (PushOk (Some (hd (rs_queue s)))))\<rparr>" by (simp add: w)
    moreover have "rs_do c (RingStep t b) s = \<lparr>rs_ring = rs_ring s\<lparr>rg_read := enc m c (Suc h)\<rparr>,
      rs_pc = (rs_pc s)(t := PushStoreWrite x w), rs_queue = tl (rs_queue s),
      rs_lin = (rs_lin s)(t := Some (PushOk (Some (hd (rs_queue s)))))\<rparr>"
      using p True q unfolding w(2) by (cases "rs_queue s") (simp_all add: w(2) S(12) bq_take_def)
    ultimately show ?thesis by metis
  next
    case False
    then show ?thesis
      using threads_local [OF ok _ n, of t "PushLoad x True" None] p j(3) by auto
  qed
qed

lemma threads_store_write:
  assumes ok: "rg_threads_ok m c h n s" and n: "Suc n \<le> 2 ^ 61"
    and p: "rs_pc s t = PushStoreWrite x w"
  shows "rg_threads_ok m c h (Suc n) (rs_do c (RingStep t b) s)"
proof -
  note D = rg_threads_okD [OF ok] and S = rg_shapeD [OF rg_threads_okD(1) [OF ok]]
  let ?w = "h + length (rs_queue s)"
  obtain d where w: "w = enc m c ?w" "length (rs_queue s) < c" "c \<le> ?w"
    "st_of m c (rs_ring s) ?w = enc m c (?w - c) + 1" "val_of m c (rs_ring s) ?w = Some d"
    "rs_lin s t = Some (PushOk (Some d))"
    using D(3) [of t] p by (auto elim: tick_atE)
  have mine: "rg_hold (rg_lap (rs_ring s)) (rs_pc s u) \<noteq> Some (enc m c ?w)" if "u \<noteq> t" for u
    using D(4) [of t "enc m c ?w" u] p w(1) that by auto
  have "rg_pc_ok (enc m c) c h (rs_queue s @ [x])
    (st_of m c (rs_ring s\<lparr>rg_write := enc m c (Suc ?w)\<rparr>))
    (val_of m c (rs_ring s\<lparr>rg_write := enc m c (Suc ?w)\<rparr>)) hd' (rs_lin s t) (PushReplace x w)" for hd'
    unfolding w(1) using w(2-6) by (auto intro!: tick_atI)
  from threads_append [OF ok n w(2), where t = t, OF mine _ _ this] p w(1,2)
  show ?thesis by (simp add: S(12))
qed

text \<open>The holder of a ticket reads and writes the cell and releases the slot.\<close>

lemma threads_push_write:
  assumes ok: "rg_threads_ok m c h n s" and n: "Suc n \<le> 2 ^ 61"
    and p: "rs_pc s t = PushWrite x w"
  shows "rg_threads_ok m c h (Suc n) (rs_do c (RingStep t b) s)"
proof -
  note D = rg_threads_okD [OF ok] and S = rg_shapeD [OF rg_threads_okD(1) [OF ok]]
    and F = set_slot_facts [OF rg_threads_okD(1) [OF ok]]
  obtain k where k: "w = enc m c k" "h \<le> k" "k < h + length (rs_queue s)"
    "rs_queue s ! (k - h) = x" "st_of m c (rs_ring s) k = enc m c k" "rs_lin s t = Some (PushOk None)"
    using D(3) [of t] p by (auto elim: tick_atE)
  have "rg_threads_ok m c h (Suc n) \<lparr>rs_ring = rg_set_value (rs_ring s) w x,
    rs_pc = (rs_pc s)(t := PushPublish w None), rs_queue = rs_queue s,
    rs_lin = (rs_lin s)(t := Some (PushOk None))\<rparr>"
    unfolding k(1)
  proof (rule threads_slot [OF ok k(2)])
    show "k < h + c" using k(3) S(3) by simp
    show "rg_pc_ok (enc m c) c h (rs_queue s) (st_of m c (rg_set_value (rs_ring s) (enc m c k) x))
        (val_of m c (rg_set_value (rs_ring s) (enc m c k) x)) hd' (Some (PushOk None))
        (PushPublish (enc m c k) None)" for hd'
      using k by (auto intro!: tick_atI simp: F)
  qed (use p k n in \<open>auto simp: F\<close>)
  then show ?thesis using p k(6) by simp
qed

lemma threads_replace:
  assumes ok: "rg_threads_ok m c h n s" and n: "Suc n \<le> 2 ^ 61"
    and p: "rs_pc s t = PushReplace x w"
  shows "rg_threads_ok m c h (Suc n) (rs_do c (RingStep t b) s)"
proof -
  note D = rg_threads_okD [OF ok] and S = rg_shapeD [OF rg_threads_okD(1) [OF ok]]
    and F = set_slot_facts [OF rg_threads_okD(1) [OF ok]]
  obtain k d where k: "w = enc m c k" "h \<le> k" "k < h + length (rs_queue s)"
    "rs_queue s ! (k - h) = x" "c \<le> k" "st_of m c (rs_ring s) k = enc m c (k - c) + 1"
    "val_of m c (rs_ring s) k = Some d" "rs_lin s t = Some (PushOk (Some d))"
    using D(3) [of t] p by (auto elim: tick_atE)
  have "rg_threads_ok m c h (Suc n) \<lparr>rs_ring = rg_set_value (rs_ring s) w x,
    rs_pc = (rs_pc s)(t := PushPublish w (Some d)), rs_queue = rs_queue s,
    rs_lin = (rs_lin s)(t := Some (PushOk (Some d)))\<rparr>"
    unfolding k(1)
  proof (rule threads_slot [OF ok k(2)])
    show "k < h + c" using k(3) S(3) by simp
    show "rg_pc_ok (enc m c) c h (rs_queue s) (st_of m c (rg_set_value (rs_ring s) (enc m c k) x))
        (val_of m c (rg_set_value (rs_ring s) (enc m c k) x)) hd' (Some (PushOk (Some d)))
        (PushPublish (enc m c k) (Some d))" for hd'
      using k by (auto intro!: tick_atI simp: F)
  qed (use p k n in \<open>auto simp: F\<close>)
  then show ?thesis using p k by simp
qed

lemma threads_push_publish:
  assumes ok: "rg_threads_ok m c h n s" and n: "Suc n \<le> 2 ^ 61"
    and p: "rs_pc s t = PushPublish w d"
  shows "rg_threads_ok m c h (Suc n) (rs_do c (RingStep t b) s)"
proof -
  note D = rg_threads_okD [OF ok] and S = rg_shapeD [OF rg_threads_okD(1) [OF ok]]
    and F = set_slot_facts [OF rg_threads_okD(1) [OF ok]]
  obtain k where k: "w = enc m c k" "h \<le> k" "k < h + length (rs_queue s)"
    "val_of m c (rs_ring s) k = Some (rs_queue s ! (k - h))" "rs_lin s t = Some (PushOk d)"
    using D(3) [of t] p by (auto elim: tick_atE)
  have "rg_threads_ok m c h (Suc n) \<lparr>rs_ring = rg_set_stamp (rs_ring s) w (w + 1),
    rs_pc = (rs_pc s)(t := PushOk d), rs_queue = rs_queue s,
    rs_lin = (rs_lin s)(t := Some (PushOk d))\<rparr>"
    unfolding k(1)
    by (rule threads_slot [OF ok k(2)]) (use p k n S(3) in \<open>auto simp: F\<close>)
  then show ?thesis using p k(5) by simp
qed

lemma threads_pop_read:
  assumes ok: "rg_threads_ok m c h n s" and n: "Suc n \<le> 2 ^ 61"
    and p: "rs_pc s t = PopRead w"
  shows "rg_threads_ok m c h (Suc n) (rs_do c (RingStep t b) s)"
proof -
  note D = rg_threads_okD [OF ok] and S = rg_shapeD [OF rg_threads_okD(1) [OF ok]]
    and A = slot_again [OF rg_threads_okD(1) [OF ok]]
  obtain j x where j: "w = enc m c j" "j < h" "h + length (rs_queue s) \<le> j + c"
    "st_of m c (rs_ring s) (j + c) = enc m c j + 1" "val_of m c (rs_ring s) (j + c) = Some x"
    "rs_lin s t = Some (Popped (Some x))"
    using D(3) [of t] p by (auto elim: tick_atE)
  have "rg_threads_ok m c h (Suc n) \<lparr>rs_ring = rs_ring s,
    rs_pc = (rs_pc s)(t := PopPublish w x), rs_queue = rs_queue s,
    rs_lin = (rs_lin s)(t := Some (Popped (Some x)))\<rparr>"
  proof (rule threads_slot [OF ok, where ?k0.0 = "j + c"])
    show "rg_shape m c h (Suc n) (rs_ring s) (rs_queue s)"
      using D(1) n by (auto simp: rg_shape_def)
    show "rg_pc_ok (enc m c) c h (rs_queue s) (st_of m c (rs_ring s)) (val_of m c (rs_ring s)) hd'
        (Some (Popped (Some x))) (PopPublish w x)" for hd'
      unfolding j(1) using j by (auto intro!: tick_atI)
  qed (use p j A(4) in auto)
  then show ?thesis using p j(1,5,6) A(2) by simp
qed

lemma threads_pop_publish:
  assumes ok: "rg_threads_ok m c h n s" and n: "Suc n \<le> 2 ^ 61"
    and p: "rs_pc s t = PopPublish w x"
  shows "rg_threads_ok m c h (Suc n) (rs_do c (RingStep t b) s)"
proof -
  note D = rg_threads_okD [OF ok] and S = rg_shapeD [OF rg_threads_okD(1) [OF ok]]
    and A = slot_again [OF rg_threads_okD(1) [OF ok]]
    and F = set_slot_facts [OF rg_threads_okD(1) [OF ok]]
  obtain j where j: "w = enc m c j" "j < h" "h + length (rs_queue s) \<le> j + c"
    "st_of m c (rs_ring s) (j + c) = enc m c j + 1" "rs_lin s t = Some (Popped (Some x))"
    using D(3) [of t] p by (auto elim: tick_atE)
  have "rg_threads_ok m c h (Suc n)
    \<lparr>rs_ring = rg_set_stamp (rs_ring s) w (w + rg_lap (rs_ring s)),
    rs_pc = (rs_pc s)(t := Popped (Some x)), rs_queue = rs_queue s,
    rs_lin = (rs_lin s)(t := Some (Popped (Some x)))\<rparr>"
    unfolding j(1)
    by (rule threads_slot [OF ok, where ?k0.0 = "j + c"]) (use p j n A(4) in \<open>auto simp: F\<close>)
  then show ?thesis using p j(5) by simp
qed

section \<open>Every schedule\<close>

fun cmd_thread :: "'a ring_cmd \<Rightarrow> nat" where
  "cmd_thread (RingCall t p) = t"
| "cmd_thread (RingStep t b) = t"

lemma rs_others: "\<forall>cmd \<in> set cs. cmd_thread cmd \<noteq> t \<Longrightarrow> rs_pc (fold (rs_do c) cs s) t = rs_pc s t"
proof (induction cs arbitrary: s)
  case (Cons cmd cs)
  then have "rs_pc (rs_do c cmd s) t = rs_pc s t" by (cases cmd) (auto split: prod.splits)
  then show ?case using Cons by simp
qed simp

lemma threads_do:
  assumes ok: "rg_threads_ok m c h n s" and n: "Suc n \<le> 2 ^ 61"
  shows "\<exists>h'. rg_threads_ok m c h' (Suc n) (rs_do c cmd s)"
proof (cases cmd)
  case (RingCall t p)
  show ?thesis
  proof (cases "rg_returned (rs_pc s t) \<and> rg_entry p")
    case True
    then have "rg_hold (rg_lap (rs_ring s)) (rs_pc s t) = None"
      "rg_hold (rg_lap (rs_ring s)) p = None" "pc_ok_in m c h s None p"
      by (cases "rs_pc s t"; simp; fail) (use True in \<open>cases p; simp; fail\<close>)+
    from threads_local [OF ok _ n this(1,2,3)] show ?thesis
      using RingCall True by (cases s) auto
  next
    case False
    have "rg_threads_ok m c h (Suc n) s"
      using ok n by (auto simp: rg_threads_ok_def rg_shape_def)
    with False show ?thesis using RingCall by auto
  qed
next
  case (RingStep t b)
  have "pc_ok_in m c h s (rs_lin s t) (rs_pc s t)" by (rule rg_threads_okD(3) [OF ok])
  then have "rs_pc s t \<noteq> RgFault" by auto
  then show ?thesis unfolding RingStep
    using threads_reads [OF ok n, of t b] threads_push_cas [OF ok n, of t] threads_pop_cas [OF ok n, of t]
      threads_reserve [OF ok n, of t] threads_store_write [OF ok n, of t] threads_push_write [OF ok n, of t]
      threads_replace [OF ok n, of t] threads_push_publish [OF ok n, of t] threads_pop_read [OF ok n, of t]
      threads_pop_publish [OF ok n, of t]
    by (cases "rs_pc s t") (auto simp del: rs_do.simps)
qed

lemma threads_init:
  assumes "0 < cap" "cap \<le> 2 ^ 60"
  shows "\<exists>m. rg_threads_ok m cap 0 0 (rs_init cap)"
proof -
  obtain m where rep: "rg_rep m 0 (rg_new cap) ([] :: 'a list)" "2 ^ m < 2 * cap"
    by (rule rg_new_rep_lap [OF assms])
  have cap: "rg_capacity (rg_new cap :: 'a ring) = cap" by (simp add: rg_capacity_def rg_new_def)
  note R = rg_repD [OF rep(1), unfolded cap]
  have len: "length (rg_slots (rg_new cap :: 'a ring)) = cap" by (simp add: rg_new_def)
  have "rg_slots_ok (enc m cap) cap 0 ([] :: 'a list) (st_of m cap (rg_new cap :: 'a ring))
      (val_of m cap (rg_new cap)) held" for held
    using rg_rep_free [OF rep(1)] by (simp add: rg_slots_ok_def cap)
  then have "rg_threads_ok m cap 0 0 (rs_init cap :: 'a ring_sys)"
    using R rep(2) assms len
    by (simp add: rg_threads_ok_def rs_init_def rg_shape_def)
  then show ?thesis ..
qed

lemma threads_run:
  assumes "0 < cap" "cap \<le> 2 ^ 60" "length cs \<le> 2 ^ 61"
  obtains m h where "rg_threads_ok m cap h (length cs) (fold (rs_do cap) cs (rs_init cap))"
proof -
  have "\<exists>m h. rg_threads_ok m cap h (length cs) (fold (rs_do cap) cs (rs_init cap))"
    using assms(3)
  proof (induction cs rule: rev_induct)
    case Nil
    then show ?case using threads_init [OF assms(1,2)] by auto
  next
    case (snoc cmd cs)
    then obtain m h where "rg_threads_ok m cap h (length cs) (fold (rs_do cap) cs (rs_init cap))"
      by auto
    from threads_do [OF this, of cmd] snoc.prems
    obtain h' where "rg_threads_ok m cap h' (Suc (length cs))
      (rs_do cap cmd (fold (rs_do cap) cs (rs_init cap)))" by auto
    then show ?case by auto
  qed
  with that show thesis by blast
qed

text \<open>When no call is in progress the ring holds exactly the queue.\<close>

lemma threads_idle_rep:
  assumes ok: "rg_threads_ok m c h n s" and idle: "\<And>t. rg_hold (rg_lap (rs_ring s)) (rs_pc s t) = None"
  shows "rg_rep m h (rs_ring s) (rs_queue s)"
proof -
  note D = rg_threads_okD [OF ok] and S = rg_shapeD [OF rg_threads_okD(1) [OF ok]]
  have free: "\<not> held_by m c (rg_lap (rs_ring s)) (rs_pc s) k" for k by (simp add: held_by_def idle)
  have "if i < length (rs_queue s)
    then st_of m c (rs_ring s) (h + i) = enc m c (h + i) + 1
      \<and> val_of m c (rs_ring s) (h + i) = Some (rs_queue s ! i)
    else st_of m c (rs_ring s) (h + i) = enc m c (h + i)" if "i < c" for i
    using slots_full [OF D(2) free, of "h + i"] slots_free [OF D(2) free, of "h + i"] that S(3) by simp
  then show ?thesis
    using S(1-5) unfolding rg_rep_def rg_capacity_def rg_stamp_def rg_value_def S(10) Let_def by auto
qed

lemma threads_idle_queue:
  assumes ok: "rg_threads_ok m c h n s" and idle: "\<And>t. rg_returned (rs_pc s t)"
  shows "rg_queue c (rs_ring s) (rs_queue s)"
proof -
  have "rg_hold (rg_lap (rs_ring s)) (rs_pc s t) = None" for t
    using idle [of t] by (cases "rs_pc s t") auto
  from threads_idle_rep [OF ok this] show ?thesis
    using rg_shapeD(2) [OF rg_threads_okD(1) [OF ok]] by (auto simp: rg_queue_def rg_capacity_def)
qed

text \<open>
  A thread that runs alone, from wherever it is in its call, while no other thread holds a ticket:
  it goes on to its result, or to the start of its call, which then returns.
\<close>

fun rg_rank :: "'a rg_pc \<Rightarrow> nat" where
  "rg_rank (PushStamp x ow p) = 6"
| "rg_rank (PushFull x ow p) = 5"
| "rg_rank (PushReserve x p) = 4"
| "rg_rank (PushCas x ow p) = 3"
| "rg_rank (PushStoreWrite x p) = 3"
| "rg_rank (PushWrite x p) = 2"
| "rg_rank (PushReplace x p) = 2"
| "rg_rank (PushPublish p d) = 1"
| "rg_rank (PopStamp p) = 4"
| "rg_rank (PopCas p) = 3"
| "rg_rank (PopRead p) = 2"
| "rg_rank (PopPublish p x) = 1"
| "rg_rank (PopEmpty p) = 1"
| "rg_rank (LenWrite p) = 2"
| "rg_rank (LenCheck p w) = 1"
| "rg_rank p = 0"

lemma rg_rank_step:
  "rg_step b r p = (r', p') \<Longrightarrow> 0 < rg_rank p \<Longrightarrow> rg_rank p' < rg_rank p"
  by (cases p) (auto split: if_splits option.splits)

lemma rg_step_lap: "rg_lap (fst (rg_step b r p)) = rg_lap r"
  by (cases p) (auto simp: rg_set_stamp_def rg_set_value_def split: option.splits)

lemma rs_step_exec:
  "rs_ring (rs_do c (RingStep t b) s) = fst (rg_step b (rs_ring s) (rs_pc s t))"
  "rs_pc (rs_do c (RingStep t b) s) t = snd (rg_step b (rs_ring s) (rs_pc s t))"
  "u \<noteq> t \<Longrightarrow> rs_pc (rs_do c (RingStep t b) s) u = rs_pc s u"
  by (auto split: prod.splits)

lemma alone_returns:
  assumes "rg_threads_ok m c h n s" "n + rg_rank (rs_pc s t) \<le> 2 ^ 61"
    and "\<And>u. u \<noteq> t \<Longrightarrow> rg_hold (rg_lap (rs_ring s)) (rs_pc s u) = None"
  shows "\<exists>k \<le> 7 + rg_rank (rs_pc s t).
    rg_returned (snd (rg_exec (replicate k False) (rs_ring s) (rs_pc s t)))"
  using assms
proof (induction "rg_rank (rs_pc s t)" arbitrary: s h n rule: less_induct)
  case less
  note S = rg_shapeD [OF rg_threads_okD(1) [OF less.prems(1)]]
  let ?p = "rs_pc s t" and ?s' = "rs_do c (RingStep t False) s"
  have ent: "\<exists>k \<le> 7. rg_returned (snd (rg_exec (replicate k False) (rs_ring s) ?p))"
    if "rg_entry ?p"
  proof -
    have "rg_hold (rg_lap (rs_ring s)) (rs_pc s u) = None" for u
      using less.prems(3) [of u] that by (cases "u = t"; cases ?p) auto
    then have "rg_rep m h (rs_ring s) (rs_queue s)"
      by (rule threads_idle_rep [OF less.prems(1)])
    then have "rg_queue c (rs_ring s) (rs_queue s)"
      using S(2) by (auto simp: rg_queue_def rg_capacity_def)
    from rg_exec_refines [OF this that, of 0] show ?thesis
      using that by (cases ?p) (auto intro!: exI [of _ 7] split: list.splits)
  qed
  show ?case
  proof (cases "rg_rank ?p = 0")
    case True
    have "rg_pc_ok (enc m c) c h (rs_queue s) (st_of m c (rs_ring s)) (val_of m c (rs_ring s))
      (held_by m c (rg_lap (rs_ring s)) (rs_pc s)) (rs_lin s t) ?p"
      by (rule rg_threads_okD(3) [OF less.prems(1)])
    with True have "rg_entry ?p \<or> rg_returned ?p" by (cases ?p) auto
    then show ?thesis using ent True by (auto intro: exI [of _ 0])
  next
    case False
    obtain r' p' where st: "rg_step False (rs_ring s) ?p = (r', p')" by fastforce
    have s': "rs_ring ?s' = r'" "rs_pc ?s' t = p'" "\<And>u. u \<noteq> t \<Longrightarrow> rs_pc ?s' u = rs_pc s u"
      using st by (simp_all only: rs_step_exec(1,2) fst_conv snd_conv) (rule rs_step_exec(3))
    have lt: "rg_rank p' < rg_rank ?p" using rg_rank_step [OF st] False by simp
    have n: "Suc n \<le> 2 ^ 61" "Suc n + rg_rank p' \<le> 2 ^ 61" using less.prems(2) lt by linarith+
    obtain h' where "rg_threads_ok m c h' (Suc n) ?s'"
      using threads_do [OF less.prems(1) n(1)] by blast
    moreover have "rg_lap r' = rg_lap (rs_ring s)" using rg_step_lap [of False "rs_ring s" ?p] st by simp
    ultimately obtain k where "k \<le> 7 + rg_rank p'" "rg_returned (snd (rg_exec (replicate k False) r' p'))"
      using less.hyps [of ?s' h' "Suc n"] lt n(2) less.prems(3) unfolding s' by (metis s'(3))
    then show ?thesis using lt st by (intro exI [of _ "Suc k"]) simp
  qed
qed

section \<open>Properties\<close>

text \<open>The calls that have not taken effect yet.\<close>

fun rg_before :: "'a rg_pc \<Rightarrow> bool" where
  "rg_before (PushLoad x ow) = True"
| "rg_before (PushStamp x ow p) = True"
| "rg_before (PushCas x ow p) = True"
| "rg_before (PushFull x ow p) = True"
| "rg_before (PushReserve x p) = True"
| "rg_before PopLoad = True"
| "rg_before (PopStamp p) = True"
| "rg_before (PopCas p) = True"
| "rg_before (PopEmpty p) = True"
| "rg_before _ = False"

text \<open>
  Linearisability: in every schedule of at most \<open>2 ^ 61\<close> accesses of any number of threads, from a
  new ring of any capacity up to \<open>2 ^ 60\<close>, a call that has returned took effect on the bounded
  queue during the call, at the access that \<open>rg_effect\<close> names, and returns what the queue
  returned there; a call that may still go back to its start has had no effect.
\<close>

theorem ring_threads_linearisable:
  assumes "0 < capacity" and "capacity \<le> 2 ^ 60" and "length cs \<le> 2 ^ 61"
    and "s = fold (rs_do capacity) cs (rs_init capacity)"
  shows "(rg_returned (rs_pc s t) \<longrightarrow> rs_lin s t = Some (rs_pc s t))
    \<and> (rg_before (rs_pc s t) \<longrightarrow> rs_lin s t = None) \<and> length (rs_queue s) \<le> capacity"
proof -
  obtain m h where ok: "rg_threads_ok m capacity h (length cs) s"
    unfolding assms(4) by (rule threads_run [OF assms(1-3)])
  then have "pc_ok_in m capacity h s (rs_lin s t) (rs_pc s t)" by (rule rg_threads_okD(3))
  then show ?thesis
    using rg_shapeD(3) [OF rg_threads_okD(1) [OF ok]] by (cases "rs_pc s t") auto
qed

text \<open>
  A pop overtakes an overwriting push that has claimed the oldest item: the push returns it, and
  the pop the next one.
\<close>

theorem ring_threads_linearisable_witness:
  "let s = fold (rs_do 2)
     ([RingCall 1 (PushLoad (10::nat) False)] @ replicate 5 (RingStep 1 False)
      @ [RingCall 1 (PushLoad 11 False)] @ replicate 5 (RingStep 1 False)
      @ [RingCall 1 (PushLoad 12 True)] @ replicate 4 (RingStep 1 False)
      @ [RingCall 2 PopLoad] @ replicate 5 (RingStep 2 False) @ replicate 3 (RingStep 1 False))
     (rs_init 2)
   in rs_pc s 1 = PushOk (Some 10) \<and> rs_pc s 2 = Popped (Some 11) \<and> rs_queue s = [12]
     \<and> rs_lin s 2 = Some (Popped (Some 11))"
proof -
  define cs where "cs = [RingCall 1 (PushLoad (10::nat) False)] @ replicate 5 (RingStep 1 False)
      @ [RingCall 1 (PushLoad 11 False)] @ replicate 5 (RingStep 1 False)
      @ [RingCall 1 (PushLoad 12 True)] @ replicate 4 (RingStep 1 False)
      @ [RingCall 2 PopLoad] @ replicate 5 (RingStep 2 False) @ replicate 3 (RingStep 1 False)"
  define s where "s = fold (rs_do 2) cs (rs_init 2)"
  have h: "rs_pc s 1 = PushOk (Some 10)" "rs_pc s 2 = Popped (Some 11)" "rs_queue s = [12]"
    unfolding s_def cs_def by code_simp+
  have len: "length cs \<le> 2 ^ 61" by (simp add: cs_def)
  from ring_threads_linearisable [OF _ _ len s_def, of 2] h(2)
  show ?thesis unfolding Let_def cs_def [symmetric] s_def [symmetric] using h by simp
qed

text \<open>The slot whose cell the next access of a call reads or writes.\<close>

fun rg_cell :: "'a ring \<Rightarrow> 'a rg_pc \<Rightarrow> nat option" where
  "rg_cell r (PushWrite x p) = Some (rg_index r p)"
| "rg_cell r (PushReplace x p) = Some (rg_index r p)"
| "rg_cell r (PopRead p) = Some (rg_index r p)"
| "rg_cell r _ = None"

lemma rg_cell_hold:
  assumes ok: "rg_threads_ok m c h n s" and i: "rg_cell (rs_ring s) (rs_pc s t) = Some i"
  obtains k where "rg_hold (rg_lap (rs_ring s)) (rs_pc s t) = Some (enc m c k)"
    "h \<le> k" "k < h + c" "k mod c = i"
proof -
  note S = rg_shapeD [OF rg_threads_okD(1) [OF ok]] and A = slot_again [OF rg_threads_okD(1) [OF ok]]
  have "rg_pc_ok (enc m c) c h (rs_queue s) (st_of m c (rs_ring s)) (val_of m c (rs_ring s))
      (held_by m c (rg_lap (rs_ring s)) (rs_pc s)) (rs_lin s t) (rs_pc s t)"
    by (rule rg_threads_okD(3) [OF ok])
  then show thesis
    using i S(3) that
    by (cases "rs_pc s t") (auto elim!: tick_atE simp: S(10) A(4))
qed

text \<open>
  No data race: in every such schedule no slice index is out of bounds, no cell is read before
  it was written, and two threads that are about to access the cell of the same slot are one.
\<close>

theorem ring_threads_exclusive:
  assumes "0 < capacity" and "capacity \<le> 2 ^ 60" and "length cs \<le> 2 ^ 61"
    and "s = fold (rs_do capacity) cs (rs_init capacity)"
  shows "rs_pc s t \<noteq> RgFault
    \<and> (rg_cell (rs_ring s) (rs_pc s t) = Some i \<and> rg_cell (rs_ring s) (rs_pc s u) = Some i \<longrightarrow> t = u)"
proof -
  obtain m h where ok: "rg_threads_ok m capacity h (length cs) s"
    unfolding assms(4) by (rule threads_run [OF assms(1-3)])
  then have "pc_ok_in m capacity h s (rs_lin s t) (rs_pc s t)" by (rule rg_threads_okD(3))
  then have "rs_pc s t \<noteq> RgFault" by auto
  moreover have "t = u" if c: "rg_cell (rs_ring s) (rs_pc s t) = Some i"
    "rg_cell (rs_ring s) (rs_pc s u) = Some i"
  proof -
    obtain k where k: "rg_hold (rg_lap (rs_ring s)) (rs_pc s t) = Some (enc m capacity k)"
      "h \<le> k" "k < h + capacity" "k mod capacity = i" by (rule rg_cell_hold [OF ok c(1)])
    obtain l where l: "rg_hold (rg_lap (rs_ring s)) (rs_pc s u) = Some (enc m capacity l)"
      "h \<le> l" "l < h + capacity" "l mod capacity = i" by (rule rg_cell_hold [OF ok c(2)])
    have "k = l" using k l by (intro window_inj [of h k capacity l]) auto
    then show ?thesis using rg_threads_okD(4) [OF ok k(1)] l(1) by simp
  qed
  ultimately show ?thesis by blast
qed

text \<open>Two pushes at work on two slots, with a reader that waits for the first.\<close>

theorem ring_threads_exclusive_witness:
  "let s = fold (rs_do 2)
     ([RingCall 1 (PushLoad (10::nat) False)] @ replicate 3 (RingStep 1 False)
      @ [RingCall 2 (PushLoad 11 False)] @ replicate 3 (RingStep 2 False)
      @ [RingCall 3 PopLoad] @ replicate 3 (RingStep 3 False))
     (rs_init 2)
   in rg_cell (rs_ring s) (rs_pc s 1) = Some 0 \<and> rg_cell (rs_ring s) (rs_pc s 2) = Some 1
     \<and> rs_pc s 3 \<noteq> RgFault"
proof -
  define cs where "cs = [RingCall 1 (PushLoad (10::nat) False)] @ replicate 3 (RingStep 1 False)
      @ [RingCall 2 (PushLoad 11 False)] @ replicate 3 (RingStep 2 False)
      @ [RingCall 3 PopLoad] @ replicate 3 (RingStep 3 False)"
  define s where "s = fold (rs_do 2) cs (rs_init 2)"
  have h: "rg_cell (rs_ring s) (rs_pc s 1) = Some 0" "rg_cell (rs_ring s) (rs_pc s 2) = Some 1"
    unfolding s_def cs_def by code_simp+
  have len: "length cs \<le> 2 ^ 61" by (simp add: cs_def)
  from ring_threads_exclusive [OF _ _ len s_def, of 3]
  show ?thesis unfolding Let_def cs_def [symmetric] s_def [symmetric] using h by simp
qed

text \<open>
  After any such schedule, once no call is in progress, the ring holds exactly the queue: the
  calls that follow, alone, return what the queue returns, and dropping the ring drops the items
  of the queue, each once.
\<close>

theorem ring_threads_quiescent:
  assumes "0 < capacity" and "capacity \<le> 2 ^ 60" and "length cs \<le> 2 ^ 61"
    and "s = fold (rs_do capacity) cs (rs_init capacity)" and "\<And>t. rg_returned (rs_pc s t)"
    and "\<forall>pc \<in> set pcs. rg_entry pc"
  shows "snd (run_calls rg_call pcs (rs_ring s)) = snd (run_calls (bq_call capacity) pcs (rs_queue s))
    \<and> rg_drop (rs_ring s) [] = Some (rs_queue s)"
proof -
  obtain m h where ok: "rg_threads_ok m capacity h (length cs) s"
    unfolding assms(4) by (rule threads_run [OF assms(1-3)])
  have "rg_queue capacity (rs_ring s) (rs_queue s)" by (rule threads_idle_queue [OF ok assms(5)])
  then show ?thesis
    using rg.run_refines [OF _ assms(6)] rg_drop_items [of capacity _ _ "[]"] by fastforce
qed

theorem ring_threads_quiescent_witness:
  "let s = fold (rs_do 1)
     ([RingCall 1 (PushLoad (10::nat) False), RingCall 2 (PushLoad 11 True), RingStep 1 False,
       RingStep 2 False, RingStep 1 False, RingStep 2 False, RingStep 1 False, RingStep 2 False]
      @ replicate 2 (RingStep 1 False) @ replicate 7 (RingStep 2 False))
     (rs_init 1)
   in rs_pc s 2 = PushOk (Some 10) \<and> snd (run_calls rg_call [PopLoad, PopLoad] (rs_ring s))
        = [Popped (Some 11), Popped None] \<and> rg_drop (rs_ring s) [] = Some [11]"
proof -
  define cs where "cs = [RingCall 1 (PushLoad (10::nat) False), RingCall 2 (PushLoad 11 True),
       RingStep 1 False, RingStep 2 False, RingStep 1 False, RingStep 2 False, RingStep 1 False,
       RingStep 2 False] @ replicate 2 (RingStep 1 False) @ replicate 7 (RingStep 2 False)"
  define s where "s = fold (rs_do 1) cs (rs_init 1)"
  have len: "length cs \<le> 2 ^ 61" by (simp add: cs_def)
  have h: "rs_pc s 1 = PushOk None" "rs_pc s 2 = PushOk (Some 10)" "rs_queue s = [11]"
    unfolding s_def cs_def by code_simp+
  have "rs_pc s t = Counted 0" if "t \<noteq> 1" "t \<noteq> 2" for t
    unfolding s_def using that by (subst rs_others) (auto simp: cs_def rs_init_def)
  then have "rg_returned (rs_pc s t)" for t using h(1,2) by (cases "t = 1"; cases "t = 2") auto
  from ring_threads_quiescent [OF _ _ len s_def this, of "[PopLoad, PopLoad]"] h
  show ?thesis unfolding Let_def cs_def [symmetric] s_def [symmetric] by simp
qed

text \<open>
  Obstruction freedom: from every such state, with any thread in the middle of its call, that
  thread returns within 13 accesses of its own when no other thread holds a ticket and no
  \<open>compare_exchange_weak\<close> fails spuriously.
\<close>

theorem ring_threads_progress:
  assumes "0 < capacity" and "capacity \<le> 2 ^ 60" and "length cs < 2 ^ 60"
    and "s = fold (rs_do capacity) cs (rs_init capacity)"
    and "\<And>u. u \<noteq> t \<Longrightarrow> rg_hold (rg_lap (rs_ring s)) (rs_pc s u) = None"
  shows "\<exists>k \<le> 13. rg_returned (snd (rg_exec (replicate k False) (rs_ring s) (rs_pc s t)))"
proof -
  have "length cs \<le> 2 ^ 61" using assms(3) by simp
  then obtain m h where ok: "rg_threads_ok m capacity h (length cs) s"
    unfolding assms(4) by (rule threads_run [OF assms(1,2)])
  have r: "rg_rank (rs_pc s t) \<le> 6" by (cases "rs_pc s t") auto
  then have "length cs + rg_rank (rs_pc s t) \<le> 2 ^ 61" using assms(3) by simp
  from alone_returns [OF ok this assms(5)] obtain k where "k \<le> 7 + rg_rank (rs_pc s t)"
    "rg_returned (snd (rg_exec (replicate k False) (rs_ring s) (rs_pc s t)))" by blast
  then show ?thesis using r by (intro exI [of _ k]) simp
qed

text \<open>A reader that has seen the queue empty, while the writer filled it, returns the item.\<close>

theorem ring_threads_progress_witness:
  "let s = fold (rs_do 2) ([RingCall 2 PopLoad, RingStep 2 False, RingStep 2 False,
     RingCall 1 (PushLoad (10::nat) False)] @ replicate 5 (RingStep 1 False)) (rs_init 2)
   in rs_pc s 2 = PopEmpty 0
     \<and> (\<exists>k \<le> 13. rg_returned (snd (rg_exec (replicate k False) (rs_ring s) (rs_pc s 2))))"
proof -
  define cs where "cs = [RingCall 2 PopLoad, RingStep 2 False, RingStep 2 False,
     RingCall 1 (PushLoad (10::nat) False)] @ replicate 5 (RingStep 1 False)"
  define s where "s = fold (rs_do 2) cs (rs_init 2)"
  have len: "length cs < 2 ^ 60" by (simp add: cs_def)
  have h: "rs_pc s 1 = PushOk None" "rs_pc s 2 = PopEmpty 0"
    unfolding s_def cs_def by code_simp+
  have "rs_pc s t = Counted 0" if "t \<noteq> 1" "t \<noteq> 2" for t
    unfolding s_def using that by (subst rs_others) (auto simp: cs_def rs_init_def)
  then have "rg_hold (rg_lap (rs_ring s)) (rs_pc s u) = None" if "u \<noteq> 2" for u
    using h(1) that by (cases "u = 1") auto
  then have "\<exists>k \<le> 13. rg_returned (snd (rg_exec (replicate k False) (rs_ring s) (rs_pc s 2)))"
    by (intro ring_threads_progress [OF _ _ len s_def]) auto
  then show ?thesis unfolding Let_def cs_def [symmetric] s_def [symmetric] using h(2) by simp
qed

end
