(* ===== verification/WeakRing.thy ===== *)
theory WeakRing
  imports RingThreads
begin

text \<open>
  The ring of \<open>src/spsc.rs\<close> with the memory orderings of the source, for any number of threads.

  The loads and stores of \<open>read\<close> and \<open>write\<close> are \<open>SeqCst\<close> and return the latest value. The load of a
  stamp is \<open>Acquire\<close> and may return any stamp that was stored in its slot, also an old one (even
  one that coherence forbids). What a thread knows of the accesses of another to a cell, it knows
  from the stamps, whose stores are \<open>Release\<close>; what \<open>read\<close> and \<open>write\<close> tell is not used.
\<close>

section \<open>Stamps as messages\<close>

text \<open>
  \<open>wg_msgs\<close> are the stamps stored in a slot, the latest last, each with what its store published:
  for each slot, how many of the accesses to its cell happen before. \<open>wg_view\<close> is what a thread
  knows in the same way, \<open>wg_cells\<close> counts the accesses, and \<open>wg_race\<close> records that one of them did
  not happen after all earlier ones.
\<close>

record 'a weak_ring =
  wg_sys :: "'a ring_sys"
  wg_msgs :: "nat \<Rightarrow> (usize \<times> (nat \<Rightarrow> nat)) list"
  wg_view :: "nat \<Rightarrow> nat \<Rightarrow> nat"
  wg_cells :: "nat \<Rightarrow> nat"
  wg_race :: bool

definition wg_init :: "nat \<Rightarrow> 'a weak_ring" where
  "wg_init cap = \<lparr>wg_sys = rs_init cap, wg_msgs = (\<lambda>i. [(of_nat (i * 2), \<lambda>_. 0)]),
     wg_view = (\<lambda>_ _. 0), wg_cells = (\<lambda>_. 0), wg_race = False\<rparr>"

text \<open>The accesses to a stamp, and the slots whose cell is accessed.\<close>

fun rg_loads :: "'a rg_pc \<Rightarrow> usize option" where
  "rg_loads (PushStamp item ow position) = Some position"
| "rg_loads (PopStamp position) = Some position"
| "rg_loads _ = None"

fun rg_stores :: "'a rg_pc \<Rightarrow> usize option" where
  "rg_stores (PushPublish position displaced) = Some position"
| "rg_stores (PopPublish position item) = Some position"
| "rg_stores _ = None"

fun rg_accesses :: "'a rg_pc \<Rightarrow> usize option" where
  "rg_accesses (PushWrite item position) = Some position"
| "rg_accesses (PushReplace item position) = Some position"
| "rg_accesses (PopRead position) = Some position"
| "rg_accesses _ = None"

text \<open>An \<open>Acquire\<close> load of the stamp that returns message \<open>j\<close>, or the latest one.\<close>

definition wg_load :: "nat \<Rightarrow> nat \<Rightarrow> usize \<Rightarrow> 'a weak_ring \<Rightarrow> 'a weak_ring" where
  "wg_load t j position s =
     (let sys = wg_sys s; r = rs_ring sys; msgs = wg_msgs s (rg_index r position);
          (stamp, known) = (if j < length msgs then msgs ! j else last msgs)
      in s\<lparr>wg_sys := sys\<lparr>rs_pc := (rs_pc sys)(t :=
             snd (rg_step False (rg_set_stamp r position stamp) (rs_pc sys t)))\<rparr>,
           wg_view := (wg_view s)(t := \<lambda>i. max (wg_view s t i) (known i))\<rparr>)"

text \<open>A \<open>Release\<close> store of the stamp.\<close>

definition wg_store :: "nat \<Rightarrow> nat \<Rightarrow> usize \<Rightarrow> 'a weak_ring \<Rightarrow> 'a weak_ring" where
  "wg_store cap t position s =
     (let sys = rs_do cap (RingStep t False) (wg_sys s); i = rg_index (rs_ring (wg_sys s)) position
      in s\<lparr>wg_sys := sys,
           wg_msgs := (wg_msgs s)(i := wg_msgs s i @ [(rg_stamp (rs_ring sys) position, wg_view s t)])\<rparr>)"

definition wg_cell :: "nat \<Rightarrow> nat \<Rightarrow> usize \<Rightarrow> 'a weak_ring \<Rightarrow> 'a weak_ring" where
  "wg_cell cap t position s =
     (let i = rg_index (rs_ring (wg_sys s)) position
      in s\<lparr>wg_sys := rs_do cap (RingStep t False) (wg_sys s),
           wg_race := (wg_race s \<or> wg_view s t i \<noteq> wg_cells s i),
           wg_cells := (wg_cells s)(i := wg_cells s i + 1),
           wg_view := (wg_view s)(t := (wg_view s t)(i := wg_cells s i + 1))\<rparr>)"

definition wg_access :: "nat \<Rightarrow> nat \<Rightarrow> bool \<Rightarrow> nat \<Rightarrow> 'a weak_ring \<Rightarrow> 'a weak_ring" where
  "wg_access cap t spurious j s =
     (let pc = rs_pc (wg_sys s) t in
      case rg_loads pc of Some position \<Rightarrow> wg_load t j position s
      | None \<Rightarrow> (case rg_stores pc of Some position \<Rightarrow> wg_store cap t position s
      | None \<Rightarrow> (case rg_accesses pc of Some position \<Rightarrow> wg_cell cap t position s
      | None \<Rightarrow> s\<lparr>wg_sys := rs_do cap (RingStep t spurious) (wg_sys s)\<rparr>)))"

datatype 'a wg_cmd = WgCall nat "'a rg_pc" | WgStep nat bool nat

fun wg_do :: "nat \<Rightarrow> 'a wg_cmd \<Rightarrow> 'a weak_ring \<Rightarrow> 'a weak_ring" where
  "wg_do cap (WgCall t pc) s = s\<lparr>wg_sys := rs_do cap (RingCall t pc) (wg_sys s)\<rparr>"
| "wg_do cap (WgStep t spurious j) s = wg_access cap t spurious j s"

section \<open>The invariant\<close>

text \<open>
  With \<open>H\<close> tickets claimed by pops and \<open>W\<close> by pushes: a stamp that says that the slot of ticket \<open>k\<close>
  is free, or full, told of all accesses to its cell if the ticket is not claimed since.
\<close>

definition wg_msg_ok :: "(nat \<Rightarrow> usize) \<Rightarrow> nat \<Rightarrow> nat \<Rightarrow> nat \<Rightarrow> (nat \<Rightarrow> bool) \<Rightarrow> (nat \<Rightarrow> nat)
    \<Rightarrow> nat \<Rightarrow> usize \<times> (nat \<Rightarrow> nat) \<Rightarrow> bool" where
  "wg_msg_ok e c H W held cells i = (\<lambda>(x, v). (\<forall>k. v k \<le> cells k) \<and> (\<exists>k. k mod c = i
     \<and> (x = e k \<and> k < H + c \<and> (W \<le> k \<longrightarrow> \<not> held k \<and> v i = cells i)
      \<or> x = e k + 1 \<and> k < W \<and> (H \<le> k \<longrightarrow> \<not> held k \<and> v i = cells i))))"

text \<open>What a call knows of the cell of the slot that it may claim, or has claimed.\<close>

fun wg_knows :: "(nat \<Rightarrow> usize) \<Rightarrow> nat \<Rightarrow> nat \<Rightarrow> nat \<Rightarrow> usize \<Rightarrow> (usize \<Rightarrow> bool) \<Rightarrow> 'a rg_pc \<Rightarrow> bool" where
  "wg_knows e c H W lap K (PushCas x ow p) \<longleftrightarrow> (p = e W \<longrightarrow> K p)"
| "wg_knows e c H W lap K (PushFull x ow p) \<longleftrightarrow> (p = e (H + c) \<longrightarrow> K p)"
| "wg_knows e c H W lap K (PushReserve x p) \<longleftrightarrow> (p = e (H + c) \<longrightarrow> K p)"
| "wg_knows e c H W lap K (PopCas p) \<longleftrightarrow> (p = e H \<longrightarrow> K p)"
| "wg_knows e c H W lap K pc \<longleftrightarrow> (case rg_hold lap pc of Some p \<Rightarrow> K p | None \<Rightarrow> True)"

definition wg_known :: "'a ring \<Rightarrow> (nat \<Rightarrow> nat) \<Rightarrow> (nat \<Rightarrow> nat) \<Rightarrow> usize \<Rightarrow> bool" where
  "wg_known r cells v p \<longleftrightarrow> v (rg_index r p) = cells (rg_index r p)"

abbreviation wg_ring :: "'a weak_ring \<Rightarrow> 'a ring" where
  "wg_ring s \<equiv> rs_ring (wg_sys s)"

abbreviation wg_held :: "nat \<Rightarrow> nat \<Rightarrow> 'a ring_sys \<Rightarrow> nat \<Rightarrow> bool" where
  "wg_held m c sys \<equiv> held_by m c (rg_lap (rs_ring sys)) (rs_pc sys)"

definition wg_ok :: "nat \<Rightarrow> nat \<Rightarrow> nat \<Rightarrow> nat \<Rightarrow> 'a weak_ring \<Rightarrow> bool" where
  "wg_ok m c h n s \<longleftrightarrow> rg_threads_ok m c h n (wg_sys s) \<and> \<not> wg_race s
   \<and> (\<forall>i < c. wg_msgs s i \<noteq> [] \<and> (\<forall>msg \<in> set (wg_msgs s i).
        wg_msg_ok (enc m c) c h (h + length (rs_queue (wg_sys s))) (wg_held m c (wg_sys s)) (wg_cells s) i msg))
   \<and> (\<forall>t. (\<forall>i. wg_view s t i \<le> wg_cells s i)
        \<and> wg_knows (enc m c) c h (h + length (rs_queue (wg_sys s))) (rg_lap (wg_ring s))
            (wg_known (wg_ring s) (wg_cells s) (wg_view s t)) (rs_pc (wg_sys s) t))"

section \<open>What the steps of a thread keep\<close>

lemma wg_msg_mono:
  assumes "wg_msg_ok e c H W held cells i msg" and "H \<le> H'" "W \<le> W'" "W \<le> H + c"
    and "\<And>k. k < H + c \<Longrightarrow> held' k \<Longrightarrow> held k \<or> W \<le> k \<and> k < W'"
  shows "wg_msg_ok e c H' W' held' cells i msg"
proof -
  obtain x v where msg: "msg = (x, v)" by (cases msg)
  obtain k where v: "\<forall>k. v k \<le> cells k" and k: "k mod c = i"
    and d: "x = e k \<and> k < H + c \<and> (W \<le> k \<longrightarrow> \<not> held k \<and> v i = cells i)
      \<or> x = e k + 1 \<and> k < W \<and> (H \<le> k \<longrightarrow> \<not> held k \<and> v i = cells i)"
    using assms(1) unfolding msg wg_msg_ok_def by auto
  from d have "x = e k \<and> k < H' + c \<and> (W' \<le> k \<longrightarrow> \<not> held' k \<and> v i = cells i)
      \<or> x = e k + 1 \<and> k < W' \<and> (H' \<le> k \<longrightarrow> \<not> held' k \<and> v i = cells i)"
  proof (elim disjE conjE)
    assume "x = e k" "k < H + c" "W \<le> k \<longrightarrow> \<not> held k \<and> v i = cells i"
    then show ?thesis using assms(2,3) assms(5) [of k] by linarith
  next
    assume "x = e k + 1" "k < W" "H \<le> k \<longrightarrow> \<not> held k \<and> v i = cells i"
    then show ?thesis using assms(2-4) assms(5) [of k] by linarith
  qed
  then show ?thesis using v k unfolding msg wg_msg_ok_def by blast
qed

text \<open>The tickets that a step claims.\<close>

lemma rg_step_claims:
  assumes "rg_step b r p = (r', p')" and "lap = rg_lap r"
  shows "rg_read r' = rg_read r \<and> rg_write r' = rg_write r
      \<and> (rg_hold lap p' = None \<or> rg_hold lap p' = rg_hold lap p)
    \<or> rg_read r' = rg_read r \<and> rg_write r' = rg_next r (rg_write r) \<and> rg_hold lap p' = Some (rg_write r)
    \<or> rg_read r' = rg_next r (rg_read r) \<and> rg_write r' = rg_write r
      \<and> rg_hold lap p' = Some (rg_read r + lap)
    \<or> (\<exists>x w. p = PushStoreWrite x w \<and> rg_read r' = rg_read r \<and> rg_write r' = rg_next r w
      \<and> rg_hold lap p' = Some w)"
  using assms
  by (cases "(b, r, p)" rule: rg_step.cases)
    (auto simp: rg_set_value_def rg_set_stamp_def diff_eq_eq split: if_splits option.splits)

lemma threads_pos_inj:
  assumes "rg_shape m c h n r q" "i \<le> h + c + 1" "j < 2 ^ 62"
  shows "enc m c i = enc m c j \<longleftrightarrow> i = j"
proof -
  note S = rg_shapeD [OF assms(1)]
  have "i < 2 ^ 62" using assms(2) S(8,9) by simp
  then show ?thesis using ticketsD(5) [OF S(6) _ assms(3)] by simp
qed

lemma step_claims:
  assumes ok: "rg_threads_ok m c h n s" and ok': "rg_threads_ok m c h' n' (rs_do c (RingStep t b) s)"
  defines "W \<equiv> h + length (rs_queue s)" and "W' \<equiv> h' + length (rs_queue (rs_do c (RingStep t b) s))"
  shows "h \<le> h'" "W \<le> W'" "W \<le> h + c"
    "k < h + c \<Longrightarrow> held_by m c (rg_lap (rs_ring (rs_do c (RingStep t b) s))) (rs_pc (rs_do c (RingStep t b) s)) k
      \<Longrightarrow> held_by m c (rg_lap (rs_ring s)) (rs_pc s) k \<or> W \<le> k \<and> k < W'"
proof -
  let ?s' = "rs_do c (RingStep t b) s" let ?lap = "rg_lap (rs_ring s)"
  note S = rg_shapeD [OF rg_threads_okD(1) [OF ok]] and S' = rg_shapeD [OF rg_threads_okD(1) [OF ok']]
  obtain r' p' where st: "rg_step b (rs_ring s) (rs_pc s t) = (r', p')"
    by (cases "rg_step b (rs_ring s) (rs_pc s t)")
  have s': "rs_ring ?s' = r'" "rs_pc ?s' = (rs_pc s)(t := p')"
    using st rs_step_exec(3) [of _ t c b s] rs_step_exec(1,2) [of c t b s] by auto
  have lap: "rg_lap r' = ?lap" using rg_step_lap [of b "rs_ring s" "rs_pc s t"] st by simp
  have b: "h' < 2 ^ 62" "W' < 2 ^ 62" using S'(9) by (simp_all add: W'_def)
  have rd: "rg_read r' = enc m c h'" and wr: "rg_write r' = enc m c W'"
    using S'(4,5) s'(1) by (simp_all add: W'_def)
  have wl: "W \<le> h + c" using S(3) by (simp add: W_def)
  then show "W \<le> h + c" .
  note inj = threads_pos_inj [OF rg_threads_okD(1) [OF ok]]
  have new: "W = W' \<and> h = h' \<and> (rg_hold ?lap p' = None \<or> rg_hold ?lap p' = rg_hold ?lap (rs_pc s t))
    \<or> h' = h \<and> W' = Suc W \<and> rg_hold ?lap p' = Some (enc m c W)
    \<or> h' = Suc h \<and> W' = W \<and> rg_hold ?lap p' = Some (enc m c (h + c))"
  proof -
    have rd0: "rg_read (rs_ring s) = enc m c h" and wr0: "rg_write (rs_ring s) = enc m c W"
      using S(4,5) by (simp_all add: W_def)
    have same: "h' = h" if "rg_read r' = rg_read (rs_ring s)" using that rd rd0 inj [of h h'] b by simp
    have same': "W' = W" if "rg_write r' = rg_write (rs_ring s)" using that wr wr0 inj [of W W'] b wl by simp
    have next_w: "W' = Suc W" if "rg_write r' = rg_next (rs_ring s) (enc m c W)"
      using that wr S(12) [of W] inj [of "Suc W" W'] b wl by simp
    have next_h: "h' = Suc h" if "rg_read r' = rg_next (rs_ring s) (enc m c h)"
      using that rd S(12) [of h] inj [of "Suc h" h'] b S(7) by simp
    have lap': "enc m c h + ?lap = enc m c (h + c)" using ticketsD(3) [OF S(6)] by simp
    from rg_step_claims [OF st refl] show ?thesis
    proof (elim disjE conjE exE)
      fix x w
      assume p: "rs_pc s t = PushStoreWrite x w" "rg_read r' = rg_read (rs_ring s)"
        "rg_write r' = rg_next (rs_ring s) w" "rg_hold ?lap p' = Some w"
      have "pc_ok_in m c h s (rs_lin s t) (rs_pc s t)" by (rule rg_threads_okD(3) [OF ok])
      then have "w = enc m c W" using p(1) by (auto elim!: tick_atE simp: W_def)
      then show ?thesis using p same next_w by simp
    qed (use same same' next_w next_h rd0 wr0 lap' in auto)
  qed
  then show "h \<le> h'" "W \<le> W'" by auto
  show "held_by m c ?lap (rs_pc s) k \<or> W \<le> k \<and> k < W'"
    if k: "k < h + c" and hb: "held_by m c (rg_lap (rs_ring ?s')) (rs_pc ?s') k"
  proof -
    have k62: "k < 2 ^ 62" using k S(8,9) by simp
    from hb consider "rg_hold ?lap p' = Some (enc m c k)"
      | u where "u \<noteq> t" "rg_hold ?lap (rs_pc s u) = Some (enc m c k)"
      unfolding s' lap held_by_upd by blast
    then show ?thesis
    proof cases
      case 1
      from new show ?thesis
      proof (elim disjE conjE)
        assume "h' = h" "W' = Suc W" "rg_hold ?lap p' = Some (enc m c W)"
        then show ?thesis using 1 inj [of W k] k62 wl by simp
      next
        assume "h' = Suc h" "rg_hold ?lap p' = Some (enc m c (h + c))"
        then show ?thesis using 1 inj [of "h + c" k] k62 k by simp
      qed (use 1 in \<open>auto simp: held_by_def\<close>)
    qed (auto simp: held_by_def)
  qed
qed

text \<open>What a call knows stays true while the cell of its slot is not accessed.\<close>

lemma knows_mono:
  assumes ok: "rg_shape m c h n r q" and pc: "rg_pc_ok (enc m c) c h q st val held res p"
    and kn: "wg_knows (enc m c) c h (h + length q) lap K p"
    and le: "h \<le> h'" "h + length q \<le> W'" "h' \<le> 2 ^ 61" "W' < 2 ^ 62"
    and K: "\<And>w. K w \<Longrightarrow> K' w"
  shows "wg_knows (enc m c) c h' W' lap K' p"
proof -
  note S = rg_shapeD [OF ok] and inj = threads_pos_inj [OF ok]
  have b: "h' + c < 2 ^ 62" using le(3) S(8) by simp
  have push: "enc m c j = enc m c W' \<Longrightarrow> j \<le> h + length q \<Longrightarrow> W' = h + length q" for j
    using inj [of j W'] le S(3) by simp
  have full: "enc m c j = enc m c (h' + c) \<Longrightarrow> j \<le> h + length q \<Longrightarrow> h' = h" for j
    using inj [of j "h' + c"] le b S(3) by simp
  have pop: "enc m c j = enc m c h' \<Longrightarrow> j \<le> h \<Longrightarrow> h' = h" for j
    using inj [of j h'] le by simp
  show ?thesis
    using pc kn K
    by (cases p) (auto elim!: tick_atE dest: push full pop)
qed

text \<open>A thread that accesses the cell of its slot leaves what the others know.\<close>

lemma knows_other_slot:
  assumes ok: "rg_threads_ok m c h n s" and t: "rg_hold (rg_lap (rs_ring s)) (rs_pc s t) = Some (enc m c k0)"
    and k0: "h \<le> k0" "k0 < h + c" and u: "u \<noteq> t"
    and kn: "wg_knows (enc m c) c h (h + length (rs_queue s)) (rg_lap (rs_ring s)) K (rs_pc s u)"
    and K: "\<And>w. rg_index (rs_ring s) w \<noteq> k0 mod c \<Longrightarrow> K w \<Longrightarrow> K' w"
  shows "wg_knows (enc m c) c h (h + length (rs_queue s)) (rg_lap (rs_ring s)) K' (rs_pc s u)"
proof -
  note S = rg_shapeD [OF rg_threads_okD(1) [OF ok]]
  have pc: "pc_ok_in m c h s (rs_lin s u) (rs_pc s u)" by (rule rg_threads_okD(3) [OF ok])
  have held: "held_by m c (rg_lap (rs_ring s)) (rs_pc s) k0" using t by (auto simp: held_by_def)
  have K0: "K' (enc m c k)" if "K (enc m c k)" "k mod c \<noteq> k0 mod c" for k
    using that K S(10) by simp
  have hold: "K' w" if w: "rg_hold (rg_lap (rs_ring s)) (rs_pc s u) = Some w" "K w" for w
  proof -
    obtain k where k: "w = enc m c k" "h \<le> k" "k < h + c" by (rule threads_held [OF ok w(1)])
    have "k mod c \<noteq> k0 mod c"
    proof
      assume "k mod c = k0 mod c"
      then have "k = k0" using window_inj [of h k c k0] k(2,3) k0 by simp
      then show False using rg_threads_okD(4) [OF ok w(1), of t] t k(1) u by simp
    qed
    then show ?thesis using K0 w(2) k(1) by simp
  qed
  have free: "k mod c \<noteq> k0 mod c" if "h \<le> k" "k < h + c" "\<not> held_by m c (rg_lap (rs_ring s)) (rs_pc s) k" for k
    using window_inj [OF that(1,2) k0] that(3) held by auto
  note inj = threads_pos_inj [OF rg_threads_okD(1) [OF ok]]
  have b: "h + c < 2 ^ 62" "h + length (rs_queue s) < 2 ^ 62" using S(3,8,9) by simp_all
  have tick: "P k" if t: "tick_at (enc m c) (enc m c k) P" "\<And>j. P j \<Longrightarrow> j \<le> h + c" "k < 2 ^ 62" for P k
  proof -
    obtain j where j: "enc m c k = enc m c j" "P j" using t(1) unfolding tick_at_def by blast
    then have "j = k" using inj [of j k] t(2) [OF j(2)] t(3) by simp
    then show ?thesis using j(2) by simp
  qed
  have push: "K' (enc m c (h + length (rs_queue s)))"
    if p: "rs_pc s u = PushCas x ow (enc m c (h + length (rs_queue s)))"
      and k: "K (enc m c (h + length (rs_queue s)))" for x ow
  proof -
    have "length (rs_queue s) < c
      \<and> \<not> held_by m c (rg_lap (rs_ring s)) (rs_pc s) (h + length (rs_queue s))"
    proof -
      have "tick_at (enc m c) (enc m c (h + length (rs_queue s))) (\<lambda>j. j \<le> h + length (rs_queue s)
          \<and> (j = h + length (rs_queue s) \<longrightarrow> length (rs_queue s) < c
             \<and> \<not> held_by m c (rg_lap (rs_ring s)) (rs_pc s) (h + length (rs_queue s))))"
        using pc p by (auto elim!: tick_at_mono)
      from tick [OF this _ b(2)] show ?thesis using S(3) by auto
    qed
    then show ?thesis using k free [of "h + length (rs_queue s)"] K0 by simp
  qed
  have full: "K' (enc m c (h + c))"
    if p: "rs_pc s u = PushFull x ow (enc m c (h + c)) \<or> rs_pc s u = PushReserve x (enc m c (h + c))"
      and k: "K (enc m c (h + c))" for x ow
  proof -
    have "\<not> held_by m c (rg_lap (rs_ring s)) (rs_pc s) h"
    proof -
      have "tick_at (enc m c) (enc m c (h + c)) (\<lambda>j. j \<le> h + length (rs_queue s)
          \<and> (j = h + c \<longrightarrow> \<not> held_by m c (rg_lap (rs_ring s)) (rs_pc s) h))"
        using pc p by (auto elim!: tick_at_mono)
      from tick [OF this _ b(1)] show ?thesis using S(3) by auto
    qed
    then show ?thesis using k free [of h] S(7) K0 by simp
  qed
  have pop: "K' (enc m c h)" if p: "rs_pc s u = PopCas (enc m c h)" and k: "K (enc m c h)"
  proof -
    have "\<not> held_by m c (rg_lap (rs_ring s)) (rs_pc s) h"
    proof -
      have "tick_at (enc m c) (enc m c h) (\<lambda>j. j \<le> h
          \<and> (j = h \<longrightarrow> \<not> held_by m c (rg_lap (rs_ring s)) (rs_pc s) h))"
        using pc p by (auto elim!: tick_at_mono)
      from tick [OF this] show ?thesis using b by auto
    qed
    then show ?thesis using k free [of h] S(7) K0 by simp
  qed
  show ?thesis
    using kn hold push full pop by (cases "rs_pc s u") auto
qed

lemma wg_okD:
  assumes "wg_ok m c h n s"
  shows "rg_threads_ok m c h n (wg_sys s)" "\<not> wg_race s" "i < c \<Longrightarrow> wg_msgs s i \<noteq> []"
    "i < c \<Longrightarrow> msg \<in> set (wg_msgs s i) \<Longrightarrow>
      wg_msg_ok (enc m c) c h (h + length (rs_queue (wg_sys s))) (wg_held m c (wg_sys s)) (wg_cells s) i msg"
    "wg_view s t i \<le> wg_cells s i"
    "wg_knows (enc m c) c h (h + length (rs_queue (wg_sys s))) (rg_lap (wg_ring s))
      (wg_known (wg_ring s) (wg_cells s) (wg_view s t)) (rs_pc (wg_sys s) t)"
    "rg_shape m c h n (wg_ring s) (rs_queue (wg_sys s))"
    "pc_ok_in m c h (wg_sys s) (rs_lin (wg_sys s) t) (rs_pc (wg_sys s) t)"
  using assms by (auto simp: wg_ok_def rg_threads_ok_def)

text \<open>An access that is none of a stamp or a cell.\<close>

lemma wg_known_same:
  "rg_lap r' = rg_lap r \<Longrightarrow> wg_known r' cells v = wg_known r cells v"
  by (simp add: wg_known_def rg_index_def rg_offset_def fun_eq_iff)

lemma wg_okI:
  assumes "rg_threads_ok m c h n (wg_sys s)" "\<not> wg_race s" "\<And>i. i < c \<Longrightarrow> wg_msgs s i \<noteq> []"
    and "\<And>i msg. i < c \<Longrightarrow> msg \<in> set (wg_msgs s i) \<Longrightarrow>
      wg_msg_ok (enc m c) c h (h + length (rs_queue (wg_sys s))) (wg_held m c (wg_sys s)) (wg_cells s) i msg"
    and "\<And>t i. wg_view s t i \<le> wg_cells s i"
    and "\<And>t. wg_knows (enc m c) c h (h + length (rs_queue (wg_sys s))) (rg_lap (wg_ring s))
      (wg_known (wg_ring s) (wg_cells s) (wg_view s t)) (rs_pc (wg_sys s) t)"
  shows "wg_ok m c h n s"
  using assms unfolding wg_ok_def by blast

lemma knows_self:
  assumes ok: "rg_shape m c h n r q" and st: "rg_step b r p = (r', p')"
    and p: "rg_loads p = None" "rg_stores p = None" "rg_accesses p = None"
    and kn: "wg_knows (enc m c) c h (h + length q) (rg_lap r) K p"
    and K: "\<And>k. K (enc m c (k + c)) \<longleftrightarrow> K (enc m c k)"
  shows "wg_knows (enc m c) c h' W' (rg_lap r) K p'"
proof -
  note S = rg_shapeD [OF ok]
  have old: "w = enc m c (h + c)" if "rg_read r = w - rg_lap r" for w
    using that S(4) ticketsD(3) [OF S(6), of h] by (simp add: eq_diff_eq)
  have pop: "K (rg_read r + rg_lap r) \<longleftrightarrow> K (rg_read r)"
    using K [of h] ticketsD(3) [OF S(6), of h] S(4) by simp
  show ?thesis
    using st p kn S(4) [symmetric] S(5) old pop by (cases p) (auto split: if_splits)
qed

lemma wg_plain_ok:
  assumes inv: "wg_ok m c h n s" and n: "Suc n \<le> 2 ^ 61"
    and p: "rg_loads (rs_pc (wg_sys s) t) = None" "rg_stores (rs_pc (wg_sys s) t) = None"
      "rg_accesses (rs_pc (wg_sys s) t) = None"
  shows "\<exists>h'. wg_ok m c h' (Suc n) (s\<lparr>wg_sys := rs_do c (RingStep t b) (wg_sys s)\<rparr>)"
proof -
  let ?sys = "wg_sys s" let ?sys' = "rs_do c (RingStep t b) (wg_sys s)"
  note I = wg_okD [OF inv]
  obtain h' where ok': "rg_threads_ok m c h' (Suc n) ?sys'" using threads_do [OF I(1) n] by blast
  note S = rg_shapeD [OF I(7)] and S' = rg_shapeD [OF rg_threads_okD(1) [OF ok']]
    and C = step_claims [OF I(1) ok']
  obtain r' p' where st: "rg_step b (wg_ring s) (rs_pc ?sys t) = (r', p')"
    by (cases "rg_step b (wg_ring s) (rs_pc ?sys t)")
  have s': "rs_ring ?sys' = r'" "rs_pc ?sys' = (rs_pc ?sys)(t := p')" "rg_lap r' = rg_lap (wg_ring s)"
    using st rs_step_exec(3) [of _ t c b ?sys] rs_step_exec(1,2) [of c t b ?sys]
      rg_step_lap [of b "wg_ring s" "rs_pc ?sys t"] by auto
  have b: "h' \<le> 2 ^ 61" "h' + length (rs_queue ?sys') < 2 ^ 62" using S'(9) by simp_all
  have "wg_knows (enc m c) c h' (h' + length (rs_queue ?sys')) (rg_lap (wg_ring s))
      (wg_known (wg_ring s) (wg_cells s) (wg_view s u)) (rs_pc ?sys' u)" for u
  proof (cases "u = t")
    case True
    have "wg_known (wg_ring s) (wg_cells s) (wg_view s t) (enc m c (k + c))
        = wg_known (wg_ring s) (wg_cells s) (wg_view s t) (enc m c k)" for k
      by (simp add: wg_known_def S(10))
    from knows_self [OF I(7) st p I(6) this] show ?thesis using True s' by simp
  next
    case False
    then show ?thesis using knows_mono [OF I(7,8,6) C(1,2) b] s' by simp
  qed
  moreover have "wg_msg_ok (enc m c) c h' (h' + length (rs_queue ?sys')) (wg_held m c ?sys') (wg_cells s) i msg"
    if "i < c" "msg \<in> set (wg_msgs s i)" for i msg
    using wg_msg_mono [OF I(4) [OF that] C] by blast
  ultimately have "wg_ok m c h' (Suc n) (s\<lparr>wg_sys := ?sys'\<rparr>)"
    using I(2,3,5) ok' by (intro wg_okI) (simp_all add: s' wg_known_same [OF s'(3)] del: rs_do.simps)
  then show ?thesis ..
qed

text \<open>The stamp that a store publishes is that of the ticket the thread holds, and releases it.\<close>

lemma stores_facts:
  assumes ok: "rg_threads_ok m c h n s" and p: "rg_stores (rs_pc s t) = Some w"
    and ok': "rg_threads_ok m c h' n' (rs_do c (RingStep t b) s)"
  obtains k where "rg_hold (rg_lap (rs_ring s)) (rs_pc s t) = Some (enc m c k)" "rg_index (rs_ring s) w = k mod c"
    "h \<le> k" "k < h + c" "rg_hold (rg_lap (rs_ring s)) (rs_pc (rs_do c (RingStep t b) s) t) = None"
    "rg_stamp (rs_ring (rs_do c (RingStep t b) s)) w = enc m c k \<and> h + length (rs_queue s) \<le> k
      \<or> rg_stamp (rs_ring (rs_do c (RingStep t b) s)) w = enc m c k + 1 \<and> k < h + length (rs_queue s)"
proof -
  note S = rg_shapeD [OF rg_threads_okD(1) [OF ok]]
  have pc: "pc_ok_in m c h s (rs_lin s t) (rs_pc s t)" by (rule rg_threads_okD(3) [OF ok])
  have stamp: "rg_stamp (rg_set_stamp (rs_ring s) (enc m c k) y) (enc m c k) = y" for k y
    using S(11) [of k] by (simp add: rg_stamp_def rg_set_stamp_def rg_index_def rg_offset_def)
  have lap: "enc m c k + rg_lap (rs_ring s) = enc m c (k + c)" for k using ticketsD(3) [OF S(6)] by simp
  from p consider d where "rs_pc s t = PushPublish w d" | x where "rs_pc s t = PopPublish w x"
    by (cases "rs_pc s t") auto
  then show thesis
  proof cases
    case 1
    with pc obtain k where k: "w = enc m c k" "h \<le> k" "k < h + length (rs_queue s)"
      by (auto elim: tick_atE)
    then show thesis using that [of k] 1 S(3,10) stamp [of k] by (simp add: split_beta)
  next
    case 2
    with pc obtain j where "w = enc m c j" "j < h" "h + length (rs_queue s) \<le> j + c"
      by (auto elim: tick_atE)
    then show thesis using that [of "j + c"] 2 S(10) stamp [of j] lap [of j] by (simp add: split_beta)
  qed
qed

lemma wg_store_ok:
  assumes inv: "wg_ok m c h n s" and n: "Suc n \<le> 2 ^ 61" and p: "rg_stores (rs_pc (wg_sys s) t) = Some w"
  shows "\<exists>h'. wg_ok m c h' (Suc n) (wg_store c t w s)"
proof -
  let ?sys = "wg_sys s" let ?sys' = "rs_do c (RingStep t False) (wg_sys s)"
  note I = wg_okD [OF inv]
  obtain h' where ok': "rg_threads_ok m c h' (Suc n) ?sys'" using threads_do [OF I(1) n] by blast
  note S = rg_shapeD [OF I(7)] and S' = rg_shapeD [OF rg_threads_okD(1) [OF ok']]
    and C = step_claims [OF I(1) ok']
  obtain r' p' where st: "rg_step False (wg_ring s) (rs_pc ?sys t) = (r', p')"
    by (cases "rg_step False (wg_ring s) (rs_pc ?sys t)")
  have s': "rs_ring ?sys' = r'" "rs_pc ?sys' = (rs_pc ?sys)(t := p')" "rg_lap r' = rg_lap (wg_ring s)"
    using st rs_step_exec(3) [of _ t c False ?sys] rs_step_exec(1,2) [of c t False ?sys]
      rg_step_lap [of False "wg_ring s" "rs_pc ?sys t"] by auto
  have b: "h' \<le> 2 ^ 61" "h' + length (rs_queue ?sys') < 2 ^ 62" using S'(9) by simp_all
  obtain k where k: "rg_hold (rg_lap (wg_ring s)) (rs_pc ?sys t) = Some (enc m c k)"
      "rg_index (wg_ring s) w = k mod c" "h \<le> k" "k < h + c" "rg_hold (rg_lap (wg_ring s)) p' = None"
      "rg_stamp r' w = enc m c k \<and> h + length (rs_queue ?sys) \<le> k
        \<or> rg_stamp r' w = enc m c k + 1 \<and> k < h + length (rs_queue ?sys)"
    using stores_facts [OF I(1) p ok'] s' by auto
  have view: "wg_view s t (k mod c) = wg_cells s (k mod c)"
    using I(6) [of t] k(1) p by (cases "rs_pc ?sys t") (auto simp: wg_known_def S(10))
  have free: "\<not> wg_held m c ?sys' k"
  proof
    assume "wg_held m c ?sys' k"
    then obtain u where "u \<noteq> t" "rg_hold (rg_lap (wg_ring s)) (rs_pc ?sys u) = Some (enc m c k)"
      using k(5) unfolding s' held_by_upd by auto
    then show False using rg_threads_okD(4) [OF I(1) k(1)] by blast
  qed
  have new: "wg_msg_ok (enc m c) c h' (h' + length (rs_queue ?sys')) (wg_held m c ?sys') (wg_cells s)
      (k mod c) (rg_stamp r' w, wg_view s t)"
    unfolding wg_msg_ok_def using I(5) view free k(4,6) C(1,2) by auto
  have "wg_msg_ok (enc m c) c h' (h' + length (rs_queue ?sys')) (wg_held m c ?sys') (wg_cells s) i msg"
    if "i < c" "msg \<in> set (wg_msgs s i)" for i msg
    using wg_msg_mono [OF I(4) [OF that] C] by blast
  moreover have "wg_knows (enc m c) c h' (h' + length (rs_queue ?sys')) (rg_lap (wg_ring s))
      (wg_known (wg_ring s) (wg_cells s) (wg_view s u)) (rs_pc ?sys' u)" for u
  proof (cases "u = t")
    case True
    then show ?thesis using s'(2) p st by (cases "rs_pc ?sys t") auto
  next
    case False
    then show ?thesis using knows_mono [OF I(7,8,6) C(1,2) b] s' by simp
  qed
  ultimately have "wg_ok m c h' (Suc n) (wg_store c t w s)"
    using I(2,3,5) ok' new k(2)
    by (intro wg_okI) (auto simp: wg_store_def Let_def s' wg_known_same [OF s'(3)] simp del: rs_do.simps split: if_splits)
  then show ?thesis ..
qed

text \<open>A thread that accesses a cell holds the ticket of its slot.\<close>

lemma accesses_facts:
  assumes ok: "rg_threads_ok m c h n s" and p: "rg_accesses (rs_pc s t) = Some w"
  obtains k where "rg_hold (rg_lap (rs_ring s)) (rs_pc s t) = Some (enc m c k)" "rg_index (rs_ring s) w = k mod c"
    "h \<le> k" "k < h + c"
proof -
  note S = rg_shapeD [OF rg_threads_okD(1) [OF ok]]
  have pc: "pc_ok_in m c h s (rs_lin s t) (rs_pc s t)" by (rule rg_threads_okD(3) [OF ok])
  have lap: "enc m c k + rg_lap (rs_ring s) = enc m c (k + c)" for k using ticketsD(3) [OF S(6)] by simp
  show thesis
  proof (cases "rs_pc s t = PopRead w")
    case True
    with pc obtain j where "w = enc m c j" "j < h" "h + length (rs_queue s) \<le> j + c"
      by (auto elim: tick_atE)
    then show thesis using that [of "j + c"] True S(10) lap [of j] by simp
  next
    case False
    then obtain x where x: "rs_pc s t = PushWrite x w \<or> rs_pc s t = PushReplace x w"
      using p by (cases "rs_pc s t") auto
    with pc obtain k where "w = enc m c k" "h \<le> k" "k < h + length (rs_queue s)"
      by (auto elim!: tick_atE)
    then show thesis using that [of k] x S(3,10) by auto
  qed
qed

lemma wg_msg_cell:
  assumes msg: "wg_msg_ok e c H W held cells i msg" and k0: "held k0" "H \<le> k0" "k0 < H + c"
    and W: "H \<le> W" "W \<le> H + c"
  shows "wg_msg_ok e c H W held (cells(k0 mod c := cells (k0 mod c) + 1)) i msg"
proof -
  obtain x v where m: "msg = (x, v)" by (cases msg)
  obtain k where v: "\<forall>k. v k \<le> cells k" and k: "k mod c = i"
    and d: "x = e k \<and> k < H + c \<and> (W \<le> k \<longrightarrow> \<not> held k \<and> v i = cells i)
      \<or> x = e k + 1 \<and> k < W \<and> (H \<le> k \<longrightarrow> \<not> held k \<and> v i = cells i)"
    using msg unfolding m wg_msg_ok_def by auto
  have "i \<noteq> k0 mod c" if "H \<le> k" "k < H + c" "\<not> held k"
    using window_inj [OF that(1,2) k0(2,3)] k that(3) k0(1) by auto
  then have "x = e k \<and> k < H + c \<and> (W \<le> k \<longrightarrow> \<not> held k \<and> v i = (cells(k0 mod c := cells (k0 mod c) + 1)) i)
      \<or> x = e k + 1 \<and> k < W \<and> (H \<le> k \<longrightarrow> \<not> held k \<and> v i = (cells(k0 mod c := cells (k0 mod c) + 1)) i)"
    using d W by auto
  moreover have "\<forall>k. v k \<le> (cells(k0 mod c := cells (k0 mod c) + 1)) k" using v by (simp add: le_SucI)
  ultimately show ?thesis using k unfolding m wg_msg_ok_def by blast
qed

lemma knows_access:
  assumes "rg_accesses p = Some w" "rg_step b r p = (r', p')"
    and "\<And>v. rg_hold lap p' = Some v \<Longrightarrow> K v"
  shows "wg_knows e c H W lap K p'" "rg_hold lap p' = None \<or> rg_hold lap p' = rg_hold lap p"
  using assms by (cases p; auto split: option.splits)+

lemma wg_cell_ok:
  assumes inv: "wg_ok m c h n s" and n: "Suc n \<le> 2 ^ 61" and p: "rg_accesses (rs_pc (wg_sys s) t) = Some w"
  shows "\<exists>h'. wg_ok m c h' (Suc n) (wg_cell c t w s)"
proof -
  let ?sys = "wg_sys s" let ?sys' = "rs_do c (RingStep t False) (wg_sys s)"
  note I = wg_okD [OF inv]
  obtain h' where ok': "rg_threads_ok m c h' (Suc n) ?sys'" using threads_do [OF I(1) n] by blast
  note S = rg_shapeD [OF I(7)] and S' = rg_shapeD [OF rg_threads_okD(1) [OF ok']]
    and C = step_claims [OF I(1) ok']
  obtain r' p' where st: "rg_step False (wg_ring s) (rs_pc ?sys t) = (r', p')"
    by (cases "rg_step False (wg_ring s) (rs_pc ?sys t)")
  have s': "rs_ring ?sys' = r'" "rs_pc ?sys' = (rs_pc ?sys)(t := p')" "rg_lap r' = rg_lap (wg_ring s)"
    using st rs_step_exec(3) [of _ t c False ?sys] rs_step_exec(1,2) [of c t False ?sys]
      rg_step_lap [of False "wg_ring s" "rs_pc ?sys t"] by auto
  have b: "h' \<le> 2 ^ 61" "h' + length (rs_queue ?sys') < 2 ^ 62" using S'(9) by simp_all
  obtain k where k: "rg_hold (rg_lap (wg_ring s)) (rs_pc ?sys t) = Some (enc m c k)"
      "rg_index (wg_ring s) w = k mod c" "h \<le> k" "k < h + c"
    by (rule accesses_facts [OF I(1) p])
  let ?i = "k mod c" let ?cells = "(wg_cells s)(?i := wg_cells s ?i + 1)"
  let ?view = "(wg_view s)(t := (wg_view s t)(?i := wg_cells s ?i + 1))"
  have view: "wg_view s t ?i = wg_cells s ?i"
    using I(6) [of t] k(1) p by (cases "rs_pc ?sys t") (auto simp: wg_known_def S(10))
  have c': "wg_cell c t w s = s\<lparr>wg_sys := ?sys', wg_race := False, wg_cells := ?cells, wg_view := ?view\<rparr>"
    using view I(2) by (simp add: wg_cell_def Let_def k(2) del: rs_do.simps)
  have held: "wg_held m c ?sys k" using k(1) by (auto simp: held_by_def)
  have "wg_msg_ok (enc m c) c h' (h' + length (rs_queue ?sys')) (wg_held m c ?sys') ?cells i msg"
    if "i < c" "msg \<in> set (wg_msgs s i)" for i msg
    using wg_msg_mono [OF wg_msg_cell [OF I(4) [OF that] held k(3,4)] C] S(3) by simp
  moreover have "wg_knows (enc m c) c h' (h' + length (rs_queue ?sys')) (rg_lap (wg_ring s))
      (wg_known (wg_ring s) ?cells (?view u)) (rs_pc ?sys' u)" for u
  proof (cases "u = t")
    case True
    have "wg_known (wg_ring s) ?cells (?view t) v" if "rg_hold (rg_lap (wg_ring s)) p' = Some v" for v
    proof -
      have "rg_hold (rg_lap (wg_ring s)) p' = Some (enc m c k)"
        using that knows_access(2) [OF p st, where K = "\<lambda>_. True" and lap = "rg_lap (wg_ring s)"] k(1) by auto
      then show ?thesis using that by (auto simp: wg_known_def S(10))
    qed
    from knows_access(1) [OF p st this] show ?thesis using True s'(2) by simp
  next
    case False
    have "wg_knows (enc m c) c h (h + length (rs_queue ?sys)) (rg_lap (wg_ring s))
        (wg_known (wg_ring s) ?cells (wg_view s u)) (rs_pc ?sys u)"
      by (rule knows_other_slot [OF I(1) k(1,3,4) False I(6)]) (simp add: wg_known_def)
    then show ?thesis using knows_mono [OF I(7,8) _ C(1,2) b] False s' by simp
  qed
  ultimately have "wg_ok m c h' (Suc n) (wg_cell c t w s)"
    unfolding c' using I(3,5) ok'
    by (intro wg_okI) (simp_all add: s' wg_known_same [OF s'(3)] le_SucI del: rs_do.simps)
  then show ?thesis ..
qed

text \<open>A stamp that a load returns, with what it tells of the cell.\<close>

lemma load_step:
  assumes "rg_index r p < length (rg_slots r)"
  shows "snd (rg_step b (rg_set_stamp r p y) (PushStamp x ow p)) =
      (if y = p then PushCas x ow p else if y = p - rg_lap r + 1 then PushFull x ow p else PushLoad x ow)"
    "snd (rg_step b (rg_set_stamp r p y) (PopStamp p)) =
      (if y = p + 1 then PopCas p else if y = p then PopEmpty p else PopLoad)"
proof -
  have i: "rg_index (rg_set_stamp r p y) p = rg_index r p" "length (rg_slots (rg_set_stamp r p y)) = length (rg_slots r)"
    "rg_lap (rg_set_stamp r p y) = rg_lap r"
    by (simp_all add: rg_set_stamp_def rg_index_def rg_offset_def)
  then have "rg_stamp (rg_set_stamp r p y) p = y"
    using assms by (simp add: rg_stamp_def) (simp add: rg_set_stamp_def)
  then show "snd (rg_step b (rg_set_stamp r p y) (PushStamp x ow p)) =
      (if y = p then PushCas x ow p else if y = p - rg_lap r + 1 then PushFull x ow p else PushLoad x ow)"
    "snd (rg_step b (rg_set_stamp r p y) (PopStamp p)) =
      (if y = p + 1 then PopCas p else if y = p then PopEmpty p else PopLoad)"
    using assms by (simp_all add: i)
qed

text \<open>
  The message that says that the slot of ticket \<open>j\<close> is free, or full, when the ticket is the next
  one of the pushes, or of the pops.
\<close>

lemma msg_free:
  assumes ok: "rg_shape m c h n r q" and msg: "wg_msg_ok (enc m c) c h W held cells i (y, v)"
    and y: "y = enc m c j" and j: "j \<le> h + c" "W \<le> h + c"
  shows "j < h + c \<and> (W \<le> j \<longrightarrow> \<not> held j \<and> v i = cells i)"
proof -
  note S = rg_shapeD [OF ok] and inj = threads_pos_inj [OF ok]
  have b: "j < 2 ^ 62" using j S(8,9) by simp
  obtain k where k: "k mod c = i" and d: "y = enc m c k \<and> k < h + c \<and> (W \<le> k \<longrightarrow> \<not> held k \<and> v i = cells i)
      \<or> y = enc m c k + 1 \<and> k < W \<and> (h \<le> k \<longrightarrow> \<not> held k \<and> v i = cells i)"
    using msg unfolding wg_msg_ok_def by auto
  have y': "y \<noteq> enc m c k + 1" using y ticketsD(4) [OF S(6), of j k] by metis
  then have "k < h + c" "enc m c k = enc m c j" using d y by auto
  then have "k = j" using inj [of k j] b by simp
  then show ?thesis using d y' by blast
qed

lemma msg_full:
  assumes ok: "rg_shape m c h n r q" and msg: "wg_msg_ok (enc m c) c h W held cells i (y, v)"
    and y: "y = enc m c j + 1" and j: "j \<le> h + c" "W \<le> h + c"
  shows "j < W \<and> (h \<le> j \<longrightarrow> \<not> held j \<and> v i = cells i)"
proof -
  note S = rg_shapeD [OF ok] and inj = threads_pos_inj [OF ok]
  have b: "j < 2 ^ 62" using j S(8,9) by simp
  obtain k where k: "k mod c = i" and d: "y = enc m c k \<and> k < h + c \<and> (W \<le> k \<longrightarrow> \<not> held k \<and> v i = cells i)
      \<or> y = enc m c k + 1 \<and> k < W \<and> (h \<le> k \<longrightarrow> \<not> held k \<and> v i = cells i)"
    using msg unfolding wg_msg_ok_def by auto
  have y': "y \<noteq> enc m c k" using y ticketsD(4) [OF S(6), of k j] by metis
  then have "k < W" "enc m c k = enc m c j" using d y by auto
  then have "k = j" using inj [of k j] b j(2) by simp
  then show ?thesis using d y' by blast
qed

lemma wg_load_ok:
  assumes inv: "wg_ok m c h n s" and n: "Suc n \<le> 2 ^ 61" and p: "rg_loads (rs_pc (wg_sys s) t) = Some w"
  shows "wg_ok m c h (Suc n) (wg_load t j w s)"
proof -
  let ?sys = "wg_sys s" let ?r = "wg_ring s" let ?W = "h + length (rs_queue (wg_sys s))"
  let ?i = "rg_index (wg_ring s) w"
  note I = wg_okD [OF inv] and S = rg_shapeD [OF wg_okD(7) [OF inv]]
  have pc: "pc_ok_in m c h ?sys (rs_lin ?sys t) (rs_pc ?sys t)" by (rule I(8))
  have w: "tick_at (enc m c) w (\<lambda>k. k \<le> h + c)"
    using pc p S(3) by (cases "rs_pc ?sys t") (auto elim!: tick_at_mono)
  then have idx: "?i < c" using S(2,11) by (auto elim: tick_atE)
  obtain y v where msg: "(if j < length (wg_msgs s ?i) then wg_msgs s ?i ! j else last (wg_msgs s ?i)) = (y, v)"
    by (cases "if j < length (wg_msgs s ?i) then wg_msgs s ?i ! j else last (wg_msgs s ?i)")
  have "(y, v) \<in> set (wg_msgs s ?i)"
    using msg I(3) [OF idx] by (metis last_in_set nth_mem)
  note M = I(4) [OF idx this]
  define p' where "p' = snd (rg_step False (rg_set_stamp ?r w y) (rs_pc ?sys t))"
  let ?view = "\<lambda>k. max (wg_view s t k) (v k)"
  have s': "wg_load t j w s = s\<lparr>wg_sys := ?sys\<lparr>rs_pc := (rs_pc ?sys)(t := p')\<rparr>, wg_view := (wg_view s)(t := ?view)\<rparr>"
    by (simp add: wg_load_def Let_def msg p'_def)
  have v: "v k \<le> wg_cells s k" for k using M by (simp add: wg_msg_ok_def)
  have "rg_hold (rg_lap ?r) p' = None \<and> pc_ok_in m c h ?sys (rs_lin ?sys t) p'
    \<and> wg_knows (enc m c) c h ?W (rg_lap ?r) (wg_known ?r (wg_cells s) ?view) p'"
  proof -
    have W: "?W \<le> h + c" using S(3) by simp
    have len: "?i < length (rg_slots ?r)" using idx S(2) by simp
    note inj = threads_pos_inj [OF I(7)]
    have known: "wg_known ?r (wg_cells s) ?view w" if "v ?i = wg_cells s ?i"
      using that I(5) [of t ?i] by (simp add: wg_known_def)
    from p consider x ow where "rs_pc ?sys t = PushStamp x ow w" | "rs_pc ?sys t = PopStamp w"
      by (cases "rs_pc ?sys t") auto
    then show ?thesis
    proof cases
      case 1
      with pc obtain k where k: "w = enc m c k" "k \<le> ?W" and res: "rs_lin ?sys t = None"
        by (auto elim: tick_atE)
      have p': "p' = (if y = w then PushCas x ow w
          else if y = w - rg_lap ?r + 1 then PushFull x ow w else PushLoad x ow)"
        using load_step(1) [OF len] 1 by (simp add: p'_def)
      have cas: "k < h + c \<and> (?W \<le> k \<longrightarrow> \<not> wg_held m c ?sys k \<and> v ?i = wg_cells s ?i)" if "y = w"
        using msg_free [OF I(7) M, of k] that k W by simp
      have full: "\<not> wg_held m c ?sys h \<and> v ?i = wg_cells s ?i"
        if "y = w - rg_lap ?r + 1" "k = h + c"
      proof -
        have "y = enc m c h + 1" using that k(1) slot_again(3) [OF I(7), of h] by simp
        then show ?thesis using msg_full [OF I(7) M, of h] W by simp
      qed
      have tk: "tick_at (enc m c) w P" if "P k" for P using that k(1) by (simp add: tick_atI)
      have at_W: "k = ?W" if "w = enc m c ?W" using that k inj [of k ?W] W S(8,9) by simp
      have at_c: "k = h + c" if "w = enc m c (h + c)" using that k W inj [of k "h + c"] S(8,9) by simp
      consider "y = w" "p' = PushCas x ow w" | "y = w - rg_lap ?r + 1" "p' = PushFull x ow w" | "p' = PushLoad x ow"
        using p' by (auto split: if_splits)
      then show ?thesis
      proof cases
        case 1
        have "tick_at (enc m c) w (\<lambda>j. j \<le> ?W \<and> (j = ?W \<longrightarrow> length (rs_queue ?sys) < c \<and> \<not> wg_held m c ?sys j))"
          using cas [OF 1(1)] k(2) by (intro tk) auto
        moreover have "w = enc m c ?W \<longrightarrow> wg_known ?r (wg_cells s) ?view w"
          using cas [OF 1(1)] at_W known by blast
        ultimately show ?thesis using 1(2) res by simp
      next
        case 2
        have "tick_at (enc m c) w (\<lambda>j. j \<le> ?W \<and> (j = h + c \<longrightarrow> \<not> wg_held m c ?sys h))"
          using full [OF 2(1)] k(2) by (intro tk) auto
        moreover have "w = enc m c (h + c) \<longrightarrow> wg_known ?r (wg_cells s) ?view w"
          using full [OF 2(1)] at_c known by blast
        ultimately show ?thesis using 2(2) res by simp
      qed (use res in simp)
    next
      case 2
      with pc obtain k where k: "w = enc m c k" "k \<le> h" and res: "rs_lin ?sys t = None"
        by (auto elim: tick_atE)
      have p': "p' = (if y = w + 1 then PopCas w else if y = w then PopEmpty w else PopLoad)"
        using load_step(2) [OF len] 2 by (simp add: p'_def)
      have full: "k < ?W \<and> (h \<le> k \<longrightarrow> \<not> wg_held m c ?sys k \<and> v ?i = wg_cells s ?i)" if "y = w + 1"
        using msg_full [OF I(7) M, of k] that k W by simp
      have tk: "tick_at (enc m c) w P" if "P k" for P using that k(1) by (simp add: tick_atI)
      have at_h: "k = h" if "w = enc m c h" using that k inj [of k h] S(8,9) by simp
      consider "y = w + 1" "p' = PopCas w" | "p' = PopEmpty w" | "p' = PopLoad"
        using p' by (auto split: if_splits)
      then show ?thesis
      proof cases
        case 1
        have "tick_at (enc m c) w (\<lambda>j. j \<le> h \<and> (j = h \<longrightarrow> rs_queue ?sys \<noteq> [] \<and> \<not> wg_held m c ?sys h))"
          using full [OF 1(1)] k(2) by (intro tk) auto
        moreover have "w = enc m c h \<longrightarrow> wg_known ?r (wg_cells s) ?view w"
          using full [OF 1(1)] at_h known by blast
        ultimately show ?thesis using 1(2) res by simp
      next
        case 2
        have "tick_at (enc m c) w (\<lambda>j. j \<le> h)" using k(2) by (rule tk)
        then show ?thesis using 2 res by simp
      qed (use res in simp)
    qed
  qed
  then have P: "rg_hold (rg_lap ?r) p' = None" "pc_ok_in m c h ?sys (rs_lin ?sys t) p'"
    "wg_knows (enc m c) c h ?W (rg_lap ?r) (wg_known ?r (wg_cells s) ?view) p'" by blast+
  have old: "rg_hold (rg_lap ?r) (rs_pc ?sys t) = None" using p by (cases "rs_pc ?sys t") auto
  have "?sys\<lparr>rs_pc := (rs_pc ?sys)(t := p')\<rparr> = \<lparr>rs_ring = ?r, rs_pc = (rs_pc ?sys)(t := p'),
      rs_queue = rs_queue ?sys, rs_lin = (rs_lin ?sys)(t := rs_lin ?sys t)\<rparr>"
    by (cases ?sys) simp
  then have ok': "rg_threads_ok m c h (Suc n) (?sys\<lparr>rs_pc := (rs_pc ?sys)(t := p')\<rparr>)"
    using threads_local [OF I(1) _ n old P(1,2)] by (simp only: le_SucI le_refl)
  have held: "held_by m c (rg_lap ?r) ((rs_pc ?sys)(t := p')) = wg_held m c ?sys"
    using old P(1) by (auto simp: fun_eq_iff held_by_upd held_by_split [where pc = "rs_pc ?sys" and t = t])
  show ?thesis
    unfolding s' using ok' I(2-6) v P(3) by (intro wg_okI) (auto simp: held)
qed

section \<open>Every schedule\<close>

lemma wg_access_ok:
  assumes inv: "wg_ok m c h n s" and n: "Suc n \<le> 2 ^ 61"
  shows "\<exists>h'. wg_ok m c h' (Suc n) (wg_access c t b j s)"
  using wg_load_ok [OF inv n, of t] wg_store_ok [OF inv n, of t] wg_cell_ok [OF inv n, of t]
    wg_plain_ok [OF inv n, of t b]
  by (auto simp: wg_access_def Let_def simp del: rs_do.simps split: option.splits)

lemma wg_call_ok:
  assumes inv: "wg_ok m c h n s" and n: "Suc n \<le> 2 ^ 61"
  shows "wg_ok m c h (Suc n) (s\<lparr>wg_sys := rs_do c (RingCall t pc) (wg_sys s)\<rparr>)"
proof -
  let ?sys = "wg_sys s" let ?sys' = "rs_do c (RingCall t pc) (wg_sys s)"
  note I = wg_okD [OF inv]
  have ring: "rs_ring ?sys' = wg_ring s" "rs_queue ?sys' = rs_queue ?sys" by auto
  obtain h' where ok': "rg_threads_ok m c h' (Suc n) ?sys'" using threads_do [OF I(1) n] by blast
  note S = rg_shapeD [OF I(7)] and S' = rg_shapeD [OF rg_threads_okD(1) [OF ok']]
  have "enc m c h' = enc m c h" using S(4) S'(4) ring(1) by metis
  then have "h' = h" using threads_pos_inj [OF I(7), of h h'] S'(9) by simp
  moreover have "rg_hold lap (rs_pc ?sys' u) = rg_hold lap (rs_pc ?sys u)" for lap u
    by (cases "rs_pc ?sys t"; cases pc) auto
  then have "wg_held m c ?sys' = wg_held m c ?sys"
    unfolding ring by (auto simp: fun_eq_iff held_by_def simp del: rs_do.simps)
  moreover have "wg_knows e c h W lap K (rs_pc ?sys' u)" if "wg_knows e c h W lap K (rs_pc ?sys u)" for e W lap K u
    using that by (cases "rs_pc ?sys t"; cases pc) auto
  ultimately show ?thesis
    using I(2-6) ok' by (intro wg_okI) (auto simp: ring simp del: rs_do.simps)
qed

lemma wg_do_ok:
  assumes "wg_ok m c h n s" and "Suc n \<le> 2 ^ 61"
  shows "\<exists>h'. wg_ok m c h' (Suc n) (wg_do c cmd s)"
proof (cases cmd)
  case (WgCall t pc)
  then show ?thesis using wg_call_ok [OF assms, of t pc] by (auto simp del: rs_do.simps intro!: exI [of _ h])
next
  case (WgStep t b j)
  then show ?thesis using wg_access_ok [OF assms] by simp
qed

lemma wg_init_ok:
  assumes "0 < cap" "cap \<le> 2 ^ 60"
  shows "\<exists>m. wg_ok m cap 0 0 (wg_init cap)"
proof -
  obtain m where ok: "rg_threads_ok m cap 0 0 (rs_init cap :: 'a ring_sys)"
    using threads_init [OF assms] by blast
  have "wg_msg_ok (enc m cap) cap 0 0 (\<lambda>_. False) (\<lambda>_. 0) i (of_nat (i * 2), \<lambda>_. 0)" if "i < cap" for i
    using that by (auto simp: wg_msg_ok_def enc_def mult.commute intro!: exI [of _ i])
  moreover have "held_by m cap lap (\<lambda>_. Counted 0 :: 'a rg_pc) = (\<lambda>_. False)" for lap
    by (simp add: held_by_def fun_eq_iff)
  ultimately have "wg_ok m cap 0 0 (wg_init cap :: 'a weak_ring)"
    using ok by (intro wg_okI) (auto simp: wg_init_def rs_init_def)
  then show ?thesis ..
qed

lemma wg_run:
  assumes "0 < cap" "cap \<le> 2 ^ 60" "length cs \<le> 2 ^ 61"
  obtains m h where "wg_ok m cap h (length cs) (fold (wg_do cap) cs (wg_init cap))"
proof -
  have "\<exists>m h. wg_ok m cap h (length cs) (fold (wg_do cap) cs (wg_init cap))"
    using assms(3)
  proof (induction cs rule: rev_induct)
    case Nil
    then show ?case using wg_init_ok [OF assms(1,2)] by auto
  next
    case (snoc cmd cs)
    then obtain m h where "wg_ok m cap h (length cs) (fold (wg_do cap) cs (wg_init cap))" by auto
    from wg_do_ok [OF this, of cmd] snoc.prems show ?case by (auto simp del: wg_do.simps)
  qed
  with that show thesis by blast
qed

text \<open>An access is one of \<open>RingThreads\<close>, or a load of a stamp, which has no effect on the queue.\<close>

lemma wg_step_sys:
  "(\<exists>b'. wg_sys (wg_do c (WgStep t b j) s) = rs_do c (RingStep t b') (wg_sys s))
   \<or> (\<exists>r. wg_sys (wg_do c (WgStep t b j) s)
        = (wg_sys s)\<lparr>rs_pc := (rs_pc (wg_sys s))(t := snd (rg_step False r (rs_pc (wg_sys s) t)))\<rparr>)"
  by (auto simp: wg_access_def wg_load_def wg_store_def wg_cell_def Let_def split_beta
      simp del: rs_do.simps split: option.splits)

text \<open>A thread that a schedule does not mention does nothing.\<close>

fun wg_thread :: "'a wg_cmd \<Rightarrow> nat" where
  "wg_thread (WgCall t pc) = t"
| "wg_thread (WgStep t b j) = t"

lemma wg_others:
  assumes "\<forall>cmd \<in> set cs. wg_thread cmd \<noteq> t"
  shows "rs_pc (wg_sys (fold (wg_do c) cs s)) t = rs_pc (wg_sys s) t"
  using assms
proof (induction cs arbitrary: s)
  case (Cons cmd cs)
  have "rs_pc (wg_sys (wg_do c cmd s)) t = rs_pc (wg_sys s) t"
  proof (cases cmd)
    case (WgStep u b j)
    then show ?thesis
      using wg_step_sys [of c u b j s] Cons.prems by (auto simp: rs_step_exec(3) simp del: wg_do.simps rs_do.simps)
  qed (use Cons.prems in auto)
  then show ?case using Cons by (simp del: wg_do.simps)
qed simp

section \<open>Properties\<close>

text \<open>
  C1. Linearisability with old stamps: in every schedule of at most \<open>2 ^ 61\<close> accesses of any number of
  threads, in which a load of a stamp may return any stamp stored before, a call that has returned
  took effect on the bounded queue during the call and returns what the queue returned there; a
  call that may still go back to its start has had no effect.
\<close>

theorem ring_weak_linearisable:
  assumes "0 < capacity" and "capacity \<le> 2 ^ 60" and "length cs \<le> 2 ^ 61"
    and "s = fold (wg_do capacity) cs (wg_init capacity)"
  shows "(rg_returned (rs_pc (wg_sys s) t) \<longrightarrow> rs_lin (wg_sys s) t = Some (rs_pc (wg_sys s) t))
    \<and> (rg_before (rs_pc (wg_sys s) t) \<longrightarrow> rs_lin (wg_sys s) t = None)
    \<and> length (rs_queue (wg_sys s)) \<le> capacity"
proof -
  obtain m h where ok: "wg_ok m capacity h (length cs) s"
    unfolding assms(4) by (rule wg_run [OF assms(1-3)])
  show ?thesis
    using wg_okD(8) [OF ok, of t] rg_shapeD(3) [OF wg_okD(7) [OF ok]] by (cases "rs_pc (wg_sys s) t") auto
qed

text \<open>
  The push is complete, but the pop reads the stamp that the slot had before it, goes on to test
  whether the ring is empty, and starts again.
\<close>

theorem ring_weak_linearisable_witness:
  "let s = fold (wg_do 2)
     ([WgCall 1 (PushLoad (10::nat) False)] @ replicate 5 (WgStep 1 False 9)
      @ [WgCall 2 PopLoad, WgStep 2 False 0, WgStep 2 False 0, WgStep 2 False 0] @ replicate 5 (WgStep 2 False 1))
     (wg_init 2)
   in rs_pc (wg_sys s) 2 = Popped (Some 10) \<and> rs_lin (wg_sys s) 2 = Some (Popped (Some 10))"
proof -
  define cs where "cs = [WgCall 1 (PushLoad (10::nat) False)] @ replicate 5 (WgStep 1 False 9)
      @ [WgCall 2 PopLoad, WgStep 2 False 0, WgStep 2 False 0, WgStep 2 False 0] @ replicate 5 (WgStep 2 False 1)"
  define s where "s = fold (wg_do 2) cs (wg_init 2)"
  have h: "rs_pc (wg_sys s) 2 = Popped (Some 10)" unfolding s_def cs_def by code_simp
  have len: "length cs \<le> 2 ^ 61" by (simp add: cs_def)
  from ring_weak_linearisable [OF _ _ len s_def, of 2]
  show ?thesis unfolding Let_def cs_def [symmetric] s_def [symmetric] using h by simp
qed

text \<open>
  C2. The orderings of the stamps order the accesses to the cells: in every such schedule an access
  to the cell of a slot happens after all earlier ones, because of the \<open>Release\<close> stores and
  \<open>Acquire\<close> loads of its stamp alone; no index is out of bounds and no cell is read unwritten.
\<close>

theorem ring_weak_race_free:
  assumes "0 < capacity" and "capacity \<le> 2 ^ 60" and "length cs \<le> 2 ^ 61"
    and "s = fold (wg_do capacity) cs (wg_init capacity)"
  shows "\<not> wg_race s \<and> rs_pc (wg_sys s) t \<noteq> RgFault"
proof -
  obtain m h where ok: "wg_ok m capacity h (length cs) s"
    unfolding assms(4) by (rule wg_run [OF assms(1-3)])
  from wg_okD(8) [OF ok, of t] have "rs_pc (wg_sys s) t \<noteq> RgFault" by (cases "rs_pc (wg_sys s) t") auto
  then show ?thesis using wg_okD(2) [OF ok] by blast
qed

text \<open>Two threads push into the same slot, with a pop of a third one between them.\<close>

theorem ring_weak_race_free_witness:
  "let s = fold (wg_do 1)
     ([WgCall 1 (PushLoad (10::nat) False)] @ replicate 5 (WgStep 1 False 9)
      @ [WgCall 2 PopLoad] @ replicate 5 (WgStep 2 False 9)
      @ [WgCall 3 (PushLoad 11 True)] @ replicate 4 (WgStep 3 False 9))
     (wg_init 1)
   in wg_cells s 0 = 3 \<and> wg_view s 3 0 = 3 \<and> \<not> wg_race s"
proof -
  define cs where "cs = [WgCall 1 (PushLoad (10::nat) False)] @ replicate 5 (WgStep 1 False 9)
      @ [WgCall 2 PopLoad] @ replicate 5 (WgStep 2 False 9)
      @ [WgCall 3 (PushLoad 11 True)] @ replicate 4 (WgStep 3 False 9)"
  define s where "s = fold (wg_do 1) cs (wg_init 1)"
  have h: "wg_cells s 0 = 3" "wg_view s 3 0 = 3" unfolding s_def cs_def by code_simp+
  have len: "length cs \<le> 2 ^ 61" by (simp add: cs_def)
  have "\<not> wg_race s" using ring_weak_race_free [OF _ _ len s_def, of 0] by simp
  then show ?thesis unfolding Let_def cs_def [symmetric] s_def [symmetric] using h by simp
qed

text \<open>
  C13. After any such schedule, once no call is in progress, the ring holds exactly the queue: the
  calls that follow, alone, return what the queue returns, and dropping the ring drops the items
  of the queue, each once.
\<close>

theorem ring_weak_quiescent:
  assumes "0 < capacity" and "capacity \<le> 2 ^ 60" and "length cs \<le> 2 ^ 61"
    and "s = fold (wg_do capacity) cs (wg_init capacity)" and "\<And>t. rg_returned (rs_pc (wg_sys s) t)"
    and "\<forall>pc \<in> set pcs. rg_entry pc"
  shows "snd (run_calls rg_call pcs (wg_ring s)) = snd (run_calls (bq_call capacity) pcs (rs_queue (wg_sys s)))
    \<and> rg_drop (wg_ring s) [] = Some (rs_queue (wg_sys s))"
proof -
  obtain m h where ok: "wg_ok m capacity h (length cs) s"
    unfolding assms(4) by (rule wg_run [OF assms(1-3)])
  have "rg_queue capacity (wg_ring s) (rs_queue (wg_sys s))"
    by (rule threads_idle_queue [OF wg_okD(1) [OF ok] assms(5)])
  then show ?thesis
    using rg.run_refines [OF _ assms(6)] rg_drop_items [of capacity _ _ "[]"] by fastforce
qed

text \<open>
  An overwriting push of one thread displaces the item of another; its first load returns the
  stamp that the slot had in the beginning.
\<close>

theorem ring_weak_quiescent_witness:
  "let s = fold (wg_do 1)
     ([WgCall 1 (PushLoad (10::nat) False)] @ replicate 5 (WgStep 1 False 9)
      @ [WgCall 2 (PushLoad 11 True), WgStep 2 False 9, WgStep 2 False 0] @ replicate 9 (WgStep 2 False 9))
     (wg_init 1)
   in rs_pc (wg_sys s) 2 = PushOk (Some 10) \<and> snd (run_calls rg_call [PopLoad, PopLoad] (wg_ring s))
        = [Popped (Some 11), Popped None] \<and> rg_drop (wg_ring s) [] = Some [11]"
proof -
  define cs where "cs = [WgCall 1 (PushLoad (10::nat) False)] @ replicate 5 (WgStep 1 False 9)
      @ [WgCall 2 (PushLoad 11 True), WgStep 2 False 9, WgStep 2 False 0] @ replicate 9 (WgStep 2 False 9)"
  define s where "s = fold (wg_do 1) cs (wg_init 1)"
  have len: "length cs \<le> 2 ^ 61" by (simp add: cs_def)
  have h: "rs_pc (wg_sys s) 1 = PushOk None" "rs_pc (wg_sys s) 2 = PushOk (Some 10)" "rs_queue (wg_sys s) = [11]"
    unfolding s_def cs_def by code_simp+
  have "rs_pc (wg_sys s) t = Counted 0" if "t \<noteq> 1" "t \<noteq> 2" for t
    unfolding s_def using that by (subst wg_others) (auto simp: cs_def wg_init_def rs_init_def)
  then have "rg_returned (rs_pc (wg_sys s) t)" for t using h(1,2) by (cases "t = 1"; cases "t = 2") auto
  from ring_weak_quiescent [OF _ _ len s_def this, of "[PopLoad, PopLoad]"] h
  show ?thesis unfolding Let_def cs_def [symmetric] s_def [symmetric] by simp
qed

section \<open>The latest stamps\<close>

text \<open>
  The latest message of a slot is the stamp in memory, and there are no more messages than accesses
  and the first one, so a load that returns the latest message is an access of \<open>RingThreads\<close>.
\<close>

definition wg_latest :: "nat \<Rightarrow> nat \<Rightarrow> 'a weak_ring \<Rightarrow> bool" where
  "wg_latest c n s \<longleftrightarrow> length (rg_slots (wg_ring s)) = c
   \<and> (\<forall>i < c. length (wg_msgs s i) \<le> Suc n \<and> wg_msgs s i \<noteq> []
        \<and> fst (last (wg_msgs s i)) = slot_stamp (rg_slots (wg_ring s) ! i))"

lemma slot_stamp_set_value [simp]:
  "k < length (rg_slots r) \<Longrightarrow> slot_stamp (rg_slots (rg_set_value r w x) ! k) = slot_stamp (rg_slots r ! k)"
  by (cases "k = rg_index r w") (simp_all add: rg_set_value_def)

lemma slots_set [simp]:
  "length (rg_slots (rg_set_value r w x)) = length (rg_slots r)"
  "length (rg_slots (rg_set_stamp r w y)) = length (rg_slots r)"
  by (simp_all add: rg_set_value_def rg_set_stamp_def)

lemma step_stamps:
  assumes "rg_stores p = None"
  shows "length (rg_slots (fst (rg_step b r p))) = length (rg_slots r)"
    "k < length (rg_slots r) \<Longrightarrow> slot_stamp (rg_slots (fst (rg_step b r p)) ! k) = slot_stamp (rg_slots r ! k)"
  using assms by (cases p; auto split: option.split)+

lemma store_stamps:
  assumes "rg_stores p = Some w"
  obtains y where "fst (rg_step b r p) = rg_set_stamp r w y"
  using assms by (cases p) auto

lemma wg_latest_load: "wg_latest c n s \<Longrightarrow> wg_latest c (Suc n) (wg_load t j w s)"
  by (auto simp: wg_latest_def wg_load_def Let_def split_beta le_SucI)

lemma wg_latest_kept:
  assumes "wg_latest c n s" "rg_stores (rs_pc (wg_sys s) t) = None"
    and "wg_ring s' = fst (rg_step b (wg_ring s) (rs_pc (wg_sys s) t))" "wg_msgs s' = wg_msgs s"
  shows "wg_latest c (Suc n) s'"
  using assms step_stamps [OF assms(2), where b = b and r = "wg_ring s"] by (auto simp: wg_latest_def le_SucI)

lemma wg_latest_store:
  assumes "wg_latest c n s" "rg_stores (rs_pc (wg_sys s) t) = Some w"
  shows "wg_latest c (Suc n) (wg_store cap t w s)"
proof -
  obtain y where y: "fst (rg_step False (wg_ring s) (rs_pc (wg_sys s) t)) = rg_set_stamp (wg_ring s) w y"
    by (rule store_stamps [OF assms(2)])
  have i: "rg_index (rg_set_stamp r w y) w = rg_index r w" for r :: "'a ring"
    by (simp add: rg_set_stamp_def rg_index_def rg_offset_def)
  have "slot_stamp (rg_slots (rg_set_stamp r w y) ! k)
      = (if k = rg_index r w then y else slot_stamp (rg_slots r ! k))"
    if "k < length (rg_slots r)" for k and r :: "'a ring"
    using that by (simp add: rg_set_stamp_def)
  then show ?thesis
    using assms(1)
    by (auto simp: wg_latest_def wg_store_def Let_def rs_step_exec(1) y rg_stamp_def i le_SucI simp del: rs_do.simps)
qed

lemma wg_latest_do:
  assumes "wg_latest c n s"
  shows "wg_latest c (Suc n) (wg_do cap cmd s)"
proof (cases cmd)
  case (WgCall t pc)
  then show ?thesis using assms by (auto simp: wg_latest_def le_SucI)
next
  case (WgStep t b j)
  let ?p = "rs_pc (wg_sys s) t"
  show ?thesis
  proof (cases "rg_stores ?p")
    case None
    show ?thesis
    proof (cases "rg_loads ?p")
      case (Some w)
      then show ?thesis using WgStep wg_latest_load [OF assms] by (simp add: wg_access_def)
    next
      case load: None
      have "wg_ring (wg_do cap cmd s) = fst (rg_step (b \<and> rg_accesses ?p = None) (wg_ring s) ?p)
          \<and> wg_msgs (wg_do cap cmd s) = wg_msgs s"
        using WgStep None load
        by (cases "rg_accesses ?p")
          (simp_all add: wg_access_def wg_cell_def Let_def rs_step_exec(1) del: rs_do.simps)
      then show ?thesis using wg_latest_kept [OF assms None] by blast
    qed
  next
    case (Some w)
    then have "rg_loads ?p = None" by (cases ?p) auto
    then show ?thesis using WgStep Some wg_latest_store [OF assms Some] by (simp add: wg_access_def)
  qed
qed

lemma wg_latest_run: "wg_latest c (length cs) (fold (wg_do c) cs (wg_init c))"
proof (induction cs rule: rev_induct)
  case Nil
  then show ?case by (simp add: wg_latest_def wg_init_def rs_init_def rg_new_def)
next
  case (snoc cmd cs)
  then show ?case using wg_latest_do by (simp del: wg_do.simps)
qed

lemma loads_index:
  assumes "wg_ok m c h n s" "rg_loads (rs_pc (wg_sys s) t) = Some w"
  shows "rg_index (wg_ring s) w < c"
proof -
  note S = rg_shapeD [OF wg_okD(7) [OF assms(1)]]
  have "tick_at (enc m c) w (\<lambda>k. k \<le> h + c)"
    using wg_okD(8) [OF assms(1), of t] assms(2) S(3)
    by (cases "rs_pc (wg_sys s) t") (auto elim!: tick_at_mono)
  then show ?thesis using S(2,11) by (auto elim: tick_atE)
qed

text \<open>An access with the latest stamp.\<close>

lemma wg_fresh:
  assumes ok: "wg_ok m c h n s" and latest: "wg_latest c n s" and j: "Suc n \<le> j"
  shows "(wg_ring (wg_do c (WgStep t False j) s), rs_pc (wg_sys (wg_do c (WgStep t False j) s)) t)
    = rg_step False (wg_ring s) (rs_pc (wg_sys s) t)"
proof (cases "rg_loads (rs_pc (wg_sys s) t)")
  case (Some w)
  let ?r = "wg_ring s" let ?i = "rg_index (wg_ring s) w" let ?p = "rs_pc (wg_sys s) t"
  have i: "?i < c" by (rule loads_index [OF ok Some])
  then have m: "fst (last (wg_msgs s ?i)) = rg_stamp ?r w" "\<not> j < length (wg_msgs s ?i)"
    using latest j by (auto simp: wg_latest_def rg_stamp_def)
  have "rg_set_stamp ?r w (rg_stamp ?r w) = ?r" by (simp add: rg_set_stamp_def rg_stamp_def)
  then have "wg_ring (wg_do c (WgStep t False j) s) = ?r"
    "rs_pc (wg_sys (wg_do c (WgStep t False j) s)) t = snd (rg_step False ?r ?p)"
    using Some m by (simp_all add: wg_access_def wg_load_def Let_def split_beta)
  moreover have "fst (rg_step False ?r ?p) = ?r" using Some by (cases ?p) auto
  ultimately show ?thesis by (simp add: prod_eq_iff)
next
  case None
  then show ?thesis
    by (auto simp: wg_access_def wg_store_def wg_cell_def Let_def rs_step_exec(1,2) simp del: rs_do.simps
        split: option.split)
qed

lemma wg_alone:
  assumes "wg_ok m c h n s" "wg_latest c n s" "n + k \<le> j" "n + k \<le> 2 ^ 61"
  shows "(wg_ring (fold (wg_do c) (replicate k (WgStep t False j)) s),
      rs_pc (wg_sys (fold (wg_do c) (replicate k (WgStep t False j)) s)) t)
    = rg_exec (replicate k False) (wg_ring s) (rs_pc (wg_sys s) t)"
  using assms
proof (induction k arbitrary: s h n)
  case (Suc k)
  let ?s = "wg_do c (WgStep t False j) s"
  have n: "Suc n \<le> j" "Suc n \<le> 2 ^ 61" "Suc n + k \<le> j" "Suc n + k \<le> 2 ^ 61" using Suc.prems(3,4) by simp_all
  obtain h' where ok: "wg_ok m c h' (Suc n) ?s" using wg_do_ok [OF Suc.prems(1) n(2)] by blast
  have "(wg_ring (fold (wg_do c) (replicate k (WgStep t False j)) ?s),
      rs_pc (wg_sys (fold (wg_do c) (replicate k (WgStep t False j)) ?s)) t)
    = rg_exec (replicate k False) (wg_ring ?s) (rs_pc (wg_sys ?s) t)"
    by (rule Suc.IH [OF ok wg_latest_do [OF Suc.prems(2)] n(3,4)])
  then show ?case
    using wg_fresh [OF Suc.prems(1,2) n(1), of t, symmetric] by (simp del: wg_do.simps)
qed simp

text \<open>
  C14. Obstruction freedom under the orderings of the source: from every state of a schedule of \<open>n\<close>
  accesses, with any thread in the middle of its call after whatever loads of old stamps, that
  thread returns within 13 accesses of its own, provided that no other thread holds a ticket
  (has claimed a slot and not published its stamp yet), that from then on its loads of stamps
  return the latest message (a message number past all that the slot has) and that no
  \<open>compare_exchange_weak\<close> fails spuriously.
\<close>

theorem ring_weak_progress:
  assumes "0 < capacity" and "capacity \<le> 2 ^ 60" and "length cs < 2 ^ 60"
    and "s = fold (wg_do capacity) cs (wg_init capacity)"
    and "\<And>u. u \<noteq> t \<Longrightarrow> rg_hold (rg_lap (wg_ring s)) (rs_pc (wg_sys s) u) = None"
    and "length cs + 13 \<le> j"
  shows "\<exists>k \<le> 13. rg_returned
    (rs_pc (wg_sys (fold (wg_do capacity) (replicate k (WgStep t False j)) s)) t)"
proof -
  have "length cs \<le> 2 ^ 61" using assms(3) by simp
  then obtain m h where ok: "wg_ok m capacity h (length cs) s"
    unfolding assms(4) by (rule wg_run [OF assms(1,2)])
  have r: "rg_rank (rs_pc (wg_sys s) t) \<le> 6" by (cases "rs_pc (wg_sys s) t") auto
  then have "length cs + rg_rank (rs_pc (wg_sys s) t) \<le> 2 ^ 61" using assms(3) by simp
  from alone_returns [OF wg_okD(1) [OF ok] this assms(5)] obtain k where "k \<le> 7 + rg_rank (rs_pc (wg_sys s) t)"
    and ret: "rg_returned (snd (rg_exec (replicate k False) (wg_ring s) (rs_pc (wg_sys s) t)))" by blast
  then have k: "k \<le> 13" "length cs + k \<le> j" "length cs + k \<le> 2 ^ 61" using r assms(3,6) by simp_all
  have "wg_latest capacity (length cs) s" unfolding assms(4) by (rule wg_latest_run)
  from wg_alone [OF ok this k(2,3), of t]
  have "rs_pc (wg_sys (fold (wg_do capacity) (replicate k (WgStep t False j)) s)) t
      = snd (rg_exec (replicate k False) (wg_ring s) (rs_pc (wg_sys s) t))"
    by (simp add: prod_eq_iff)
  then show ?thesis using k(1) ret by metis
qed

text \<open>A reader that has read an old stamp and found the slot empty, while the writer filled it.\<close>

theorem ring_weak_progress_witness:
  "let s = fold (wg_do 2) ([WgCall 1 (PushLoad (10::nat) False)] @ replicate 5 (WgStep 1 False 9)
     @ [WgCall 2 PopLoad, WgStep 2 False 9, WgStep 2 False 0]) (wg_init 2)
   in rs_pc (wg_sys s) 2 = PopEmpty 0
     \<and> (\<exists>k \<le> 13. rg_returned (rs_pc (wg_sys (fold (wg_do 2) (replicate k (WgStep 2 False 22)) s)) 2))"
proof -
  define cs where "cs = [WgCall 1 (PushLoad (10::nat) False)] @ replicate 5 (WgStep 1 False 9)
     @ [WgCall 2 PopLoad, WgStep 2 False 9, WgStep 2 False 0]"
  define s where "s = fold (wg_do 2) cs (wg_init 2)"
  have len: "length cs < 2 ^ 60" "length cs + 13 \<le> 22" by (simp_all add: cs_def)
  have h: "rs_pc (wg_sys s) 1 = PushOk None" "rs_pc (wg_sys s) 2 = PopEmpty 0"
    unfolding s_def cs_def by code_simp+
  have "rs_pc (wg_sys s) t = Counted 0" if "t \<noteq> 1" "t \<noteq> 2" for t
    unfolding s_def using that by (subst wg_others) (auto simp: cs_def wg_init_def rs_init_def)
  then have "rg_hold (rg_lap (wg_ring s)) (rs_pc (wg_sys s) u) = None" if "u \<noteq> 2" for u
    using h(1) that by (cases "u = 1") auto
  then have "\<exists>k \<le> 13. rg_returned (rs_pc (wg_sys (fold (wg_do 2) (replicate k (WgStep 2 False 22)) s)) 2)"
    by (intro ring_weak_progress [OF _ _ len(1) s_def _ len(2)]) auto
  then show ?thesis unfolding Let_def cs_def [symmetric] s_def [symmetric] using h(2) by simp
qed

end
