(* ===== verification/WakeReach.thy ===== *)
theory WakeReach
  imports AtomicWaker
begin

text \<open>
  The contract of \<open>AtomicWaker\<close> by itself, without a flag: a wake that overlaps or follows a
  registration reaches the registered task. The threads are those of \<open>aw_sys\<close>, observed: the
  waker of the latest registration that got the cell, whether a wake took effect (its first
  access) since then, and whether the task of that waker was woken since then.
\<close>

record 'w reach_sys =
  wr_aw :: "'w atomic_waker"
  wr_pc :: "nat \<Rightarrow> 'w aw_pc"
  wr_cur :: "'w option"
  wr_signal :: bool
  wr_heard :: bool

definition wr_init :: "'w reach_sys" where
  "wr_init = \<lparr>wr_aw = aw_new, wr_pc = (\<lambda>_. AwDone), wr_cur = None, wr_signal = False, wr_heard = False\<rparr>"

text \<open>The first access of a registration gets the cell when the state is \<open>WAITING\<close>.\<close>

definition gets_cell :: "'w atomic_waker \<Rightarrow> 'w aw_pc \<Rightarrow> 'w option" where
  "gets_cell a p = (case p of RegCas w \<Rightarrow> if aw_state a = WAITING then Some w else None | _ \<Rightarrow> None)"

definition wakes_cur :: "('w \<Rightarrow> 'w \<Rightarrow> bool) \<Rightarrow> 'w option \<Rightarrow> 'w list \<Rightarrow> bool" where
  "wakes_cur ww cur ws = (case cur of None \<Rightarrow> False | Some c \<Rightarrow> list_ex (wakes_task ww c) ws)"

definition wr_observe :: "('w \<Rightarrow> 'w \<Rightarrow> bool) \<Rightarrow> 'w aw_pc \<Rightarrow> 'w list \<Rightarrow> 'w reach_sys \<Rightarrow> 'w reach_sys" where
  "wr_observe ww p ws s =
     (case gets_cell (wr_aw s) p of
        Some w \<Rightarrow> s\<lparr>wr_cur := Some w, wr_signal := False, wr_heard := False\<rparr>
      | None \<Rightarrow> s\<lparr>wr_signal := (wr_signal s \<or> p = TakeFetchOr),
                  wr_heard := (wr_heard s \<or> wakes_cur ww (wr_cur s) ws)\<rparr>)"

datatype 'w wr_cmd = WRegister nat 'w | WWake nat | WThread nat

fun wr_do :: "('w \<Rightarrow> 'w \<Rightarrow> bool) \<Rightarrow> 'w wr_cmd \<Rightarrow> 'w reach_sys \<Rightarrow> 'w reach_sys" where
  "wr_do ww (WRegister t w) s =
     (case wr_pc s t of AwDone \<Rightarrow> s\<lparr>wr_pc := (wr_pc s)(t := RegCas w)\<rparr> | _ \<Rightarrow> s)"
| "wr_do ww (WWake t) s =
     (case wr_pc s t of AwDone \<Rightarrow> s\<lparr>wr_pc := (wr_pc s)(t := TakeFetchOr)\<rparr> | _ \<Rightarrow> s)"
| "wr_do ww (WThread t) s =
     (case aw_step ww (wr_aw s) (wr_pc s t) of (a, p, ws) \<Rightarrow>
        (wr_observe ww (wr_pc s t) ws s)\<lparr>wr_aw := a, wr_pc := (wr_pc s)(t := p)\<rparr>)"

inductive wr_reachable :: "('w \<Rightarrow> 'w \<Rightarrow> bool) \<Rightarrow> 'w reach_sys \<Rightarrow> bool" for ww :: "'w \<Rightarrow> 'w \<Rightarrow> bool" where
  wr_start: "wr_reachable ww wr_init"
| wr_next: "wr_reachable ww s \<Longrightarrow> wr_reachable ww (wr_do ww c s)"

lemma wr_fold_reachable: "wr_reachable ww s \<Longrightarrow> wr_reachable ww (fold (wr_do ww) cs s)"
  by (induction cs arbitrary: s) (auto intro: wr_next)

section \<open>The invariant\<close>

text \<open>A program counter that is about to wake a given task.\<close>

fun about_to_wake :: "('w \<Rightarrow> bool) \<Rightarrow> 'w aw_pc \<Rightarrow> bool" where
  "about_to_wake g (RegSwap w) \<longleftrightarrow> g w"
| "about_to_wake g (RegWake w) \<longleftrightarrow> g w"
| "about_to_wake g (TakeSwap (Some w)) \<longleftrightarrow> g w"
| "about_to_wake g (TakeWake (Some w)) \<longleftrightarrow> g w"
| "about_to_wake g _ \<longleftrightarrow> False"

definition cell_is :: "('w \<Rightarrow> bool) \<Rightarrow> 'w atomic_waker \<Rightarrow> bool" where
  "cell_is g a = (case aw_cell a of None \<Rightarrow> False | Some w \<Rightarrow> g w)"

text \<open>
  The registered waker is about to be stored, in the cell, or about to be woken; once a wake
  took effect, somebody is going to wake it.
\<close>

definition wr_held :: "('w \<Rightarrow> 'w \<Rightarrow> bool) \<Rightarrow> 'w \<Rightarrow> 'w atomic_waker \<Rightarrow> (nat \<Rightarrow> 'w aw_pc) \<Rightarrow> bool" where
  "wr_held ww c a pc \<longleftrightarrow> (\<exists>t. pc t = RegStore c) \<or> cell_is (wakes_task ww c) a
     \<or> (\<exists>t. about_to_wake (wakes_task ww c) (pc t))"

definition wr_coming :: "('w \<Rightarrow> 'w \<Rightarrow> bool) \<Rightarrow> 'w \<Rightarrow> 'w atomic_waker \<Rightarrow> (nat \<Rightarrow> 'w aw_pc) \<Rightarrow> bool" where
  "wr_coming ww c a pc \<longleftrightarrow> aw_state a = 3 \<or> (\<exists>t. pc t = TakeCell)
     \<or> (\<exists>t. about_to_wake (wakes_task ww c) (pc t))"

definition wr_inv :: "('w \<Rightarrow> 'w \<Rightarrow> bool) \<Rightarrow> 'w reach_sys \<Rightarrow> bool" where
  "wr_inv ww s \<longleftrightarrow> aw_ok (wr_aw s) (wr_pc s)
     \<and> (\<forall>t w. wr_pc s t = RegStore w \<longrightarrow> wr_cur s = Some w)
     \<and> (case wr_cur s of None \<Rightarrow> True
        | Some c \<Rightarrow> wr_heard s \<or> (wr_held ww c (wr_aw s) (wr_pc s)
            \<and> (wr_signal s \<longrightarrow> wr_coming ww c (wr_aw s) (wr_pc s))))"

lemma cell_is_iff: "cell_is g a \<longleftrightarrow> (\<exists>w. aw_cell a = Some w \<and> g w)"
  by (auto simp: cell_is_def split: option.splits)

text \<open>Who is about to wake the task wakes it, or still is.\<close>

lemma about_to_wake_step:
  assumes "aw_pc_ok a p" "about_to_wake g p" "aw_step ww a p = (a', p', ws)"
  shows "about_to_wake g p' \<or> list_ex g ws"
  using assms by (cases "(g, p)" rule: about_to_wake.cases) (auto simp: aw_states)

text \<open>Who takes a waker out of the cell is about to wake it.\<close>

lemma cell_is_step:
  assumes "cell_is g a" "aw_step ww a p = (a', p', ws)" "\<And>w. p \<noteq> RegStore w"
  shows "cell_is g a' \<or> about_to_wake g p'"
  using assms by (cases p) (auto simp: cell_is_iff split: if_splits)

lemma reg_store_step:
  "aw_step ww a (RegStore c) = (a', p', ws) \<Longrightarrow> cell_is (wakes_task ww c) a'"
  by (auto simp: cell_is_iff wakes_task_def split: if_splits option.splits)

text \<open>A call that starts changes nothing of this.\<close>

lemma held_other:
  assumes "wr_held ww c a pc" "pc t = AwDone"
  shows "wr_held ww c a (pc(t := p))"
proof -
  from assms(1) consider u where "pc u = RegStore c" | "cell_is (wakes_task ww c) a"
    | u where "about_to_wake (wakes_task ww c) (pc u)"
    unfolding wr_held_def by blast
  then show ?thesis
  proof cases
    case 1
    with assms(2) have "(pc(t := p)) u = RegStore c" by auto
    then show ?thesis unfolding wr_held_def by blast
  next
    case 3
    with assms(2) have "about_to_wake (wakes_task ww c) ((pc(t := p)) u)" by auto
    then show ?thesis unfolding wr_held_def by blast
  qed (simp add: wr_held_def)
qed

lemma coming_other:
  assumes "wr_coming ww c a pc" "pc t = AwDone"
  shows "wr_coming ww c a (pc(t := p))"
proof -
  from assms(1) consider "aw_state a = 3" | u where "pc u = TakeCell"
    | u where "about_to_wake (wakes_task ww c) (pc u)"
    unfolding wr_coming_def by blast
  then show ?thesis
  proof cases
    case 2
    with assms(2) have "(pc(t := p)) u = TakeCell" by auto
    then show ?thesis unfolding wr_coming_def by blast
  next
    case 3
    with assms(2) have "about_to_wake (wakes_task ww c) ((pc(t := p)) u)" by auto
    then show ?thesis unfolding wr_coming_def by blast
  qed (simp add: wr_coming_def)
qed

text \<open>A step of a thread, after which somebody is known to be about to wake the task.\<close>

lemma carrier_step:
  assumes ok: "aw_ok a pc" and st: "aw_step ww a (pc t) = (a', p', ws)"
    and c: "about_to_wake g (pc u)"
  shows "list_ex g ws \<or> (\<exists>v. about_to_wake g ((pc(t := p')) v))"
proof (cases "u = t")
  case True
  have "aw_pc_ok a (pc t)" using ok by (simp add: aw_ok_def)
  then have "about_to_wake g p' \<or> list_ex g ws"
    using about_to_wake_step [OF _ _ st] c True by blast
  then show ?thesis by (metis fun_upd_same)
next
  case False
  with c show ?thesis by (metis fun_upd_other)
qed

lemma wr_thread_held:
  assumes ok: "aw_ok a pc" and held: "wr_held ww c a pc"
    and store: "\<And>w. pc t = RegStore w \<Longrightarrow> w = c"
    and st: "aw_step ww a (pc t) = (a', p', ws)"
  shows "list_ex (wakes_task ww c) ws \<or> wr_held ww c a' (pc(t := p'))"
proof -
  from held consider u where "pc u = RegStore c" | "cell_is (wakes_task ww c) a"
    | u where "about_to_wake (wakes_task ww c) (pc u)"
    unfolding wr_held_def by blast
  then show ?thesis
  proof cases
    case 1
    show ?thesis
    proof (cases "u = t")
      case True
      with 1 st have "cell_is (wakes_task ww c) a'" by (metis reg_store_step)
      then show ?thesis by (simp add: wr_held_def)
    next
      case False
      with 1 have "(pc(t := p')) u = RegStore c" by simp
      then show ?thesis unfolding wr_held_def by blast
    qed
  next
    case 2
    have "cell_is (wakes_task ww c) a' \<or> about_to_wake (wakes_task ww c) p'"
      by (metis 2 st store cell_is_step reg_store_step)
    then show ?thesis unfolding wr_held_def by (metis fun_upd_same)
  next
    case 3
    then show ?thesis using carrier_step [OF ok st] unfolding wr_held_def by blast
  qed
qed

text \<open>While one thread is in the cell no other one is about to store.\<close>

lemma wr_no_store:
  assumes "aw_ok a pc" "aw_crit (pc t)" "\<And>w. pc t \<noteq> RegStore w"
  shows "pc u \<noteq> RegStore w"
proof
  assume u: "pc u = RegStore w"
  then have "aw_crit (pc u)" by (simp add: aw_crit_def)
  then have "u = t" using assms(1,2) unfolding aw_ok_def by blast
  then show False using u assms(3) by blast
qed

text \<open>When that thread found the cell empty, the registered waker is with a thread.\<close>

lemma held_carrier:
  assumes "aw_ok a pc" "wr_held ww c a pc" "aw_crit (pc t)" "\<And>w. pc t \<noteq> RegStore w"
    and "aw_cell a = None"
  shows "\<exists>u. about_to_wake (wakes_task ww c) (pc u)"
  using assms(2,5) wr_no_store [OF assms(1,3,4)] by (auto simp: wr_held_def cell_is_iff)

text \<open>A wake that finds the cell busy leaves the task to another thread.\<close>

lemma fetch_or_busy:
  assumes ok: "aw_ok a pc" and held: "wr_held ww c a pc" and s2: "aw_state a = 2"
  shows "(\<exists>u. pc u = TakeCell) \<or> (\<exists>u. about_to_wake (wakes_task ww c) (pc u))"
proof -
  obtain u where u: "aw_crit (pc u)" using ok s2 by (auto simp: aw_ok_def)
  have pu: "aw_pc_ok a (pc u)" using ok by (simp add: aw_ok_def)
  show ?thesis
  proof (cases "pc u = TakeCell")
    case False
    then have "aw_cell a = None" "\<And>w. pc u \<noteq> RegStore w"
      using u pu s2 by (cases "pc u"; simp add: aw_crit_def)+
    then show ?thesis using held_carrier [OF ok held u] by blast
  qed blast
qed

lemma wr_coming_step:
  assumes ok: "aw_ok a pc" and held: "wr_held ww c a pc" and coming: "wr_coming ww c a pc"
    and st: "aw_step ww a (pc t) = (a', p', ws)"
  shows "list_ex (wakes_task ww c) ws \<or> wr_coming ww c a' (pc(t := p'))"
proof -
  have pt: "aw_pc_ok a (pc t)" using ok by (simp add: aw_ok_def)
  from coming consider "aw_state a = 3" | u where "pc u = TakeCell"
    | u where "about_to_wake (wakes_task ww c) (pc u)"
    unfolding wr_coming_def by blast
  then show ?thesis
  proof cases
    case 1
    show ?thesis
    proof (cases "\<exists>w. pc t = RegSwap w")
      case True
      then have "aw_crit (pc t)" "\<And>w. pc t \<noteq> RegStore w" "aw_cell a = None"
        using pt by (auto simp: aw_crit_def)
      then show ?thesis
        using held_carrier [OF ok held] carrier_step [OF ok st] unfolding wr_coming_def by blast
    next
      case False
      then have "aw_state a' = 3"
        using st pt 1 by (cases "pc t") (auto simp: aw_states split: if_splits option.splits)
      then show ?thesis by (simp add: wr_coming_def)
    qed
  next
    case 2
    show ?thesis
    proof (cases "u = t")
      case True
      with 2 have t: "aw_crit (pc t)" "\<And>w. pc t \<noteq> RegStore w" by (auto simp: aw_crit_def)
      show ?thesis
      proof (cases "cell_is (wakes_task ww c) a")
        case True
        then have "about_to_wake (wakes_task ww c) p'"
          using st 2 \<open>u = t\<close> by (auto simp: cell_is_iff)
        then show ?thesis unfolding wr_coming_def by (metis fun_upd_same)
      next
        case False
        then have "\<exists>v. about_to_wake (wakes_task ww c) (pc v)"
          using held wr_no_store [OF ok t] by (auto simp: wr_held_def)
        then show ?thesis using carrier_step [OF ok st] unfolding wr_coming_def by blast
      qed
    next
      case False
      with 2 show ?thesis unfolding wr_coming_def by (metis fun_upd_other)
    qed
  next
    case 3
    then show ?thesis using carrier_step [OF ok st] unfolding wr_coming_def by blast
  qed
qed

lemma wr_signal_step:
  assumes ok: "aw_ok a pc" and held: "wr_held ww c a pc" and t: "pc t = TakeFetchOr"
    and st: "aw_step ww a (pc t) = (a', p', ws)"
  shows "list_ex (wakes_task ww c) ws \<or> wr_coming ww c a' (pc(t := p'))"
proof -
  have "aw_state a \<in> {0, 1, 2, 3}" using ok by (simp add: aw_ok_def)
  then consider "aw_state a = 0" | "aw_state a = 2" | "aw_state a = 1 \<or> aw_state a = 3" by blast
  then show ?thesis
  proof cases
    case 1
    then have "p' = TakeCell" using st t by (simp add: aw_states)
    then show ?thesis unfolding wr_coming_def by (metis fun_upd_same)
  next
    case 2
    then have "wr_coming ww c a pc"
      using fetch_or_busy [OF ok held] by (auto simp: wr_coming_def)
    then show ?thesis by (rule wr_coming_step [OF ok held _ st])
  next
    case 3
    then have "aw_state a' = 3" using st t by (auto simp: aw_states)
    then show ?thesis by (simp add: wr_coming_def)
  qed
qed

section \<open>The invariant holds\<close>

lemma wr_inv_init: "wr_inv ww wr_init"
  by (simp add: wr_inv_def wr_init_def aw_ok_def aw_new_def WAITING_def aw_crit_def)

lemma wr_inv_call:
  assumes inv: "wr_inv ww s" and t: "wr_pc s t = AwDone" and p: "p = RegCas w \<or> p = TakeFetchOr"
  shows "wr_inv ww (s\<lparr>wr_pc := (wr_pc s)(t := p)\<rparr>)"
proof -
  have "aw_ok (wr_aw s) ((wr_pc s)(t := p))"
    using inv t p by (intro aw_ok_idle) (auto simp: wr_inv_def aw_crit_def)
  moreover have "\<forall>u w. ((wr_pc s)(t := p)) u = RegStore w \<longrightarrow> wr_cur s = Some w"
    using inv p by (auto simp: wr_inv_def)
  ultimately show ?thesis
    using inv held_other [of ww _ "wr_aw s" "wr_pc s" t p, OF _ t]
      coming_other [of ww _ "wr_aw s" "wr_pc s" t p, OF _ t]
    by (auto simp: wr_inv_def simp del: fun_upd_apply split: option.splits)
qed

text \<open>The step in which a registration gets the cell, and any other step.\<close>

lemma wr_inv_registers:
  assumes inv: "wr_inv ww s" and t: "wr_pc s t = RegCas w" and st: "aw_state (wr_aw s) = WAITING"
  shows "wr_inv ww (wr_do ww (WThread t) s)"
proof -
  let ?pc = "(wr_pc s)(t := RegStore w)" and ?a = "(wr_aw s)\<lparr>aw_state := REGISTERING\<rparr>"
  have ok: "aw_ok (wr_aw s) (wr_pc s)" using inv by (simp add: wr_inv_def)
  have "aw_ok ?a ?pc" using aw_ok_step [OF ok, of ww t] t st by simp
  moreover have "wr_pc s u \<noteq> RegStore v" for u v
  proof
    assume "wr_pc s u = RegStore v"
    then have "aw_pc_ok (wr_aw s) (RegStore v)" using ok unfolding aw_ok_def by metis
    then show False using st by (simp add: aw_states)
  qed
  moreover have "wr_held ww w ?a ?pc" unfolding wr_held_def by (metis fun_upd_same)
  ultimately show ?thesis
    using t st by (simp add: wr_inv_def wr_observe_def gets_cell_def)
qed

lemma reg_store_from:
  "aw_step ww a p = (a', RegStore w, ws) \<Longrightarrow> gets_cell a p = Some w"
  by (cases p) (auto simp: gets_cell_def split: if_splits option.splits)

lemma wr_inv_thread:
  assumes inv: "wr_inv ww s" and g: "gets_cell (wr_aw s) (wr_pc s t) = None"
    and st: "aw_step ww (wr_aw s) (wr_pc s t) = (a', p', ws)"
  shows "wr_inv ww (s\<lparr>wr_signal := (wr_signal s \<or> wr_pc s t = TakeFetchOr),
    wr_heard := (wr_heard s \<or> wakes_cur ww (wr_cur s) ws),
    wr_aw := a', wr_pc := (wr_pc s)(t := p')\<rparr>)"
proof -
  let ?pc = "(wr_pc s)(t := p')"
  have ok: "aw_ok (wr_aw s) (wr_pc s)"
    and store: "\<And>u w. wr_pc s u = RegStore w \<Longrightarrow> wr_cur s = Some w"
    using inv by (auto simp: wr_inv_def)
  have 1: "aw_ok a' ?pc" by (rule aw_ok_step [OF ok st])
  have 2: "\<forall>u w. ?pc u = RegStore w \<longrightarrow> wr_cur s = Some w"
    using store reg_store_from [of ww "wr_aw s" "wr_pc s t" a' _ ws] st g by auto
  have 3: "list_ex (wakes_task ww c) ws \<or> (wr_held ww c a' ?pc
        \<and> (wr_signal s \<or> wr_pc s t = TakeFetchOr \<longrightarrow> wr_coming ww c a' ?pc))"
    if c: "wr_cur s = Some c" and nh: "\<not> wr_heard s" for c
  proof -
    have held: "wr_held ww c (wr_aw s) (wr_pc s)"
      and coming: "wr_signal s \<Longrightarrow> wr_coming ww c (wr_aw s) (wr_pc s)"
      using inv c nh by (auto simp: wr_inv_def)
    have "\<And>w. wr_pc s t = RegStore w \<Longrightarrow> w = c" using store c by force
    then show ?thesis
      using wr_thread_held [OF ok held _ st] wr_coming_step [OF ok held coming st]
        wr_signal_step [OF ok held _ st] by blast
  qed
  show ?thesis
    using 1 2 3 by (auto simp: wr_inv_def wakes_cur_def simp del: fun_upd_apply split: option.splits)
qed

lemma wr_inv_do: "wr_inv ww s \<Longrightarrow> wr_inv ww (wr_do ww c s)"
proof (cases c)
  case (WThread t)
  assume inv: "wr_inv ww s"
  show ?thesis
  proof (cases "gets_cell (wr_aw s) (wr_pc s t)")
    case None
    obtain a' p' ws where st: "aw_step ww (wr_aw s) (wr_pc s t) = (a', p', ws)"
      by (cases "aw_step ww (wr_aw s) (wr_pc s t)") auto
    show ?thesis using wr_inv_thread [OF inv None st] WThread st None by (simp add: wr_observe_def)
  next
    case (Some w)
    then have "wr_pc s t = RegCas w" "aw_state (wr_aw s) = WAITING"
      by (auto simp: gets_cell_def split: aw_pc.splits if_splits)
    then show ?thesis using wr_inv_registers [OF inv] WThread by blast
  qed
qed (auto intro: wr_inv_call split: aw_pc.splits simp del: fun_upd_apply)

lemma wr_reachable_inv: "wr_reachable ww s \<Longrightarrow> wr_inv ww s"
  by (induction rule: wr_reachable.induct) (auto intro: wr_inv_init wr_inv_do)

section \<open>Properties\<close>

text \<open>
  C4. A wake reaches the registered task: when a call of \<open>wake\<close> took effect after the latest
  registration got the cell, then once no call is in progress the task that registered has
  been woken since. Any number of threads register and wake, and every access interleaves.
\<close>

theorem aw_wake_reaches_registration:
  assumes "wr_reachable ww s" and "\<forall>t. wr_pc s t = AwDone"
    and "wr_cur s = Some w" and "wr_signal s"
  shows "wr_heard s"
  using wr_reachable_inv [OF assms(1)] assms(2-)
  by (auto simp: wr_inv_def wr_coming_def aw_ok_def aw_crit_def)

text \<open>The wake arrives while the waker is being stored: the registering thread wakes the task.\<close>

theorem aw_wake_reaches_registration_witness:
  "let s = fold (wr_do (=))
     [WRegister 1 7, WThread 1, WWake 2, WThread 2, WThread 1, WThread 1, WThread 2,
      WThread 1, WThread 1, WThread 1] (wr_init :: nat reach_sys)
   in wr_cur s = Some 7 \<and> wr_signal s \<and> wr_heard s"
proof -
  define s where "s = fold (wr_do (=))
     [WRegister 1 7, WThread 1, WWake 2, WThread 2, WThread 1, WThread 1, WThread 2,
      WThread 1, WThread 1, WThread 1] (wr_init :: nat reach_sys)"
  have r: "wr_reachable (=) s"
    unfolding s_def by (rule wr_fold_reachable [OF wr_start])
  have h: "\<forall>t. wr_pc s t = AwDone" "wr_cur s = Some 7" "wr_signal s"
    by (simp_all add: s_def wr_init_def wr_observe_def gets_cell_def wakes_cur_def aw_new_def aw_states)
  show ?thesis
    unfolding Let_def s_def [symmetric] using h aw_wake_reaches_registration [OF r h] by simp
qed

end
