(* ===== verification/TaskWaker.thy ===== *)
theory TaskWaker
  imports WakeReach
begin

text \<open>
  One task that registers on an \<open>AtomicWaker\<close> (thread 0) and the threads that wake it, access by
  access: what each side knows while its call is in progress. The clients are the channels, each
  of which adds its own shared state.
\<close>

text \<open>
  An access of thread \<open>t\<close> to the waker, with whether the task of waker \<open>cur\<close> has been woken since
  its poll began.
\<close>

definition tw_access :: "('w \<Rightarrow> 'w \<Rightarrow> bool) \<Rightarrow> nat \<Rightarrow> 'w \<Rightarrow> 'w reach_sys \<times> bool \<Rightarrow> 'w reach_sys \<times> bool" where
  "tw_access ww t cur = (\<lambda>(r, woke). case aw_step ww (wr_aw r) (wr_pc r t) of (a, p, ws) \<Rightarrow>
     (wr_do ww (WThread t) r, woke \<or> list_ex (wakes_task ww cur) ws))"

definition tw_registered :: "'w \<Rightarrow> 'w reach_sys \<Rightarrow> bool \<Rightarrow> bool" where
  "tw_registered cur r woke \<longleftrightarrow> woke \<or> (wr_cur r = Some cur \<and> \<not> wr_heard r)"

text \<open>The program counters of a registration, and the threads of the other side.\<close>

fun tw_register_ok :: "'w \<Rightarrow> 'w reach_sys \<Rightarrow> bool \<Rightarrow> 'w aw_pc \<Rightarrow> bool" where
  "tw_register_ok cur r woke (RegCas w) \<longleftrightarrow> w = cur"
| "tw_register_ok cur r woke (RegWakeByRef w) \<longleftrightarrow> w = cur"
| "tw_register_ok cur r woke p \<longleftrightarrow> tw_registered cur r woke"

definition tw_others :: "'w reach_sys \<Rightarrow> bool" where
  "tw_others r \<longleftrightarrow> (\<forall>t. t \<noteq> 0 \<longrightarrow> waker_pc (wr_pc r t))"

lemma tw_others_calls [simp]:
  "tw_others r \<Longrightarrow> tw_others (r\<lparr>wr_pc := (wr_pc r)(t := TakeFetchOr)\<rparr>)"
  "tw_others r \<Longrightarrow> tw_others (r\<lparr>wr_pc := (wr_pc r)(0 := p)\<rparr>)"
  "tw_others wr_init"
  by (simp_all add: tw_others_def wr_init_def)

lemma wake_start:
  assumes "wr_pc r t = AwDone"
  shows "wr_do ww (WWake t) r = r\<lparr>wr_pc := (wr_pc r)(t := TakeFetchOr)\<rparr>"
    "wr_do ww (WRegister t w) r = r\<lparr>wr_pc := (wr_pc r)(t := RegCas w)\<rparr>"
  using assms by simp_all

lemma tw_access_inv: "wr_inv ww r \<Longrightarrow> wr_inv ww (fst (tw_access ww t cur (r, woke)))"
  using wr_inv_do [of ww r "WThread t"] by (auto simp: tw_access_def simp del: wr_do.simps split: prod.splits)

lemma tw_access_pc:
  "aw_step ww (wr_aw r) (wr_pc r t) = (a, p, ws) \<Longrightarrow>
     wr_pc (fst (tw_access ww t cur (r, woke))) = (wr_pc r)(t := p)"
  by (auto simp: tw_access_def wr_observe_def split: option.splits)

text \<open>An access that is not the first of a registration.\<close>

lemma tw_access_facts:
  assumes g: "gets_cell (wr_aw r) (wr_pc r t) = None"
    and acc: "tw_access ww t cur (r, woke) = (r', woke')"
  shows "wr_signal r' \<longleftrightarrow> wr_signal r \<or> wr_pc r t = TakeFetchOr"
    "woke \<Longrightarrow> woke'" "tw_registered cur r woke \<Longrightarrow> tw_registered cur r' woke'"
  using acc g by (auto simp: tw_access_def wr_observe_def tw_registered_def wakes_cur_def split: prod.splits)

text \<open>An access of a thread that wakes.\<close>

lemma tw_wake_access:
  assumes inv: "wr_inv ww r" and oth: "tw_others r" and t: "t \<noteq> 0"
    and acc: "tw_access ww t cur (r, woke) = (r', woke')"
  shows "tw_others r'" "wr_signal r' \<longleftrightarrow> wr_signal r \<or> wr_pc r t = TakeFetchOr" "woke \<Longrightarrow> woke'"
    "tw_registered cur r woke \<Longrightarrow> tw_registered cur r' woke'"
    "u \<noteq> t \<Longrightarrow> wr_pc r' u = wr_pc r u" "wr_pc r' t \<noteq> TakeFetchOr" "wr_pc r t = AwDone \<Longrightarrow> wr_pc r' t = AwDone"
proof -
  obtain a p ws where st: "aw_step ww (wr_aw r) (wr_pc r t) = (a, p, ws)"
    by (cases "aw_step ww (wr_aw r) (wr_pc r t)")
  have wk: "waker_pc (wr_pc r t)" using oth t by (simp add: tw_others_def)
  have pok: "aw_pc_ok (wr_aw r) (wr_pc r t)" "aw_state (wr_aw r) \<in> {0, 1, 2, 3}"
    using inv by (auto simp: wr_inv_def aw_ok_def)
  have pc: "wr_pc r' = (wr_pc r)(t := p)" using tw_access_pc [OF st, of cur woke] acc by simp
  then show "tw_others r'" "u \<noteq> t \<Longrightarrow> wr_pc r' u = wr_pc r u"
    using oth waker_pc_step [OF wk pok st] by (auto simp: tw_others_def)
  have g: "gets_cell (wr_aw r) (wr_pc r t) = None"
    using wk by (cases "wr_pc r t") (auto simp: gets_cell_def)
  show "wr_signal r' \<longleftrightarrow> wr_signal r \<or> wr_pc r t = TakeFetchOr" "woke \<Longrightarrow> woke'"
    "tw_registered cur r woke \<Longrightarrow> tw_registered cur r' woke'"
    using tw_access_facts [OF g acc] by blast+
  show "wr_pc r' t \<noteq> TakeFetchOr" "wr_pc r t = AwDone \<Longrightarrow> wr_pc r' t = AwDone"
    using wk st by (cases "wr_pc r t"; auto simp: pc split: if_splits)+
qed

text \<open>
  An access of the registering task: it gets the cell, or finds a wake in progress and wakes
  itself. Another registration is never in progress.
\<close>

lemma tw_register_access:
  assumes inv: "wr_inv ww r" and oth: "tw_others r" and ok: "tw_register_ok cur r woke (wr_pc r 0)"
    and acc: "tw_access ww 0 cur (r, woke) = (r', woke')"
  shows "tw_others r'" "tw_register_ok cur r' woke' (wr_pc r' 0)"
proof -
  obtain a p ws where st: "aw_step ww (wr_aw r) (wr_pc r 0) = (a, p, ws)"
    by (cases "aw_step ww (wr_aw r) (wr_pc r 0)")
  have ao: "aw_ok (wr_aw r) (wr_pc r)" using inv by (simp add: wr_inv_def)
  have pc: "wr_pc r' = (wr_pc r)(0 := p)" using tw_access_pc [OF st, of cur woke] acc by simp
  then show "tw_others r'" using oth by (simp add: tw_others_def)
  show "tw_register_ok cur r' woke' (wr_pc r' 0)"
  proof (cases "\<exists>w. wr_pc r 0 = RegCas w")
    case True
    then have c: "wr_pc r 0 = RegCas cur" using ok by auto
    have nr: "aw_state (wr_aw r) \<noteq> 1 \<and> aw_state (wr_aw r) \<noteq> 3"
    proof (rule ccontr)
      assume "\<not> ?thesis"
      then obtain u where u: "aw_crit (wr_pc r u)" "aw_pc_ok (wr_aw r) (wr_pc r u)"
        and s2: "aw_state (wr_aw r) \<noteq> 2"
        using ao by (auto simp: aw_ok_def)
      then have reg: "aw_reg (wr_pc r u)" by (cases "wr_pc r u") (auto simp: aw_crit_def)
      then have "u \<noteq> 0" using c by (cases "u = 0") auto
      then show False using oth reg waker_pc_not_reg by (auto simp: tw_others_def)
    qed
    have "aw_state (wr_aw r) = 0 \<or> aw_state (wr_aw r) = 2"
      using ao nr by (auto simp: aw_ok_def)
    then show ?thesis
      using st c acc by (auto simp: pc aw_states tw_access_def wr_observe_def gets_cell_def tw_registered_def)
  next
    case False
    then have g: "gets_cell (wr_aw r) (wr_pc r 0) = None"
      by (auto simp: gets_cell_def split: aw_pc.splits)
    show ?thesis
    proof (cases "\<exists>w. wr_pc r 0 = RegWakeByRef w")
      case True
      then have "wr_pc r 0 = RegWakeByRef cur" using ok by auto
      then show ?thesis using st acc
        by (auto simp: pc tw_access_def tw_registered_def wakes_task_def)
    next
      case nf: False
      then have "tw_registered cur r woke" using ok False by (cases "wr_pc r 0") auto
      then have "tw_registered cur r' woke'" by (rule tw_access_facts(3) [OF g acc])
      moreover have "p \<noteq> RegCas w \<and> p \<noteq> RegWakeByRef w" for w
        using st False nf by (cases "wr_pc r 0") (auto split: if_splits option.splits)
      ultimately show ?thesis unfolding pc by (cases p) auto
    qed
  qed
qed

text \<open>When no call is in progress, a wake after the registration has woken the task.\<close>

lemma tw_quiet:
  assumes inv: "wr_inv ww r" and quiet: "\<And>t. wr_pc r t = AwDone"
    and reg: "tw_registered cur r woke" and sig: "wr_signal r"
  shows "woke"
  using assms by (auto simp: tw_registered_def wr_inv_def wr_coming_def aw_ok_def aw_crit_def)

end
