(* ===== verification/WeakWaker.thy ===== *)
theory WeakWaker
  imports TaskWaker
begin

text \<open>
  The waker of \<open>src/atomic_waker/mod.rs\<close> with the memory orderings of the source. The other
  theories let an atomic load return the latest value; here it may return an older one, and a
  thread knows of the memory accesses of another only what an acquiring access told it.

  Every store to \<open>state\<close> is made by a read-modify-write access, so the stores form one list of
  messages, each with what its release published, and each such access reads the last one. A
  failed \<open>compare_exchange\<close> is a load: it may read any message that is not older than the latest
  one its thread knows. The flag of the module documentation is stored and loaded \<open>Relaxed\<close>: a
  load may miss the store unless the store happens before the load.
\<close>

section \<open>Orderings and views\<close>

datatype mem_order = MoAcquire | MoRelease | MoAcqRel

definition mo_acquires :: "mem_order \<Rightarrow> bool" where
  "mo_acquires ord \<longleftrightarrow> ord \<noteq> MoRelease"

definition mo_releases :: "mem_order \<Rightarrow> bool" where
  "mo_releases ord \<longleftrightarrow> ord \<noteq> MoAcquire"

text \<open>The orderings of the atomic accesses, on success and on failure.\<close>

fun aw_orders :: "'w aw_pc \<Rightarrow> (mem_order \<times> mem_order) option" where
  "aw_orders (RegCas w) = Some (MoAcquire, MoAcquire)"
| "aw_orders RegRelease = Some (MoAcqRel, MoAcquire)"
| "aw_orders (RegSwap w) = Some (MoAcqRel, MoAcqRel)"
| "aw_orders TakeFetchOr = Some (MoAcqRel, MoAcqRel)"
| "aw_orders (TakeSwap w) = Some (MoRelease, MoRelease)"
| "aw_orders _ = None"

text \<open>The value that a \<open>compare_exchange\<close> expects.\<close>

fun aw_expects :: "'w aw_pc \<Rightarrow> usize option" where
  "aw_expects (RegCas w) = Some WAITING"
| "aw_expects RegRelease = Some REGISTERING"
| "aw_expects _ = None"

text \<open>The accesses to the waker cell, which is not atomic.\<close>

fun aw_on_cell :: "'w aw_pc \<Rightarrow> bool" where
  "aw_on_cell (RegStore w) = True"
| "aw_on_cell RegTake = True"
| "aw_on_cell TakeCell = True"
| "aw_on_cell _ = False"

text \<open>
  What happens before a point of a thread: whether the store of the flag does, and how many of the
  accesses to the cell do.
\<close>

record view =
  vw_flag :: bool
  vw_cell :: nat

definition vw_join :: "view \<Rightarrow> view \<Rightarrow> view" where
  "vw_join v w = \<lparr>vw_flag = (vw_flag v \<or> vw_flag w), vw_cell = max (vw_cell v) (vw_cell w)\<rparr>"

lemma vw_join_simps [simp]:
  "vw_flag (vw_join v w) \<longleftrightarrow> vw_flag v \<or> vw_flag w"
  "vw_cell (vw_join v w) = max (vw_cell v) (vw_cell w)"
  by (simp_all add: vw_join_def)

definition vw_none :: view where
  "vw_none = \<lparr>vw_flag = False, vw_cell = 0\<rparr>"

section \<open>Threads on one waker\<close>

text \<open>
  \<open>wk_reach\<close> holds the program counters, the cell and the last value of \<open>state\<close>, observed as in
  \<open>WakeReach\<close>; \<open>wk_msgs\<close> are the stores to \<open>state\<close>, the latest last, and \<open>wk_seen\<close> the latest one
  that a thread knows. \<open>wk_cells\<close> counts the accesses to the cell; \<open>wk_race\<close> records that one of
  them did not happen after all earlier ones.
\<close>

record 'w weak_sys =
  wk_reach :: "'w reach_sys"
  wk_msgs :: "(usize \<times> view) list"
  wk_seen :: "nat \<Rightarrow> nat"
  wk_view :: "nat \<Rightarrow> view"
  wk_cells :: nat
  wk_race :: bool

definition wk_init :: "'w weak_sys" where
  "wk_init = \<lparr>wk_reach = wr_init, wk_msgs = [(WAITING, vw_none)], wk_seen = (\<lambda>_. 0),
     wk_view = (\<lambda>_. vw_none), wk_cells = 0, wk_race = False\<rparr>"

abbreviation wk_pc :: "'w weak_sys \<Rightarrow> nat \<Rightarrow> 'w aw_pc" where
  "wk_pc s \<equiv> wr_pc (wk_reach s)"

definition wk_see :: "mem_order \<Rightarrow> view \<Rightarrow> view \<Rightarrow> view" where
  "wk_see ord m v = (if mo_acquires ord then vw_join v m else v)"

text \<open>A failed \<open>compare_exchange\<close> that reads message \<open>i\<close>.\<close>

definition wk_fail :: "('w \<Rightarrow> 'w \<Rightarrow> bool) \<Rightarrow> nat \<Rightarrow> mem_order \<Rightarrow> nat \<Rightarrow> 'w weak_sys \<Rightarrow> 'w weak_sys" where
  "wk_fail ww t ord i s =
     (case wk_msgs s ! i of (x, m) \<Rightarrow>
      case aw_step ww (wr_aw (wk_reach s)\<lparr>aw_state := x\<rparr>) (wk_pc s t) of (a, p, ws) \<Rightarrow>
        s\<lparr>wk_reach := (wk_reach s)\<lparr>wr_pc := (wk_pc s)(t := p)\<rparr>,
          wk_seen := (wk_seen s)(t := i),
          wk_view := (wk_view s)(t := wk_see ord m (wk_view s t))\<rparr>)"

text \<open>A read-modify-write access continues the release sequence of the message it reads.\<close>

definition wk_rmw :: "('w \<Rightarrow> 'w \<Rightarrow> bool) \<Rightarrow> nat \<Rightarrow> mem_order \<Rightarrow> 'w weak_sys \<Rightarrow> 'w weak_sys" where
  "wk_rmw ww t ord s =
     (let r = wr_do ww (WThread t) (wk_reach s); m = snd (last (wk_msgs s));
          v = wk_see ord m (wk_view s t)
      in s\<lparr>wk_reach := r,
           wk_msgs := wk_msgs s @ [(aw_state (wr_aw r), if mo_releases ord then vw_join m v else m)],
           wk_seen := (wk_seen s)(t := length (wk_msgs s)),
           wk_view := (wk_view s)(t := v)\<rparr>)"

definition wk_cell :: "('w \<Rightarrow> 'w \<Rightarrow> bool) \<Rightarrow> nat \<Rightarrow> 'w weak_sys \<Rightarrow> 'w weak_sys" where
  "wk_cell ww t s =
     s\<lparr>wk_reach := wr_do ww (WThread t) (wk_reach s),
       wk_race := (wk_race s \<or> vw_cell (wk_view s t) \<noteq> wk_cells s),
       wk_cells := wk_cells s + 1,
       wk_view := (wk_view s)(t := (wk_view s t)\<lparr>vw_cell := wk_cells s + 1\<rparr>)\<rparr>"

text \<open>The next access of thread \<open>t\<close>; a \<open>compare_exchange\<close> fails on message \<open>j\<close> if it may.\<close>

definition wk_access :: "('w \<Rightarrow> 'w \<Rightarrow> bool) \<Rightarrow> nat \<Rightarrow> nat \<Rightarrow> 'w weak_sys \<Rightarrow> 'w weak_sys" where
  "wk_access ww t j s =
     (case aw_orders (wk_pc s t) of
        None \<Rightarrow> if aw_on_cell (wk_pc s t) then wk_cell ww t s
          else s\<lparr>wk_reach := wr_do ww (WThread t) (wk_reach s)\<rparr>
      | Some (ok, failed) \<Rightarrow>
          (case aw_expects (wk_pc s t) of
             None \<Rightarrow> wk_rmw ww t ok s
           | Some e \<Rightarrow>
               if wk_seen s t \<le> j \<and> j < length (wk_msgs s) \<and> fst (wk_msgs s ! j) \<noteq> e
               then wk_fail ww t failed j s
               else if fst (last (wk_msgs s)) = e then wk_rmw ww t ok s
               else wk_fail ww t failed (length (wk_msgs s) - 1) s))"

datatype 'w wk_cmd = WkRegister nat 'w | WkWake nat | WkStore nat | WkStep nat nat

text \<open>Any thread may register, wake, or store the flag.\<close>

fun wk_do :: "('w \<Rightarrow> 'w \<Rightarrow> bool) \<Rightarrow> 'w wk_cmd \<Rightarrow> 'w weak_sys \<Rightarrow> 'w weak_sys" where
  "wk_do ww (WkRegister t w) s = s\<lparr>wk_reach := wr_do ww (WRegister t w) (wk_reach s)\<rparr>"
| "wk_do ww (WkWake t) s = s\<lparr>wk_reach := wr_do ww (WWake t) (wk_reach s)\<rparr>"
| "wk_do ww (WkStore t) s = s\<lparr>wk_view := (wk_view s)(t := (wk_view s t)\<lparr>vw_flag := True\<rparr>)\<rparr>"
| "wk_do ww (WkStep t j) s = wk_access ww t j s"

section \<open>The invariant\<close>

text \<open>A failed first access of a registration, whatever it read.\<close>

lemma wr_inv_skip:
  assumes inv: "wr_inv ww r" and t: "wr_pc r t = RegCas w" and p: "p = RegWakeByRef w \<or> p = AwDone"
  shows "wr_inv ww (r\<lparr>wr_pc := (wr_pc r)(t := p)\<rparr>)"
proof -
  have other: "wr_held ww c a ((wr_pc r)(t := p)) \<longleftrightarrow> wr_held ww c a (wr_pc r)"
    "wr_coming ww c a ((wr_pc r)(t := p)) \<longleftrightarrow> wr_coming ww c a (wr_pc r)" for c a
  proof -
    have "((wr_pc r)(t := p)) u = RegStore c \<longleftrightarrow> wr_pc r u = RegStore c"
      "((wr_pc r)(t := p)) u = TakeCell \<longleftrightarrow> wr_pc r u = TakeCell"
      "about_to_wake g (((wr_pc r)(t := p)) u) \<longleftrightarrow> about_to_wake g (wr_pc r u)" for u g
      using t p by auto
    then show "wr_held ww c a ((wr_pc r)(t := p)) \<longleftrightarrow> wr_held ww c a (wr_pc r)"
      "wr_coming ww c a ((wr_pc r)(t := p)) \<longleftrightarrow> wr_coming ww c a (wr_pc r)"
      unfolding wr_held_def wr_coming_def by presburger+
  qed
  have "aw_ok (wr_aw r) ((wr_pc r)(t := p))"
    using inv t p by (intro aw_ok_idle) (auto simp: wr_inv_def aw_crit_def)
  moreover have "\<forall>u v. ((wr_pc r)(t := p)) u = RegStore v \<longrightarrow> wr_cur r = Some v"
    using inv p by (auto simp: wr_inv_def)
  ultimately show ?thesis
    using inv other by (auto simp: wr_inv_def simp del: fun_upd_apply split: option.splits)
qed

text \<open>
  Whoever is in the cell knows all accesses to it, and when nobody is, the last message tells of
  them. While a registration holds the cell, its own store is followed by those of wakes.
\<close>

definition wk_own :: "(usize \<times> view) list \<Rightarrow> nat \<Rightarrow> 'w aw_pc \<Rightarrow> bool" where
  "wk_own msgs i p \<longleftrightarrow> (p = RegRelease \<or> (\<exists>w. p = RegStore w)) \<longrightarrow>
     fst (msgs ! i) = REGISTERING \<and> (\<forall>k. i < k \<longrightarrow> k < length msgs \<longrightarrow> fst (msgs ! k) = 3)"

definition wk_ok :: "('w \<Rightarrow> 'w \<Rightarrow> bool) \<Rightarrow> 'w weak_sys \<Rightarrow> bool" where
  "wk_ok ww s \<longleftrightarrow> wr_inv ww (wk_reach s) \<and> \<not> wk_race s \<and> wk_msgs s \<noteq> []
   \<and> fst (last (wk_msgs s)) = aw_state (wr_aw (wk_reach s))
   \<and> (\<forall>m \<in> set (wk_msgs s). vw_cell (snd m) \<le> wk_cells s \<and> fst m \<in> {0, 1, 2, 3})
   \<and> (aw_state (wr_aw (wk_reach s)) = WAITING \<longrightarrow> vw_cell (snd (last (wk_msgs s))) = wk_cells s)
   \<and> (\<forall>t. wk_seen s t < length (wk_msgs s) \<and> vw_cell (wk_view s t) \<le> wk_cells s
        \<and> (aw_crit (wk_pc s t) \<longrightarrow> vw_cell (wk_view s t) = wk_cells s)
        \<and> wk_own (wk_msgs s) (wk_seen s t) (wk_pc s t))"

lemma wk_okD:
  assumes "wk_ok ww s"
  shows "wr_inv ww (wk_reach s)" "\<not> wk_race s" "wk_msgs s \<noteq> []"
    "fst (last (wk_msgs s)) = aw_state (wr_aw (wk_reach s))"
    "m \<in> set (wk_msgs s) \<Longrightarrow> vw_cell (snd m) \<le> wk_cells s"
    "aw_state (wr_aw (wk_reach s)) = WAITING \<Longrightarrow> vw_cell (snd (last (wk_msgs s))) = wk_cells s"
    "wk_seen s t < length (wk_msgs s)" "vw_cell (wk_view s t) \<le> wk_cells s"
    "aw_crit (wk_pc s t) \<Longrightarrow> vw_cell (wk_view s t) = wk_cells s"
    "wk_own (wk_msgs s) (wk_seen s t) (wk_pc s t)"
    "aw_ok (wr_aw (wk_reach s)) (wk_pc s)"
    "m \<in> set (wk_msgs s) \<Longrightarrow> fst m \<in> {0, 1, 2, 3}"
  using assms by (auto simp: wk_ok_def wr_inv_def)

lemma wr_thread:
  assumes "aw_step ww (wr_aw r) (wr_pc r t) = (a, p, ws)"
  shows "wr_aw (wr_do ww (WThread t) r) = a" "wr_pc (wr_do ww (WThread t) r) = (wr_pc r)(t := p)"
  using assms by (auto simp: wr_observe_def split: option.splits)

lemma wk_own_other [simp]:
  "\<not> aw_reg p \<Longrightarrow> wk_own msgs i p"
  by (cases p) (auto simp: wk_own_def)

lemma wk_own_append:
  assumes "wk_own msgs i p" "i < length msgs" "p = RegRelease \<or> (\<exists>w. p = RegStore w) \<Longrightarrow> x = 3"
  shows "wk_own (msgs @ [(x, m)]) i p"
  using assms by (auto simp: wk_own_def nth_append)

text \<open>What a thread in the cell knows of the program counter of another.\<close>

lemma crit_one:
  assumes "aw_ok a pc" "aw_crit (pc t)" "u \<noteq> t"
  shows "\<not> aw_crit (pc u)"
  using assms unfolding aw_ok_def by blast

lemma wk_rmw_ok:
  assumes inv: "wk_ok ww s" and ord: "aw_orders (wk_pc s t) = Some (ok, failed)"
    and exp: "\<And>e. aw_expects (wk_pc s t) = Some e \<Longrightarrow> fst (last (wk_msgs s)) = e"
  shows "wk_ok ww (wk_rmw ww t ok s)"
proof -
  note I = wk_okD [OF inv]
  let ?r = "wk_reach s" let ?m = "snd (last (wk_msgs s))"
  obtain a p ws where st: "aw_step ww (wr_aw ?r) (wk_pc s t) = (a, p, ws)"
    by (cases "aw_step ww (wr_aw ?r) (wk_pc s t)")
  note T = wr_thread [OF st]
  let ?v = "wk_see ok ?m (wk_view s t)"
  define x where "x = (if mo_releases ok then vw_join ?m ?v else ?m)"
  have s': "wk_rmw ww t ok s = s\<lparr>wk_reach := wr_do ww (WThread t) ?r,
      wk_msgs := wk_msgs s @ [(aw_state a, x)], wk_seen := (wk_seen s)(t := length (wk_msgs s)),
      wk_view := (wk_view s)(t := ?v)\<rparr>"
    by (simp add: wk_rmw_def Let_def T(1) x_def del: wr_do.simps)
  have pok: "aw_pc_ok (wr_aw ?r) (wk_pc s t)" "aw_state (wr_aw ?r) \<in> {0, 1, 2, 3}"
    using I(11) by (simp_all add: aw_ok_def)
  have m: "vw_cell ?m \<le> wk_cells s" using I(3,5) by simp
  have v: "vw_cell ?v \<le> wk_cells s" using m I(8) by (simp add: wk_see_def)
  have x: "vw_cell x \<le> wk_cells s" using m v by (simp add: x_def)
  have free: "vw_cell x = wk_cells s" if "aw_state a = WAITING"
  proof -
    have "aw_crit (wk_pc s t) \<and> mo_releases ok"
      using that st ord pok exp I(4)
      by (cases "wk_pc s t") (auto simp: aw_states aw_crit_def mo_releases_def split: if_splits)
    then show ?thesis using I(9) [of t] m v by (auto simp: wk_see_def x_def)
  qed
  have holds: "vw_cell ?v = wk_cells s" if "aw_crit p"
  proof -
    have "aw_state (wr_aw ?r) = WAITING \<and> mo_acquires ok"
      using that st ord exp I(4)
      by (cases "wk_pc s t") (auto simp: aw_states aw_crit_def mo_acquires_def split: if_splits)
    then show ?thesis using I(6) I(8) [of t] by (simp add: wk_see_def)
  qed
  have sts: "aw_state a \<in> {0, 1, 2, 3}" using aw_step_self(2) [OF pok st] .
  have own: "wk_own (wk_msgs s @ [(aw_state a, x)]) (length (wk_msgs s)) p"
    using st ord exp I(4)
    by (cases "wk_pc s t") (auto simp: wk_own_def aw_states split: if_splits)
  have oth: "wk_own (wk_msgs s @ [(aw_state a, x)]) (wk_seen s u) (wk_pc s u)" if "u \<noteq> t" for u
  proof (rule wk_own_append [OF I(10) I(7)])
    assume u: "wk_pc s u = RegRelease \<or> (\<exists>w. wk_pc s u = RegStore w)"
    then have "aw_crit (wk_pc s u)" by (auto simp: aw_crit_def)
    then have "\<not> aw_crit (wk_pc s t)" using crit_one [OF I(11)] that by blast
    moreover have "aw_pc_ok (wr_aw ?r) (wk_pc s u)" using I(11) by (simp add: aw_ok_def)
    ultimately show "aw_state a = 3"
      using u st ord exp I(4)
      by (cases "wk_pc s t") (auto simp: aw_states aw_crit_def split: if_splits)
  qed
  have "wr_inv ww (wr_do ww (WThread t) ?r)" by (rule wr_inv_do [OF I(1)])
  then show ?thesis
    unfolding s' wk_ok_def
    using I(2,5,7,8,9,12) x v sts free holds own oth by (simp add: T less_Suc_eq del: wr_do.simps)
qed

lemma wk_cell_ok:
  assumes inv: "wk_ok ww s" and on: "aw_on_cell (wk_pc s t)"
  shows "wk_ok ww (wk_cell ww t s)"
proof -
  note I = wk_okD [OF inv]
  let ?r = "wk_reach s"
  obtain a p ws where st: "aw_step ww (wr_aw ?r) (wk_pc s t) = (a, p, ws)"
    by (cases "aw_step ww (wr_aw ?r) (wk_pc s t)")
  note T = wr_thread [OF st]
  have pok: "aw_pc_ok (wr_aw ?r) (wk_pc s t)" using I(11) by (simp add: aw_ok_def)
  have crit: "aw_crit (wk_pc s t)" using on by (cases "wk_pc s t") (auto simp: aw_crit_def)
  have a: "aw_state a = aw_state (wr_aw ?r)" "aw_state a \<noteq> WAITING"
    using st on pok by (cases "wk_pc s t"; auto simp: aw_states split: if_splits option.splits)+
  have own: "wk_own (wk_msgs s) (wk_seen s t) p"
    using st on I(10) [of t] by (cases "wk_pc s t") (auto simp: wk_own_def split: if_splits option.splits)
  have "wr_inv ww (wr_do ww (WThread t) ?r)" by (rule wr_inv_do [OF I(1)])
  then show ?thesis
    unfolding wk_cell_def wk_ok_def
    using I(2-5,7,8,10,12) I(9) [OF crit] crit_one [OF I(11) crit] a own
    by (auto simp: T le_SucI simp del: wr_do.simps)
qed

text \<open>
  When the release of a registration fails, a wake has come in between, also if the access reads
  an old message: the step is that of a load of the last one.
\<close>

lemma wk_release_fail:
  assumes inv: "wk_ok ww s" and p: "wk_pc s t = RegRelease" and i: "wk_seen s t \<le> i" "i < length (wk_msgs s)"
    and x: "fst (wk_msgs s ! i) \<noteq> REGISTERING"
  shows "wk_reach (wk_fail ww t ord i s) = wr_do ww (WThread t) (wk_reach s)"
    "wk_pc (wk_fail ww t ord i s) t = RegTake"
proof -
  note I = wk_okD [OF inv]
  have own: "wk_own (wk_msgs s) (wk_seen s t) (wk_pc s t)" by (rule I(10))
  have lt: "wk_seen s t < i" using own i x p by (cases "i = wk_seen s t") (auto simp: wk_own_def)
  then have v: "fst (wk_msgs s ! i) = 3" "fst (last (wk_msgs s)) = 3"
    using own i(2) I(3) p by (auto simp: wk_own_def last_conv_nth)
  then have "aw_state (wr_aw (wk_reach s)) = 3" using I(4) by simp
  then show "wk_reach (wk_fail ww t ord i s) = wr_do ww (WThread t) (wk_reach s)"
    "wk_pc (wk_fail ww t ord i s) t = RegTake"
    using v(1) p
    by (simp_all add: wk_fail_def split_beta aw_states wr_observe_def gets_cell_def wakes_cur_def split: option.splits)
qed

lemma wk_fail_ok:
  assumes inv: "wk_ok ww s" and ord: "aw_orders (wk_pc s t) = Some (ok, failed)"
    and exp: "aw_expects (wk_pc s t) = Some e" and i: "wk_seen s t \<le> i" "i < length (wk_msgs s)"
    and x: "fst (wk_msgs s ! i) \<noteq> e"
  shows "wk_ok ww (wk_fail ww t failed i s)"
proof -
  note I = wk_okD [OF inv]
  let ?r = "wk_reach s" let ?m = "snd (wk_msgs s ! i)"
  let ?v = "wk_see failed ?m (wk_view s t)"
  obtain a p ws where st: "aw_step ww (wr_aw ?r\<lparr>aw_state := fst (wk_msgs s ! i)\<rparr>) (wk_pc s t) = (a, p, ws)"
    by (cases "aw_step ww (wr_aw ?r\<lparr>aw_state := fst (wk_msgs s ! i)\<rparr>) (wk_pc s t)")
  have s': "wk_fail ww t failed i s = s\<lparr>wk_reach := ?r\<lparr>wr_pc := (wk_pc s)(t := p)\<rparr>,
      wk_seen := (wk_seen s)(t := i), wk_view := (wk_view s)(t := ?v)\<rparr>"
    by (simp add: wk_fail_def split_beta st)
  have m: "vw_cell ?m \<le> wk_cells s" using I(5) i(2) by simp
  have v: "vw_cell ?v \<le> wk_cells s" "vw_cell (wk_view s t) \<le> vw_cell ?v"
    using m I(8) by (simp_all add: wk_see_def)
  consider w where "wk_pc s t = RegCas w" | "wk_pc s t = RegRelease"
    using exp by (cases "wk_pc s t") auto
  then have "wr_inv ww (?r\<lparr>wr_pc := (wk_pc s)(t := p)\<rparr>)
    \<and> (aw_crit p \<longrightarrow> aw_crit (wk_pc s t)) \<and> (\<forall>j. wk_own (wk_msgs s) j p)"
  proof cases
    case 1
    then have p: "p = RegWakeByRef w \<or> p = AwDone"
      using st exp x I(12) [of "wk_msgs s ! i"] i(2) by (auto simp: aw_states)
    then show ?thesis using wr_inv_skip [OF I(1) 1 p] by (auto simp: aw_crit_def)
  next
    case 2
    have R: "wk_reach (wk_fail ww t failed i s) = wr_do ww (WThread t) ?r"
      "wk_pc (wk_fail ww t failed i s) t = RegTake"
      using wk_release_fail [OF inv 2 i] x exp 2 by simp_all
    have "p = RegTake" using R(2) by (simp add: s')
    moreover have "?r\<lparr>wr_pc := (wk_pc s)(t := p)\<rparr> = wr_do ww (WThread t) ?r"
      using R(1) by (simp add: s' del: wr_do.simps)
    ultimately show ?thesis
      using wr_inv_do [OF I(1), of "WThread t"] 2 by (auto simp: aw_crit_def wk_own_def simp del: wr_do.simps)
  qed
  then show ?thesis
    unfolding s' wk_ok_def using I(2-10,12) i v by (auto simp: le_antisym)
qed

lemma wk_plain_ok:
  assumes inv: "wk_ok ww s" and p: "aw_orders (wk_pc s t) = None" "\<not> aw_on_cell (wk_pc s t)"
  shows "wk_ok ww (s\<lparr>wk_reach := wr_do ww (WThread t) (wk_reach s)\<rparr>)"
proof -
  note I = wk_okD [OF inv]
  obtain a q ws where st: "aw_step ww (wr_aw (wk_reach s)) (wk_pc s t) = (a, q, ws)"
    by (cases "aw_step ww (wr_aw (wk_reach s)) (wk_pc s t)")
  note T = wr_thread [OF st]
  have pok: "aw_pc_ok (wr_aw (wk_reach s)) (wk_pc s t)" using I(11) by (simp add: aw_ok_def)
  have "a = wr_aw (wk_reach s)" "q = AwDone" using st p pok by (cases "wk_pc s t"; auto)+
  then show ?thesis
    using I(2-10,12) wr_inv_do [OF I(1), of "WThread t"]
    by (auto simp: wk_ok_def T aw_crit_def simp del: wr_do.simps)
qed

lemma wk_access_ok:
  assumes inv: "wk_ok ww s"
  shows "wk_ok ww (wk_access ww t j s)"
proof (cases "aw_orders (wk_pc s t)")
  case None
  then show ?thesis
    using wk_cell_ok [OF inv, of t] wk_plain_ok [OF inv None]
    by (simp add: wk_access_def del: wr_do.simps)
next
  case (Some ord)
  then obtain ok failed where ord: "aw_orders (wk_pc s t) = Some (ok, failed)" by (cases ord) auto
  show ?thesis
  proof (cases "aw_expects (wk_pc s t)")
    case None
    then show ?thesis using wk_rmw_ok [OF inv ord] ord by (simp add: wk_access_def)
  next
    case (Some e)
    note I = wk_okD [OF inv]
    have "fst (wk_msgs s ! (length (wk_msgs s) - 1)) = fst (last (wk_msgs s))"
      using I(3) by (simp add: last_conv_nth)
    moreover have "wk_seen s t \<le> length (wk_msgs s) - 1" using I(7) [of t] by simp
    ultimately show ?thesis
      using wk_rmw_ok [OF inv ord] wk_fail_ok [OF inv ord Some] ord Some I(3) by (simp add: wk_access_def)
  qed
qed

lemma wk_call_ok:
  assumes inv: "wk_ok ww s" and c: "c = WRegister t w \<or> c = WWake t"
  shows "wk_ok ww (s\<lparr>wk_reach := wr_do ww c (wk_reach s)\<rparr>)"
proof -
  note I = wk_okD [OF inv]
  have r: "wr_inv ww (wr_do ww c (wk_reach s))" by (rule wr_inv_do [OF I(1)])
  have "wr_aw (wr_do ww c (wk_reach s)) = wr_aw (wk_reach s)
    \<and> (\<forall>u. wr_pc (wr_do ww c (wk_reach s)) u = wk_pc s u
        \<or> \<not> aw_crit (wr_pc (wr_do ww c (wk_reach s)) u))"
    using c by (auto simp: aw_crit_def split: aw_pc.splits if_splits)
  moreover have "wk_own (wk_msgs s) i p" if "\<not> aw_crit p" for i and p :: "'a aw_pc"
    using that by (simp add: aw_crit_def)
  ultimately show ?thesis
    using I(2-10,12) r by (auto simp: wk_ok_def simp del: wr_do.simps) metis+
qed

lemma wk_do_ok: "wk_ok ww s \<Longrightarrow> wk_ok ww (wk_do ww c s)"
proof (cases c)
  case (WkStore t)
  assume "wk_ok ww s"
  then show ?thesis using WkStore by (auto simp: wk_ok_def)
qed (auto intro: wk_call_ok wk_access_ok simp del: wr_do.simps)

lemma wk_init_ok: "wk_ok ww wk_init"
  using wr_inv_init [of ww]
  by (simp add: wk_ok_def wk_init_def vw_none_def)
    (simp add: wr_init_def aw_new_def aw_crit_def aw_states)

lemma wk_run_ok: "wk_ok ww (fold (wk_do ww) cs wk_init)"
proof (induction cs rule: rev_induct)
  case (snoc c cs)
  then show ?case by (simp add: wk_do_ok del: wk_do.simps)
qed (simp add: wk_init_ok)

section \<open>A task that waits for a relaxed flag\<close>

text \<open>
  The \<open>Flag\<close> of the module documentation: thread 0 loads the flag, registers, and loads it again;
  every other thread stores the flag and then wakes. \<open>b\<close> is what a load returns when it is free
  to miss the store. \<open>wf_woke\<close> records whether the task has been woken since its poll began.
\<close>

record 'w weak_flag =
  wf_weak :: "'w weak_sys"
  wf_set :: bool
  wf_phase :: poll_phase
  wf_cur :: 'w
  wf_woke :: bool

definition wf_init :: "'w \<Rightarrow> 'w weak_flag" where
  "wf_init w = \<lparr>wf_weak = wk_init, wf_set = False, wf_phase = PollIdle, wf_cur = w, wf_woke = False\<rparr>"

definition wf_load :: "bool \<Rightarrow> 'w weak_flag \<Rightarrow> bool" where
  "wf_load b s \<longleftrightarrow> vw_flag (wk_view (wf_weak s) 0) \<or> wf_set s \<and> b"

datatype 'w wf_cmd = WfPoll 'w bool | WfTest bool | WfSignal nat | WfStep nat nat

fun wf_do :: "('w \<Rightarrow> 'w \<Rightarrow> bool) \<Rightarrow> 'w wf_cmd \<Rightarrow> 'w weak_flag \<Rightarrow> 'w weak_flag" where
  "wf_do ww (WfPoll w b) s =
     (if wf_phase s \<noteq> PollIdle \<and> wf_phase s \<noteq> PollParked then s
      else if wf_load b s then s\<lparr>wf_phase := PollReady\<rparr>
      else s\<lparr>wf_weak := wk_do ww (WkRegister 0 w) (wf_weak s), wf_phase := Polling, wf_cur := w,
             wf_woke := False\<rparr>)"
| "wf_do ww (WfTest b) s =
     (case wk_pc (wf_weak s) 0 of
        AwDone \<Rightarrow> if wf_phase s \<noteq> Polling then s
          else s\<lparr>wf_phase := (if wf_load b s then PollReady else PollParked)\<rparr>
      | _ \<Rightarrow> s)"
| "wf_do ww (WfSignal t) s =
     (case wk_pc (wf_weak s) t of
        AwDone \<Rightarrow> if t = 0 then s
          else s\<lparr>wf_weak := wk_do ww (WkWake t) (wk_do ww (WkStore t) (wf_weak s)), wf_set := True\<rparr>
      | _ \<Rightarrow> s)"
| "wf_do ww (WfStep t j) s =
     (case aw_step ww (wr_aw (wk_reach (wf_weak s))) (wk_pc (wf_weak s) t) of (a, p, ws) \<Rightarrow>
       s\<lparr>wf_weak := wk_do ww (WkStep t j) (wf_weak s),
         wf_woke := (wf_woke s \<or> list_ex (wakes_task ww (wf_cur s)) ws)\<rparr>)"

text \<open>
  Who has stored the flag publishes it with its first access to \<open>state\<close>, and every later message
  tells of it. A registration that is told of the flag finds it set; one that is not comes before
  the first access of the wake, which then reaches it.
\<close>

abbreviation wk_told :: "'w weak_sys \<Rightarrow> bool" where
  "wk_told k \<equiv> vw_flag (snd (last (wk_msgs k)))"

definition wk_flag_ok :: "bool \<Rightarrow> 'w weak_sys \<Rightarrow> bool" where
  "wk_flag_ok stored k \<longleftrightarrow>
     (\<forall>t. t \<noteq> 0 \<longrightarrow> vw_flag (wk_view k t) \<longrightarrow> wk_pc k t = TakeFetchOr \<or> wk_told k)
   \<and> (stored \<longrightarrow> wk_told k \<or> (\<exists>t. wk_pc k t = TakeFetchOr \<and> vw_flag (wk_view k t)))"

definition wk_task_ok :: "'w weak_sys \<Rightarrow> bool" where
  "wk_task_ok k \<longleftrightarrow> tw_others (wk_reach k)
   \<and> (\<not> aw_reg (wk_pc k 0) \<longrightarrow> (\<forall>i. wk_seen k 0 \<le> i \<longrightarrow> i < length (wk_msgs k) \<longrightarrow>
        fst (wk_msgs k ! i) = WAITING \<or> fst (wk_msgs k ! i) = WAKING))"

definition wf_told :: "'w weak_sys \<Rightarrow> bool \<Rightarrow> bool" where
  "wf_told k woke \<longleftrightarrow> (wk_told k \<longrightarrow> vw_flag (wk_view k 0) \<or> woke \<or> wr_signal (wk_reach k))"

fun wf_poll_ok :: "'w weak_sys \<Rightarrow> 'w \<Rightarrow> bool \<Rightarrow> poll_phase \<Rightarrow> bool" where
  "wf_poll_ok k cur woke Polling \<longleftrightarrow> tw_register_ok cur (wk_reach k) woke (wk_pc k 0)
     \<and> ((\<forall>w. wk_pc k 0 \<noteq> RegCas w \<and> wk_pc k 0 \<noteq> RegWakeByRef w) \<longrightarrow> wf_told k woke)"
| "wf_poll_ok k cur woke PollParked \<longleftrightarrow> wk_pc k 0 = AwDone \<and> tw_registered cur (wk_reach k) woke
     \<and> wf_told k woke \<and> \<not> vw_flag (wk_view k 0)"
| "wf_poll_ok k cur woke _ \<longleftrightarrow> wk_pc k 0 = AwDone"

definition wf_ok :: "('w \<Rightarrow> 'w \<Rightarrow> bool) \<Rightarrow> 'w weak_flag \<Rightarrow> bool" where
  "wf_ok ww s \<longleftrightarrow> wk_ok ww (wf_weak s) \<and> wk_flag_ok (wf_set s) (wf_weak s) \<and> wk_task_ok (wf_weak s)
     \<and> wf_poll_ok (wf_weak s) (wf_cur s) (wf_woke s) (wf_phase s)"

text \<open>The state, when the task is not in the cell.\<close>

lemma wk_state_free:
  assumes "wk_ok ww k" "wk_task_ok k" "\<not> aw_reg (wk_pc k 0)"
  shows "aw_state (wr_aw (wk_reach k)) = 0 \<or> aw_state (wr_aw (wk_reach k)) = 2"
proof -
  note I = wk_okD [OF assms(1)]
  have "fst (wk_msgs k ! (length (wk_msgs k) - 1)) = WAITING \<or> fst (wk_msgs k ! (length (wk_msgs k) - 1)) = WAKING"
    using assms(2,3) I(3) I(7) [of 0] by (auto simp: wk_task_ok_def)
  then show ?thesis using I(3,4) by (simp add: last_conv_nth aw_states)
qed

lemma wk_rmw_simps:
  "wk_reach (wk_rmw ww t ord k) = wr_do ww (WThread t) (wk_reach k)"
  "wk_told (wk_rmw ww t ord k) \<longleftrightarrow> wk_told k \<or> mo_releases ord \<and> vw_flag (wk_view k t)"
  "vw_flag (wk_view (wk_rmw ww t ord k) u) \<longleftrightarrow>
     vw_flag (wk_view k u) \<or> u = t \<and> mo_acquires ord \<and> wk_told k"
  "wk_seen (wk_rmw ww t ord k) u = (if u = t then length (wk_msgs k) else wk_seen k u)"
  "length (wk_msgs (wk_rmw ww t ord k)) = Suc (length (wk_msgs k))"
  "i < length (wk_msgs k) \<Longrightarrow> wk_msgs (wk_rmw ww t ord k) ! i = wk_msgs k ! i"
  "fst (wk_msgs (wk_rmw ww t ord k) ! length (wk_msgs k)) = aw_state (wr_aw (wr_do ww (WThread t) (wk_reach k)))"
  by (auto simp: wk_rmw_def Let_def wk_see_def nth_append simp del: wr_do.simps)

lemma wk_cell_simps:
  "wk_reach (wk_cell ww t k) = wr_do ww (WThread t) (wk_reach k)"
  "vw_flag (wk_view (wk_cell ww t k) u) \<longleftrightarrow> vw_flag (wk_view k u)"
  "wk_seen (wk_cell ww t k) = wk_seen k" "wk_msgs (wk_cell ww t k) = wk_msgs k"
  by (auto simp: wk_cell_def simp del: wr_do.simps)

lemma wk_flag_rmw:
  assumes ok: "wk_flag_ok stored k" and ord: "aw_orders (wk_pc k t) = Some (ord, failed)"
  shows "wk_flag_ok stored (wk_rmw ww t ord k)"
proof -
  obtain a p ws where st: "aw_step ww (wr_aw (wk_reach k)) (wk_pc k t) = (a, p, ws)"
    by (cases "aw_step ww (wr_aw (wk_reach k)) (wk_pc k t)")
  have "wk_pc k t = TakeFetchOr \<Longrightarrow> mo_releases ord" using ord by (auto simp: mo_releases_def)
  then show ?thesis
    using ok unfolding wk_flag_ok_def wk_rmw_simps wr_thread [OF st] by (metis fun_upd_other)
qed

text \<open>An access of the others is one of the waker, whatever the loads return.\<close>

lemma wk_access_waker:
  assumes "waker_pc (wk_pc k t)"
  shows "wk_access ww t j k = (if aw_on_cell (wk_pc k t) then wk_cell ww t k
    else case aw_orders (wk_pc k t) of Some (ord, failed) \<Rightarrow> wk_rmw ww t ord k
      | None \<Rightarrow> k\<lparr>wk_reach := wr_do ww (WThread t) (wk_reach k)\<rparr>)"
    "wk_reach (wk_access ww t j k) = wr_do ww (WThread t) (wk_reach k)"
  using assms
  by (cases "wk_pc k t"; simp add: wk_access_def wk_rmw_simps wk_cell_simps del: wr_do.simps)+

lemma wk_flag_plain:
  assumes ok: "wk_flag_ok stored k" and p: "wk_pc k t \<noteq> TakeFetchOr"
    and k': "wk_pc k' = (wk_pc k)(t := q)" "wk_msgs k' = wk_msgs k"
    and v: "\<And>u. u \<noteq> 0 \<Longrightarrow> vw_flag (wk_view k' u) \<longleftrightarrow> vw_flag (wk_view k u)"
      "\<And>u. vw_flag (wk_view k u) \<Longrightarrow> vw_flag (wk_view k' u)"
  shows "wk_flag_ok stored k'"
  using ok p unfolding wk_flag_ok_def k' by (metis v fun_upd_other)

lemma wk_others_step:
  assumes ok: "wk_ok ww k" and task: "wk_task_ok k" and t: "t \<noteq> 0"
    and st: "aw_step ww (wr_aw (wk_reach k)) (wk_pc k t) = (a, p, ws)"
  shows "tw_access ww t cur (wk_reach k, woke)
      = (wk_reach (wk_access ww t j k), woke \<or> list_ex (wakes_task ww cur) ws)"
    "(\<exists>ord failed. aw_orders (wk_pc k t) = Some (ord, failed) \<and> wk_access ww t j k = wk_rmw ww t ord k)
      \<or> wk_msgs (wk_access ww t j k) = wk_msgs k
        \<and> (\<forall>u. vw_flag (wk_view (wk_access ww t j k) u) \<longleftrightarrow> vw_flag (wk_view k u)) \<and> wk_pc k t \<noteq> TakeFetchOr"
    "wk_task_ok (wk_access ww t j k)"
proof -
  let ?k' = "wk_access ww t j k"
  have wp: "waker_pc (wk_pc k t)" using task t by (simp add: wk_task_ok_def tw_others_def)
  show acc: "tw_access ww t cur (wk_reach k, woke) = (wk_reach ?k', woke \<or> list_ex (wakes_task ww cur) ws)"
    for cur woke
    using st by (simp add: tw_access_def wk_access_waker(2) [OF wp] del: wr_do.simps)
  have oth: "tw_others (wk_reach k)" using task by (simp add: wk_task_ok_def)
  note F = tw_wake_access [OF wk_okD(1) [OF ok] oth t acc]
  have pc: "wk_pc ?k' = (wk_pc k)(t := p)" using wr_thread(2) [OF st] wk_access_waker(2) [OF wp] by simp
  have seen: "wk_seen ?k' 0 = wk_seen k 0"
    using t wp by (cases "wk_pc k t"; simp add: wk_access_waker(1) wk_rmw_simps wk_cell_simps)
  show step: "(\<exists>ord failed. aw_orders (wk_pc k t) = Some (ord, failed) \<and> ?k' = wk_rmw ww t ord k)
    \<or> wk_msgs ?k' = wk_msgs k \<and> (\<forall>u. vw_flag (wk_view ?k' u) \<longleftrightarrow> vw_flag (wk_view k u))
        \<and> wk_pc k t \<noteq> TakeFetchOr"
    using wp by (cases "wk_pc k t") (auto simp: wk_access_waker(1) wk_cell_simps)
  show "wk_task_ok ?k'"
    using step
  proof (elim disjE exE conjE)
    fix ord failed
    assume ord: "aw_orders (wk_pc k t) = Some (ord, failed)" and k': "?k' = wk_rmw ww t ord k"
    have "aw_state a = 0 \<or> aw_state a = 2" if "\<not> aw_reg (wk_pc k 0)"
      using wk_state_free [OF ok task that] st wp ord by (cases "wk_pc k t") (auto simp: aw_states)
    then show ?thesis
      using task F(1) pc t seen wr_thread(1) [OF st]
      by (auto simp: wk_task_ok_def k' wk_rmw_simps less_Suc_eq aw_states simp del: wr_do.simps)
  next
    assume "wk_msgs ?k' = wk_msgs k"
    then show ?thesis using task F(1) pc t seen by (simp add: wk_task_ok_def)
  qed
qed

lemma wf_others_step:
  assumes ok: "wf_ok ww s" and t: "t \<noteq> 0"
  shows "wf_ok ww (wf_do ww (WfStep t j) s)"
proof -
  let ?k = "wf_weak s" let ?k' = "wk_access ww t j (wf_weak s)"
  have k: "wk_ok ww ?k" "wk_flag_ok (wf_set s) ?k" "wk_task_ok ?k"
    "wf_poll_ok ?k (wf_cur s) (wf_woke s) (wf_phase s)"
    using ok by (auto simp: wf_ok_def)
  have oth: "tw_others (wk_reach ?k)" using k(3) by (simp add: wk_task_ok_def)
  then have wp: "waker_pc (wk_pc ?k t)" using t by (simp add: tw_others_def)
  obtain a p ws where st: "aw_step ww (wr_aw (wk_reach ?k)) (wk_pc ?k t) = (a, p, ws)"
    by (cases "aw_step ww (wr_aw (wk_reach ?k)) (wk_pc ?k t)")
  define woke' where "woke' \<longleftrightarrow> wf_woke s \<or> list_ex (wakes_task ww (wf_cur s)) ws"
  note O = wk_others_step [OF k(1,3) t st, where j = j]
  have acc: "tw_access ww t (wf_cur s) (wk_reach ?k, wf_woke s) = (wk_reach ?k', woke')"
    using O(1) by (simp add: woke'_def)
  note I = wk_okD [OF k(1)] and F = tw_wake_access [OF wk_okD(1) [OF k(1)] oth t acc]
  have s': "wf_do ww (WfStep t j) s = s\<lparr>wf_weak := ?k', wf_woke := woke'\<rparr>"
    using st by (simp add: woke'_def)
  have pc: "wk_pc ?k' = (wk_pc ?k)(t := p)" using wr_thread(2) [OF st] wk_access_waker(2) [OF wp] by simp
  have v0: "vw_flag (wk_view ?k' 0) \<longleftrightarrow> vw_flag (wk_view ?k 0)"
    using t wp by (cases "wk_pc ?k t"; simp add: wk_access_waker(1) wk_rmw_simps wk_cell_simps)
  have "vw_flag (wk_view ?k t) \<Longrightarrow> wk_pc ?k t = TakeFetchOr \<or> wk_told ?k"
    using k(2) t by (simp add: wk_flag_ok_def)
  then have told: "wk_told ?k' \<longleftrightarrow> wk_told ?k \<or> wk_pc ?k t = TakeFetchOr \<and> vw_flag (wk_view ?k t)"
    using wp by (cases "wk_pc ?k t") (auto simp: wk_access_waker(1) wk_cell_simps wk_rmw_simps mo_releases_def)
  have flag: "wk_flag_ok (wf_set s) ?k'"
    using O(2)
  proof (elim disjE exE conjE)
    fix ord failed
    assume "aw_orders (wk_pc ?k t) = Some (ord, failed)" "?k' = wk_rmw ww t ord ?k"
    then show ?thesis using wk_flag_rmw [OF k(2)] by simp
  next
    assume "wk_msgs ?k' = wk_msgs ?k" "\<forall>u. vw_flag (wk_view ?k' u) \<longleftrightarrow> vw_flag (wk_view ?k u)"
      "wk_pc ?k t \<noteq> TakeFetchOr"
    then show ?thesis by (intro wk_flag_plain [OF k(2) _ pc]) auto
  qed
  have told: "wf_told ?k' woke'" if "wf_told ?k (wf_woke s)"
    using that told F(2,3) v0 by (auto simp: wf_told_def)
  have p0: "wk_pc ?k' 0 = wk_pc ?k 0" using F(5) t by simp
  have "wf_poll_ok ?k' (wf_cur s) woke' (wf_phase s)"
  proof (cases "wf_phase s")
    case Polling
    have "tw_register_ok (wf_cur s) (wk_reach ?k') woke' (wk_pc ?k 0)"
      using k(4) Polling F(4) by (cases "wk_pc ?k 0") auto
    then show ?thesis using k(4) Polling told p0 by auto
  qed (use k(4) F(4) told p0 v0 in auto)
  then show ?thesis unfolding s' wf_ok_def using wk_access_ok [OF k(1)] flag O(3) by simp
qed

text \<open>
  The first access of the task's registration finds \<open>WAITING\<close> or \<open>WAKING\<close>, also when it reads an
  old message.
\<close>

lemma wk_first_access:
  assumes ok: "wk_ok ww k" and task: "wk_task_ok k" and p: "wk_pc k 0 = RegCas w"
  obtains i where "wk_access ww 0 j k = wk_fail ww 0 MoAcquire i k" "wk_seen k 0 \<le> i"
      "i < length (wk_msgs k)" "fst (wk_msgs k ! i) = WAKING"
  | "wk_access ww 0 j k = wk_rmw ww 0 MoAcquire k" "aw_state (wr_aw (wk_reach k)) = WAITING"
proof -
  note I = wk_okD [OF ok]
  have val: "fst (wk_msgs k ! i) = WAITING \<or> fst (wk_msgs k ! i) = WAKING"
    if "wk_seen k 0 \<le> i" "i < length (wk_msgs k)" for i
    using task p that by (auto simp: wk_task_ok_def)
  have last: "wk_seen k 0 \<le> length (wk_msgs k) - 1" "length (wk_msgs k) - 1 < length (wk_msgs k)"
    using I(7) [of 0] by auto
  have l: "fst (wk_msgs k ! (length (wk_msgs k) - 1)) = aw_state (wr_aw (wk_reach k))"
    using I(3,4) by (simp add: last_conv_nth)
  show thesis
  proof (cases "wk_seen k 0 \<le> j \<and> j < length (wk_msgs k) \<and> fst (wk_msgs k ! j) \<noteq> WAITING")
    case True
    then show ?thesis using that(1) [of j] val [of j] p by (auto simp: wk_access_def)
  next
    case False
    show ?thesis
    proof (cases "fst (last (wk_msgs k)) = WAITING")
      case True
      then show ?thesis using that(2) False p I(4) by (auto simp: wk_access_def)
    next
      case n: False
      then have "fst (wk_msgs k ! (length (wk_msgs k) - 1)) = WAKING"
        using val [OF last] I(4) l by auto
      then show ?thesis using that(1) [OF _ last] False n p by (auto simp: wk_access_def)
    qed
  qed
qed

text \<open>Its later accesses are those of \<open>WakeReach\<close>, whatever the loads return.\<close>

lemma wk_later_access:
  assumes ok: "wk_ok ww k" and p: "\<not> (\<exists>w. wk_pc k t = RegCas w)"
  shows "wk_reach (wk_access ww t j k) = wr_do ww (WThread t) (wk_reach k)"
    "(\<exists>ord failed. aw_orders (wk_pc k t) = Some (ord, failed) \<and> wk_access ww t j k = wk_rmw ww t ord k)
      \<or> wk_msgs (wk_access ww t j k) = wk_msgs k \<and> wk_pc k t \<noteq> TakeFetchOr
        \<and> (\<forall>u. vw_flag (wk_view k u) \<longrightarrow> vw_flag (wk_view (wk_access ww t j k) u))
        \<and> (\<forall>u. u \<noteq> t \<longrightarrow> vw_flag (wk_view (wk_access ww t j k) u) = vw_flag (wk_view k u))
        \<and> (wk_seen (wk_access ww t j k) t = wk_seen k t \<and> \<not> aw_reg (wk_pc k t)
             \<or> aw_reg (wk_pc (wk_access ww t j k) t))"
proof -
  note I = wk_okD [OF ok]
  have fail: "wk_msgs (wk_fail ww t ord i k) = wk_msgs k"
    "vw_flag (wk_view k u) \<Longrightarrow> vw_flag (wk_view (wk_fail ww t ord i k) u)"
    "u \<noteq> t \<Longrightarrow> wk_view (wk_fail ww t ord i k) u = wk_view k u" for ord i u
    by (auto simp: wk_fail_def wk_see_def split_beta)
  have rel: "wk_access ww t j k = wk_rmw ww t MoAcqRel k
      \<or> (\<exists>i. wk_access ww t j k = wk_fail ww t MoAcquire i k \<and> wk_seen k t \<le> i
          \<and> i < length (wk_msgs k) \<and> fst (wk_msgs k ! i) \<noteq> REGISTERING)" if "wk_pc k t = RegRelease"
  proof (cases "wk_seen k t \<le> j \<and> j < length (wk_msgs k) \<and> fst (wk_msgs k ! j) \<noteq> REGISTERING")
    case True
    then show ?thesis using that by (intro disjI2 exI [of _ j]) (simp add: wk_access_def)
  next
    case False
    have "wk_seen k t \<le> length (wk_msgs k) - 1" "length (wk_msgs k) - 1 < length (wk_msgs k)"
      using I(7) [of t] by auto
    then show ?thesis
      using that False I(3)
      by (cases "fst (last (wk_msgs k)) = REGISTERING")
        (auto simp: wk_access_def last_conv_nth intro!: exI [of _ "length (wk_msgs k) - 1"])
  qed
  show "wk_reach (wk_access ww t j k) = wr_do ww (WThread t) (wk_reach k)"
  proof (cases "wk_pc k t = RegRelease")
    case True
    then show ?thesis using rel wk_release_fail(1) [OF ok True] by (auto simp: wk_rmw_simps simp del: wr_do.simps)
  next
    case False
    then show ?thesis
      using p by (cases "wk_pc k t") (simp_all add: wk_access_def wk_rmw_simps wk_cell_simps del: wr_do.simps)
  qed
  show "(\<exists>ord failed. aw_orders (wk_pc k t) = Some (ord, failed) \<and> wk_access ww t j k = wk_rmw ww t ord k)
      \<or> wk_msgs (wk_access ww t j k) = wk_msgs k \<and> wk_pc k t \<noteq> TakeFetchOr
        \<and> (\<forall>u. vw_flag (wk_view k u) \<longrightarrow> vw_flag (wk_view (wk_access ww t j k) u))
        \<and> (\<forall>u. u \<noteq> t \<longrightarrow> vw_flag (wk_view (wk_access ww t j k) u) = vw_flag (wk_view k u))
        \<and> (wk_seen (wk_access ww t j k) t = wk_seen k t \<and> \<not> aw_reg (wk_pc k t)
             \<or> aw_reg (wk_pc (wk_access ww t j k) t))"
  proof (cases "wk_pc k t = RegRelease")
    case True
    then show ?thesis using rel wk_release_fail(2) [OF ok True] fail by auto
  next
    case False
    obtain a q ws where st: "aw_step ww (wr_aw (wk_reach k)) (wk_pc k t) = (a, q, ws)"
      by (cases "aw_step ww (wr_aw (wk_reach k)) (wk_pc k t)")
    have "aw_pc_ok (wr_aw (wk_reach k)) (wk_pc k t)" using I(11) by (simp add: aw_ok_def)
    then show ?thesis
      using p False st
      by (cases "wk_pc k t")
        (auto simp: wk_access_def wk_cell_simps wr_thread(2) [OF st] simp del: wr_do.simps split: if_splits option.splits)
  qed
qed

text \<open>What an access of the task's registration keeps.\<close>

lemma wk_task_step:
  assumes ok: "wk_ok ww k" and task: "wk_task_ok k"
    and reg: "tw_register_ok cur (wk_reach k) woke (wk_pc k 0)" and busy: "wk_pc k 0 \<noteq> AwDone"
    and st: "aw_step ww (wr_aw (wk_reach k)) (wk_pc k 0) = (a, q, ws)"
  shows "wk_task_ok (wk_access ww 0 j k)"
    "tw_register_ok cur (wk_reach (wk_access ww 0 j k)) (woke \<or> list_ex (wakes_task ww cur) ws)
       (wk_pc (wk_access ww 0 j k) 0)"
proof -
  let ?k' = "wk_access ww 0 j k"
  note I = wk_okD [OF ok]
  have oth: "tw_others (wk_reach k)" using task by (simp add: wk_task_ok_def)
  have "wk_task_ok ?k' \<and> tw_register_ok cur (wk_reach ?k') (woke \<or> list_ex (wakes_task ww cur) ws) (wk_pc ?k' 0)"
  proof (cases "\<exists>w. wk_pc k 0 = RegCas w")
    case True
    then have p: "wk_pc k 0 = RegCas cur" using reg by auto
    from ok task p show ?thesis
    proof (cases rule: wk_first_access [where j = j])
      case (1 i)
      have k': "wk_pc ?k' = (wk_pc k)(0 := RegWakeByRef cur)" "wk_msgs ?k' = wk_msgs k" "wk_seen ?k' 0 = i"
        "wk_reach ?k' = (wk_reach k)\<lparr>wr_pc := (wk_pc k)(0 := RegWakeByRef cur)\<rparr>"
        using 1(1,4) p by (auto simp: wk_fail_def split_beta aw_states)
      have "wk_task_ok ?k'" using task p 1(2) oth by (auto simp: wk_task_ok_def k')
      then show ?thesis using k'(1) by simp
    next
      case 2
      have "ws = []" using st p by (auto split: if_splits)
      then have acc: "tw_access ww 0 cur (wk_reach k, woke)
          = (wk_reach ?k', woke \<or> list_ex (wakes_task ww cur) ws)"
        using st 2(1) by (simp add: tw_access_def wk_rmw_simps del: wr_do.simps)
      note F = tw_register_access [OF I(1) oth reg acc]
      have "wk_pc ?k' 0 = RegStore cur"
        using 2 p wr_thread(2) [OF st] st by (simp add: wk_rmw_simps)
      then show ?thesis using F by (simp add: wk_task_ok_def)
    qed
  next
    case False
    note L = wk_later_access [OF ok False]
    have acc: "tw_access ww 0 cur (wk_reach k, woke) = (wk_reach ?k', woke \<or> list_ex (wakes_task ww cur) ws)"
      using st by (simp add: tw_access_def L(1) del: wr_do.simps)
    note F = tw_register_access [OF I(1) oth reg acc]
    have pc: "wk_pc ?k' = (wk_pc k)(0 := q)" using wr_thread(2) [OF st] L(1) by simp
    have pok: "aw_pc_ok (wr_aw (wk_reach k)) (wk_pc k 0)" using I(11) by (simp add: aw_ok_def)
    have val: "aw_state a = WAITING \<or> aw_state a = WAKING"
      if "\<not> aw_reg q" "aw_orders (wk_pc k 0) = Some (ord, failed)" for ord failed
      using that st False pok wk_state_free [OF ok task]
      by (cases "wk_pc k 0") (auto simp: aw_states split: if_splits)
    have "wk_task_ok ?k'"
      using L(2) [of j]
    proof (elim disjE exE conjE)
      fix ord failed
      assume ord: "aw_orders (wk_pc k 0) = Some (ord, failed)" and k': "?k' = wk_rmw ww 0 ord k"
      show ?thesis
        using F(1) val [OF _ ord] pc wr_thread(1) [OF st]
        by (auto simp: wk_task_ok_def k' wk_rmw_simps less_Suc_eq simp del: wr_do.simps)
    qed (use task F(1) in \<open>auto simp: wk_task_ok_def\<close>)
    then show ?thesis using F(2) by simp
  qed
  then show "wk_task_ok ?k'"
    "tw_register_ok cur (wk_reach ?k') (woke \<or> list_ex (wakes_task ww cur) ws) (wk_pc ?k' 0)" by blast+
qed

lemma wf_task_step:
  assumes ok: "wf_ok ww s"
  shows "wf_ok ww (wf_do ww (WfStep 0 j) s)"
proof (cases "wk_pc (wf_weak s) 0 = AwDone")
  case True
  then have "wk_access ww 0 j (wf_weak s) = wf_weak s"
    using fun_upd_idem [of "wk_pc (wf_weak s)" 0 AwDone, OF True]
    by (simp add: wk_access_def wr_observe_def gets_cell_def wakes_cur_def split: option.splits)
  then have "wf_do ww (WfStep 0 j) s = s" using True by simp
  then show ?thesis using ok by simp
next
  case busy: False
  let ?k = "wf_weak s" let ?k' = "wk_access ww 0 j (wf_weak s)"
  have k: "wk_ok ww ?k" "wk_flag_ok (wf_set s) ?k" "wk_task_ok ?k"
    "wf_poll_ok ?k (wf_cur s) (wf_woke s) (wf_phase s)"
    using ok by (auto simp: wf_ok_def)
  have ph: "wf_phase s = Polling" using k(4) busy by (cases "wf_phase s") auto
  have reg: "tw_register_ok (wf_cur s) (wk_reach ?k) (wf_woke s) (wk_pc ?k 0)" using k(4) ph by simp
  obtain a q ws where st: "aw_step ww (wr_aw (wk_reach ?k)) (wk_pc ?k 0) = (a, q, ws)"
    by (cases "aw_step ww (wr_aw (wk_reach ?k)) (wk_pc ?k 0)")
  define woke' where "woke' \<longleftrightarrow> wf_woke s \<or> list_ex (wakes_task ww (wf_cur s)) ws"
  from wk_task_step [OF k(1,3) reg busy st, of j] have T: "wk_task_ok ?k'"
    "tw_register_ok (wf_cur s) (wk_reach ?k') woke' (wk_pc ?k' 0)" by (simp_all add: woke'_def)
  have "wk_flag_ok (wf_set s) ?k'
    \<and> ((\<forall>w. wk_pc ?k' 0 \<noteq> RegCas w \<and> wk_pc ?k' 0 \<noteq> RegWakeByRef w) \<longrightarrow> wf_told ?k' woke')"
  proof (cases "\<exists>w. wk_pc ?k 0 = RegCas w")
    case True
    then have p: "wk_pc ?k 0 = RegCas (wf_cur s)" using reg by auto
    from k(1,3) p show ?thesis
    proof (cases rule: wk_first_access [where j = j])
      case (1 i)
      have k': "wk_pc ?k' = (wk_pc ?k)(0 := RegWakeByRef (wf_cur s))" "wk_msgs ?k' = wk_msgs ?k"
        "\<And>u. u \<noteq> 0 \<Longrightarrow> wk_view ?k' u = wk_view ?k u" "\<And>u. vw_flag (wk_view ?k u) \<Longrightarrow> vw_flag (wk_view ?k' u)"
        using 1(1,4) p by (auto simp: wk_fail_def split_beta aw_states wk_see_def)
      have "wk_flag_ok (wf_set s) ?k'"
        by (rule wk_flag_plain [OF k(2) _ k'(1,2)]) (use p k'(3,4) in auto)
      then show ?thesis using k'(1) by simp
    next
      case 2
      then show ?thesis
        using wk_flag_rmw [OF k(2)] p by (simp add: wf_told_def wk_rmw_simps mo_releases_def mo_acquires_def)
    qed
  next
    case False
    note L = wk_later_access [OF k(1) False]
    have acc: "tw_access ww 0 (wf_cur s) (wk_reach ?k, wf_woke s) = (wk_reach ?k', woke')"
      using st by (simp add: tw_access_def L(1) woke'_def del: wr_do.simps)
    have "gets_cell (wr_aw (wk_reach ?k)) (wk_pc ?k 0) = None"
      using False by (auto simp: gets_cell_def split: aw_pc.splits)
    note G = tw_access_facts(1,2) [OF this acc]
    have pc: "wk_pc ?k' = (wk_pc ?k)(0 := q)" using wr_thread(2) [OF st] L(1) by simp
    from L(2) [of j] consider
      (rmw) ord failed where "aw_orders (wk_pc ?k 0) = Some (ord, failed)" "?k' = wk_rmw ww 0 ord ?k"
    | (load) "wk_msgs ?k' = wk_msgs ?k" "wk_pc ?k 0 \<noteq> TakeFetchOr"
        "\<And>u. vw_flag (wk_view ?k u) \<Longrightarrow> vw_flag (wk_view ?k' u)"
        "\<And>u. u \<noteq> 0 \<Longrightarrow> vw_flag (wk_view ?k' u) = vw_flag (wk_view ?k u)"
      by blast
    then have "wk_flag_ok (wf_set s) ?k' \<and> (wf_told ?k (wf_woke s) \<longrightarrow> wf_told ?k' woke')"
    proof cases
      case (rmw ord failed)
      then show ?thesis
        using wk_flag_rmw [OF k(2) rmw(1)] G
        by (auto simp: wf_told_def wk_rmw_simps mo_acquires_def simp del: wr_do.simps)
    next
      case load
      have "wk_flag_ok (wf_set s) ?k'" by (rule wk_flag_plain [OF k(2) load(2) pc load(1,4,3)])
      then show ?thesis using load G by (auto simp: wf_told_def)
    qed
    moreover have "woke'" if "wk_pc ?k 0 = RegWakeByRef w" for w
      using that reg st by (auto simp: woke'_def wakes_task_def)
    ultimately show ?thesis using k(4) ph False by (auto simp: wf_told_def)
  qed
  then show ?thesis using T st ph wk_access_ok [OF k(1)] by (simp add: wf_ok_def woke'_def)
qed

text \<open>The calls of the task and of the others.\<close>

lemma wk_task_calls:
  "wk_task_ok k \<Longrightarrow> wk_pc k t = AwDone \<Longrightarrow> t \<noteq> 0 \<Longrightarrow> wk_task_ok (wk_do ww (WkWake t) k)"
  "wk_task_ok k \<Longrightarrow> wk_pc k 0 = AwDone \<Longrightarrow> wk_task_ok (wk_do ww (WkRegister 0 w) k)"
  by (auto simp: wk_task_ok_def)

lemma wf_call_register:
  assumes ok: "wf_ok ww s" and ph: "wf_phase s = PollIdle \<or> wf_phase s = PollParked"
  shows "wf_ok ww (s\<lparr>wf_weak := wk_do ww (WkRegister 0 w) (wf_weak s), wf_phase := Polling, wf_cur := w, wf_woke := b\<rparr>)"
proof -
  let ?k = "wf_weak s" and ?k' = "wk_do ww (WkRegister 0 w) (wf_weak s)"
  have d: "wk_pc ?k 0 = AwDone" using ok ph by (cases "wf_phase s") (auto simp: wf_ok_def)
  have k': "wk_pc ?k' = (wk_pc ?k)(0 := RegCas w)" "wk_msgs ?k' = wk_msgs ?k" "wk_view ?k' = wk_view ?k"
    using d by simp_all
  have k: "wk_ok ww ?k" "wk_flag_ok (wf_set s) ?k" "wk_task_ok ?k" using ok by (auto simp: wf_ok_def)
  have "wk_flag_ok (wf_set s) ?k'"
    by (rule wk_flag_plain [OF k(2) _ k'(1,2)]) (simp_all add: d k'(3))
  then show ?thesis
    using wk_do_ok [OF k(1)] wk_task_calls(2) [OF k(3) d] k'(1) by (simp add: wf_ok_def del: wk_do.simps)
qed

lemma wf_call_wake:
  assumes ok: "wf_ok ww s" and t: "t \<noteq> 0" "wk_pc (wf_weak s) t = AwDone"
    and v: "k = wf_weak s \<and> b = wf_set s \<or> k = wk_do ww (WkStore t) (wf_weak s) \<and> b"
  shows "wf_ok ww (s\<lparr>wf_weak := wk_do ww (WkWake t) k, wf_set := b\<rparr>)"
proof -
  let ?k = "wf_weak s" and ?k' = "wk_do ww (WkWake t) k"
  have ok': "wk_ok ww ?k" "wk_flag_ok (wf_set s) ?k" "wk_task_ok ?k"
    "wf_poll_ok ?k (wf_cur s) (wf_woke s) (wf_phase s)" using ok by (auto simp: wf_ok_def)
  have k': "wk_reach ?k' = (wk_reach ?k)\<lparr>wr_pc := (wk_pc ?k)(t := TakeFetchOr)\<rparr>" "wk_msgs ?k' = wk_msgs ?k"
    "wk_seen ?k' = wk_seen ?k" "wk_view ?k' 0 = wk_view ?k 0"
    "u \<noteq> t \<Longrightarrow> wk_view ?k' u = wk_view ?k u"
    "vw_flag (wk_view ?k u) \<Longrightarrow> vw_flag (wk_view ?k' u)" for u
    using v t by auto
  have "wk_flag_ok b ?k'"
    using v
  proof (elim disjE conjE)
    assume w: "k = ?k" "b = wf_set s"
    show ?thesis unfolding w(2)
      by (rule wk_flag_plain [OF ok'(2)]) (use t w(1) in auto)
  next
    assume w: "k = wk_do ww (WkStore t) ?k" "b"
    then show ?thesis
      using ok'(2) t unfolding wk_flag_ok_def by (auto intro: exI [of _ t])
  qed
  moreover have "wk_task_ok ?k'" using ok'(3) t by (auto simp: wk_task_ok_def k' simp del: wk_do.simps)
  moreover have "wf_poll_ok ?k' (wf_cur s) (wf_woke s) (wf_phase s)"
  proof (cases "wf_phase s")
    case Polling
    then show ?thesis
      using ok'(4) t by (cases "wk_pc ?k 0") (auto simp: k' wf_told_def tw_registered_def simp del: wk_do.simps)
  qed (use ok'(4) t in \<open>auto simp: k' wf_told_def tw_registered_def simp del: wk_do.simps\<close>)
  moreover have "wk_ok ww ?k'" using v wk_do_ok [OF ok'(1)] wk_do_ok [OF wk_do_ok [OF ok'(1)]] by blast
  ultimately show ?thesis by (simp add: wf_ok_def del: wk_do.simps)
qed

lemma wf_do_ok:
  assumes ok: "wf_ok ww s"
  shows "wf_ok ww (wf_do ww c s)"
proof (cases c)
  case (WfStep t j)
  then show ?thesis using wf_task_step [OF ok] wf_others_step [OF ok] by (cases "t = 0") simp_all
next
  case (WfTest b)
  then show ?thesis
    using ok by (cases "wf_phase s") (auto simp: wf_ok_def wf_load_def split: aw_pc.splits)
next
  case (WfPoll w b)
  then show ?thesis
    using wf_call_register [OF ok, where w = w and b = False] ok by (auto simp: wf_ok_def simp del: wk_do.simps)
next
  case (WfSignal t)
  then show ?thesis
    using wf_call_wake [OF ok, where t = t and b = True] ok
    by (cases "wk_pc (wf_weak s) t") (auto simp del: wk_do.simps)
qed

lemma wf_init_ok: "wf_ok ww (wf_init w)"
  using wk_init_ok [of ww]
  by (simp add: wf_ok_def wf_init_def wk_flag_ok_def wk_task_ok_def)
    (simp add: wk_init_def wr_init_def vw_none_def tw_others_def)

lemma wf_run_ok: "wf_ok ww (fold (wf_do ww) cs (wf_init w))"
proof (induction cs rule: rev_induct)
  case (snoc c cs)
  then show ?case by (simp add: wf_do_ok del: wf_do.simps)
qed (simp add: wf_init_ok)

text \<open>A thread that a schedule does not mention does nothing.\<close>

fun wf_thread :: "'w wf_cmd \<Rightarrow> nat" where
  "wf_thread (WfSignal t) = t"
| "wf_thread (WfStep t j) = t"
| "wf_thread _ = 0"

lemma wk_access_others: "u \<noteq> t \<Longrightarrow> wk_pc (wk_access ww t j k) u = wk_pc k u"
proof -
  assume u: "u \<noteq> t"
  have "wr_pc (wr_do ww (WThread t) r) u = wr_pc r u" for r
    using u by (auto simp: wr_observe_def split: prod.splits option.splits)
  then show ?thesis
    using u by (auto simp: wk_access_def wk_rmw_simps wk_cell_simps wk_fail_def split_beta
        simp del: wr_do.simps split: option.splits)
qed

lemma wf_others:
  assumes "\<forall>c \<in> set cs. wf_thread c \<noteq> t" "t \<noteq> 0"
  shows "wk_pc (wf_weak (fold (wf_do ww) cs s)) t = wk_pc (wf_weak s) t"
  using assms
proof (induction cs arbitrary: s)
  case (Cons c cs)
  have "wk_pc (wf_weak (wf_do ww c s)) t = wk_pc (wf_weak s) t"
    using Cons.prems by (cases c) (auto simp: wk_access_others split: aw_pc.splits prod.splits)
  then show ?case using Cons by simp
qed simp

section \<open>Properties\<close>

text \<open>
  C12. The orderings of the source order the accesses to the waker cell: in every schedule of any
  number of threads that register, wake and store the flag, with failed exchanges that read old
  values, every access to the cell happens after all earlier ones, and no \<open>debug_assert\<close> and no
  \<open>unwrap\<close> fails.
\<close>

theorem aw_cell_ordered:
  assumes "s = fold (wk_do ww) cs wk_init"
  shows "\<not> wk_race s \<and> wk_pc s t \<noteq> AwFault"
proof -
  have ok: "wk_ok ww s" unfolding assms by (rule wk_run_ok)
  then have "aw_ok (wr_aw (wk_reach s)) (wk_pc s)" by (rule wk_okD(11))
  then have "aw_pc_ok (wr_aw (wk_reach s)) (wk_pc s t)" by (simp add: aw_ok_def)
  then show ?thesis using wk_okD(2) [OF ok] by (cases "wk_pc s t") auto
qed

text \<open>
  A registration, a wake that takes the waker out, and a registration of a third thread, which
  is ordered after both by what the wake published.
\<close>

theorem aw_cell_ordered_witness:
  "let s = fold (wk_do (=)) ([WkRegister 1 (7::nat), WkStep 1 0, WkStep 1 0, WkStep 1 0, WkWake 2,
      WkStep 2 0, WkStep 2 0, WkStep 2 0, WkStep 2 0, WkRegister 3 8, WkStep 3 9, WkStep 3 9]) wk_init
   in wk_cells s = 3 \<and> vw_cell (wk_view s 3) = 3 \<and> \<not> wk_race s"
proof -
  define s where "s = fold (wk_do (=)) ([WkRegister 1 (7::nat), WkStep 1 0, WkStep 1 0, WkStep 1 0, WkWake 2,
      WkStep 2 0, WkStep 2 0, WkStep 2 0, WkStep 2 0, WkRegister 3 8, WkStep 3 9, WkStep 3 9]) wk_init"
  have "wk_cells s = 3" "vw_cell (wk_view s 3) = 3" unfolding s_def by code_simp+
  then show ?thesis unfolding Let_def s_def [symmetric] using aw_cell_ordered [OF s_def] by simp
qed

text \<open>
  C3. No lost wake-up with a relaxed flag: when the task's poll returned Pending, in every schedule in
  which its loads of the flag may miss a store that does not happen before them, the flag was
  stored and no call of \<open>wake\<close> is in progress, the task has been woken since that poll began.
\<close>

theorem aw_relaxed_flag_woken:
  assumes "s = fold (wf_do ww) cs (wf_init w)" and "wf_phase s = PollParked" and "wf_set s"
    and "\<And>t. wk_pc (wf_weak s) t = AwDone"
  shows "wf_woke s"
proof -
  have ok: "wf_ok ww s" unfolding assms(1) by (rule wf_run_ok)
  then have "wk_told (wf_weak s)" using assms(3,4) by (simp add: wf_ok_def wk_flag_ok_def)
  then have "wf_woke s \<or> wr_signal (wk_reach (wf_weak s))"
    and "tw_registered (wf_cur s) (wk_reach (wf_weak s)) (wf_woke s)"
    using ok assms(2) by (auto simp: wf_ok_def wf_told_def)
  then show ?thesis
    using tw_quiet [of ww "wk_reach (wf_weak s)"] wk_okD(1) [of ww "wf_weak s"] ok assms(4)
    by (auto simp: wf_ok_def)
qed

text \<open>
  The flag is stored before the registration, and both loads of it return the old value; the wake
  begins when the poll has returned.
\<close>

theorem aw_relaxed_flag_woken_witness:
  "let s = fold (wf_do (=)) [WfSignal 1, WfPoll 7 False, WfStep 0 0, WfStep 0 0, WfStep 0 0,
      WfTest False, WfStep 1 0, WfStep 1 0, WfStep 1 0, WfStep 1 0] (wf_init (0::nat))
   in wf_phase s = PollParked \<and> wf_set s \<and> wf_woke s"
proof -
  define cs where "cs = [WfSignal 1, WfPoll (7::nat) False, WfStep 0 0, WfStep 0 0, WfStep 0 0,
      WfTest False, WfStep 1 0, WfStep 1 0, WfStep 1 0, WfStep 1 0]"
  define s where "s = fold (wf_do (=)) cs (wf_init (0::nat))"
  have h: "wf_phase s = PollParked" "wf_set s" unfolding s_def cs_def by code_simp+
  have pc: "wk_pc (wf_weak s) t = AwDone" for t
  proof (cases "t = 0 \<or> t = 1")
    case True
    have "wk_pc (wf_weak s) 0 = AwDone" "wk_pc (wf_weak s) 1 = AwDone" unfolding s_def cs_def by code_simp+
    then show ?thesis using True by auto
  next
    case False
    then show ?thesis
      unfolding s_def by (subst wf_others) (auto simp: cs_def wf_init_def wk_init_def wr_init_def)
  qed
  show ?thesis
    unfolding Let_def cs_def [symmetric] s_def [symmetric]
    using aw_relaxed_flag_woken [OF s_def h pc] h by simp
qed

end
