(* ===== verification/SpscThreads.thy ===== *)
theory SpscThreads
  imports WeakRing WeakWaker
begin

text \<open>
  The channel of \<open>src/spsc.rs\<close> with its two sides interleaved at every atomic access and with the
  memory orderings of the source: the ring of \<open>WeakRing\<close> and the waker of \<open>WeakWaker\<close>, used by a
  consumer (thread 0) that polls, pops and counts, and a producer (thread 1) that pushes,
  overwrites, counts and is dropped. Nothing of a call is taken to be one step. A load of a stamp
  and a failed exchange of the waker may return an old value; a load of \<open>producer_closed\<close> may
  miss its store unless the store happens before the load.
\<close>

declare One_nat_def [simp del]

section \<open>The two sides\<close>

text \<open>
  Where the consumer is: \<open>CIdle\<close> and \<open>CCall\<close> (a \<open>pop\<close> or \<open>buffered_count\<close> by itself) carry what
  the last poll returned; the others are the points of \<open>poll_pop\<close>.
\<close>

datatype 'a cons_phase =
    CIdle "'a option option option"
  | CCall "'a option option option"
  | CFirst
  | CClosed1
  | CRegister
  | CSecond
  | CClosed2
  | CDrain

datatype side_phase = PIdle | PRing | PWaking | PClosing | PGone

record ('a, 'w) chan_sys =
  ct_ring :: "'a weak_ring"
  ct_wake :: "'w weak_sys"
  ct_closed :: bool
  ct_cons :: "'a cons_phase"
  ct_prod :: side_phase
  ct_cur :: 'w
  ct_woke :: bool

definition ct_init :: "nat \<Rightarrow> 'w \<Rightarrow> ('a, 'w) chan_sys" where
  "ct_init cap w = \<lparr>ct_ring = wg_init cap, ct_wake = wk_init, ct_closed = False,
     ct_cons = CIdle None, ct_prod = PIdle, ct_cur = w, ct_woke = False\<rparr>"

abbreviation ct_sys :: "('a, 'w) chan_sys \<Rightarrow> 'a ring_sys" where
  "ct_sys s \<equiv> wg_sys (ct_ring s)"

abbreviation ct_reach :: "('a, 'w) chan_sys \<Rightarrow> 'w reach_sys" where
  "ct_reach s \<equiv> wk_reach (ct_wake s)"

text \<open>
  One access to the ring or to the waker by one side. \<open>ct_woke\<close> records whether the task of the
  consumer's current poll has been woken since that poll began.
\<close>

definition ct_on_ring :: "nat \<Rightarrow> 'a wg_cmd \<Rightarrow> ('a, 'w) chan_sys \<Rightarrow> ('a, 'w) chan_sys" where
  "ct_on_ring cap cmd s = s\<lparr>ct_ring := wg_do cap cmd (ct_ring s)\<rparr>"

definition ct_on_wake :: "('w \<Rightarrow> 'w \<Rightarrow> bool) \<Rightarrow> nat \<Rightarrow> nat \<Rightarrow> ('a, 'w) chan_sys \<Rightarrow> ('a, 'w) chan_sys" where
  "ct_on_wake ww t j s =
     (case aw_step ww (wr_aw (ct_reach s)) (wk_pc (ct_wake s) t) of (a, p, ws) \<Rightarrow>
       s\<lparr>ct_wake := wk_access ww t j (ct_wake s),
         ct_woke := (ct_woke s \<or> list_ex (wakes_task ww (ct_cur s)) ws)\<rparr>)"

definition ct_call :: "nat \<Rightarrow> nat \<Rightarrow> 'a rg_pc \<Rightarrow> ('a, 'w) chan_sys \<Rightarrow> ('a, 'w) chan_sys" where
  "ct_call cap t pc s = ct_on_ring cap (WgCall t pc) s"

text \<open>
  An \<open>Acquire\<close> load of \<open>producer_closed\<close>: with \<open>b\<close> it misses the \<open>Release\<close> store when it may.
\<close>

definition ct_loads_closed :: "bool \<Rightarrow> ('a, 'w) chan_sys \<Rightarrow> bool" where
  "ct_loads_closed b s \<longleftrightarrow> ct_closed s \<and> (vw_flag (wk_view (ct_wake s) 0) \<or> \<not> b)"

text \<open>
  \<open>poll_pop\<close>, and a call of the ring by itself. \<open>b\<close> makes an access fail, or miss, when it may, and
  \<open>j\<close> is the stamp or the message that a load may return.
\<close>

definition ct_cons_step :: "('w \<Rightarrow> 'w \<Rightarrow> bool) \<Rightarrow> nat \<Rightarrow> bool \<Rightarrow> nat \<Rightarrow> ('a, 'w) chan_sys \<Rightarrow> ('a, 'w) chan_sys" where
  "ct_cons_step ww cap b j s =
     (case ct_cons s of
        CIdle r \<Rightarrow> s
      | CCall r \<Rightarrow>
          if rg_returned (rs_pc (ct_sys s) 0) then s\<lparr>ct_cons := CIdle r\<rparr>
          else ct_on_ring cap (WgStep 0 b j) s
      | CFirst \<Rightarrow> (case rs_pc (ct_sys s) 0 of
            Popped (Some item) \<Rightarrow> s\<lparr>ct_cons := CIdle (Some (Some (Some item)))\<rparr>
          | Popped None \<Rightarrow> s\<lparr>ct_cons := CClosed1\<rparr>
          | _ \<Rightarrow> ct_on_ring cap (WgStep 0 b j) s)
      | CClosed1 \<Rightarrow>
          if ct_loads_closed b s then ct_call cap 0 PopLoad (s\<lparr>ct_cons := CDrain\<rparr>)
          else s\<lparr>ct_wake := wk_do ww (WkRegister 0 (ct_cur s)) (ct_wake s), ct_cons := CRegister\<rparr>
      | CRegister \<Rightarrow> (case wk_pc (ct_wake s) 0 of
            AwDone \<Rightarrow> ct_call cap 0 PopLoad (s\<lparr>ct_cons := CSecond\<rparr>)
          | _ \<Rightarrow> ct_on_wake ww 0 j s)
      | CSecond \<Rightarrow> (case rs_pc (ct_sys s) 0 of
            Popped (Some item) \<Rightarrow> s\<lparr>ct_cons := CIdle (Some (Some (Some item)))\<rparr>
          | Popped None \<Rightarrow> s\<lparr>ct_cons := CClosed2\<rparr>
          | _ \<Rightarrow> ct_on_ring cap (WgStep 0 b j) s)
      | CClosed2 \<Rightarrow>
          if ct_loads_closed b s then ct_call cap 0 PopLoad (s\<lparr>ct_cons := CDrain\<rparr>)
          else s\<lparr>ct_cons := CIdle (Some None)\<rparr>
      | CDrain \<Rightarrow> (case rs_pc (ct_sys s) 0 of
            Popped x \<Rightarrow> s\<lparr>ct_cons := CIdle (Some (Some x))\<rparr>
          | _ \<Rightarrow> ct_on_ring cap (WgStep 0 b j) s))"

text \<open>\<open>push\<close>, \<open>push_overwrite\<close>, \<open>buffered_count\<close> and \<open>drop\<close> of the producer.\<close>

definition ct_prod_step :: "('w \<Rightarrow> 'w \<Rightarrow> bool) \<Rightarrow> nat \<Rightarrow> bool \<Rightarrow> nat \<Rightarrow> ('a, 'w) chan_sys \<Rightarrow> ('a, 'w) chan_sys" where
  "ct_prod_step ww cap b j s =
     (case ct_prod s of
        PIdle \<Rightarrow> s
      | PRing \<Rightarrow> (case rs_pc (ct_sys s) 1 of
            PushOk d \<Rightarrow> s\<lparr>ct_wake := wk_do ww (WkWake 1) (ct_wake s), ct_prod := PWaking\<rparr>
          | p \<Rightarrow> if rg_returned p then s\<lparr>ct_prod := PIdle\<rparr> else ct_on_ring cap (WgStep 1 b j) s)
      | PWaking \<Rightarrow> (case wk_pc (ct_wake s) 1 of
            AwDone \<Rightarrow> s\<lparr>ct_prod := PIdle\<rparr> | _ \<Rightarrow> ct_on_wake ww 1 j s)
      | PClosing \<Rightarrow> (case wk_pc (ct_wake s) 1 of
            AwDone \<Rightarrow> s\<lparr>ct_prod := PGone\<rparr> | _ \<Rightarrow> ct_on_wake ww 1 j s)
      | PGone \<Rightarrow> s)"

datatype ('a, 'w) chan_cmd =
    ConsPoll 'w
  | ConsPop
  | ConsLen
  | ConsStep bool nat
  | ProdPush 'a bool
  | ProdLen
  | ProdDrop
  | ProdStep bool nat

fun ct_do :: "('w \<Rightarrow> 'w \<Rightarrow> bool) \<Rightarrow> nat \<Rightarrow> ('a, 'w) chan_cmd \<Rightarrow> ('a, 'w) chan_sys \<Rightarrow> ('a, 'w) chan_sys" where
  "ct_do ww cap (ConsPoll w) s = (case ct_cons s of
     CIdle r \<Rightarrow> ct_call cap 0 PopLoad (s\<lparr>ct_cons := CFirst, ct_cur := w, ct_woke := False\<rparr>) | _ \<Rightarrow> s)"
| "ct_do ww cap ConsPop s = (case ct_cons s of
     CIdle r \<Rightarrow> ct_call cap 0 PopLoad (s\<lparr>ct_cons := CCall r\<rparr>) | _ \<Rightarrow> s)"
| "ct_do ww cap ConsLen s = (case ct_cons s of
     CIdle r \<Rightarrow> ct_call cap 0 LenRead (s\<lparr>ct_cons := CCall r\<rparr>) | _ \<Rightarrow> s)"
| "ct_do ww cap (ConsStep b j) s = ct_cons_step ww cap b j s"
| "ct_do ww cap (ProdPush x ow) s =
     (if ct_prod s = PIdle then ct_call cap 1 (PushLoad x ow) (s\<lparr>ct_prod := PRing\<rparr>) else s)"
| "ct_do ww cap ProdLen s =
     (if ct_prod s = PIdle then ct_call cap 1 LenRead (s\<lparr>ct_prod := PRing\<rparr>) else s)"
| "ct_do ww cap ProdDrop s =
     (if ct_prod s = PIdle
      then s\<lparr>ct_closed := True, ct_prod := PClosing,
        ct_wake := wk_do ww (WkWake 1) (wk_do ww (WkStore 1) (ct_wake s))\<rparr>
      else s)"
| "ct_do ww cap (ProdStep b j) s = ct_prod_step ww cap b j s"

section \<open>The invariant\<close>

text \<open>The program counters of the three calls of the ring.\<close>

fun pop_pc :: "'a rg_pc \<Rightarrow> bool" where
  "pop_pc PopLoad = True"
| "pop_pc (PopStamp p) = True"
| "pop_pc (PopCas p) = True"
| "pop_pc (PopRead p) = True"
| "pop_pc (PopPublish p x) = True"
| "pop_pc (PopEmpty p) = True"
| "pop_pc (Popped x) = True"
| "pop_pc _ = False"

fun len_pc :: "'a rg_pc \<Rightarrow> bool" where
  "len_pc LenRead = True"
| "len_pc (LenWrite p) = True"
| "len_pc (LenCheck p w) = True"
| "len_pc (Counted n) = True"
| "len_pc _ = False"

fun push_pc :: "'a rg_pc \<Rightarrow> bool" where
  "push_pc RgFault = False"
| "push_pc p = (\<not> pop_pc p \<and> \<not> len_pc p)"

text \<open>A push that took effect and whose wake has not.\<close>

definition ct_waking :: "('a, 'w) chan_sys \<Rightarrow> bool" where
  "ct_waking s \<longleftrightarrow> (ct_prod s = PRing \<and> push_pc (rs_pc (ct_sys s) 1)
       \<and> (\<exists>d. rs_lin (ct_sys s) 1 = Some (PushOk d)))
     \<or> wk_pc (ct_wake s) 1 = TakeFetchOr"

abbreviation ct_registered :: "('a, 'w) chan_sys \<Rightarrow> bool" where
  "ct_registered s \<equiv> tw_registered (ct_cur s) (ct_reach s) (ct_woke s)"

definition ct_alert :: "('a, 'w) chan_sys \<Rightarrow> bool" where
  "ct_alert s \<longleftrightarrow> ct_woke s \<or> wr_signal (ct_reach s) \<or> ct_waking s"

fun ct_cons_ok :: "('a, 'w) chan_sys \<Rightarrow> 'a cons_phase \<Rightarrow> bool" where
  "ct_cons_ok s CSecond \<longleftrightarrow>
     (rs_lin (ct_sys s) 0 = Some (Popped None) \<longrightarrow> rs_queue (ct_sys s) \<noteq> [] \<longrightarrow> ct_alert s)"
| "ct_cons_ok s CClosed2 \<longleftrightarrow> (rs_queue (ct_sys s) \<noteq> [] \<longrightarrow> ct_alert s)"
| "ct_cons_ok s CDrain \<longleftrightarrow> ct_closed s \<and>
     (rs_lin (ct_sys s) 0 = Some (Popped None) \<longrightarrow> rs_queue (ct_sys s) = [])"
| "ct_cons_ok s (CIdle (Some None)) \<longleftrightarrow>
     ct_registered s \<and> (rs_queue (ct_sys s) \<noteq> [] \<or> ct_closed s \<longrightarrow> ct_alert s)"
| "ct_cons_ok s (CCall (Some None)) \<longleftrightarrow>
     ct_registered s \<and> (rs_queue (ct_sys s) \<noteq> [] \<or> ct_closed s \<longrightarrow> ct_alert s)"
| "ct_cons_ok s (CIdle (Some (Some None))) \<longleftrightarrow> ct_closed s \<and> rs_queue (ct_sys s) = []"
| "ct_cons_ok s (CCall (Some (Some None))) \<longleftrightarrow> ct_closed s \<and> rs_queue (ct_sys s) = []"
| "ct_cons_ok s _ \<longleftrightarrow> True"

text \<open>
  \<open>producer_closed\<close> is a flag that is stored once, and the consumer between its two tests of it a
  task that polls the flag.
\<close>

fun poll_of :: "'a cons_phase \<Rightarrow> poll_phase" where
  "poll_of CRegister = Polling"
| "poll_of CSecond = Polling"
| "poll_of CClosed2 = Polling"
| "poll_of _ = PollIdle"

definition ct_flag :: "('a, 'w) chan_sys \<Rightarrow> 'w weak_flag" where
  "ct_flag s = \<lparr>wf_weak = ct_wake s, wf_set = ct_closed s, wf_phase = poll_of (ct_cons s),
     wf_cur = ct_cur s, wf_woke = ct_woke s\<rparr>"

text \<open>Which calls are in progress.\<close>

fun cons_call_ok :: "'a cons_phase \<Rightarrow> 'a rg_pc \<Rightarrow> bool" where
  "cons_call_ok (CIdle r) p \<longleftrightarrow> rg_returned p"
| "cons_call_ok (CCall r) p \<longleftrightarrow> pop_pc p \<or> len_pc p"
| "cons_call_ok CFirst p \<longleftrightarrow> pop_pc p"
| "cons_call_ok CClosed1 p \<longleftrightarrow> rg_returned p"
| "cons_call_ok CRegister p \<longleftrightarrow> rg_returned p"
| "cons_call_ok CSecond p \<longleftrightarrow> pop_pc p"
| "cons_call_ok CClosed2 p \<longleftrightarrow> rg_returned p"
| "cons_call_ok CDrain p \<longleftrightarrow> pop_pc p"

definition ct_calls_ok :: "('a, 'w) chan_sys \<Rightarrow> bool" where
  "ct_calls_ok s \<longleftrightarrow>
     cons_call_ok (ct_cons s) (rs_pc (ct_sys s) 0)
   \<and> (if ct_prod s = PRing then push_pc (rs_pc (ct_sys s) 1) \<or> len_pc (rs_pc (ct_sys s) 1)
      else rg_returned (rs_pc (ct_sys s) 1))
   \<and> (\<forall>t. t \<noteq> 0 \<longrightarrow> t \<noteq> 1 \<longrightarrow> rg_returned (rs_pc (ct_sys s) t) \<and> wk_pc (ct_wake s) t = AwDone)
   \<and> (ct_cons s \<noteq> CRegister \<longrightarrow> wk_pc (ct_wake s) 0 = AwDone)
   \<and> (ct_prod s \<noteq> PWaking \<longrightarrow> ct_prod s \<noteq> PClosing \<longrightarrow> wk_pc (ct_wake s) 1 = AwDone)
   \<and> (ct_closed s \<longleftrightarrow> ct_prod s = PClosing \<or> ct_prod s = PGone)"

definition ct_inv :: "('w \<Rightarrow> 'w \<Rightarrow> bool) \<Rightarrow> nat \<Rightarrow> nat \<Rightarrow> nat \<Rightarrow> nat \<Rightarrow> ('a, 'w) chan_sys \<Rightarrow> bool" where
  "ct_inv ww m cap h n s \<longleftrightarrow> wg_ok m cap h n (ct_ring s) \<and> wf_ok ww (ct_flag s)
     \<and> ct_calls_ok s \<and> ct_cons_ok s (ct_cons s)"

section \<open>Accesses to the ring\<close>

lemma rs_step_effect:
  "(rs_queue (rs_do c (RingStep t b) s), rs_lin (rs_do c (RingStep t b) s) t)
     = rg_effect c b (rs_ring s) (rs_pc s t) (rs_queue s, rs_lin s t)"
  by (auto split: prod.splits)

lemma rs_step_lin: "u \<noteq> t \<Longrightarrow> rs_lin (rs_do c (RingStep t b) s) u = rs_lin s u"
  by (auto split: prod.splits)

lemma call_kinds:
  "pop_pc p \<Longrightarrow> pop_pc (snd (rg_step b r p)) \<or> snd (rg_step b r p) = RgFault"
  "push_pc p \<Longrightarrow> push_pc (snd (rg_step b r p)) \<or> snd (rg_step b r p) = RgFault"
  "len_pc p \<Longrightarrow> len_pc (snd (rg_step b r p))"
  by (cases p; auto split: option.splits)+

lemma pop_effect:
  assumes "pop_pc p"
  shows "rg_effect c b r p (q, res) = (q', res') \<Longrightarrow>
    q' = q \<and> res' = res \<or> q = [] \<and> q' = [] \<and> res' = Some (Popped None)
    \<or> (\<exists>x. q = x # q' \<and> res' = Some (Popped (Some x)))"
  using assms by (cases p) (auto split: if_splits list.splits)

lemma len_effect:
  assumes "len_pc p"
  shows "fst (rg_effect c b r p (q, res)) = q"
  using assms by (cases p) auto

lemma push_effect:
  assumes "push_pc p" "rg_pc_ok e c h q st val held res p"
  shows "rg_effect cap b r p (q, res) = (q', res') \<Longrightarrow>
    q' = q \<and> (\<forall>d. res = Some (PushOk d) \<longrightarrow> res' = res) \<or> (\<exists>d. res' = Some (PushOk d))"
  using assms
  by (cases p) (auto simp: bq_take_def elim!: tick_atE split: if_splits list.splits)

lemma wg_no_fault: "wg_ok m c h n s \<Longrightarrow> rs_pc (wg_sys s) t \<noteq> RgFault"
  using wg_okD(8) [of m c h n s t] by auto

text \<open>One step of a thread that is in a call of the ring.\<close>

lemma ring_step:
  assumes ok: "wg_ok m c h n s" and n: "Suc n \<le> 2 ^ 61" and s': "s' = wg_do c (WgStep t b j) s"
  shows "\<exists>h'. wg_ok m c h' (Suc n) s'"
    "pop_pc (rs_pc (wg_sys s) t) \<Longrightarrow> pop_pc (rs_pc (wg_sys s') t)"
    "push_pc (rs_pc (wg_sys s) t) \<Longrightarrow> push_pc (rs_pc (wg_sys s') t)"
    "len_pc (rs_pc (wg_sys s) t) \<Longrightarrow> len_pc (rs_pc (wg_sys s') t)"
    "u \<noteq> t \<Longrightarrow> rs_pc (wg_sys s') u = rs_pc (wg_sys s) u"
    "u \<noteq> t \<Longrightarrow> rs_lin (wg_sys s') u = rs_lin (wg_sys s) u"
proof -
  obtain h' where ok': "wg_ok m c h' (Suc n) s'"
    using wg_do_ok [OF ok n, of "WgStep t b j"] unfolding s' by blast
  then show "\<exists>h'. wg_ok m c h' (Suc n) s'" ..
  note cases = wg_step_sys [of c t b j s, folded s']
  then obtain b' r where p: "rs_pc (wg_sys s') t = snd (rg_step b' r (rs_pc (wg_sys s) t))"
    by (auto simp: rs_step_exec(2) simp del: rs_do.simps)
  then show "pop_pc (rs_pc (wg_sys s) t) \<Longrightarrow> pop_pc (rs_pc (wg_sys s') t)"
    "push_pc (rs_pc (wg_sys s) t) \<Longrightarrow> push_pc (rs_pc (wg_sys s') t)"
    "len_pc (rs_pc (wg_sys s) t) \<Longrightarrow> len_pc (rs_pc (wg_sys s') t)"
    using call_kinds [where p = "rs_pc (wg_sys s) t"] wg_no_fault [OF ok', of t] by metis+
  show "u \<noteq> t \<Longrightarrow> rs_pc (wg_sys s') u = rs_pc (wg_sys s) u"
    "u \<noteq> t \<Longrightarrow> rs_lin (wg_sys s') u = rs_lin (wg_sys s) u"
    using cases by (auto simp: rs_step_exec(3) rs_step_lin simp del: rs_do.simps)
qed

text \<open>What it does to the queue and to the result of its call.\<close>

lemma ring_step_effect:
  assumes ok: "wg_ok m c h n s" and s': "s' = wg_do c (WgStep t b j) s"
  shows "pop_pc (rs_pc (wg_sys s) t) \<Longrightarrow>
      rs_queue (wg_sys s') = rs_queue (wg_sys s) \<and> rs_lin (wg_sys s') t = rs_lin (wg_sys s) t
      \<or> rs_queue (wg_sys s) = [] \<and> rs_queue (wg_sys s') = [] \<and> rs_lin (wg_sys s') t = Some (Popped None)
      \<or> (\<exists>x. rs_queue (wg_sys s) = x # rs_queue (wg_sys s') \<and> rs_lin (wg_sys s') t = Some (Popped (Some x)))"
    "len_pc (rs_pc (wg_sys s) t) \<Longrightarrow> rs_queue (wg_sys s') = rs_queue (wg_sys s)"
    "push_pc (rs_pc (wg_sys s) t) \<Longrightarrow> rs_queue (wg_sys s') = rs_queue (wg_sys s)
        \<and> (\<forall>d. rs_lin (wg_sys s) t = Some (PushOk d) \<longrightarrow> rs_lin (wg_sys s') t = rs_lin (wg_sys s) t)
      \<or> (\<exists>d. rs_lin (wg_sys s') t = Some (PushOk d))"
proof -
  let ?q = "rs_queue (wg_sys s)" and ?p = "rs_pc (wg_sys s) t" and ?l = "rs_lin (wg_sys s) t"
  let ?q' = "rs_queue (wg_sys s')" and ?l' = "rs_lin (wg_sys s') t"
  have "(\<exists>b'. rg_effect c b' (wg_ring s) ?p (?q, ?l) = (?q', ?l')) \<or> (?q', ?l') = (?q, ?l)"
    using wg_step_sys [of c t b j s, folded s']
  proof (elim disjE exE)
    fix b'
    assume "wg_sys s' = rs_do c (RingStep t b') (wg_sys s)"
    then show ?thesis using rs_step_effect [of c t b' "wg_sys s"] by metis
  qed simp
  then show "pop_pc ?p \<Longrightarrow> ?q' = ?q \<and> ?l' = ?l \<or> ?q = [] \<and> ?q' = [] \<and> ?l' = Some (Popped None)
      \<or> (\<exists>x. ?q = x # ?q' \<and> ?l' = Some (Popped (Some x)))"
    "len_pc ?p \<Longrightarrow> ?q' = ?q"
    "push_pc ?p \<Longrightarrow> ?q' = ?q \<and> (\<forall>d. ?l = Some (PushOk d) \<longrightarrow> ?l' = ?l) \<or> (\<exists>d. ?l' = Some (PushOk d))"
    using pop_effect [of ?p c _ "wg_ring s" ?q ?l ?q' ?l'] len_effect [of ?p c _ "wg_ring s" ?q ?l]
      push_effect [OF _ wg_okD(8) [OF ok, of t], of c _ "wg_ring s" ?q' ?l']
    by (metis Pair_inject fst_conv)+
qed

lemma ring_kept:
  assumes "wg_ok m c h n s" "n \<le> n'" "n' \<le> 2 ^ 61"
  shows "wg_ok m c h n' s"
  using assms unfolding wg_ok_def rg_threads_ok_def rg_shape_def by auto

lemma ring_call:
  assumes ok: "wg_ok m c h n s" and n: "Suc n \<le> 2 ^ 61" and p: "rg_returned (rs_pc (wg_sys s) t)" "rg_entry pc"
  shows "\<exists>h'. wg_ok m c h' (Suc n) (wg_do c (WgCall t pc) s)"
    "rs_pc (wg_sys (wg_do c (WgCall t pc) s)) = (rs_pc (wg_sys s))(t := pc)"
    "rs_lin (wg_sys (wg_do c (WgCall t pc) s)) = (rs_lin (wg_sys s))(t := None)"
    "rs_queue (wg_sys (wg_do c (WgCall t pc) s)) = rs_queue (wg_sys s)"
  using wg_do_ok [OF ok n, of "WgCall t pc"] p by auto

lemma ring_returned_lin:
  "wg_ok m c h n s \<Longrightarrow> rg_returned (rs_pc (wg_sys s) t) \<Longrightarrow>
    rs_lin (wg_sys s) t = Some (rs_pc (wg_sys s) t)"
  using wg_okD(8) [of m c h n s t] by (cases "rs_pc (wg_sys s) t") auto

lemma ring_popped_none:
  "wg_ok m c h n s \<Longrightarrow> pop_pc (rs_pc (wg_sys s) t) \<Longrightarrow> rs_lin (wg_sys s) t = Some (Popped None) \<Longrightarrow>
    rs_pc (wg_sys s) t = Popped None"
  using wg_okD(8) [of m c h n s t] by (cases "rs_pc (wg_sys s) t") (auto elim: tick_atE)

section \<open>Accesses to the waker\<close>

lemma on_ring_other [simp]:
  "ct_wake (ct_on_ring cap cmd s) = ct_wake s" "ct_closed (ct_on_ring cap cmd s) = ct_closed s"
  "ct_cons (ct_on_ring cap cmd s) = ct_cons s" "ct_prod (ct_on_ring cap cmd s) = ct_prod s"
  "ct_cur (ct_on_ring cap cmd s) = ct_cur s" "ct_woke (ct_on_ring cap cmd s) = ct_woke s"
  "ct_ring (ct_on_ring cap cmd s) = wg_do cap cmd (ct_ring s)" "ct_flag (ct_on_ring cap cmd s) = ct_flag s"
  by (simp_all add: ct_on_ring_def ct_flag_def)

lemma on_wake_other:
  "ct_ring (ct_on_wake ww t j s) = ct_ring s" "ct_closed (ct_on_wake ww t j s) = ct_closed s"
  "ct_cons (ct_on_wake ww t j s) = ct_cons s" "ct_prod (ct_on_wake ww t j s) = ct_prod s"
  "ct_cur (ct_on_wake ww t j s) = ct_cur s"
  "ct_wake (ct_on_wake ww t j s) = wk_access ww t j (ct_wake s)"
  "ct_flag (ct_on_wake ww t j s) = wf_do ww (WfStep t j) (ct_flag s)"
  by (auto simp: ct_on_wake_def ct_flag_def split: prod.splits)

lemma ct_flagD:
  assumes "wf_ok ww (ct_flag s)"
  shows "wk_ok ww (ct_wake s)" "wk_flag_ok (ct_closed s) (ct_wake s)" "wk_task_ok (ct_wake s)"
    "wf_poll_ok (ct_wake s) (ct_cur s) (ct_woke s) (poll_of (ct_cons s))"
  using assms by (auto simp: wf_ok_def ct_flag_def)

text \<open>The flag of the consumer when it is, or comes to be, outside of its two tests.\<close>

lemma ct_flag_idle:
  assumes "wf_ok ww (ct_flag s)" "wk_pc (ct_wake s) 0 = AwDone" "poll_of (ct_cons s') = PollIdle"
    and "ct_wake s' = ct_wake s" "ct_closed s' = ct_closed s"
  shows "wf_ok ww (ct_flag s')"
  using assms by (simp add: wf_ok_def ct_flag_def)

lemma ct_flag_same:
  assumes "wf_ok ww (ct_flag s)" "poll_of (ct_cons s') = poll_of (ct_cons s)"
    and "ct_wake s' = ct_wake s" "ct_closed s' = ct_closed s" "ct_cur s' = ct_cur s" "ct_woke s' = ct_woke s"
  shows "wf_ok ww (ct_flag s')"
  using assms by (simp add: ct_flag_def)

lemma ct_flag_polled:
  "wf_ok ww (ct_flag s) \<Longrightarrow> poll_of (ct_cons s) = Polling \<Longrightarrow> wk_pc (ct_wake s) 0 = AwDone \<Longrightarrow>
    ct_registered s \<and> wf_told (ct_wake s) (ct_woke s)"
  using ct_flagD(4) [of ww s] by auto

lemma cons_ok_mono:
  assumes "ct_cons_ok s c" "ct_registered s \<Longrightarrow> ct_registered s'" "ct_alert s \<Longrightarrow> ct_alert s'"
    and "ct_closed s' = ct_closed s"
    and "rs_queue (ct_sys s) = [] \<Longrightarrow> rs_queue (ct_sys s') = [] \<or> ct_alert s' \<and> \<not> ct_closed s"
    and "c = CSecond \<or> c = CDrain \<Longrightarrow> rs_lin (ct_sys s') 0 = rs_lin (ct_sys s) 0"
  shows "ct_cons_ok s' c"
  using assms by (cases "(s, c)" rule: ct_cons_ok.cases) auto

text \<open>
  When the second test of \<open>producer_closed\<close> misses the store, the wake of the drop is still to come
  or has come: the registration was not told of the store.
\<close>

lemma missed_close_alert:
  assumes "wf_ok ww (ct_flag s)" "poll_of (ct_cons s) = Polling" "wk_pc (ct_wake s) 0 = AwDone"
    and "ct_calls_ok s" "ct_closed s" "\<not> ct_loads_closed b s"
  shows "ct_alert s"
proof -
  have f: "\<not> vw_flag (wk_view (ct_wake s) 0)" using assms(5,6) by (simp add: ct_loads_closed_def)
  from ct_flagD(2) [OF assms(1)] assms(5)
  consider "wk_told (ct_wake s)" | t where "wk_pc (ct_wake s) t = TakeFetchOr"
    by (auto simp: wk_flag_ok_def)
  then show ?thesis
  proof cases
    case 1
    then show ?thesis using ct_flag_polled [OF assms(1-3)] f by (auto simp: wf_told_def ct_alert_def)
  next
    case (2 t)
    then have "t = 1" using assms(3,4) unfolding ct_calls_ok_def by (cases "t = 0"; cases "t = 1") auto
    then show ?thesis using 2 by (simp add: ct_alert_def ct_waking_def)
  qed
qed

section \<open>The steps of the producer\<close>

lemma ct_invD:
  assumes "ct_inv ww m cap h n s"
  shows "wg_ok m cap h n (ct_ring s)" "wf_ok ww (ct_flag s)" "ct_calls_ok s" "ct_cons_ok s (ct_cons s)"
  using assms by (auto simp: ct_inv_def)

text \<open>The producer in the ring: the alert is raised by the access that fills the queue.\<close>

lemma prod_ring_step:
  assumes inv: "ct_inv ww m cap h n s" and n: "Suc n \<le> 2 ^ 61" and ph: "ct_prod s = PRing"
  shows "\<exists>h'. ct_inv ww m cap h' (Suc n) (ct_on_ring cap (WgStep 1 b j) s)"
proof -
  let ?s' = "ct_on_ring cap (WgStep 1 b j) s"
  note I = ct_invD [OF inv]
  have r': "ct_ring ?s' = wg_do cap (WgStep 1 b j) (ct_ring s)" by simp
  note R = ring_step [OF I(1) n r'] and E = ring_step_effect [OF I(1) r']
  obtain h' where ok': "wg_ok m cap h' (Suc n) (ct_ring ?s')" using R(1) by blast
  have kind: "push_pc (rs_pc (ct_sys s) 1) \<or> len_pc (rs_pc (ct_sys s) 1)"
    using I(3) ph by (simp add: ct_calls_ok_def)
  then have kind': "push_pc (rs_pc (ct_sys ?s') 1) \<or> len_pc (rs_pc (ct_sys ?s') 1)" using R(3,4) by blast
  have calls: "ct_calls_ok ?s'"
    using I(3) ph kind' R(5) unfolding ct_calls_ok_def on_ring_other(1-6) by auto
  have waking: "ct_waking ?s'" if "ct_waking s \<or> rs_queue (ct_sys ?s') \<noteq> rs_queue (ct_sys s)"
    using that ph kind E R(3) unfolding ct_waking_def on_ring_other(1-6) by metis
  have "ct_cons_ok ?s' (ct_cons ?s')"
    unfolding on_ring_other(3)
  proof (rule cons_ok_mono [OF I(4)])
    show "ct_alert s \<Longrightarrow> ct_alert ?s'" using waking by (auto simp: ct_alert_def)
    show "rs_queue (ct_sys s) = [] \<Longrightarrow> rs_queue (ct_sys ?s') = [] \<or> ct_alert ?s' \<and> \<not> ct_closed s"
      using waking I(3) ph unfolding ct_alert_def ct_calls_ok_def by auto
    show "rs_lin (ct_sys ?s') 0 = rs_lin (ct_sys s) 0" using R(6) by simp
  qed simp_all
  then show ?thesis using ok' I(2) calls unfolding ct_inv_def by auto
qed

text \<open>The producer in the waker.\<close>

lemma prod_wake_step:
  assumes inv: "ct_inv ww m cap h n s" and n: "Suc n \<le> 2 ^ 61"
    and ph: "ct_prod s = PWaking \<or> ct_prod s = PClosing"
  shows "ct_inv ww m cap h (Suc n) (ct_on_wake ww 1 j s)"
proof -
  let ?s' = "ct_on_wake ww 1 j s"
  note I = ct_invD [OF inv] and W = on_wake_other
  note K = ct_flagD [OF I(2)]
  obtain a p ws where st: "aw_step ww (wr_aw (ct_reach s)) (wk_pc (ct_wake s) 1) = (a, p, ws)"
    by (cases "aw_step ww (wr_aw (ct_reach s)) (wk_pc (ct_wake s) 1)")
  have one: "(1::nat) \<noteq> 0" by simp
  have acc: "tw_access ww 1 (ct_cur s) (ct_reach s, ct_woke s) = (ct_reach ?s', ct_woke ?s')"
    using wk_others_step(1) [OF K(1,3) one st] st by (simp add: ct_on_wake_def)
  have oth: "tw_others (ct_reach s)" using K(3) by (simp add: wk_task_ok_def)
  note F = tw_wake_access [OF wk_okD(1) [OF K(1)] oth one acc]
  have alert: "ct_alert s \<Longrightarrow> ct_alert ?s'"
    using F(2,3) ph by (auto simp: ct_alert_def ct_waking_def W(1-5))
  have "ct_calls_ok ?s'" using I(3) ph F(5) unfolding ct_calls_ok_def W(1-5) by auto
  moreover have "ct_cons_ok ?s' (ct_cons ?s')"
    unfolding W(3) by (rule cons_ok_mono [OF I(4) _ alert]) (use F(4) in \<open>auto simp: W(1-5)\<close>)
  moreover have "wf_ok ww (ct_flag ?s')" unfolding W(7) by (rule wf_do_ok [OF I(2)])
  ultimately show ?thesis using ring_kept [OF I(1) _ n] unfolding ct_inv_def W(1) by simp
qed

lemma prod_step:
  assumes inv: "ct_inv ww m cap h n s" and n: "Suc n \<le> 2 ^ 61"
  shows "\<exists>h'. ct_inv ww m cap h' (Suc n) (ct_prod_step ww cap b j s)"
proof -
  note I = ct_invD [OF inv] and N = ring_kept [OF ct_invD(1) [OF inv] _ n]
  have leave: "\<exists>h'. ct_inv ww m cap h' (Suc n) (s\<lparr>ct_prod := ph\<rparr>)"
    if "\<not> ct_waking s" "ct_calls_ok (s\<lparr>ct_prod := ph\<rparr>)" "ph \<noteq> PRing" for ph
  proof -
    have "ct_cons_ok (s\<lparr>ct_prod := ph\<rparr>) (ct_cons s)"
      by (rule cons_ok_mono [OF I(4)])
        (use that(1,3) in \<open>auto simp: tw_registered_def ct_alert_def ct_waking_def\<close>)
    moreover have "wf_ok ww (ct_flag (s\<lparr>ct_prod := ph\<rparr>))" by (rule ct_flag_same [OF I(2)]) simp_all
    ultimately show ?thesis using N that(2) by (auto simp: ct_inv_def)
  qed
  show ?thesis
  proof (cases "ct_prod s")
    case PRing
    have calls: "push_pc (rs_pc (ct_sys s) 1) \<or> len_pc (rs_pc (ct_sys s) 1)"
      "wk_pc (ct_wake s) 1 = AwDone" using I(3) PRing by (auto simp: ct_calls_ok_def)
    show ?thesis
    proof (cases "\<exists>d. rs_pc (ct_sys s) 1 = PushOk d")
      case True
      then obtain d where d: "rs_pc (ct_sys s) 1 = PushOk d" by blast
      let ?s' = "s\<lparr>ct_wake := wk_do ww (WkWake 1) (ct_wake s), ct_prod := PWaking\<rparr>"
      have r: "ct_reach ?s' = (ct_reach s)\<lparr>wr_pc := (wk_pc (ct_wake s))(1 := TakeFetchOr)\<rparr>"
        using calls(2) by simp
      have "ct_waking ?s'" unfolding ct_waking_def r by simp
      then have "ct_cons_ok ?s' (ct_cons s)"
        by (intro cons_ok_mono [OF I(4)]) (auto simp: tw_registered_def ct_alert_def calls(2))
      moreover have "ct_calls_ok ?s'"
        using I(3) d PRing calls(2) by (auto simp: ct_calls_ok_def)
      moreover have "wf_ok ww (ct_flag ?s')"
        using wf_call_wake [OF I(2), of 1 "ct_wake s" "ct_closed s"] calls(2) by (simp add: ct_flag_def)
      ultimately have "ct_inv ww m cap h (Suc n) ?s'" using N by (simp add: ct_inv_def del: wk_do.simps)
      then show ?thesis using PRing d by (auto simp: ct_prod_step_def)
    next
      case False
      show ?thesis
      proof (cases "rg_returned (rs_pc (ct_sys s) 1)")
        case True
        then have "\<not> ct_waking s"
          using ring_returned_lin [OF I(1) True] False calls(2) by (auto simp: ct_waking_def)
        then have "\<exists>h'. ct_inv ww m cap h' (Suc n) (s\<lparr>ct_prod := PIdle\<rparr>)"
          by (rule leave) (use I(3) True PRing in \<open>auto simp: ct_calls_ok_def\<close>)
        then show ?thesis
          using PRing True False by (cases "rs_pc (ct_sys s) 1") (auto simp: ct_prod_step_def)
      next
        case nr: False
        show ?thesis
          using prod_ring_step [OF inv n PRing, of b j] PRing False nr
          by (cases "rs_pc (ct_sys s) 1") (auto simp: ct_prod_step_def)
      qed
    qed
  next
    case PWaking
    show ?thesis
    proof (cases "wk_pc (ct_wake s) 1 = AwDone")
      case True
      then have "\<not> ct_waking s" using PWaking by (simp add: ct_waking_def)
      then have "\<exists>h'. ct_inv ww m cap h' (Suc n) (s\<lparr>ct_prod := PIdle\<rparr>)"
        by (rule leave) (use I(3) True PWaking in \<open>auto simp: ct_calls_ok_def\<close>)
      then show ?thesis using PWaking True by (simp add: ct_prod_step_def)
    next
      case False
      then have "ct_prod_step ww cap b j s = ct_on_wake ww 1 j s"
        using PWaking by (cases "wk_pc (ct_wake s) 1") (auto simp: ct_prod_step_def)
      then show ?thesis using prod_wake_step [OF inv n] PWaking by auto
    qed
  next
    case PClosing
    show ?thesis
    proof (cases "wk_pc (ct_wake s) 1 = AwDone")
      case True
      then have "\<not> ct_waking s" using PClosing by (simp add: ct_waking_def)
      then have "\<exists>h'. ct_inv ww m cap h' (Suc n) (s\<lparr>ct_prod := PGone\<rparr>)"
        by (rule leave) (use I(3) True PClosing in \<open>auto simp: ct_calls_ok_def\<close>)
      then show ?thesis using PClosing True by (simp add: ct_prod_step_def)
    next
      case False
      then have "ct_prod_step ww cap b j s = ct_on_wake ww 1 j s"
        using PClosing by (cases "wk_pc (ct_wake s) 1") (auto simp: ct_prod_step_def)
      then show ?thesis using prod_wake_step [OF inv n] PClosing by auto
    qed
  qed (use inv N in \<open>auto simp: ct_prod_step_def ct_inv_def\<close>)
qed

section \<open>The steps of the consumer\<close>

fun in_ring :: "'a cons_phase \<Rightarrow> bool" where
  "in_ring CFirst = True"
| "in_ring CSecond = True"
| "in_ring CDrain = True"
| "in_ring (CCall r) = True"
| "in_ring _ = False"

lemma cons_ring_step:
  assumes inv: "ct_inv ww m cap h n s" and n: "Suc n \<le> 2 ^ 61" and ph: "in_ring (ct_cons s)"
    and nr: "\<not> rg_returned (rs_pc (ct_sys s) 0)"
  shows "\<exists>h'. ct_inv ww m cap h' (Suc n) (ct_on_ring cap (WgStep 0 b j) s)"
proof -
  let ?s' = "ct_on_ring cap (WgStep 0 b j) s"
  note I = ct_invD [OF inv]
  have r': "ct_ring ?s' = wg_do cap (WgStep 0 b j) (ct_ring s)" by simp
  note R = ring_step [OF I(1) n r'] and E = ring_step_effect [OF I(1) r']
  obtain h' where ok': "wg_ok m cap h' (Suc n) (ct_ring ?s')" using R(1) by blast
  have kind: "pop_pc (rs_pc (ct_sys s) 0) \<or> (\<exists>r. ct_cons s = CCall r) \<and> len_pc (rs_pc (ct_sys s) 0)"
    using I(3) ph by (cases "ct_cons s") (auto simp: ct_calls_ok_def)
  then have kind': "pop_pc (rs_pc (ct_sys ?s') 0) \<or> (\<exists>r. ct_cons s = CCall r) \<and> len_pc (rs_pc (ct_sys ?s') 0)"
    using R(2,4) by blast
  have "cons_call_ok (ct_cons s) (rs_pc (ct_sys ?s') 0)"
    using ph kind' by (cases "ct_cons s") (auto simp del: on_ring_other(7))
  then have calls: "ct_calls_ok ?s'"
    using I(3) R(5) unfolding ct_calls_ok_def on_ring_other(1-6) by auto
  have shrinks: "rs_queue (ct_sys s) = [] \<Longrightarrow> rs_queue (ct_sys ?s') = []"
    using kind E(1,2) by (metis list.distinct(1))
  have none: "rs_lin (ct_sys ?s') 0 = Some (Popped None) \<Longrightarrow> rs_queue (ct_sys ?s') = []"
    if "pop_pc (rs_pc (ct_sys s) 0)"
    using E(1) [OF that] ring_popped_none [OF I(1) that] nr by auto
  have "rs_pc (ct_sys ?s') 1 = rs_pc (ct_sys s) 1" "rs_lin (ct_sys ?s') 1 = rs_lin (ct_sys s) 1"
    using R(5,6) by simp_all
  then have same: "ct_alert ?s' \<longleftrightarrow> ct_alert s"
    unfolding ct_alert_def ct_waking_def on_ring_other(1-6) by simp
  have "ct_cons_ok ?s' (ct_cons s)"
  proof (cases "ct_cons s = CSecond \<or> ct_cons s = CDrain")
    case True
    then have "pop_pc (rs_pc (ct_sys s) 0)" using kind by auto
    then show ?thesis using True I(4) none same by (auto simp del: on_ring_other(7))
  next
    case False
    show ?thesis
      by (rule cons_ok_mono [OF I(4)]) (use False shrinks same in \<open>auto simp del: on_ring_other(7)\<close>)
  qed
  then show ?thesis using ok' I(2) calls unfolding ct_inv_def by auto
qed

text \<open>An access of the registration.\<close>

lemma cons_wake_step:
  assumes inv: "ct_inv ww m cap h n s" and n: "Suc n \<le> 2 ^ 61" and ph: "ct_cons s = CRegister"
  shows "ct_inv ww m cap h (Suc n) (ct_on_wake ww 0 j s)"
proof -
  let ?s' = "ct_on_wake ww 0 j s"
  note I = ct_invD [OF inv] and W = on_wake_other
  have "wk_pc (ct_wake ?s') u = wk_pc (ct_wake s) u" if "u \<noteq> 0" for u
    using wk_access_others [OF that] by (simp add: W(6))
  then have "ct_calls_ok ?s'" using I(3) ph unfolding ct_calls_ok_def W(1-5) by auto
  moreover have "wf_ok ww (ct_flag ?s')" unfolding W(7) by (rule wf_do_ok [OF I(2)])
  ultimately show ?thesis using ring_kept [OF I(1) _ n] ph unfolding ct_inv_def W(1,3) by simp
qed

text \<open>Moving on without an access, and starting a call of the ring.\<close>

lemma cons_move:
  assumes inv: "ct_inv ww m cap h n s" and n: "Suc n \<le> 2 ^ 61"
    and ph: "wk_pc (ct_wake s) 0 = AwDone" "poll_of c = PollIdle \<or> poll_of c = poll_of (ct_cons s)"
    and ok: "cons_call_ok c (rs_pc (ct_sys s) 0)" "ct_cons_ok s c"
  shows "ct_inv ww m cap h (Suc n) (s\<lparr>ct_cons := c\<rparr>)"
proof -
  note I = ct_invD [OF inv]
  have same: "ct_alert (s\<lparr>ct_cons := c\<rparr>) \<longleftrightarrow> ct_alert s" by (auto simp: ct_alert_def ct_waking_def)
  have "ct_cons_ok (s\<lparr>ct_cons := c\<rparr>) c" by (rule cons_ok_mono [OF ok(2)]) (use same in auto)
  moreover have "ct_calls_ok (s\<lparr>ct_cons := c\<rparr>)" using I(3) ph ok(1) by (simp add: ct_calls_ok_def)
  moreover have "wf_ok ww (ct_flag (s\<lparr>ct_cons := c\<rparr>))"
    using ph(2) ct_flag_idle [OF I(2) ph(1), of "s\<lparr>ct_cons := c\<rparr>"] ct_flag_same [OF I(2), of "s\<lparr>ct_cons := c\<rparr>"]
    by auto
  ultimately show ?thesis using ring_kept [OF I(1) _ n] by (simp add: ct_inv_def)
qed

lemma cons_call:
  assumes inv: "ct_inv ww m cap h n s" and n: "Suc n \<le> 2 ^ 61"
    and ph: "rg_returned (rs_pc (ct_sys s) 0)" "wk_pc (ct_wake s) 0 = AwDone"
    and pc: "rg_entry pc" "cons_call_ok c pc"
    and w: "poll_of c = PollIdle \<or> poll_of c = poll_of (ct_cons s) \<and> w = ct_cur s \<and> k = ct_woke s"
    and ok: "\<And>s'. ct_cur s' = w \<Longrightarrow> ct_woke s' = k \<Longrightarrow> ct_closed s' = ct_closed s \<Longrightarrow>
      ct_reach s' = ct_reach s \<Longrightarrow> rs_queue (ct_sys s') = rs_queue (ct_sys s) \<Longrightarrow>
      rs_lin (ct_sys s') 0 = None \<Longrightarrow> (k = ct_woke s \<Longrightarrow> ct_alert s' \<longleftrightarrow> ct_alert s) \<Longrightarrow> ct_cons_ok s' c"
  shows "\<exists>h'. ct_inv ww m cap h' (Suc n) (ct_call cap 0 pc (s\<lparr>ct_cons := c, ct_cur := w, ct_woke := k\<rparr>))"
proof -
  define s' where "s' = ct_call cap 0 pc (s\<lparr>ct_cons := c, ct_cur := w, ct_woke := k\<rparr>)"
  note I = ct_invD [OF inv]
  have r': "ct_ring s' = wg_do cap (WgCall 0 pc) (ct_ring s)" by (simp add: s'_def ct_call_def)
  note C = ring_call [OF I(1) n ph(1) pc(1), folded r']
  have S: "ct_wake s' = ct_wake s" "ct_closed s' = ct_closed s" "ct_cons s' = c" "ct_prod s' = ct_prod s"
    "ct_cur s' = w" "ct_woke s' = k" by (simp_all add: s'_def ct_call_def)
  have "ct_alert s' \<longleftrightarrow> ct_alert s" if "k = ct_woke s"
    unfolding ct_alert_def ct_waking_def S C(2,3) that by simp
  then have "ct_cons_ok s' c" by (intro ok) (simp_all add: S C(3,4))
  moreover have "ct_calls_ok s'" using I(3) ph pc unfolding ct_calls_ok_def S C(2) by simp
  moreover have "wf_ok ww (ct_flag s')"
    using w ct_flag_idle [OF I(2) ph(2), of s'] ct_flag_same [OF I(2), of s'] by (auto simp: S)
  ultimately show ?thesis using C(1) S(3) unfolding ct_inv_def s'_def by auto
qed

lemma cons_register:
  assumes inv: "ct_inv ww m cap h n s" and n: "Suc n \<le> 2 ^ 61" and ph: "ct_cons s = CClosed1"
  shows "ct_inv ww m cap h (Suc n)
    (s\<lparr>ct_wake := wk_do ww (WkRegister 0 (ct_cur s)) (ct_wake s), ct_cons := CRegister\<rparr>)"
    (is "ct_inv ww m cap h (Suc n) ?s'")
proof -
  note I = ct_invD [OF inv]
  have w: "wk_pc (ct_wake s) 0 = AwDone" using I(3) ph by (simp add: ct_calls_ok_def)
  have "ct_calls_ok ?s'" using I(3) ph w by (simp add: ct_calls_ok_def)
  moreover have "wf_ok ww (ct_flag ?s')"
    using wf_call_register [OF I(2), where w = "ct_cur s" and b = "ct_woke s"] ph by (simp add: ct_flag_def del: wk_do.simps)
  ultimately show ?thesis using ring_kept [OF I(1) _ n] by (simp add: ct_inv_def del: wk_do.simps)
qed

lemma cons_step:
  assumes inv: "ct_inv ww m cap h n s" and n: "Suc n \<le> 2 ^ 61"
  shows "\<exists>h'. ct_inv ww m cap h' (Suc n) (ct_cons_step ww cap b j s)"
proof -
  note I = ct_invD [OF inv] and N = ring_kept [OF ct_invD(1) [OF inv] _ n]
  have ring: "\<exists>h'. ct_inv ww m cap h' (Suc n) (ct_on_ring cap (WgStep 0 b j) s)"
    if "in_ring (ct_cons s)" "\<not> rg_returned (rs_pc (ct_sys s) 0)"
    by (rule cons_ring_step [OF inv n that])
  have calls: "cons_call_ok (ct_cons s) (rs_pc (ct_sys s) 0)"
    "ct_cons s \<noteq> CRegister \<Longrightarrow> wk_pc (ct_wake s) 0 = AwDone" using I(3) by (auto simp: ct_calls_ok_def)
  have move: "\<exists>h'. ct_inv ww m cap h' (Suc n) (s\<lparr>ct_cons := c\<rparr>)"
    if "ct_cons s \<noteq> CRegister" "poll_of c = PollIdle \<or> poll_of c = poll_of (ct_cons s)"
      "cons_call_ok c (rs_pc (ct_sys s) 0)" "ct_cons_ok s c" for c
    using cons_move [OF inv n calls(2) [OF that(1)] that(2-4)] by blast
  have call: "\<exists>h'. ct_inv ww m cap h' (Suc n) (ct_call cap 0 PopLoad (s\<lparr>ct_cons := c\<rparr>))"
    if "rg_returned (rs_pc (ct_sys s) 0)" "wk_pc (ct_wake s) 0 = AwDone" "c = CDrain \<and> ct_closed s
      \<or> c = CSecond \<and> ct_cons s = CRegister" for c
    using cons_call [OF inv n that(1,2), where c = c and pc = PopLoad and w = "ct_cur s" and k = "ct_woke s"] that(3)
    by auto
  have closed: "ct_loads_closed b s \<Longrightarrow> ct_closed s" by (simp add: ct_loads_closed_def)
  have lin: "rg_returned (rs_pc (ct_sys s) 0) \<Longrightarrow> rs_lin (ct_sys s) 0 = Some (rs_pc (ct_sys s) 0)"
    by (rule ring_returned_lin [OF I(1)])
  show ?thesis
  proof (cases "ct_cons s")
    case (CIdle r)
    then show ?thesis using inv N by (auto simp: ct_cons_step_def ct_inv_def)
  next
    case (CCall r)
    have "ct_cons_ok s (CIdle r)" using I(4) CCall by (cases "(s, CIdle r)" rule: ct_cons_ok.cases) auto
    then show ?thesis using ring move [of "CIdle r"] CCall by (auto simp: ct_cons_step_def)
  next
    case CClosed1
    show ?thesis
      using call [of CDrain] cons_register [OF inv n CClosed1] closed calls CClosed1
      by (auto simp: ct_cons_step_def simp del: wk_do.simps)
  next
    case CRegister
    show ?thesis
    proof (cases "wk_pc (ct_wake s) 0 = AwDone")
      case True
      then show ?thesis using call [of CSecond] calls CRegister by (auto simp: ct_cons_step_def)
    next
      case False
      then have "ct_cons_step ww cap b j s = ct_on_wake ww 0 j s"
        using CRegister by (cases "wk_pc (ct_wake s) 0") (auto simp: ct_cons_step_def)
      then show ?thesis using cons_wake_step [OF inv n CRegister] by auto
    qed
  next
    case CClosed2
    have w: "wk_pc (ct_wake s) 0 = AwDone" and p: "poll_of (ct_cons s) = Polling" using calls(2) CClosed2 by auto
    have "ct_cons_ok s (CIdle (Some None))" if "\<not> ct_loads_closed b s"
      using ct_flag_polled [OF I(2) p w] missed_close_alert [OF I(2) p w I(3) _ that] I(4) CClosed2 by auto
    then show ?thesis
      using call [of CDrain] move [of "CIdle (Some None)"] closed calls CClosed2 by (auto simp: ct_cons_step_def)
  next
    case CFirst
    then show ?thesis
      using ring move [of CClosed1] move [of "CIdle (Some (Some (Some x)))" for x] calls
      by (cases "rs_pc (ct_sys s) 0") (auto simp: ct_cons_step_def split: option.splits)
  next
    case CSecond
    then show ?thesis
      using ring move [of CClosed2] move [of "CIdle (Some (Some (Some x)))" for x] calls lin I(4)
      by (cases "rs_pc (ct_sys s) 0") (auto simp: ct_cons_step_def split: option.splits)
  next
    case CDrain
    have "ct_cons_ok s (CIdle (Some (Some x)))" if "rs_pc (ct_sys s) 0 = Popped x" for x
      using I(4) CDrain lin that by (cases x) auto
    then show ?thesis
      using ring move [of "CIdle (Some (Some x))" for x] calls CDrain
      by (cases "rs_pc (ct_sys s) 0") (auto simp: ct_cons_step_def split: option.splits)
  qed
qed

section \<open>Every schedule\<close>

lemma prod_call:
  assumes inv: "ct_inv ww m cap h n s" and n: "Suc n \<le> 2 ^ 61" and ph: "ct_prod s = PIdle"
    and pc: "rg_entry pc" "push_pc pc \<or> len_pc pc"
  shows "\<exists>h'. ct_inv ww m cap h' (Suc n) (ct_call cap 1 pc (s\<lparr>ct_prod := PRing\<rparr>))"
proof -
  let ?s' = "ct_call cap 1 pc (s\<lparr>ct_prod := PRing\<rparr>)"
  note I = ct_invD [OF inv]
  have ret: "rg_returned (rs_pc (ct_sys s) 1)" "wk_pc (ct_wake s) 1 = AwDone"
    using I(3) ph by (auto simp: ct_calls_ok_def)
  have r': "ct_ring ?s' = wg_do cap (WgCall 1 pc) (ct_ring s)" by (simp add: ct_call_def)
  note C = ring_call [OF I(1) n ret(1) pc(1), folded r']
  have S: "ct_wake ?s' = ct_wake s" "ct_closed ?s' = ct_closed s" "ct_cons ?s' = ct_cons s" "ct_prod ?s' = PRing"
    "ct_cur ?s' = ct_cur s" "ct_woke ?s' = ct_woke s" by (simp_all add: ct_call_def)
  have "ct_alert ?s' \<longleftrightarrow> ct_alert s"
    using ret ph by (simp add: ct_alert_def ct_waking_def S C(2,3))
  then have "ct_cons_ok ?s' (ct_cons s)"
    by (intro cons_ok_mono [OF I(4)]) (simp_all add: S C(3,4))
  moreover have "ct_calls_ok ?s'" using I(3) ph pc unfolding ct_calls_ok_def S C(2) by auto
  moreover have "wf_ok ww (ct_flag ?s')" by (rule ct_flag_same [OF I(2)]) (simp_all add: S)
  ultimately show ?thesis using C(1) S(3) unfolding ct_inv_def by auto
qed

lemma prod_drop:
  assumes inv: "ct_inv ww m cap h n s" and n: "Suc n \<le> 2 ^ 61" and ph: "ct_prod s = PIdle"
  shows "ct_inv ww m cap h (Suc n) (s\<lparr>ct_closed := True, ct_prod := PClosing,
    ct_wake := wk_do ww (WkWake 1) (wk_do ww (WkStore 1) (ct_wake s))\<rparr>)"
    (is "ct_inv ww m cap h (Suc n) ?s'")
proof -
  note I = ct_invD [OF inv]
  have w: "wk_pc (ct_wake s) 1 = AwDone" and live: "\<not> ct_closed s"
    using I(3) ph by (auto simp: ct_calls_ok_def)
  have r: "ct_reach ?s' = (ct_reach s)\<lparr>wr_pc := (wk_pc (ct_wake s))(1 := TakeFetchOr)\<rparr>" using w by simp
  have alert: "ct_alert ?s'" unfolding ct_alert_def ct_waking_def r by simp
  have reg: "ct_registered ?s' \<longleftrightarrow> ct_registered s" unfolding tw_registered_def r by simp
  have "ct_cons_ok ?s' (ct_cons s)"
    using I(4) reg alert live by (cases "(s, ct_cons s)" rule: ct_cons_ok.cases) (auto simp del: wk_do.simps)
  moreover have "ct_calls_ok ?s'" using I(3) ph w by (simp add: ct_calls_ok_def)
  moreover have "wf_ok ww (ct_flag ?s')"
    using wf_call_wake [OF I(2), of 1 "wk_do ww (WkStore 1) (ct_wake s)" True] w
    by (simp add: ct_flag_def del: wk_do.simps)
  ultimately show ?thesis using ring_kept [OF I(1) _ n] by (simp add: ct_inv_def del: wk_do.simps)
qed

lemma ct_do_inv:
  assumes inv: "ct_inv ww m cap h n s" and n: "Suc n \<le> 2 ^ 61"
  shows "\<exists>h'. ct_inv ww m cap h' (Suc n) (ct_do ww cap cmd s)"
proof -
  note I = ct_invD [OF inv]
  have N: "\<exists>h'. ct_inv ww m cap h' (Suc n) s" using inv ring_kept [OF I(1) _ n] by (auto simp: ct_inv_def)
  have idle: "rg_returned (rs_pc (ct_sys s) 0)" "wk_pc (ct_wake s) 0 = AwDone" if "ct_cons s = CIdle r" for r
    using I(3) that by (auto simp: ct_calls_ok_def)
  have call: "\<exists>h'. ct_inv ww m cap h' (Suc n) (ct_call cap 0 pc (s\<lparr>ct_cons := CCall r\<rparr>))"
    if "ct_cons s = CIdle r" "rg_entry pc" "pop_pc pc \<or> len_pc pc" for r pc
  proof -
    have "ct_cons_ok s' (CCall r)"
      if "ct_cur s' = ct_cur s" "ct_woke s' = ct_woke s" "ct_closed s' = ct_closed s" "ct_reach s' = ct_reach s"
        "rs_queue (ct_sys s') = rs_queue (ct_sys s)" "ct_alert s' \<longleftrightarrow> ct_alert s" for s'
      using I(4) that \<open>ct_cons s = CIdle r\<close> by (cases "(s, CIdle r)" rule: ct_cons_ok.cases) auto
    then show ?thesis
      using cons_call [OF inv n idle [OF that(1)] that(2),
          where c = "CCall r" and w = "ct_cur s" and k = "ct_woke s"] that(3) by simp
  qed
  show ?thesis
  proof (cases cmd)
    case (ConsPoll w)
    show ?thesis
    proof (cases "ct_cons s")
      case (CIdle r)
      then show ?thesis
        using cons_call [OF inv n idle [OF CIdle], where c = CFirst and pc = PopLoad and w = w and k = False] ConsPoll by simp
    qed (use N ConsPoll in auto)
  next
    case ConsPop
    then show ?thesis using call [of _ PopLoad] N by (cases "ct_cons s") auto
  next
    case ConsLen
    then show ?thesis using call [of _ LenRead] N by (cases "ct_cons s") auto
  next
    case (ConsStep b j)
    then show ?thesis using cons_step [OF inv n] by simp
  next
    case (ProdPush x ow)
    then show ?thesis using prod_call [OF inv n, of "PushLoad x ow"] N by simp
  next
    case ProdLen
    then show ?thesis using prod_call [OF inv n, of LenRead] N by simp
  next
    case ProdDrop
    then show ?thesis using prod_drop [OF inv n] N by (auto simp del: wk_do.simps)
  next
    case (ProdStep b j)
    then show ?thesis using prod_step [OF inv n] by simp
  qed
qed

lemma ct_inv_init:
  assumes "0 < cap" "cap \<le> 2 ^ 60"
  shows "\<exists>m. ct_inv ww m cap 0 0 (ct_init cap w :: ('a, 'w) chan_sys)"
proof -
  obtain m where "wg_ok m cap 0 0 (wg_init cap :: 'a weak_ring)" using wg_init_ok [OF assms] by blast
  moreover have "ct_flag (ct_init cap w :: ('a, 'w) chan_sys) = wf_init w"
    by (simp add: ct_flag_def ct_init_def wf_init_def)
  moreover have "ct_calls_ok (ct_init cap w :: ('a, 'w) chan_sys)"
    by (simp add: ct_calls_ok_def ct_init_def wg_init_def rs_init_def wk_init_def wr_init_def)
  ultimately have "ct_inv ww m cap 0 0 (ct_init cap w :: ('a, 'w) chan_sys)"
    using wf_init_ok [of ww w] by (simp add: ct_inv_def) (simp add: ct_init_def)
  then show ?thesis ..
qed

lemma ct_run:
  fixes cs :: "('a, 'w) chan_cmd list"
  assumes "0 < cap" "cap \<le> 2 ^ 60" "length cs \<le> 2 ^ 61"
  obtains m h where "ct_inv ww m cap h (length cs) (fold (ct_do ww cap) cs (ct_init cap w))"
proof -
  have "\<exists>m h. ct_inv ww m cap h (length cs) (fold (ct_do ww cap) cs (ct_init cap w))"
    using assms(3)
  proof (induction cs rule: rev_induct)
    case Nil
    then show ?case using ct_inv_init [OF assms(1,2), of ww w, where 'a = 'a] by auto
  next
    case (snoc cmd cs)
    then obtain m h where "ct_inv ww m cap h (length cs) (fold (ct_do ww cap) cs (ct_init cap w))"
      by auto
    from ct_do_inv [OF this, of cmd] snoc.prems
    obtain h' where "ct_inv ww m cap h' (Suc (length cs))
      (ct_do ww cap cmd (fold (ct_do ww cap) cs (ct_init cap w)))" by auto
    then show ?case by auto
  qed
  with that show thesis by blast
qed

section \<open>Properties\<close>

text \<open>
  C5. No lost wake-up, access by access: in every schedule of at most \<open>2 ^ 61\<close> accesses of the
  consumer and the producer, with loads that return old values as the orderings allow, when the consumer is idle after a poll that returned Pending and no
  call of the producer is in progress, the task was woken since that poll began, or the ring is
  empty and the producer lives.
\<close>

theorem spsc_threads_no_lost_wakeup:
  assumes "0 < capacity" and "capacity \<le> 2 ^ 60" and "length cs \<le> 2 ^ 61"
    and "s = fold (ct_do ww capacity) cs (ct_init capacity w)"
    and "ct_cons s = CIdle (Some None)" and "ct_prod s = PIdle \<or> ct_prod s = PGone"
  shows "ct_woke s \<or> rg_queue capacity (wg_ring (ct_ring s)) [] \<and> \<not> ct_closed s"
proof -
  obtain m h where "ct_inv ww m capacity h (length cs) s"
    unfolding assms(4) by (rule ct_run [OF assms(1-3)])
  note I = ct_invD [OF this]
  have quiet: "wk_pc (ct_wake s) t = AwDone" "rg_returned (rs_pc (ct_sys s) t)" for t
    using I(3) assms(5,6) unfolding ct_calls_ok_def by (cases "t = 0"; cases "t = 1"; auto)+
  have q: "rg_queue capacity (wg_ring (ct_ring s)) (rs_queue (ct_sys s))"
    by (rule threads_idle_queue [OF wg_okD(1) [OF I(1)] quiet(2)])
  have "ct_woke s" if "rs_queue (ct_sys s) \<noteq> [] \<or> ct_closed s"
  proof -
    have "ct_registered s" "ct_woke s \<or> wr_signal (ct_reach s)"
      using I(4) assms(5,6) that quiet(1) [of 1] by (auto simp: ct_alert_def ct_waking_def)
    then show ?thesis using tw_quiet [OF wk_okD(1) [OF ct_flagD(1) [OF I(2)]] quiet(1)] by blast
  qed
  then show ?thesis using q by metis
qed

text \<open>
  The producer is dropped before the poll, both loads of \<open>producer_closed\<close> miss the store, and the
  wake of the drop begins when the poll has returned.
\<close>

theorem spsc_threads_no_lost_wakeup_witness:
  "let s = fold (ct_do (=) 2)
     ([ProdPush (1::nat) False] @ replicate 12 (ProdStep False 9) @ [ConsPop] @ replicate 7 (ConsStep False 9)
      @ [ProdDrop, ConsPoll 7] @ replicate 20 (ConsStep True 9) @ replicate 5 (ProdStep False 9))
     (ct_init 2 (0::nat))
   in ct_cons s = CIdle (Some None) \<and> ct_prod s = PGone \<and> ct_closed s \<and> ct_woke s"
proof -
  define cs :: "(nat, nat) chan_cmd list" where
    "cs = [ProdPush (1::nat) False] @ replicate 12 (ProdStep False 9) @ [ConsPop] @ replicate 7 (ConsStep False 9)
      @ [ProdDrop, ConsPoll 7] @ replicate 20 (ConsStep True 9) @ replicate 5 (ProdStep False 9)"
  define s where "s = fold (ct_do (=) 2) cs (ct_init 2 (0::nat))"
  have h: "ct_cons s = CIdle (Some None)" "ct_prod s = PGone" "ct_closed s"
    unfolding s_def cs_def by code_simp+
  have len: "length cs \<le> 2 ^ 61" by (simp add: cs_def)
  show ?thesis
    unfolding Let_def cs_def [symmetric] s_def [symmetric]
    using spsc_threads_no_lost_wakeup [OF _ _ len s_def h(1)] h by simp
qed

text \<open>
  C15. The end of the channel, access by access and with the orderings of the source: when a poll returned \<open>None\<close> the producer was dropped
  and nothing is left in the ring, also after later pops.
\<close>

theorem spsc_threads_end_is_final:
  assumes "0 < capacity" and "capacity \<le> 2 ^ 60" and "length cs \<le> 2 ^ 61"
    and "s = fold (ct_do ww capacity) cs (ct_init capacity w)"
    and "ct_cons s = CIdle (Some (Some None))"
  shows "ct_closed s \<and> rg_queue capacity (wg_ring (ct_ring s)) []"
proof -
  obtain m h where "ct_inv ww m capacity h (length cs) s"
    unfolding assms(4) by (rule ct_run [OF assms(1-3)])
  note I = ct_invD [OF this]
  have fin: "ct_closed s" "rs_queue (ct_sys s) = []" using I(4) assms(5) by auto
  have "rg_returned (rs_pc (ct_sys s) t)" for t
    using I(3) assms(5) fin(1) unfolding ct_calls_ok_def by (cases "t = 0"; cases "t = 1") auto
  then have "rg_queue capacity (wg_ring (ct_ring s)) (rs_queue (ct_sys s))"
    by (rule threads_idle_queue [OF wg_okD(1) [OF I(1)]])
  then show ?thesis using fin by simp
qed

text \<open>An item and the drop of the producer arrive while the first of two polls is in the ring.\<close>

theorem spsc_threads_end_is_final_witness:
  "let s = fold (ct_do (=) 2)
     ([ConsPoll 7, ConsStep False 9, ProdPush (5::nat) False] @ replicate 11 (ProdStep False 9)
      @ [ProdDrop] @ replicate 5 (ProdStep False 9) @ replicate 8 (ConsStep False 9) @ [ConsPoll 7]
      @ replicate 9 (ConsStep False 9))
     (ct_init 2 (0::nat))
   in ct_cons s = CIdle (Some (Some None)) \<and> ct_closed s \<and> rg_queue 2 (wg_ring (ct_ring s)) []"
proof -
  define cs :: "(nat, nat) chan_cmd list"
    where "cs = [ConsPoll 7, ConsStep False 9, ProdPush (5::nat) False] @ replicate 11 (ProdStep False 9)
      @ [ProdDrop] @ replicate 5 (ProdStep False 9) @ replicate 8 (ConsStep False 9) @ [ConsPoll 7]
      @ replicate 9 (ConsStep False 9)"
  define s where "s = fold (ct_do (=) 2) cs (ct_init 2 (0::nat))"
  have h: "ct_cons s = CIdle (Some (Some None))" unfolding s_def cs_def by code_simp
  have len: "length cs \<le> 2 ^ 61" by (simp add: cs_def)
  show ?thesis
    unfolding Let_def cs_def [symmetric] s_def [symmetric]
    using spsc_threads_end_is_final [OF _ _ len s_def h] h by simp
qed

end
