(* ===== verification/Spsc.thy ===== *)
theory Spsc
  imports SpscRing AtomicWaker "HOL-Library.Multiset"
begin

text \<open>
  The two handles of \<open>src/spsc.rs\<close>: \<open>SpscProducer\<close> and \<open>SpscConsumer\<close> share a ring, a
  closed flag and an \<open>AtomicWaker\<close>. Each function below is one call, or, for the poll of
  the consumer and for the calls of the producer, one access to the shared data, so that
  the two sides interleave. A single call of the ring or of the waker is one access here:
  theories \<open>SpscRing\<close> and \<open>AtomicWaker\<close> open it up.
\<close>

section \<open>Handles\<close>

record ('a, 'w) spsc =
  sp_queue :: "'a ring"
  sp_producer_closed :: bool
  sp_waker :: "'w atomic_waker"

definition spsc_with_capacity :: "nat \<Rightarrow> nat \<Rightarrow> ('a, 'w) spsc run" where
  "spsc_with_capacity n capacity =
     (if n = 0 then Panic ''SpscRing capacity must be > 0''
      else if capacity = 0 then Panic ''SpscRing capacity must be > 0''
      else if capacity > n then Panic ''SpscRing capacity exceeds type maximum''
      else Ret \<lparr>sp_queue = rg_new capacity, sp_producer_closed = False, sp_waker = aw_new\<rparr>)"

definition spsc_new :: "nat \<Rightarrow> ('a, 'w) spsc run" where
  "spsc_new n = spsc_with_capacity n n"

definition sp_capacity :: "('a, 'w) spsc \<Rightarrow> nat" where
  "sp_capacity s = length (rg_slots (sp_queue s))"

definition sp_buffered_count :: "('a, 'w) spsc \<Rightarrow> usize run" where
  "sp_buffered_count s = (case snd (rg_call LenRead (sp_queue s)) of Counted n \<Rightarrow> Ret n | _ \<Rightarrow> UB)"

text \<open>The producer: the access to the ring, then \<open>wake\<close>.\<close>

definition sp_ring_push :: "'a \<Rightarrow> bool \<Rightarrow> ('a, 'w) spsc \<Rightarrow> ('a, 'w) spsc \<times> 'a rg_pc" where
  "sp_ring_push x ow s =
     (case rg_call (PushLoad x ow) (sp_queue s) of (r, res) \<Rightarrow> (s\<lparr>sp_queue := r\<rparr>, res))"

definition sp_wake :: "('w \<Rightarrow> 'w \<Rightarrow> bool) \<Rightarrow> ('a, 'w) spsc \<Rightarrow> ('a, 'w) spsc \<times> 'w list" where
  "sp_wake ww s = (case aw_wake ww (sp_waker s) of (a, ws) \<Rightarrow> (s\<lparr>sp_waker := a\<rparr>, ws))"

definition sp_push :: "('w \<Rightarrow> 'w \<Rightarrow> bool) \<Rightarrow> 'a \<Rightarrow> ('a, 'w) spsc
    \<Rightarrow> (('a, 'w) spsc \<times> ('a + unit) \<times> 'w list) run" where
  "sp_push ww x s =
     (case sp_ring_push x False s of
        (s', PushOk d) \<Rightarrow> (case sp_wake ww s' of (s'', ws) \<Rightarrow> Ret (s'', Inr (), ws))
      | (s', PushErr y) \<Rightarrow> Ret (s', Inl y, [])
      | _ \<Rightarrow> UB)"

definition sp_push_overwrite :: "('w \<Rightarrow> 'w \<Rightarrow> bool) \<Rightarrow> 'a \<Rightarrow> ('a, 'w) spsc
    \<Rightarrow> (('a, 'w) spsc \<times> 'a option \<times> 'w list) run" where
  "sp_push_overwrite ww x s =
     (case sp_ring_push x True s of
        (s', PushOk d) \<Rightarrow> (case sp_wake ww s' of (s'', ws) \<Rightarrow> Ret (s'', d, ws))
      | (s', PushErr y) \<Rightarrow> Panic ''internal error: entered unreachable code''
      | _ \<Rightarrow> UB)"

definition sp_drop_producer :: "('w \<Rightarrow> 'w \<Rightarrow> bool) \<Rightarrow> ('a, 'w) spsc \<Rightarrow> ('a, 'w) spsc \<times> 'w list" where
  "sp_drop_producer ww s = sp_wake ww (s\<lparr>sp_producer_closed := True\<rparr>)"

text \<open>The consumer.\<close>

definition sp_pop :: "('a, 'w) spsc \<Rightarrow> ('a, 'w) spsc \<times> 'a option" where
  "sp_pop s = (case rg_call PopLoad (sp_queue s) of (r, res) \<Rightarrow>
     (s\<lparr>sp_queue := r\<rparr>, case res of Popped x \<Rightarrow> x | _ \<Rightarrow> None))"

definition sp_is_closed :: "('a, 'w) spsc \<Rightarrow> bool" where
  "sp_is_closed s = sp_producer_closed s"

definition sp_register :: "('w \<Rightarrow> 'w \<Rightarrow> bool) \<Rightarrow> 'w \<Rightarrow> ('a, 'w) spsc \<Rightarrow> ('a, 'w) spsc \<times> 'w list" where
  "sp_register ww w s = (case aw_register ww w (sp_waker s) of (a, ws) \<Rightarrow> (s\<lparr>sp_waker := a\<rparr>, ws))"

text \<open>\<open>poll_pop\<close>, one access at a time; \<open>PollDone\<close> carries what the poll returned.\<close>

datatype 'a sp_poll_pc =
    PollFirst
  | PollClosed1
  | PollRegister
  | PollSecond
  | PollClosed2
  | PollDrain
  | PollDone "'a option option"

fun sp_poll_step :: "('w \<Rightarrow> 'w \<Rightarrow> bool) \<Rightarrow> 'w \<Rightarrow> ('a, 'w) spsc \<Rightarrow> 'a sp_poll_pc
    \<Rightarrow> ('a, 'w) spsc \<times> 'a sp_poll_pc \<times> 'w list" where
  "sp_poll_step ww w s PollFirst = (case sp_pop s of
       (s', Some item) \<Rightarrow> (s', PollDone (Some (Some item)), [])
     | (s', None) \<Rightarrow> (s', PollClosed1, []))"
| "sp_poll_step ww w s PollClosed1 =
     (s, if sp_is_closed s then PollDrain else PollRegister, [])"
| "sp_poll_step ww w s PollRegister =
     (case sp_register ww w s of (s', ws) \<Rightarrow> (s', PollSecond, ws))"
| "sp_poll_step ww w s PollSecond = (case sp_pop s of
       (s', Some item) \<Rightarrow> (s', PollDone (Some (Some item)), [])
     | (s', None) \<Rightarrow> (s', PollClosed2, []))"
| "sp_poll_step ww w s PollClosed2 =
     (s, if sp_is_closed s then PollDrain else PollDone None, [])"
| "sp_poll_step ww w s PollDrain = (case sp_pop s of (s', x) \<Rightarrow> (s', PollDone (Some x), []))"
| "sp_poll_step ww w s (PollDone r) = (s, PollDone r, [])"

text \<open>A poll that runs alone takes at most six accesses.\<close>

fun sp_poll_steps :: "nat \<Rightarrow> ('w \<Rightarrow> 'w \<Rightarrow> bool) \<Rightarrow> 'w \<Rightarrow> ('a, 'w) spsc \<Rightarrow> 'a sp_poll_pc
    \<Rightarrow> ('a, 'w) spsc \<times> 'a sp_poll_pc \<times> 'w list" where
  "sp_poll_steps 0 ww w s pc = (s, pc, [])"
| "sp_poll_steps (Suc n) ww w s pc =
     (case sp_poll_step ww w s pc of (s', pc', ws) \<Rightarrow>
      (case sp_poll_steps n ww w s' pc' of (s'', pc'', ws') \<Rightarrow> (s'', pc'', ws @ ws')))"

definition sp_poll_pop :: "('w \<Rightarrow> 'w \<Rightarrow> bool) \<Rightarrow> 'w \<Rightarrow> ('a, 'w) spsc
    \<Rightarrow> ('a, 'w) spsc \<times> 'a sp_poll_pc \<times> 'w list" where
  "sp_poll_pop ww w s = sp_poll_steps 6 ww w s PollFirst"

section \<open>The two sides interleaved\<close>

text \<open>
  The producer pushes, wakes and is dropped; the consumer polls or pops. A call of the producer
  is one step as a whole (\<open>push_call\<close>, \<open>overwrite_call\<close>, \<open>drop_call\<close>) or two, its access to the shared
  data and its \<open>wake\<close>, with steps of the consumer between them. The history is what the calls
  take and return: \<open>ss_offered\<close> are the items given to a push, \<open>ss_refused\<close> those an \<open>Err\<close> handed
  back, \<open>ss_sent\<close> those the ring accepted, \<open>ss_removed\<close> those that left it, with \<open>True\<close> for
  delivery to the consumer and \<open>False\<close> for being handed back by an overwrite.
\<close>

datatype prod_phase = ProdIdle | ProdWake | ProdClosing | ProdGone

record ('a, 'w) spsc_sys =
  ss_spsc :: "('a, 'w) spsc"
  ss_poll :: "'a sp_poll_pc option"
  ss_prod :: prod_phase
  ss_cur :: 'w
  ss_notified :: bool
  ss_offered :: "'a list"
  ss_refused :: "'a list"
  ss_sent :: "'a list"
  ss_removed :: "(bool \<times> 'a) list"

definition spsc_init :: "nat \<Rightarrow> 'w \<Rightarrow> ('a, 'w) spsc_sys" where
  "spsc_init capacity w =
     \<lparr>ss_spsc = \<lparr>sp_queue = rg_new capacity, sp_producer_closed = False, sp_waker = aw_new\<rparr>,
      ss_poll = None, ss_prod = ProdIdle, ss_cur = w, ss_notified = False,
      ss_offered = [], ss_refused = [], ss_sent = [], ss_removed = []\<rparr>"

fun polled_item :: "'a sp_poll_pc \<Rightarrow> 'a sp_poll_pc \<Rightarrow> (bool \<times> 'a) list" where
  "polled_item (PollDone r) pc = []"
| "polled_item pc (PollDone (Some (Some x))) = [(True, x)]"
| "polled_item pc pc' = []"

definition consumer_idle :: "('a, 'w) spsc_sys \<Rightarrow> bool" where
  "consumer_idle s \<longleftrightarrow> ss_poll s = None \<or> (\<exists>r. ss_poll s = Some (PollDone r))"

inductive spsc_step :: "('w \<Rightarrow> 'w \<Rightarrow> bool) \<Rightarrow> ('a, 'w) spsc_sys \<Rightarrow> ('a, 'w) spsc_sys \<Rightarrow> bool"
  for ww :: "'w \<Rightarrow> 'w \<Rightarrow> bool" where
  consumer_begin: "consumer_idle s \<Longrightarrow>
     spsc_step ww s (s\<lparr>ss_poll := Some PollFirst, ss_cur := w, ss_notified := False\<rparr>)"
| consumer_poll: "ss_poll s = Some pc \<Longrightarrow>
     sp_poll_step ww (ss_cur s) (ss_spsc s) pc = (sp, pc', ws) \<Longrightarrow>
     spsc_step ww s (s\<lparr>ss_spsc := sp, ss_poll := Some pc',
       ss_removed := ss_removed s @ polled_item pc pc',
       ss_notified := (ss_notified s \<or> (\<exists>w \<in> set ws. wakes_task ww (ss_cur s) w))\<rparr>)"
| consumer_pop: "consumer_idle s \<Longrightarrow> sp_pop (ss_spsc s) = (sp, x) \<Longrightarrow>
     spsc_step ww s (s\<lparr>ss_spsc := sp,
       ss_removed := ss_removed s @ (case x of Some y \<Rightarrow> [(True, y)] | None \<Rightarrow> [])\<rparr>)"
| producer_push: "ss_prod s = ProdIdle \<Longrightarrow> sp_ring_push x ow (ss_spsc s) = (sp, PushOk d) \<Longrightarrow>
     spsc_step ww s (s\<lparr>ss_spsc := sp, ss_prod := ProdWake,
       ss_offered := ss_offered s @ [x], ss_sent := ss_sent s @ [x],
       ss_removed := ss_removed s @ (case d of Some y \<Rightarrow> [(False, y)] | None \<Rightarrow> [])\<rparr>)"
| producer_full: "ss_prod s = ProdIdle \<Longrightarrow> sp_ring_push x ow (ss_spsc s) = (sp, PushErr y) \<Longrightarrow>
     spsc_step ww s (s\<lparr>ss_spsc := sp,
       ss_offered := ss_offered s @ [x], ss_refused := ss_refused s @ [y]\<rparr>)"
| producer_wake: "ss_prod s = ProdWake \<Longrightarrow> sp_wake ww (ss_spsc s) = (sp, ws) \<Longrightarrow>
     spsc_step ww s (s\<lparr>ss_spsc := sp, ss_prod := ProdIdle,
       ss_notified := (ss_notified s \<or> (\<exists>w \<in> set ws. wakes_task ww (ss_cur s) w))\<rparr>)"
| producer_drop: "ss_prod s = ProdIdle \<Longrightarrow>
     spsc_step ww s (s\<lparr>ss_spsc := (ss_spsc s)\<lparr>sp_producer_closed := True\<rparr>,
       ss_prod := ProdClosing\<rparr>)"
| producer_drop_wake: "ss_prod s = ProdClosing \<Longrightarrow> sp_wake ww (ss_spsc s) = (sp, ws) \<Longrightarrow>
     spsc_step ww s (s\<lparr>ss_spsc := sp, ss_prod := ProdGone,
       ss_notified := (ss_notified s \<or> (\<exists>w \<in> set ws. wakes_task ww (ss_cur s) w))\<rparr>)"
| push_call: "ss_prod s = ProdIdle \<Longrightarrow> sp_push ww x (ss_spsc s) = Ret (sp, res, ws) \<Longrightarrow>
     spsc_step ww s (s\<lparr>ss_spsc := sp, ss_offered := ss_offered s @ [x],
       ss_refused := ss_refused s @ (case res of Inl y \<Rightarrow> [y] | Inr u \<Rightarrow> []),
       ss_sent := ss_sent s @ (case res of Inl y \<Rightarrow> [] | Inr u \<Rightarrow> [x]),
       ss_notified := (ss_notified s \<or> (\<exists>w \<in> set ws. wakes_task ww (ss_cur s) w))\<rparr>)"
| overwrite_call: "ss_prod s = ProdIdle \<Longrightarrow> sp_push_overwrite ww x (ss_spsc s) = Ret (sp, d, ws) \<Longrightarrow>
     spsc_step ww s (s\<lparr>ss_spsc := sp, ss_offered := ss_offered s @ [x], ss_sent := ss_sent s @ [x],
       ss_removed := ss_removed s @ (case d of Some y \<Rightarrow> [(False, y)] | None \<Rightarrow> []),
       ss_notified := (ss_notified s \<or> (\<exists>w \<in> set ws. wakes_task ww (ss_cur s) w))\<rparr>)"
| drop_call: "ss_prod s = ProdIdle \<Longrightarrow> sp_drop_producer ww (ss_spsc s) = (sp, ws) \<Longrightarrow>
     spsc_step ww s (s\<lparr>ss_spsc := sp, ss_prod := ProdGone,
       ss_notified := (ss_notified s \<or> (\<exists>w \<in> set ws. wakes_task ww (ss_cur s) w))\<rparr>)"

inductive spsc_reachable :: "('w \<Rightarrow> 'w \<Rightarrow> bool) \<Rightarrow> nat \<Rightarrow> ('a, 'w) spsc_sys \<Rightarrow> bool"
  for ww :: "'w \<Rightarrow> 'w \<Rightarrow> bool" and capacity :: nat where
  spsc_start: "spsc_reachable ww capacity (spsc_init capacity w)"
| spsc_next: "spsc_reachable ww capacity s \<Longrightarrow> spsc_step ww s t \<Longrightarrow> spsc_reachable ww capacity t"

section \<open>The invariant\<close>

definition cell_good :: "('w \<Rightarrow> 'w \<Rightarrow> bool) \<Rightarrow> ('a, 'w) spsc_sys \<Rightarrow> bool" where
  "cell_good ww s \<longleftrightarrow> (\<exists>w. aw_cell (sp_waker (ss_spsc s)) = Some w \<and> wakes_task ww (ss_cur s) w)"

text \<open>
  What the consumer's program counter knows: \<open>hope\<close> is that the task was notified or its
  waker is in the cell, \<open>coming\<close> that it was notified or the producer is about to wake.
\<close>

fun poll_ok :: "bool \<Rightarrow> bool \<Rightarrow> bool \<Rightarrow> bool \<Rightarrow> bool \<Rightarrow> 'a sp_poll_pc option \<Rightarrow> bool" where
  "poll_ok closed nonempty hope coming closing (Some PollDrain) \<longleftrightarrow> closed"
| "poll_ok closed nonempty hope coming closing (Some (PollDone (Some None))) \<longleftrightarrow> closed \<and> \<not> nonempty"
| "poll_ok closed nonempty hope coming closing (Some PollSecond) \<longleftrightarrow> hope"
| "poll_ok closed nonempty hope coming closing (Some PollClosed2) \<longleftrightarrow> hope \<and> (nonempty \<longrightarrow> coming \<or> closed)"
| "poll_ok closed nonempty hope coming closing (Some (PollDone None)) \<longleftrightarrow>
     hope \<and> (nonempty \<or> closed \<longrightarrow> coming \<or> closing)"
| "poll_ok closed nonempty hope coming closing _ \<longleftrightarrow> True"

definition spsc_inv :: "('w \<Rightarrow> 'w \<Rightarrow> bool) \<Rightarrow> nat \<Rightarrow> 'a list \<Rightarrow> ('a, 'w) spsc_sys \<Rightarrow> bool" where
  "spsc_inv ww cap q s \<longleftrightarrow>
     rg_queue cap (sp_queue (ss_spsc s)) q
   \<and> aw_state (sp_waker (ss_spsc s)) = WAITING
   \<and> ss_sent s = map snd (ss_removed s) @ q
   \<and> mset (ss_offered s) = mset (ss_sent s) + mset (ss_refused s)
   \<and> (sp_producer_closed (ss_spsc s) \<longleftrightarrow> ss_prod s = ProdClosing \<or> ss_prod s = ProdGone)
   \<and> poll_ok (ss_prod s = ProdClosing \<or> ss_prod s = ProdGone) (q \<noteq> []) (ss_notified s \<or> cell_good ww s)
       (ss_notified s \<or> ss_prod s = ProdWake) (ss_prod s = ProdClosing) (ss_poll s)"

lemma poll_ok_cong:
  assumes "poll_ok cl ne h co cg p" "cl' = cl" "ne' \<longrightarrow> ne" "h \<longrightarrow> h'" "co \<and> h \<longrightarrow> co'"
    "cg \<and> h \<longrightarrow> cg' \<or> co'"
  shows "poll_ok cl' ne' h' co' cg' p"
  using assms by (cases "(cl, ne, h, co, cg, p)" rule: poll_ok.cases) auto

text \<open>The calls on the ring and on the waker, by the interfaces of their theories.\<close>

lemma sp_pop_cases:
  assumes "rg_queue cap (sp_queue s) q" "sp_pop s = (s', x)"
  shows "rg_queue cap (sp_queue s') (tl q) \<and> x = (case q of [] \<Rightarrow> None | y # ys \<Rightarrow> Some y)
    \<and> sp_waker s' = sp_waker s \<and> sp_producer_closed s' = sp_producer_closed s"
  using assms(2) rg.refines [OF assms(1), of PopLoad]
  by (cases q) (auto simp: sp_pop_def split: prod.splits)

lemma sp_ring_push_cases:
  assumes "rg_queue cap (sp_queue s) q" "sp_ring_push x ow s = (s', res)"
  shows "rg_queue cap (sp_queue s') (fst (bq_call cap (PushLoad x ow) q))
    \<and> res = snd (bq_call cap (PushLoad x ow) q)
    \<and> sp_waker s' = sp_waker s \<and> sp_producer_closed s' = sp_producer_closed s"
  using assms(2) rg.refines [OF assms(1), of "PushLoad x ow"]
  by (auto simp: sp_ring_push_def simp del: bq_call.simps split: prod.splits)

lemma sp_ring_push_ok:
  assumes "rg_queue cap (sp_queue s) q" "sp_ring_push x ow s = (s', PushOk d)"
  shows "(\<exists>q'. rg_queue cap (sp_queue s') (q' @ [x])
      \<and> q = (case d of None \<Rightarrow> [] | Some y \<Rightarrow> [y]) @ q')
    \<and> sp_waker s' = sp_waker s \<and> sp_producer_closed s' = sp_producer_closed s"
  using sp_ring_push_cases [OF assms] rg.bounded [OF assms(1)]
  by (cases q) (auto split: if_splits)

lemma sp_ring_push_err:
  assumes "rg_queue cap (sp_queue s) q" "sp_ring_push x ow s = (s', PushErr y)"
  shows "rg_queue cap (sp_queue s') q \<and> y = x \<and> length q = cap \<and> \<not> ow
    \<and> sp_waker s' = sp_waker s \<and> sp_producer_closed s' = sp_producer_closed s"
  using sp_ring_push_cases [OF assms] rg.bounded [OF assms(1)]
  by (auto split: if_splits)

lemma sp_wake_cases:
  assumes "aw_state (sp_waker s) = WAITING" "sp_wake ww s = (s', ws)"
  shows "sp_queue s' = sp_queue s \<and> sp_producer_closed s' = sp_producer_closed s
    \<and> aw_state (sp_waker s') = WAITING \<and> aw_cell (sp_waker s') = None
    \<and> ws = (case aw_cell (sp_waker s) of Some w \<Rightarrow> [w] | None \<Rightarrow> [])"
  using assms aw.wake_idle [OF assms(1), of ww] aw.wake_slot [OF assms(1), of ww]
    aw.wake_log [OF assms(1), of ww]
  by (auto simp: sp_wake_def split: prod.splits)

lemma sp_register_cases:
  assumes "aw_state (sp_waker s) = WAITING" "sp_register ww w s = (s', ws)"
  shows "sp_queue s' = sp_queue s \<and> sp_producer_closed s' = sp_producer_closed s
    \<and> aw_state (sp_waker s') = WAITING
    \<and> (\<exists>w'. aw_cell (sp_waker s') = Some w' \<and> wakes_task ww w w') \<and> ws = []"
  using assms aw.register_idle [OF assms(1), of ww w] aw.register_slot [OF assms(1), of ww w]
    aw.register_silent [OF assms(1), of ww w]
  by (auto simp: sp_register_def wakes_task_def split: prod.splits)

lemma spsc_inv_poll:
  assumes inv: "spsc_inv ww cap q s" and pc: "ss_poll s = Some pc"
    and st: "sp_poll_step ww (ss_cur s) (ss_spsc s) pc = (sp, pc', ws)"
  shows "\<exists>q'. spsc_inv ww cap q' (s\<lparr>ss_spsc := sp, ss_poll := Some pc',
       ss_removed := ss_removed s @ polled_item pc pc',
       ss_notified := (ss_notified s \<or> (\<exists>w \<in> set ws. wakes_task ww (ss_cur s) w))\<rparr>)"
proof -
  have rq: "rg_queue cap (sp_queue (ss_spsc s)) q" and wt: "aw_state (sp_waker (ss_spsc s)) = WAITING"
    using inv by (auto simp: spsc_inv_def)
  show ?thesis
  proof (cases "pc \<in> {PollFirst, PollSecond, PollDrain}")
    case True
    obtain sp' x where pop: "sp_pop (ss_spsc s) = (sp', x)" by (cases "sp_pop (ss_spsc s)")
    have d: "rg_queue cap (sp_queue sp') (tl q)" "sp_waker sp' = sp_waker (ss_spsc s)"
      "sp_producer_closed sp' = sp_producer_closed (ss_spsc s)"
      "x = (case q of [] \<Rightarrow> None | y # ys \<Rightarrow> Some y)"
      using sp_pop_cases [OF rq pop] by auto
    show ?thesis
    proof (rule exI [of _ "tl q"], cases q)
      case Nil
      then show "spsc_inv ww cap (tl q) (s\<lparr>ss_spsc := sp, ss_poll := Some pc',
          ss_removed := ss_removed s @ polled_item pc pc',
          ss_notified := (ss_notified s \<or> (\<exists>w \<in> set ws. wakes_task ww (ss_cur s) w))\<rparr>)"
        using True d inv pc st pop by (cases pc) (auto simp: spsc_inv_def cell_good_def)
    next
      case (Cons y ys)
      then show "spsc_inv ww cap (tl q) (s\<lparr>ss_spsc := sp, ss_poll := Some pc',
          ss_removed := ss_removed s @ polled_item pc pc',
          ss_notified := (ss_notified s \<or> (\<exists>w \<in> set ws. wakes_task ww (ss_cur s) w))\<rparr>)"
        using True d inv pc st pop by (cases pc) (auto simp: spsc_inv_def cell_good_def)
    qed
  next
    case False
    obtain sp' ws' where reg: "sp_register ww (ss_cur s) (ss_spsc s) = (sp', ws')"
      by (cases "sp_register ww (ss_cur s) (ss_spsc s)")
    have "spsc_inv ww cap q (s\<lparr>ss_spsc := sp, ss_poll := Some pc',
       ss_removed := ss_removed s @ polled_item pc pc',
       ss_notified := (ss_notified s \<or> (\<exists>w \<in> set ws. wakes_task ww (ss_cur s) w))\<rparr>)"
      using sp_register_cases [OF wt reg] inv pc st reg False
      by (cases pc) (auto simp: spsc_inv_def cell_good_def sp_is_closed_def split: if_splits)
    then show ?thesis ..
  qed
qed

lemma spsc_inv_wake:
  assumes inv: "spsc_inv ww cap q s" and ph: "ss_prod s = ProdWake \<or> ss_prod s = ProdClosing"
    and st: "sp_wake ww (ss_spsc s) = (sp, ws)"
    and p': "p' = (if ss_prod s = ProdWake then ProdIdle else ProdGone)"
  shows "spsc_inv ww cap q (s\<lparr>ss_spsc := sp, ss_prod := p',
       ss_notified := (ss_notified s \<or> (\<exists>w \<in> set ws. wakes_task ww (ss_cur s) w))\<rparr>)"
proof -
  have wt: "aw_state (sp_waker (ss_spsc s)) = WAITING" using inv by (auto simp: spsc_inv_def)
  note W = sp_wake_cases [OF wt st]
  have n: "ss_notified s \<or> cell_good ww s \<longleftrightarrow> ss_notified s \<or> (\<exists>w \<in> set ws. wakes_task ww (ss_cur s) w)"
    using W by (auto simp: cell_good_def split: option.splits)
  let ?n = "ss_notified s \<or> (\<exists>w \<in> set ws. wakes_task ww (ss_cur s) w)"
  have "poll_ok (ss_prod s = ProdClosing \<or> ss_prod s = ProdGone) (q \<noteq> []) ?n
       (ss_notified s \<or> ss_prod s = ProdWake) (ss_prod s = ProdClosing) (ss_poll s)"
    using inv unfolding spsc_inv_def n by blast
  then have "poll_ok (p' = ProdClosing \<or> p' = ProdGone) (q \<noteq> []) (?n \<or> g) (?n \<or> p' = ProdWake)
      (p' = ProdClosing) (ss_poll s)" for g
    by (rule poll_ok_cong) (use W p' ph in auto)
  then show ?thesis using W inv ph p' by (auto simp: spsc_inv_def)
qed

lemma spsc_inv_push:
  assumes inv: "spsc_inv ww cap q s" and ph: "ss_prod s = ProdIdle"
    and st: "sp_ring_push x ow (ss_spsc s) = (sp, PushOk d)"
    and t: "t = s\<lparr>ss_spsc := sp, ss_prod := ProdWake,
       ss_offered := ss_offered s @ [x], ss_sent := ss_sent s @ [x],
       ss_removed := ss_removed s @ (case d of Some y \<Rightarrow> [(False, y)] | None \<Rightarrow> [])\<rparr>"
  shows "\<exists>q'. spsc_inv ww cap q' t"
proof -
  have rq: "rg_queue cap (sp_queue (ss_spsc s)) q" using inv by (auto simp: spsc_inv_def)
  obtain q' where Q: "rg_queue cap (sp_queue sp) (q' @ [x])"
    "q = (case d of None \<Rightarrow> [] | Some y \<Rightarrow> [y]) @ q'"
    "sp_waker sp = sp_waker (ss_spsc s)" "sp_producer_closed sp = sp_producer_closed (ss_spsc s)"
    using sp_ring_push_ok [OF rq st] by auto
  have "poll_ok False True (ss_notified s \<or> cell_good ww t) True False (ss_poll s)"
    using inv ph t Q(3) unfolding spsc_inv_def
    by (cases "(True, True, True, True, True, ss_poll s)" rule: poll_ok.cases)
      (auto simp: cell_good_def)
  then show ?thesis
    using inv ph t Q by (intro exI [of _ "q' @ [x]"]) (cases d; simp add: spsc_inv_def)
qed

lemma spsc_inv_full:
  assumes inv: "spsc_inv ww cap q s" and st: "sp_ring_push x ow (ss_spsc s) = (sp, PushErr y)"
  shows "spsc_inv ww cap q (s\<lparr>ss_spsc := sp,
       ss_offered := ss_offered s @ [x], ss_refused := ss_refused s @ [y]\<rparr>)"
proof -
  have rq: "rg_queue cap (sp_queue (ss_spsc s)) q" using inv by (auto simp: spsc_inv_def)
  show ?thesis using sp_ring_push_err [OF rq st] inv by (simp add: spsc_inv_def cell_good_def)
qed

lemma spsc_inv_drop:
  assumes inv: "spsc_inv ww cap q s" and ph: "ss_prod s = ProdIdle"
  shows "spsc_inv ww cap q (s\<lparr>ss_spsc := (ss_spsc s)\<lparr>sp_producer_closed := True\<rparr>, ss_prod := ProdClosing\<rparr>)"
proof -
  have "poll_ok True (q \<noteq> []) (ss_notified s \<or> cell_good ww s) (ss_notified s) True (ss_poll s)"
    using inv ph unfolding spsc_inv_def
    by (cases "(True, True, True, True, True, ss_poll s)" rule: poll_ok.cases)
      (auto simp: cell_good_def)
  then show ?thesis using inv ph by (simp add: spsc_inv_def cell_good_def)
qed

text \<open>A whole call of the producer is its access to the shared data followed by its \<open>wake\<close>.\<close>

lemma spsc_inv_pushed:
  assumes inv: "spsc_inv ww cap q s" and ph: "ss_prod s = ProdIdle"
    and st: "sp_ring_push x ow (ss_spsc s) = (sp, PushOk d)" and wk: "sp_wake ww sp = (sp', ws)"
    and t: "t = s\<lparr>ss_spsc := sp', ss_offered := ss_offered s @ [x], ss_sent := ss_sent s @ [x],
       ss_removed := ss_removed s @ (case d of Some y \<Rightarrow> [(False, y)] | None \<Rightarrow> []),
       ss_notified := (ss_notified s \<or> (\<exists>w \<in> set ws. wakes_task ww (ss_cur s) w))\<rparr>"
  shows "\<exists>q'. spsc_inv ww cap q' t"
proof -
  define u where "u = s\<lparr>ss_spsc := sp, ss_prod := ProdWake,
       ss_offered := ss_offered s @ [x], ss_sent := ss_sent s @ [x],
       ss_removed := ss_removed s @ (case d of Some y \<Rightarrow> [(False, y)] | None \<Rightarrow> [])\<rparr>"
  obtain q' where q': "spsc_inv ww cap q' u" using spsc_inv_push [OF inv ph st u_def] by blast
  have "spsc_inv ww cap q' (u\<lparr>ss_spsc := sp', ss_prod := ProdIdle,
       ss_notified := (ss_notified u \<or> (\<exists>w \<in> set ws. wakes_task ww (ss_cur u) w))\<rparr>)"
    by (rule spsc_inv_wake [OF q']) (simp_all add: u_def wk)
  also have "u\<lparr>ss_spsc := sp', ss_prod := ProdIdle,
       ss_notified := (ss_notified u \<or> (\<exists>w \<in> set ws. wakes_task ww (ss_cur u) w))\<rparr> = t"
    using ph by (simp add: u_def t)
  finally show ?thesis by blast
qed

lemma sp_push_forms:
  assumes "sp_push ww x s = Ret (s', res, ws)"
  shows "(\<exists>sp d. sp_ring_push x False s = (sp, PushOk d) \<and> sp_wake ww sp = (s', ws) \<and> res = Inr ())
    \<or> (\<exists>y. sp_ring_push x False s = (s', PushErr y) \<and> res = Inl y \<and> ws = [])"
  using assms by (auto simp: sp_push_def split: prod.splits rg_pc.splits)

lemma sp_push_overwrite_forms:
  assumes "sp_push_overwrite ww x s = Ret (s', d, ws)"
  shows "\<exists>sp. sp_ring_push x True s = (sp, PushOk d) \<and> sp_wake ww sp = (s', ws)"
  using assms by (auto simp: sp_push_overwrite_def split: prod.splits rg_pc.splits)

lemma spsc_inv_push_call:
  assumes inv: "spsc_inv ww cap q s" and ph: "ss_prod s = ProdIdle"
    and st: "sp_push ww x (ss_spsc s) = Ret (sp, res, ws)"
  shows "\<exists>q'. spsc_inv ww cap q' (s\<lparr>ss_spsc := sp, ss_offered := ss_offered s @ [x],
       ss_refused := ss_refused s @ (case res of Inl y \<Rightarrow> [y] | Inr u \<Rightarrow> []),
       ss_sent := ss_sent s @ (case res of Inl y \<Rightarrow> [] | Inr u \<Rightarrow> [x]),
       ss_notified := (ss_notified s \<or> (\<exists>w \<in> set ws. wakes_task ww (ss_cur s) w))\<rparr>)"
  using sp_push_forms [OF st]
proof (elim disjE exE conjE)
  fix sp' d assume p: "sp_ring_push x False (ss_spsc s) = (sp', PushOk d)" "sp_wake ww sp' = (sp, ws)"
    "res = Inr ()"
  have rq: "rg_queue cap (sp_queue (ss_spsc s)) q" using inv by (auto simp: spsc_inv_def)
  have "d = None" using sp_ring_push_cases [OF rq p(1)] by (auto split: if_splits)
  then show ?thesis using spsc_inv_pushed [OF inv ph p(1,2) refl] p(3) by simp
next
  fix y assume p: "sp_ring_push x False (ss_spsc s) = (sp, PushErr y)" "res = Inl y" "ws = []"
  then show ?thesis using spsc_inv_full [OF inv p(1)] by auto
qed

lemma spsc_inv_drop_call:
  assumes inv: "spsc_inv ww cap q s" and ph: "ss_prod s = ProdIdle"
    and st: "sp_drop_producer ww (ss_spsc s) = (sp, ws)"
  shows "spsc_inv ww cap q (s\<lparr>ss_spsc := sp, ss_prod := ProdGone,
       ss_notified := (ss_notified s \<or> (\<exists>w \<in> set ws. wakes_task ww (ss_cur s) w))\<rparr>)"
  using spsc_inv_wake [OF spsc_inv_drop [OF inv ph], of sp ws ProdGone] st
  by (simp add: sp_drop_producer_def)

lemma spsc_step_inv:
  assumes "spsc_step ww s t" "spsc_inv ww cap q s"
  shows "\<exists>q'. spsc_inv ww cap q' t"
  using assms(1)
proof cases
  case (consumer_poll pc sp pc' ws)
  then show ?thesis using spsc_inv_poll [OF assms(2)] by simp
next
  case (producer_wake sp ws)
  then show ?thesis using spsc_inv_wake [OF assms(2)] by auto
next
  case (producer_drop_wake sp ws)
  then show ?thesis using spsc_inv_wake [OF assms(2)] by auto
next
  case (consumer_begin w)
  then show ?thesis using assms(2) by (intro exI [of _ q]) (simp add: spsc_inv_def cell_good_def)
next
  case (consumer_pop sp x)
  have rq: "rg_queue cap (sp_queue (ss_spsc s)) q" using assms(2) by (auto simp: spsc_inv_def)
  note P = sp_pop_cases [OF rq consumer_pop(3)]
  have "poll_ok (ss_prod s = ProdClosing \<or> ss_prod s = ProdGone) (tl q \<noteq> []) (ss_notified s \<or> cell_good ww t)
       (ss_notified s \<or> ss_prod s = ProdWake) (ss_prod s = ProdClosing) (ss_poll s)"
    by (rule poll_ok_cong [of "ss_prod s = ProdClosing \<or> ss_prod s = ProdGone" "q \<noteq> []" "ss_notified s \<or> cell_good ww s"
          "ss_notified s \<or> ss_prod s = ProdWake" "ss_prod s = ProdClosing"])
      (use assms(2) P consumer_pop(1) in \<open>auto simp: spsc_inv_def cell_good_def\<close>)
  then show ?thesis
    using P assms(2) consumer_pop(1)
    by (intro exI [of _ "tl q"]) (cases q; simp add: spsc_inv_def)
next
  case (producer_push x ow sp d)
  show ?thesis using spsc_inv_push [OF assms(2) producer_push(2,3,1)] .
next
  case (producer_full x ow sp y)
  show ?thesis unfolding producer_full(1) using spsc_inv_full [OF assms(2) producer_full(3)] ..
next
  case producer_drop
  show ?thesis unfolding producer_drop(1) using spsc_inv_drop [OF assms(2) producer_drop(2)] ..
next
  case (push_call x sp res ws)
  show ?thesis unfolding push_call(1) using spsc_inv_push_call [OF assms(2) push_call(2,3)] .
next
  case (overwrite_call x sp d ws)
  obtain sp' where "sp_ring_push x True (ss_spsc s) = (sp', PushOk d)" "sp_wake ww sp' = (sp, ws)"
    using sp_push_overwrite_forms [OF overwrite_call(3)] by blast
  then show ?thesis using spsc_inv_pushed [OF assms(2) overwrite_call(2) _ _ overwrite_call(1)] by blast
next
  case (drop_call sp ws)
  show ?thesis unfolding drop_call(1) using spsc_inv_drop_call [OF assms(2) drop_call(2,3)] ..
qed

lemma spsc_reachable_inv:
  assumes "0 < capacity" "capacity \<le> 2 ^ 60" "spsc_reachable ww capacity s"
  shows "\<exists>q. spsc_inv ww capacity q s"
  using assms(3)
proof (induction rule: spsc_reachable.induct)
  case (spsc_start w)
  have "rg_queue capacity (rg_new capacity) []"
    using rg_new_rep [OF assms(1,2)] by (auto simp: rg_queue_def)
  then show ?case by (auto simp: spsc_inv_def spsc_init_def aw_new_def)
next
  case (spsc_next s t)
  then show ?case using spsc_step_inv by blast
qed

section \<open>Schedules\<close>

datatype ('a, 'w) spsc_cmd = CPoll 'w | CPollStep | CPop
  | PPush 'a bool | PWake | PDrop | PPushCall 'a | POverwriteCall 'a | PDropCall

fun spsc_do :: "('w \<Rightarrow> 'w \<Rightarrow> bool) \<Rightarrow> ('a, 'w) spsc_cmd \<Rightarrow> ('a, 'w) spsc_sys \<Rightarrow> ('a, 'w) spsc_sys" where
  "spsc_do ww (CPoll w) s =
     (case ss_poll s of
        None \<Rightarrow> s\<lparr>ss_poll := Some PollFirst, ss_cur := w, ss_notified := False\<rparr>
      | Some (PollDone r) \<Rightarrow> s\<lparr>ss_poll := Some PollFirst, ss_cur := w, ss_notified := False\<rparr>
      | _ \<Rightarrow> s)"
| "spsc_do ww CPollStep s =
     (case ss_poll s of
        None \<Rightarrow> s
      | Some pc \<Rightarrow> (case sp_poll_step ww (ss_cur s) (ss_spsc s) pc of (sp, pc', ws) \<Rightarrow>
          s\<lparr>ss_spsc := sp, ss_poll := Some pc', ss_removed := ss_removed s @ polled_item pc pc',
            ss_notified := (ss_notified s \<or> (\<exists>w \<in> set ws. wakes_task ww (ss_cur s) w))\<rparr>))"
| "spsc_do ww CPop s =
     (if ss_poll s = None
      then (case sp_pop (ss_spsc s) of (sp, x) \<Rightarrow> s\<lparr>ss_spsc := sp,
        ss_removed := ss_removed s @ (case x of Some y \<Rightarrow> [(True, y)] | None \<Rightarrow> [])\<rparr>)
      else s)"
| "spsc_do ww (PPush x ow) s =
     (if ss_prod s = ProdIdle
      then (case sp_ring_push x ow (ss_spsc s) of
          (sp, PushOk d) \<Rightarrow> s\<lparr>ss_spsc := sp, ss_prod := ProdWake,
             ss_offered := ss_offered s @ [x], ss_sent := ss_sent s @ [x],
             ss_removed := ss_removed s @ (case d of Some y \<Rightarrow> [(False, y)] | None \<Rightarrow> [])\<rparr>
        | (sp, PushErr y) \<Rightarrow> s\<lparr>ss_spsc := sp,
             ss_offered := ss_offered s @ [x], ss_refused := ss_refused s @ [y]\<rparr>
        | _ \<Rightarrow> s)
      else s)"
| "spsc_do ww PWake s =
     (if ss_prod s = ProdWake \<or> ss_prod s = ProdClosing
      then (case sp_wake ww (ss_spsc s) of (sp, ws) \<Rightarrow> s\<lparr>ss_spsc := sp,
        ss_prod := (if ss_prod s = ProdWake then ProdIdle else ProdGone),
        ss_notified := (ss_notified s \<or> (\<exists>w \<in> set ws. wakes_task ww (ss_cur s) w))\<rparr>)
      else s)"
| "spsc_do ww PDrop s =
     (if ss_prod s = ProdIdle
      then s\<lparr>ss_spsc := (ss_spsc s)\<lparr>sp_producer_closed := True\<rparr>, ss_prod := ProdClosing\<rparr> else s)"
| "spsc_do ww (PPushCall x) s =
     (if ss_prod s = ProdIdle
      then (case sp_push ww x (ss_spsc s) of
          Ret (sp, res, ws) \<Rightarrow> s\<lparr>ss_spsc := sp, ss_offered := ss_offered s @ [x],
            ss_refused := ss_refused s @ (case res of Inl y \<Rightarrow> [y] | Inr u \<Rightarrow> []),
            ss_sent := ss_sent s @ (case res of Inl y \<Rightarrow> [] | Inr u \<Rightarrow> [x]),
            ss_notified := (ss_notified s \<or> (\<exists>w \<in> set ws. wakes_task ww (ss_cur s) w))\<rparr>
        | _ \<Rightarrow> s)
      else s)"
| "spsc_do ww (POverwriteCall x) s =
     (if ss_prod s = ProdIdle
      then (case sp_push_overwrite ww x (ss_spsc s) of
          Ret (sp, d, ws) \<Rightarrow> s\<lparr>ss_spsc := sp, ss_offered := ss_offered s @ [x], ss_sent := ss_sent s @ [x],
            ss_removed := ss_removed s @ (case d of Some y \<Rightarrow> [(False, y)] | None \<Rightarrow> []),
            ss_notified := (ss_notified s \<or> (\<exists>w \<in> set ws. wakes_task ww (ss_cur s) w))\<rparr>
        | _ \<Rightarrow> s)
      else s)"
| "spsc_do ww PDropCall s =
     (if ss_prod s = ProdIdle
      then (case sp_drop_producer ww (ss_spsc s) of (sp, ws) \<Rightarrow> s\<lparr>ss_spsc := sp, ss_prod := ProdGone,
        ss_notified := (ss_notified s \<or> (\<exists>w \<in> set ws. wakes_task ww (ss_cur s) w))\<rparr>)
      else s)"

lemma spsc_do_step: "spsc_do ww c s = s \<or> spsc_step ww s (spsc_do ww c s)"
proof (cases c)
  case (CPoll w)
  then show ?thesis
    using consumer_begin [of s ww w]
    by (auto simp: consumer_idle_def split: option.splits sp_poll_pc.splits)
next
  case CPollStep
  then show ?thesis by (auto split: option.splits prod.splits intro: consumer_poll)
next
  case CPop
  then show ?thesis by (auto split: prod.splits simp: consumer_idle_def intro: consumer_pop)
next
  case (PPush x ow)
  then show ?thesis
    by (auto split: prod.splits rg_pc.splits intro: producer_push producer_full)
next
  case PWake
  then show ?thesis
    by (auto split: prod.splits intro: producer_wake producer_drop_wake)
next
  case PDrop
  then show ?thesis by (auto intro: producer_drop)
next
  case (PPushCall x)
  then show ?thesis using push_call [of s ww x]
    by (cases "sp_push ww x (ss_spsc s)") auto
next
  case (POverwriteCall x)
  then show ?thesis using overwrite_call [of s ww x]
    by (cases "sp_push_overwrite ww x (ss_spsc s)") auto
next
  case PDropCall
  then show ?thesis by (auto split: prod.splits intro: drop_call)
qed

lemma spsc_sched_reachable:
  "spsc_reachable ww capacity s \<Longrightarrow> spsc_reachable ww capacity (fold (spsc_do ww) cs s)"
proof (induction cs arbitrary: s)
  case (Cons c cs)
  have "spsc_reachable ww capacity (spsc_do ww c s)"
    using spsc_do_step [of ww c s] Cons.prems by (auto intro: spsc_next)
  then show ?case using Cons.IH by simp
qed simp

section \<open>Properties\<close>

lemma sp_push_returns:
  assumes "rg_queue cap (sp_queue s) q"
  shows "\<exists>s' ws. sp_push ww x s = Ret (s', if length q < cap then Inr () else Inl x, ws)"
    and "\<exists>s' ws. sp_push_overwrite ww x s
      = Ret (s', if length q < cap then None else Some (hd q), ws)"
proof -
  obtain s1 r1 where p: "sp_ring_push x False s = (s1, r1)" by (cases "sp_ring_push x False s")
  obtain s2 r2 where w: "sp_ring_push x True s = (s2, r2)" by (cases "sp_ring_push x True s")
  have "0 < cap" using assms by (auto simp: rg_queue_def rg_rep_def cap_ok_def rg_capacity_def)
  then have ne: "q \<noteq> []" if "\<not> length q < cap" using that by auto
  show "\<exists>s' ws. sp_push ww x s = Ret (s', if length q < cap then Inr () else Inl x, ws)"
    using sp_ring_push_cases [OF assms p] p
    by (cases "sp_wake ww s1") (auto simp: sp_push_def split: if_splits)
  show "\<exists>s' ws. sp_push_overwrite ww x s
      = Ret (s', if length q < cap then None else Some (hd q), ws)"
    using sp_ring_push_cases [OF assms w] w ne
    by (cases "sp_wake ww s2"; cases q) (auto simp: sp_push_overwrite_def split: if_splits)
qed

text \<open>
  C16. Conservation and order, in every interleaving of the calls of the two sides: the items
  accepted so far are, in the order they were pushed, those that left the ring (delivered to the
  consumer or handed back by an overwrite) followed by those still buffered; every item given
  to a push was accepted or handed back by \<open>Err\<close>, not both; and the next \<open>push\<close> is
  accepted exactly when fewer than \<open>capacity\<close> items are buffered, the next \<open>push_overwrite\<close> hands back
  the oldest one exactly when it is full, and neither panics.
\<close>

theorem spsc_items_conserved:
  assumes "0 < capacity" and "capacity \<le> 2 ^ 60" and "spsc_reachable ww capacity s"
  shows "\<exists>q. rg_queue capacity (sp_queue (ss_spsc s)) q \<and> ss_sent s = map snd (ss_removed s) @ q
    \<and> mset (ss_offered s) = mset (ss_sent s) + mset (ss_refused s)
    \<and> (\<exists>s' ws. sp_push ww x (ss_spsc s) = Ret (s', if length q < capacity then Inr () else Inl x, ws))
    \<and> (\<exists>s' ws. sp_push_overwrite ww x (ss_spsc s)
         = Ret (s', if length q < capacity then None else Some (hd q), ws))"
proof -
  obtain q where q: "spsc_inv ww capacity q s" using spsc_reachable_inv [OF assms] by blast
  then have rq: "rg_queue capacity (sp_queue (ss_spsc s)) q" by (simp add: spsc_inv_def)
  show ?thesis using q sp_push_returns [OF rq] unfolding spsc_inv_def by blast
qed

text \<open>
  Two items into a ring of two slots, the poll takes the first, a third item fills the ring again,
  so that a fourth is refused and a fifth displaces the second.
\<close>

theorem spsc_items_conserved_witness:
  "let s = fold (spsc_do (=)) [PPush 1 False, PWake, CPoll 0, PPushCall 2, CPollStep,
      PPushCall 3, PPushCall 4, POverwriteCall 5] (spsc_init 2 (0::nat))
   in ss_removed s = [(True, 1::nat), (False, 2)] \<and> ss_sent s = [1, 2, 3, 5] \<and> ss_refused s = [4]
     \<and> (\<exists>q. rg_queue 2 (sp_queue (ss_spsc s)) q \<and> ss_sent s = map snd (ss_removed s) @ q)"
proof -
  define s where "s = fold (spsc_do (=)) [PPush (1::nat) False, PWake, CPoll 0, PPushCall 2, CPollStep,
      PPushCall 3, PPushCall 4, POverwriteCall 5] (spsc_init 2 (0::nat))"
  have r: "spsc_reachable (=) 2 s"
    unfolding s_def by (rule spsc_sched_reachable [OF spsc_start])
  have "ss_removed s = [(True, 1), (False, 2)] \<and> ss_sent s = [1, 2, 3, 5] \<and> ss_refused s = [4]"
    unfolding s_def by code_simp
  moreover have "\<exists>q. rg_queue 2 (sp_queue (ss_spsc s)) q \<and> ss_sent s = map snd (ss_removed s) @ q"
    using spsc_items_conserved [OF _ _ r, of 0] by auto
  ultimately show ?thesis unfolding Let_def s_def [symmetric] by blast
qed

text \<open>
  No lost wake-up: when \<open>poll_pop\<close> returned Pending and the producer is not between an
  access to the shared data and its \<open>wake\<close>, then either the task has been woken since that
  poll began, or there is nothing to report: no item is buffered and the producer lives.
\<close>

theorem spsc_no_lost_wakeup:
  assumes "0 < capacity" and "capacity \<le> 2 ^ 60" and "spsc_reachable ww capacity s"
    and "ss_poll s = Some (PollDone None)" and "ss_prod s = ProdIdle \<or> ss_prod s = ProdGone"
  shows "ss_notified s
    \<or> (rg_queue capacity (sp_queue (ss_spsc s)) [] \<and> \<not> sp_is_closed (ss_spsc s))"
  using spsc_reachable_inv [OF assms(1-3)] assms(4,5)
  by (auto simp: spsc_inv_def sp_is_closed_def)

text \<open>The item arrives between the second pop of the poll and its return.\<close>

theorem spsc_no_lost_wakeup_witness:
  "let s = fold (spsc_do (=)) [CPoll 7, CPollStep, CPollStep, CPollStep, CPollStep,
      PPush (1::nat) False, CPollStep, PWake] (spsc_init 4 (0::nat))
   in ss_poll s = Some (PollDone None) \<and> ss_prod s = ProdIdle \<and> ss_notified s"
proof -
  define s where "s = fold (spsc_do (=)) [CPoll 7, CPollStep, CPollStep, CPollStep, CPollStep,
      PPush (1::nat) False, CPollStep, PWake] (spsc_init 4 (0::nat))"
  have r: "spsc_reachable (=) 4 s"
    unfolding s_def by (rule spsc_sched_reachable [OF spsc_start])
  have h: "ss_poll s = Some (PollDone None) \<and> ss_prod s = ProdIdle \<and> ss_sent s = [1]
      \<and> ss_removed s = []" unfolding s_def by code_simp
  obtain q where "rg_queue 4 (sp_queue (ss_spsc s)) q" "q = [1]"
    using spsc_reachable_inv [OF _ _ r] h by (auto simp: spsc_inv_def)
  then have "\<not> rg_queue 4 (sp_queue (ss_spsc s)) []"
    using rg.refines [of 4 "sp_queue (ss_spsc s)" "[]" LenRead]
      rg.refines [of 4 "sp_queue (ss_spsc s)" "[1]" LenRead] by auto
  then show ?thesis
    unfolding Let_def s_def [symmetric] using spsc_no_lost_wakeup [OF _ _ r] h by simp
qed

text \<open>
  The end of the ring is final: when a poll has resolved to \<open>None\<close> the producer was
  dropped, and every item it ever pushed has been delivered or displaced.
\<close>

theorem spsc_end_is_final:
  assumes "0 < capacity" and "capacity \<le> 2 ^ 60" and "spsc_reachable ww capacity s"
    and "ss_poll s = Some (PollDone (Some None))"
  shows "sp_is_closed (ss_spsc s) \<and> map snd (ss_removed s) = ss_sent s"
  using spsc_reachable_inv [OF assms(1-3)] assms(4)
  by (auto simp: spsc_inv_def sp_is_closed_def)

text \<open>The producer pushes and is dropped between the first pop and the test of the flag.\<close>

theorem spsc_end_is_final_witness:
  "let s = fold (spsc_do (=)) [CPoll 7, CPollStep, PPush (1::nat) False, PWake, PDrop, PWake,
      CPollStep, CPollStep, CPoll 7, CPollStep, CPollStep, CPollStep] (spsc_init 4 (0::nat))
   in ss_poll s = Some (PollDone (Some None)) \<and> ss_removed s = [(True, 1)]
     \<and> map snd (ss_removed s) = ss_sent s"
proof -
  define s where "s = fold (spsc_do (=)) [CPoll 7, CPollStep, PPush (1::nat) False, PWake, PDrop,
      PWake, CPollStep, CPollStep, CPoll 7, CPollStep, CPollStep, CPollStep] (spsc_init 4 (0::nat))"
  have r: "spsc_reachable (=) 4 s"
    unfolding s_def by (rule spsc_sched_reachable [OF spsc_start])
  have h: "ss_poll s = Some (PollDone (Some None)) \<and> ss_removed s = [(True, 1)]"
    unfolding s_def by code_simp
  then show ?thesis
    unfolding Let_def s_def [symmetric] using spsc_end_is_final [OF _ _ r] by simp
qed

end
