(* ===== verification/WakeProtocol.thy ===== *)
theory WakeProtocol
  imports WeakWaker
begin

text \<open>
  The protocol of the channels whose state is behind a lock: a task tests, registers on the
  channel's \<open>AtomicWaker\<close> and tests again; any number of other threads change the state in a
  critical section and then call \<open>wake\<close>. A critical section is one step, as the lock makes it;
  registration and wake go access by access, with the memory orderings of the waker. \<open>Mpsc\<close> and \<open>Oneshot\<close> are its clients, in
  \<open>FutureThreads\<close>.
\<close>

section \<open>The task and the signalling threads\<close>

datatype task_phase = TIdle | TTest1 | TRegister | TTest2 | TParked

record ('c, 'w) proto_sys =
  pt_chan :: 'c
  pt_wake :: "'w weak_sys"
  pt_phase :: task_phase
  pt_cur :: 'w
  pt_woke :: bool

definition proto_init :: "'c \<Rightarrow> 'w \<Rightarrow> ('c, 'w) proto_sys" where
  "proto_init c w = \<lparr>pt_chan = c, pt_wake = wk_init, pt_phase = TIdle, pt_cur = w, pt_woke = False\<rparr>"

text \<open>
  \<open>test\<close> is the critical section of the task's test, with whether it found nothing; \<open>own\<close> are
  other calls of the task, made while it is not in its poll; \<open>act\<close> is the critical section of
  another thread, with whether a wake follows it.
\<close>

datatype ('d, 'e, 'w) proto_cmd =
    TaskPoll 'w
  | TaskStep nat
  | TaskOwn 'd
  | Signal nat 'e
  | SignalStep nat nat

definition pt_access :: "('w \<Rightarrow> 'w \<Rightarrow> bool) \<Rightarrow> nat \<Rightarrow> nat \<Rightarrow> ('c, 'w) proto_sys \<Rightarrow> ('c, 'w) proto_sys" where
  "pt_access ww t j s =
     (case aw_step ww (wr_aw (wk_reach (pt_wake s))) (wk_pc (pt_wake s) t) of (a, p, ws) \<Rightarrow>
       s\<lparr>pt_wake := wk_access ww t j (pt_wake s),
         pt_woke := (pt_woke s \<or> list_ex (wakes_task ww (pt_cur s)) ws)\<rparr>)"

fun proto_do :: "('c \<Rightarrow> 'c \<times> bool) \<Rightarrow> ('d \<Rightarrow> 'c \<Rightarrow> 'c) \<Rightarrow> ('e \<Rightarrow> 'c \<Rightarrow> 'c \<times> bool)
    \<Rightarrow> ('w \<Rightarrow> 'w \<Rightarrow> bool) \<Rightarrow> ('d, 'e, 'w) proto_cmd \<Rightarrow> ('c, 'w) proto_sys \<Rightarrow> ('c, 'w) proto_sys" where
  "proto_do test own act ww (TaskPoll w) s =
     (if pt_phase s = TIdle \<or> pt_phase s = TParked
      then s\<lparr>pt_phase := TTest1, pt_cur := w, pt_woke := False\<rparr> else s)"
| "proto_do test own act ww (TaskStep j) s =
     (case pt_phase s of
        TTest1 \<Rightarrow> (case test (pt_chan s) of (c, pending) \<Rightarrow>
          if pending then s\<lparr>pt_chan := c, pt_phase := TRegister,
            pt_wake := wk_do ww (WkRegister 0 (pt_cur s)) (pt_wake s)\<rparr>
          else s\<lparr>pt_chan := c, pt_phase := TIdle\<rparr>)
      | TRegister \<Rightarrow> (case wk_pc (pt_wake s) 0 of
          AwDone \<Rightarrow> s\<lparr>pt_phase := TTest2\<rparr> | _ \<Rightarrow> pt_access ww 0 j s)
      | TTest2 \<Rightarrow> (case test (pt_chan s) of (c, pending) \<Rightarrow>
          s\<lparr>pt_chan := c, pt_phase := (if pending then TParked else TIdle)\<rparr>)
      | _ \<Rightarrow> s)"
| "proto_do test own act ww (TaskOwn d) s =
     (if pt_phase s = TIdle \<or> pt_phase s = TParked
      then s\<lparr>pt_chan := own d (pt_chan s), pt_phase := TIdle\<rparr> else s)"
| "proto_do test own act ww (Signal t e) s =
     (case wk_pc (pt_wake s) t of
        AwDone \<Rightarrow> if t = 0 then s else (case act e (pt_chan s) of (c, wakes) \<Rightarrow>
          if wakes then s\<lparr>pt_chan := c, pt_wake := wk_do ww (WkWake t) (pt_wake s)\<rparr>
          else s\<lparr>pt_chan := c\<rparr>)
      | _ \<Rightarrow> s)"
| "proto_do test own act ww (SignalStep t j) s = (if t = 0 then s else pt_access ww t j s)"

text \<open>A thread that a schedule does not mention does nothing.\<close>

fun proto_thread :: "('d, 'e, 'w) proto_cmd \<Rightarrow> nat" where
  "proto_thread (Signal t e) = t"
| "proto_thread (SignalStep t j) = t"
| "proto_thread _ = 0"

lemma proto_others:
  assumes "\<forall>cmd \<in> set cs. proto_thread cmd \<noteq> t" "t \<noteq> 0"
  shows "wk_pc (pt_wake (fold (proto_do test own act ww) cs s)) t = wk_pc (pt_wake s) t"
  using assms
proof (induction cs arbitrary: s)
  case (Cons cmd cs)
  have acc: "wk_pc (pt_wake (pt_access ww u j r)) t = wk_pc (pt_wake r) t" if "u \<noteq> t" for u j r
    using that by (simp add: pt_access_def wk_access_others split_beta)
  have "wk_pc (pt_wake (proto_do test own act ww cmd s)) t = wk_pc (pt_wake s) t"
    using Cons.prems acc
    by (cases cmd) (auto split: task_phase.splits prod.splits aw_pc.splits)
  then show ?case using Cons by simp
qed simp

section \<open>The laws, and what follows from them\<close>

text \<open>
  A test that finds nothing leaves nothing to report, and a critical section that brings
  something to report is followed by a wake.
\<close>

locale wake_protocol =
  fixes news :: "'c \<Rightarrow> bool"
    and test :: "'c \<Rightarrow> 'c \<times> bool"
    and act :: "'e \<Rightarrow> 'c \<Rightarrow> 'c \<times> bool"
  assumes test_pending: "test c = (c', True) \<Longrightarrow> \<not> news c'"
    and act_silent: "act e c = (c', False) \<Longrightarrow> news c' \<Longrightarrow> news c"
begin

definition coming :: "('c, 'w) proto_sys \<Rightarrow> bool" where
  "coming s \<longleftrightarrow> pt_woke s \<or> wr_signal (wk_reach (pt_wake s)) \<or> (\<exists>t. wk_pc (pt_wake s) t = TakeFetchOr)"

abbreviation registered :: "('c, 'w) proto_sys \<Rightarrow> bool" where
  "registered s \<equiv> tw_registered (pt_cur s) (wk_reach (pt_wake s)) (pt_woke s)"

fun phase_ok :: "('c, 'w) proto_sys \<Rightarrow> task_phase \<Rightarrow> bool" where
  "phase_ok s TRegister \<longleftrightarrow>
     tw_register_ok (pt_cur s) (wk_reach (pt_wake s)) (pt_woke s) (wk_pc (pt_wake s) 0)"
| "phase_ok s TTest2 \<longleftrightarrow> registered s"
| "phase_ok s TParked \<longleftrightarrow> registered s \<and> (news (pt_chan s) \<longrightarrow> coming s)"
| "phase_ok s _ \<longleftrightarrow> True"

definition inv :: "('w \<Rightarrow> 'w \<Rightarrow> bool) \<Rightarrow> ('c, 'w) proto_sys \<Rightarrow> bool" where
  "inv ww s \<longleftrightarrow> wk_ok ww (pt_wake s) \<and> wk_task_ok (pt_wake s)
     \<and> (pt_phase s \<noteq> TRegister \<longrightarrow> wk_pc (pt_wake s) 0 = AwDone) \<and> phase_ok s (pt_phase s)"

lemma inv_init: "inv ww (proto_init c w)"
  using wk_init_ok [of ww] by (simp add: inv_def proto_init_def wk_task_ok_def)
    (simp add: wk_init_def wr_init_def tw_others_def)

lemma access_pt:
  "pt_chan (pt_access ww t j s) = pt_chan s" "pt_phase (pt_access ww t j s) = pt_phase s"
  "pt_cur (pt_access ww t j s) = pt_cur s" "pt_wake (pt_access ww t j s) = wk_access ww t j (pt_wake s)"
  by (auto simp: pt_access_def split: prod.splits)

lemma inv_signal_step:
  assumes i: "inv ww s" and t: "t \<noteq> 0"
  shows "inv ww (pt_access ww t j s)"
proof -
  let ?s' = "pt_access ww t j s"
  have w: "wk_ok ww (pt_wake s)" "wk_task_ok (pt_wake s)" using i by (auto simp: inv_def)
  obtain a p ws where st: "aw_step ww (wr_aw (wk_reach (pt_wake s))) (wk_pc (pt_wake s) t) = (a, p, ws)"
    by (cases "aw_step ww (wr_aw (wk_reach (pt_wake s))) (wk_pc (pt_wake s) t)")
  note O = wk_others_step [OF w t st, where j = j] and A = access_pt
  have acc: "tw_access ww t (pt_cur s) (wk_reach (pt_wake s), pt_woke s) = (wk_reach (pt_wake ?s'), pt_woke ?s')"
    using O(1) st by (simp add: pt_access_def)
  have oth: "tw_others (wk_reach (pt_wake s))" using w(2) by (simp add: wk_task_ok_def)
  note F = tw_wake_access [OF wk_okD(1) [OF w(1)] oth t acc]
  have c: "coming ?s'" if "coming s"
  proof -
    from that consider "pt_woke s \<or> wr_signal (wk_reach (pt_wake s))" | u where "wk_pc (pt_wake s) u = TakeFetchOr"
      by (auto simp: coming_def)
    then show ?thesis
    proof cases
      case (2 u)
      then show ?thesis using F(2) F(5) [of u] unfolding coming_def by (cases "u = t") metis+
    qed (use F(2,3) in \<open>auto simp: coming_def\<close>)
  qed
  have "phase_ok ?s' (pt_phase s)"
  proof (cases "pt_phase s")
    case TRegister
    then have ok: "tw_register_ok (pt_cur s) (wk_reach (pt_wake s)) (pt_woke s) (wk_pc (pt_wake s) 0)"
      using i by (simp add: inv_def)
    have "wk_pc (pt_wake ?s') 0 = wk_pc (pt_wake s) 0" using F(5) t by simp
    then show ?thesis using TRegister ok F(4) by (cases "wk_pc (pt_wake s) 0") (auto simp: A(1-3))
  qed (use i c F(4) in \<open>auto simp: inv_def A(1-3)\<close>)
  then show ?thesis using i F(5) t O(3) wk_access_ok [OF w(1)] by (auto simp: inv_def A)
qed

lemma inv_register_step:
  assumes i: "inv ww s" and ph: "pt_phase s = TRegister" and busy: "wk_pc (pt_wake s) 0 \<noteq> AwDone"
  shows "inv ww (pt_access ww 0 j s)"
proof -
  have w: "wk_ok ww (pt_wake s)" "wk_task_ok (pt_wake s)"
    and ok: "tw_register_ok (pt_cur s) (wk_reach (pt_wake s)) (pt_woke s) (wk_pc (pt_wake s) 0)"
    using i ph by (auto simp: inv_def)
  obtain a p ws where st: "aw_step ww (wr_aw (wk_reach (pt_wake s))) (wk_pc (pt_wake s) 0) = (a, p, ws)"
    by (cases "aw_step ww (wr_aw (wk_reach (pt_wake s))) (wk_pc (pt_wake s) 0)")
  show ?thesis
    using wk_task_step [OF w ok busy st, of j] wk_access_ok [OF w(1)] st ph
    by (simp add: inv_def pt_access_def)
qed

lemma inv_task_step: "inv ww s \<Longrightarrow> inv ww (proto_do test own act ww (TaskStep j) s)"
proof -
  assume i: "inv ww s"
  have w: "wk_ok ww (pt_wake s)" "wk_task_ok (pt_wake s)" using i by (auto simp: inv_def)
  show ?thesis
  proof (cases "pt_phase s")
    case TTest1
    then show ?thesis
      using i wk_do_ok [OF w(1), of "WkRegister 0 (pt_cur s)"] wk_task_calls(2) [OF w(2), of ww "pt_cur s"]
      by (auto simp: inv_def split: prod.splits)
  next
    case TRegister
    show ?thesis
    proof (cases "wk_pc (pt_wake s) 0 = AwDone")
      case True
      then show ?thesis using i TRegister by (simp add: inv_def)
    next
      case False
      then have "proto_do test own act ww (TaskStep j) s = pt_access ww 0 j s"
        using TRegister by (cases "wk_pc (pt_wake s) 0") auto
      then show ?thesis using inv_register_step [OF i TRegister False] by simp
    qed
  next
    case TTest2
    then show ?thesis using i test_pending by (auto simp: inv_def split: prod.splits)
  qed (use i in auto)
qed

lemma inv_signal:
  assumes i: "inv ww s"
  shows "inv ww (proto_do test own act ww (Signal t e) s)"
proof (cases "wk_pc (pt_wake s) t = AwDone \<and> t \<noteq> 0")
  case True
  obtain c wakes where act: "act e (pt_chan s) = (c, wakes)" by (cases "act e (pt_chan s)")
  have w: "wk_ok ww (pt_wake s)" "wk_task_ok (pt_wake s)" using i by (auto simp: inv_def)
  show ?thesis
  proof (cases wakes)
    case False
    have "phase_ok (s\<lparr>pt_chan := c\<rparr>) (pt_phase s)"
      using i act_silent [of e "pt_chan s" c] act False
      by (cases "pt_phase s") (auto simp: inv_def coming_def)
    then show ?thesis using True False act i by (simp add: inv_def)
  next
    case wk: True
    let ?k = "wk_do ww (WkWake t) (pt_wake s)"
    let ?s' = "s\<lparr>pt_chan := c, pt_wake := ?k\<rparr>"
    have k: "wk_reach ?k = (wk_reach (pt_wake s))\<lparr>wr_pc := (wk_pc (pt_wake s))(t := TakeFetchOr)\<rparr>"
      using True by simp
    have "coming ?s'" unfolding coming_def by (simp add: k del: wk_do.simps, metis)
    moreover have reg: "tw_registered (pt_cur s) (wk_reach ?k) b
        \<longleftrightarrow> tw_registered (pt_cur s) (wk_reach (pt_wake s)) b" for b
      unfolding k by (simp add: tw_registered_def)
    ultimately have "phase_ok ?s' (pt_phase s)"
    proof (cases "pt_phase s")
      case TRegister
      then show ?thesis
        using i True reg by (cases "wk_pc (pt_wake s) 0") (auto simp: inv_def k simp del: wk_do.simps)
    qed (use i in \<open>auto simp: inv_def reg simp del: wk_do.simps\<close>)
    then show ?thesis
      using i True wk act wk_do_ok [OF w(1), of "WkWake t"] wk_task_calls(1) [OF w(2), of t ww] k
      by (auto simp: inv_def simp del: wk_do.simps)
  qed
next
  case False
  then show ?thesis using i by (cases "wk_pc (pt_wake s) t") auto
qed

lemma inv_do: "inv ww s \<Longrightarrow> inv ww (proto_do test own act ww cmd s)"
proof (cases cmd)
  case (TaskStep j)
  assume "inv ww s"
  then show ?thesis unfolding TaskStep by (rule inv_task_step)
next
  case (Signal t e)
  assume "inv ww s"
  then show ?thesis unfolding Signal by (rule inv_signal)
next
  case (SignalStep t j)
  assume "inv ww s"
  then show ?thesis using SignalStep inv_signal_step by (cases "t = 0") auto
qed (auto simp: inv_def)

lemma inv_run: "inv ww s \<Longrightarrow> inv ww (fold (proto_do test own act ww) cs s)"
proof (induction cs arbitrary: s)
  case (Cons c cs)
  then show ?case using inv_do [OF Cons.prems, of own c] by (simp del: proto_do.simps)
qed simp

text \<open>A parked task with news and no call in progress has been woken.\<close>

lemma parked_woken:
  assumes s: "s = fold (proto_do test own act ww) cs (proto_init c w)"
    and parked: "pt_phase s = TParked" and quiet: "\<And>t. wk_pc (pt_wake s) t = AwDone"
    and n: "news (pt_chan s)"
  shows "pt_woke s"
proof -
  have i: "inv ww s" unfolding s by (rule inv_run [OF inv_init])
  have "pt_woke s \<or> wr_signal (wk_reach (pt_wake s))"
    using i parked n quiet by (auto simp: inv_def coming_def)
  then show ?thesis using tw_quiet [of ww "wk_reach (pt_wake s)" "pt_cur s"] wk_okD(1) [of ww "pt_wake s"] i parked quiet
    by (auto simp: inv_def)
qed

end

end
