(* ===== verification/Mpsc.thy ===== *)
theory Mpsc
  imports AtomicWaker
begin

text \<open>
  The queue channel of \<open>src/future/mpsc.rs\<close>, bounded or unbounded, with any number of
  senders and one receiver. The state is behind a mutex whose poisoning is ignored, so a
  critical section is one step; the receiver's waker is an atomic waker. The wake of a sender
  follows its critical section as a step of its own, and a receive polls in three steps.
\<close>

section \<open>State and critical sections\<close>

record ('a, 'w) mpsc =
  mp_queue :: "'a list"
  mp_capacity :: nat
  mp_senders :: nat
  mp_open :: bool
  mp_waker :: "'w atomic_waker"

datatype 'a try_send_error = TrySendError (tse_value: 'a) (tse_full: bool)

datatype try_recv_error = Empty | Closed

definition mp_new :: "nat \<Rightarrow> ('a, 'w) mpsc" where
  "mp_new capacity = \<lparr>mp_queue = [], mp_capacity = capacity, mp_senders = 1, mp_open = True,
     mp_waker = aw_new\<rparr>"

definition mp_channel :: "nat \<Rightarrow> ('a, 'w) mpsc" where
  "mp_channel buffer = mp_new (saturating_add buffer 1)"

definition mp_unbounded :: "('a, 'w) mpsc" where
  "mp_unbounded = mp_new usize_max"

text \<open>The critical section of \<open>send\<close>; when it returns \<open>None\<close> (for \<open>Ok\<close>) a wake follows.\<close>

definition mp_enqueue :: "'a \<Rightarrow> ('a, 'w) mpsc \<Rightarrow> ('a, 'w) mpsc \<times> 'a try_send_error option" where
  "mp_enqueue v s =
     (if \<not> mp_open s then (s, Some (TrySendError v False))
      else if length (mp_queue s) \<ge> mp_capacity s then (s, Some (TrySendError v True))
      else (s\<lparr>mp_queue := mp_queue s @ [v]\<rparr>, None))"

definition mp_wake :: "('w \<Rightarrow> 'w \<Rightarrow> bool) \<Rightarrow> ('a, 'w) mpsc \<Rightarrow> ('a, 'w) mpsc \<times> 'w list" where
  "mp_wake ww s = (case aw_wake ww (mp_waker s) of (a, ws) \<Rightarrow> (s\<lparr>mp_waker := a\<rparr>, ws))"

definition mp_register :: "('w \<Rightarrow> 'w \<Rightarrow> bool) \<Rightarrow> 'w \<Rightarrow> ('a, 'w) mpsc \<Rightarrow> ('a, 'w) mpsc \<times> 'w list" where
  "mp_register ww w s = (case aw_register ww w (mp_waker s) of (a, ws) \<Rightarrow> (s\<lparr>mp_waker := a\<rparr>, ws))"

definition mp_send :: "('w \<Rightarrow> 'w \<Rightarrow> bool) \<Rightarrow> 'a \<Rightarrow> ('a, 'w) mpsc
    \<Rightarrow> ('a, 'w) mpsc \<times> 'a try_send_error option \<times> 'w list" where
  "mp_send ww v s = (case mp_enqueue v s of
       (s', Some e) \<Rightarrow> (s', Some e, [])
     | (s', None) \<Rightarrow> (case mp_wake ww s' of (s'', ws) \<Rightarrow> (s'', None, ws)))"

definition mp_try_recv :: "('a, 'w) mpsc \<Rightarrow> ('a, 'w) mpsc \<times> (try_recv_error + 'a)" where
  "mp_try_recv s =
     (case mp_queue s of
        v # q \<Rightarrow> (s\<lparr>mp_queue := q\<rparr>, Inr v)
      | [] \<Rightarrow> if mp_open s \<and> 0 < mp_senders s then (s, Inl Empty) else (s, Inl Closed))"

fun recv_poll :: "try_recv_error + 'a \<Rightarrow> 'a option poll" where
  "recv_poll (Inr v) = Ready (Some v)"
| "recv_poll (Inl Closed) = Ready None"
| "recv_poll (Inl Empty) = Pending"

definition mp_poll_recv :: "('w \<Rightarrow> 'w \<Rightarrow> bool) \<Rightarrow> 'w \<Rightarrow> ('a, 'w) mpsc
    \<Rightarrow> ('a, 'w) mpsc \<times> 'a option poll \<times> 'w list" where
  "mp_poll_recv ww w s = (case mp_try_recv s of
       (s', Inl Empty) \<Rightarrow> (case mp_register ww w s' of (s'', ws) \<Rightarrow>
          (case mp_try_recv s'' of (s''', r) \<Rightarrow> (s''', recv_poll r, ws)))
     | (s', r) \<Rightarrow> (s', recv_poll r, []))"

definition mp_close :: "('a, 'w) mpsc \<Rightarrow> ('a, 'w) mpsc" where
  "mp_close s = s\<lparr>mp_open := False\<rparr>"

definition mp_is_closed :: "('a, 'w) mpsc \<Rightarrow> bool" where
  "mp_is_closed s \<longleftrightarrow> \<not> mp_open s"

text \<open>The critical section of a sender's drop; \<open>True\<close> when the wake of the last follows.\<close>

definition mp_release_sender :: "('a, 'w) mpsc \<Rightarrow> ('a, 'w) mpsc \<times> bool" where
  "mp_release_sender s =
     (let n = mp_senders s - 1 in (s\<lparr>mp_senders := n\<rparr>, n = 0))"

definition mp_drop_sender :: "('w \<Rightarrow> 'w \<Rightarrow> bool) \<Rightarrow> ('a, 'w) mpsc \<Rightarrow> ('a, 'w) mpsc \<times> 'w list" where
  "mp_drop_sender ww s = (case mp_release_sender s of
       (s', was_last) \<Rightarrow> if was_last then mp_wake ww s' else (s', []))"

definition mp_clone_sender :: "('a, 'w) mpsc \<Rightarrow> ('a, 'w) mpsc run" where
  "mp_clone_sender s = (case checked_add (mp_senders s) 1 of
       Some n \<Rightarrow> Ret (s\<lparr>mp_senders := n\<rparr>) | None \<Rightarrow> Panic ''attempt to add with overflow'')"

definition mp_drop_receiver :: "('a, 'w) mpsc \<Rightarrow> ('a, 'w) mpsc \<times> 'a list" where
  "mp_drop_receiver s = (s\<lparr>mp_open := False, mp_queue := []\<rparr>, mp_queue s)"

definition mp_error_text :: "'a try_send_error \<Rightarrow> string" where
  "mp_error_text e = (if tse_full e then ''send failed because channel is full''
     else ''send failed because receiver is gone'')"

section \<open>Senders and the receiver interleaved\<close>

text \<open>
  The receiver is idle, has seen the queue empty and is to register, is to test again, is
  parked, or is gone. \<open>mz_wakes\<close> is the number of wakes that senders owe. The ledger lists
  the items accepted, received and dropped with the receiver; \<open>mz_ended\<close> records that a
  receive returned the end.
\<close>

datatype mp_phase = MIdle | MReg | MSecond | MParked | MGone

record ('a, 'w) mp_sys =
  mz_chan :: "('a, 'w) mpsc"
  mz_recv :: mp_phase
  mz_cur :: 'w
  mz_notified :: bool
  mz_wakes :: nat
  mz_accepted :: "'a list"
  mz_got :: "'a list"
  mz_dropped :: "'a list"
  mz_ended :: bool

definition mz_init :: "nat \<Rightarrow> 'w \<Rightarrow> ('a, 'w) mp_sys" where
  "mz_init capacity w = \<lparr>mz_chan = mp_new capacity, mz_recv = MIdle, mz_cur = w,
     mz_notified = False, mz_wakes = 0, mz_accepted = [], mz_got = [], mz_dropped = [],
     mz_ended = False\<rparr>"

datatype ('a, 'w) mp_cmd =
    MPoll 'w | MRegister | MTest2 | MTryRecv | MClose | MDropReceiver
  | MSend 'a | MWake | MClone | MDropSender

definition mz_recv_step :: "mp_phase \<Rightarrow> ('a, 'w) mp_sys \<Rightarrow> ('a, 'w) mp_sys" where
  "mz_recv_step pending s = (case mp_try_recv (mz_chan s) of
       (c, Inr v) \<Rightarrow> s\<lparr>mz_chan := c, mz_recv := MIdle, mz_got := mz_got s @ [v]\<rparr>
     | (c, Inl Closed) \<Rightarrow> s\<lparr>mz_chan := c, mz_recv := MIdle, mz_ended := True\<rparr>
     | (c, Inl Empty) \<Rightarrow> s\<lparr>mz_chan := c, mz_recv := pending\<rparr>)"

fun mp_do :: "('w \<Rightarrow> 'w \<Rightarrow> bool) \<Rightarrow> ('a, 'w) mp_cmd \<Rightarrow> ('a, 'w) mp_sys \<Rightarrow> ('a, 'w) mp_sys" where
  "mp_do ww (MPoll w) s =
     (if mz_recv s \<in> {MIdle, MParked}
      then mz_recv_step MReg (s\<lparr>mz_cur := w, mz_notified := False\<rparr>) else s)"
| "mp_do ww MRegister s =
     (if mz_recv s = MReg
      then (case mp_register ww (mz_cur s) (mz_chan s) of (c, ws) \<Rightarrow>
        s\<lparr>mz_chan := c, mz_recv := MSecond, mz_notified := mz_notified s \<or> heard ww (mz_cur s) ws\<rparr>)
      else s)"
| "mp_do ww MTest2 s = (if mz_recv s = MSecond then mz_recv_step MParked s else s)"
| "mp_do ww MTryRecv s =
     (if mz_recv s \<in> {MIdle, MParked} then mz_recv_step MIdle s else s)"
| "mp_do ww MClose s =
     (if mz_recv s \<in> {MIdle, MParked}
      then s\<lparr>mz_chan := mp_close (mz_chan s), mz_recv := MIdle\<rparr> else s)"
| "mp_do ww MDropReceiver s =
     (if mz_recv s \<in> {MIdle, MParked}
      then (case mp_drop_receiver (mz_chan s) of (c, q) \<Rightarrow>
        s\<lparr>mz_chan := c, mz_recv := MGone, mz_dropped := q\<rparr>)
      else s)"
| "mp_do ww (MSend v) s =
     (if mp_senders (mz_chan s) = 0 then s
      else (case mp_enqueue v (mz_chan s) of
          (c, None) \<Rightarrow> s\<lparr>mz_chan := c, mz_wakes := mz_wakes s + 1, mz_accepted := mz_accepted s @ [v]\<rparr>
        | (c, Some e) \<Rightarrow> s\<lparr>mz_chan := c\<rparr>))"
| "mp_do ww MWake s =
     (if mz_wakes s = 0 then s
      else (case mp_wake ww (mz_chan s) of (c, ws) \<Rightarrow>
        s\<lparr>mz_chan := c, mz_wakes := mz_wakes s - 1,
          mz_notified := mz_notified s \<or> heard ww (mz_cur s) ws\<rparr>))"
| "mp_do ww MClone s =
     (if mp_senders (mz_chan s) = 0 then s
      else (case mp_clone_sender (mz_chan s) of Ret c \<Rightarrow> s\<lparr>mz_chan := c\<rparr> | _ \<Rightarrow> s))"
| "mp_do ww MDropSender s =
     (if mp_senders (mz_chan s) = 0 then s
      else (case mp_release_sender (mz_chan s) of (c, was_last) \<Rightarrow>
        s\<lparr>mz_chan := c, mz_wakes := mz_wakes s + (if was_last then 1 else 0)\<rparr>))"

text \<open>A receive that nobody disturbs is its steps one after the other.\<close>

lemma mp_poll_recv_steps:
  assumes "mz_recv s \<in> {MIdle, MParked}" and "mp_poll_recv ww w (mz_chan s) = (c, r, ws)"
  shows "mz_chan (fold (mp_do ww) [MPoll w, MRegister, MTest2] s) = c
    \<and> mz_recv (fold (mp_do ww) [MPoll w, MRegister, MTest2] s)
        = (case r of Ready x \<Rightarrow> MIdle | Pending \<Rightarrow> MParked)"
  using assms
  by (auto simp: mp_poll_recv_def mz_recv_step_def split: prod.splits sum.splits try_recv_error.splits)

inductive mp_reachable :: "('w \<Rightarrow> 'w \<Rightarrow> bool) \<Rightarrow> nat \<Rightarrow> ('a, 'w) mp_sys \<Rightarrow> bool"
  for ww :: "'w \<Rightarrow> 'w \<Rightarrow> bool" and capacity :: nat where
  mp_start: "mp_reachable ww capacity (mz_init capacity w)"
| mp_next: "mp_reachable ww capacity s \<Longrightarrow> mp_reachable ww capacity (mp_do ww c s)"

lemma mp_fold_reachable: "mp_reachable ww n s \<Longrightarrow> mp_reachable ww n (fold (mp_do ww) cs s)"
  by (induction cs arbitrary: s) (auto intro: mp_next)

section \<open>The invariant\<close>

fun mp_phase_ok :: "bool \<Rightarrow> bool \<Rightarrow> bool \<Rightarrow> bool \<Rightarrow> mp_phase \<Rightarrow> bool" where
  "mp_phase_ok opn hope news told MReg \<longleftrightarrow> opn"
| "mp_phase_ok opn hope news told MSecond \<longleftrightarrow> opn \<and> hope"
| "mp_phase_ok opn hope news told MParked \<longleftrightarrow> opn \<and> hope \<and> (news \<longrightarrow> told)"
| "mp_phase_ok opn hope news told _ \<longleftrightarrow> True"

definition mp_inv :: "('w \<Rightarrow> 'w \<Rightarrow> bool) \<Rightarrow> nat \<Rightarrow> ('a, 'w) mp_sys \<Rightarrow> bool" where
  "mp_inv ww capacity s \<longleftrightarrow>
     (let c = mz_chan s in
      aw_state (mp_waker c) = WAITING \<and> mp_capacity c = capacity
      \<and> length (mp_queue c) \<le> capacity
      \<and> mz_accepted s = mz_got s @ mz_dropped s @ mp_queue c
      \<and> (if mz_recv s = MGone then mp_queue c = [] \<and> \<not> mp_open c else mz_dropped s = [])
      \<and> (mz_ended s \<longrightarrow> mp_queue c = [] \<and> (\<not> mp_open c \<or> mp_senders c = 0))
      \<and> mp_phase_ok (mp_open c) (mz_notified s \<or> in_cell ww (mz_cur s) (mp_waker c))
          (mp_queue c \<noteq> [] \<or> mp_senders c = 0) (mz_notified s \<or> 0 < mz_wakes s) (mz_recv s))"

lemma mp_inv_init: "mp_inv ww n (mz_init n w)"
  by (simp add: mp_inv_def mz_init_def mp_new_def aw_new_def)

lemma mz_recv_step_inv:
  assumes "mp_inv ww n s" and "mz_recv s \<noteq> MGone"
    and "pending = MIdle \<or> pending = MReg
      \<or> pending = MParked \<and> (mz_notified s \<or> in_cell ww (mz_cur s) (mp_waker (mz_chan s)))"
  shows "mp_inv ww n (mz_recv_step pending s)"
  using assms
  by (auto simp: mp_inv_def Let_def mz_recv_step_def mp_try_recv_def split: list.splits)

lemma mp_inv_step:
  assumes ok: "mp_inv ww n s"
  shows "mp_inv ww n (mp_do ww c s)"
proof (cases c)
  case (MPoll w)
  show ?thesis
  proof (cases "mz_recv s \<in> {MIdle, MParked}")
    case True
    then have "mp_inv ww n (s\<lparr>mz_cur := w, mz_notified := False, mz_recv := MIdle\<rparr>)"
      using ok by (auto simp: mp_inv_def Let_def)
    then have "mp_inv ww n (mz_recv_step MReg (s\<lparr>mz_cur := w, mz_notified := False, mz_recv := MIdle\<rparr>))"
      by (intro mz_recv_step_inv) auto
    then show ?thesis using MPoll True
      by (auto simp: mz_recv_step_def split: prod.splits sum.splits try_recv_error.splits)
  qed (use MPoll ok in auto)
next
  case MRegister
  obtain a ws where w: "aw_register ww (mz_cur s) (mp_waker (mz_chan s)) = (a, ws)" by fastforce
  show ?thesis using ok MRegister w in_cell_register [OF _ w]
    by (cases "mz_recv s") (auto simp: mp_inv_def Let_def mp_register_def)
next
  case MTest2
  show ?thesis
  proof (cases "mz_recv s = MSecond")
    case True
    then show ?thesis using MTest2 mz_recv_step_inv [OF ok, of MParked] ok
      by (auto simp: mp_inv_def Let_def)
  qed (use MTest2 ok in auto)
next
  case MTryRecv
  show ?thesis
  proof (cases "mz_recv s \<in> {MIdle, MParked}")
    case True
    then show ?thesis using MTryRecv mz_recv_step_inv [OF ok, of MIdle] by auto
  qed (use MTryRecv ok in auto)
next
  case MClose
  then show ?thesis using ok by (auto simp: mp_inv_def Let_def mp_close_def)
next
  case MDropReceiver
  then show ?thesis using ok by (auto simp: mp_inv_def Let_def mp_drop_receiver_def)
next
  case (MSend v)
  then show ?thesis using ok
    by (cases "mz_recv s") (auto simp: mp_inv_def Let_def mp_enqueue_def)
next
  case MWake
  obtain a ws where w: "aw_wake ww (mp_waker (mz_chan s)) = (a, ws)" by fastforce
  show ?thesis using ok MWake w in_cell_wake [OF _ w, of "mz_cur s"]
    by (cases "mz_recv s") (auto simp: mp_inv_def Let_def mp_wake_def)
next
  case MClone
  then show ?thesis using ok
    by (cases "mz_recv s") (auto simp: mp_inv_def Let_def mp_clone_sender_def checked_add_def)
next
  case MDropSender
  then show ?thesis using ok
    by (cases "mz_recv s") (auto simp: mp_inv_def Let_def mp_release_sender_def)
qed

lemma mp_reachable_inv: "mp_reachable ww n s \<Longrightarrow> mp_inv ww n s"
  by (induction rule: mp_reachable.induct) (auto intro: mp_inv_init mp_inv_step)

section \<open>Properties\<close>

text \<open>
  No lost wake-up: when the receiver is parked and no sender owes a wake, either it has been
  woken since its poll began or there is nothing to receive and a sender is alive. Any number
  of senders send, are cloned and are dropped between the receiver's steps.
\<close>

theorem mp_no_lost_wakeup:
  assumes "mp_reachable ww n s" and "mz_recv s = MParked" and "mz_wakes s = 0"
  shows "mz_notified s \<or> mp_queue (mz_chan s) = [] \<and> 0 < mp_senders (mz_chan s)"
  using mp_reachable_inv [OF assms(1)] assms(2,3) by (auto simp: mp_inv_def Let_def)

text \<open>An item arrives between the registration and the second test of another poll.\<close>

theorem mp_no_lost_wakeup_witness:
  "let s = fold (mp_do (=)) [MPoll 1, MRegister, MTest2, MClone, MSend ''x'', MWake, MDropSender]
      (mz_init 3 (0 :: nat))
   in mz_recv s = MParked \<and> mz_wakes s = 0 \<and> mp_queue (mz_chan s) = [''x''] \<and> mz_notified s"
proof -
  define s where "s = fold (mp_do (=))
    [MPoll 1, MRegister, MTest2, MClone, MSend ''x'', MWake, MDropSender] (mz_init 3 (0 :: nat))"
  have r: "mp_reachable (=) 3 s" unfolding s_def by (intro mp_fold_reachable mp_start)
  have h: "mz_recv s = MParked" "mz_wakes s = 0" "mp_queue (mz_chan s) = [''x'']"
    by (simp_all add: s_def mz_init_def mp_new_def mz_recv_step_def mp_try_recv_def mp_register_def
        mp_enqueue_def mp_wake_def mp_release_sender_def mp_clone_sender_def checked_add_def
        usize_max_def split_beta Let_def)
  show ?thesis
    unfolding Let_def s_def [symmetric] using mp_no_lost_wakeup [OF r h(1,2)] h by simp
qed

text \<open>
  C28. The queue is a bounded FIFO: the items received, then those dropped with the receiver, then
  those queued, are exactly the accepted ones in order; the queue holds at most its capacity; and
  once a receive returned the end nothing is queued and nothing can be sent any more.
\<close>

theorem mp_items_conserved:
  assumes "mp_reachable ww n s"
  shows "mz_accepted s = mz_got s @ mz_dropped s @ mp_queue (mz_chan s)
    \<and> length (mp_queue (mz_chan s)) \<le> n
    \<and> (mz_ended s \<longrightarrow> mp_queue (mz_chan s) = []
         \<and> (mp_senders (mz_chan s) = 0 \<or> (\<forall>v. snd (mp_enqueue v (mz_chan s)) = Some (TrySendError v False))))"
  using mp_reachable_inv [OF assms] by (auto simp: mp_inv_def Let_def mp_enqueue_def)

text \<open>The receiver closes the channel with an item in it, receives it and then the end.\<close>

theorem mp_items_conserved_witness:
  "let s = fold (mp_do (=)) [MSend ''a'', MSend ''b'', MClose, MPoll 1, MSend ''c'', MPoll 1]
      (mz_init 1 (0 :: nat))
   in mz_accepted s = [''a''] \<and> mz_got s @ mz_dropped s @ mp_queue (mz_chan s) = [''a''] \<and> mz_ended s
     \<and> mp_queue (mz_chan s) = []"
proof -
  define s where "s = fold (mp_do (=))
    [MSend ''a'', MSend ''b'', MClose, MPoll 1, MSend ''c'', MPoll 1] (mz_init 1 (0 :: nat))"
  have r: "mp_reachable (=) 1 s" unfolding s_def by (intro mp_fold_reachable mp_start)
  have h: "mz_accepted s = [''a'']" "mz_ended s"
    by (simp_all add: s_def mz_init_def mp_new_def mz_recv_step_def mp_try_recv_def mp_close_def
        mp_enqueue_def)
  show ?thesis
    unfolding Let_def s_def [symmetric] using mp_items_conserved [OF r] h by simp
qed

lemma mp_enqueue_run:
  assumes "mp_open s" and "length (mp_queue s) \<le> mp_capacity s"
  shows "run_calls mp_enqueue vs s =
    (s\<lparr>mp_queue := mp_queue s @ take (mp_capacity s - length (mp_queue s)) vs\<rparr>,
     replicate (min (length vs) (mp_capacity s - length (mp_queue s))) None
       @ map (\<lambda>v. Some (TrySendError v True)) (drop (mp_capacity s - length (mp_queue s)) vs))"
  using assms
proof (induction vs arbitrary: s)
  case (Cons v vs)
  show ?case
  proof (cases "length (mp_queue s) = mp_capacity s")
    case True
    then show ?thesis using Cons.IH [of s] Cons.prems by (simp add: mp_enqueue_def)
  next
    case False
    then obtain k where k: "mp_capacity s - length (mp_queue s) = Suc k"
      using Cons.prems(2) by (metis Suc_diff_Suc le_neq_implies_less)
    then have k': "mp_capacity s - Suc (length (mp_queue s)) = k" by simp
    show ?thesis
      using Cons.IH [of "s\<lparr>mp_queue := mp_queue s @ [v]\<rparr>"] Cons.prems False k k'
      by (simp add: mp_enqueue_def)
  qed
qed simp

text \<open>
  Capacity of a bounded channel: \<open>channel(buffer)\<close> accepts exactly \<open>buffer + 1\<close> items while
  none is received, and hands back every further one with the \<open>full\<close> error.
\<close>

theorem mp_channel_accepts_buffer_plus_one:
  assumes "buffer < usize_max"
  shows "let (s, rs) = run_calls mp_enqueue vs (mp_channel buffer :: ('a, 'w) mpsc)
    in rs = map (\<lambda>i. if i \<le> buffer then None else Some (TrySendError (vs ! i) True)) [0 ..< length vs]
      \<and> mp_queue s = take (buffer + 1) vs"
proof -
  have cap: "saturating_add buffer (Suc 0) = Suc buffer" using assms by (simp add: saturating_add_def)
  have "replicate (min (length vs) (Suc buffer)) None
      @ map (\<lambda>v. Some (TrySendError v True)) (drop (Suc buffer) vs)
    = map (\<lambda>i. if i \<le> buffer then None else Some (TrySendError (vs ! i) True)) [0 ..< length vs]"
    by (rule nth_equalityI) (auto simp: nth_append min_def less_Suc_eq_le)
  then show ?thesis
    using mp_enqueue_run [of "mp_channel buffer :: ('a, 'w) mpsc" vs]
    by (simp add: mp_channel_def mp_new_def cap)
qed

theorem mp_channel_accepts_buffer_plus_one_witness:
  "case run_calls mp_enqueue [7, 8, 9] (mp_channel 1 :: (nat, nat) mpsc) of
     (s, rs) \<Rightarrow> rs = [None, None, Some (TrySendError 9 True)] \<and> mp_queue s = [7, 8]"
proof -
  have "(1 :: nat) < usize_max" by (simp add: usize_max_def)
  from mp_channel_accepts_buffer_plus_one [OF this, of "[7, 8, 9 :: nat]"] show ?thesis
    by (simp only: Let_def split_beta) (simp add: upt_rec)
qed

end
