(* ===== verification/Oneshot.thy ===== *)
theory Oneshot
  imports AtomicWaker
begin

text \<open>
  The one-shot channel of \<open>src/future/oneshot.rs\<close>. The state is behind a mutex whose
  poisoning is ignored, so a critical section is one step; the two wakers are atomic wakers,
  used here through the contract of their calls. The sending task and the receiving task
  interleave between the steps: a receiver's poll is three of them, a cancellation's poll
  too, the end of a sender is two (the mark under the lock, then the wake), as is that of a
  receiver.
\<close>

section \<open>State and critical sections\<close>

datatype 'a oneshot_result = Received 'a | Canceled

record ('a, 'w) oneshot =
  os_value :: "'a option"
  os_sender_dropped :: bool
  os_receiver_dropped :: bool
  os_receiver_waker :: "'w atomic_waker"
  os_sender_waker :: "'w atomic_waker"

definition os_channel :: "('a, 'w) oneshot" where
  "os_channel = \<lparr>os_value = None, os_sender_dropped = False, os_receiver_dropped = False,
     os_receiver_waker = aw_new, os_sender_waker = aw_new\<rparr>"

definition os_take :: "('a, 'w) oneshot \<Rightarrow> ('a, 'w) oneshot \<times> 'a oneshot_result poll" where
  "os_take s =
     (case os_value s of
        Some v \<Rightarrow> (s\<lparr>os_value := None\<rparr>, Ready (Received v))
      | None \<Rightarrow> if os_sender_dropped s then (s, Ready Canceled) else (s, Pending))"

definition os_canceled :: "('a, 'w) oneshot \<Rightarrow> bool" where
  "os_canceled s = os_receiver_dropped s"

text \<open>The critical section of \<open>send\<close>: \<open>None\<close> is \<open>Ok\<close>, \<open>Some v\<close> is \<open>Err(v)\<close>.\<close>

definition os_send :: "'a \<Rightarrow> ('a, 'w) oneshot \<Rightarrow> ('a, 'w) oneshot \<times> 'a option" where
  "os_send v s = (if os_receiver_dropped s then (s, Some v) else (s\<lparr>os_value := Some v\<rparr>, None))"

definition os_mark_sender :: "('a, 'w) oneshot \<Rightarrow> ('a, 'w) oneshot" where
  "os_mark_sender s = s\<lparr>os_sender_dropped := True\<rparr>"

definition os_mark_receiver :: "('a, 'w) oneshot \<Rightarrow> ('a, 'w) oneshot \<times> 'a option" where
  "os_mark_receiver s = (s\<lparr>os_receiver_dropped := True, os_value := None\<rparr>, os_value s)"

definition os_wake_receiver :: "('w \<Rightarrow> 'w \<Rightarrow> bool) \<Rightarrow> ('a, 'w) oneshot \<Rightarrow> ('a, 'w) oneshot \<times> 'w list" where
  "os_wake_receiver ww s =
     (case aw_wake ww (os_receiver_waker s) of (a, ws) \<Rightarrow> (s\<lparr>os_receiver_waker := a\<rparr>, ws))"

definition os_wake_sender :: "('w \<Rightarrow> 'w \<Rightarrow> bool) \<Rightarrow> ('a, 'w) oneshot \<Rightarrow> ('a, 'w) oneshot \<times> 'w list" where
  "os_wake_sender ww s =
     (case aw_wake ww (os_sender_waker s) of (a, ws) \<Rightarrow> (s\<lparr>os_sender_waker := a\<rparr>, ws))"

definition os_register_receiver :: "('w \<Rightarrow> 'w \<Rightarrow> bool) \<Rightarrow> 'w \<Rightarrow> ('a, 'w) oneshot
    \<Rightarrow> ('a, 'w) oneshot \<times> 'w list" where
  "os_register_receiver ww w s =
     (case aw_register ww w (os_receiver_waker s) of (a, ws) \<Rightarrow> (s\<lparr>os_receiver_waker := a\<rparr>, ws))"

definition os_register_sender :: "('w \<Rightarrow> 'w \<Rightarrow> bool) \<Rightarrow> 'w \<Rightarrow> ('a, 'w) oneshot
    \<Rightarrow> ('a, 'w) oneshot \<times> 'w list" where
  "os_register_sender ww w s =
     (case aw_register ww w (os_sender_waker s) of (a, ws) \<Rightarrow> (s\<lparr>os_sender_waker := a\<rparr>, ws))"

section \<open>Calls that run alone\<close>

definition os_drop_sender :: "('w \<Rightarrow> 'w \<Rightarrow> bool) \<Rightarrow> ('a, 'w) oneshot \<Rightarrow> ('a, 'w) oneshot \<times> 'w list" where
  "os_drop_sender ww s = os_wake_receiver ww (os_mark_sender s)"

text \<open>\<open>send\<close> consumes the sender, so its drop follows on every path.\<close>

definition os_send_call :: "('w \<Rightarrow> 'w \<Rightarrow> bool) \<Rightarrow> 'a \<Rightarrow> ('a, 'w) oneshot
    \<Rightarrow> ('a, 'w) oneshot \<times> 'a option \<times> 'w list" where
  "os_send_call ww v s = (case os_send v s of (s', r) \<Rightarrow>
     (case os_drop_sender ww s' of (s'', ws) \<Rightarrow> (s'', r, ws)))"

definition os_drop_receiver :: "('w \<Rightarrow> 'w \<Rightarrow> bool) \<Rightarrow> ('a, 'w) oneshot
    \<Rightarrow> ('a, 'w) oneshot \<times> 'a option \<times> 'w list" where
  "os_drop_receiver ww s = (case os_mark_receiver s of (s', v) \<Rightarrow>
     (case os_wake_sender ww s' of (s'', ws) \<Rightarrow> (s'', v, ws)))"

definition os_poll_receiver :: "('w \<Rightarrow> 'w \<Rightarrow> bool) \<Rightarrow> 'w \<Rightarrow> ('a, 'w) oneshot
    \<Rightarrow> ('a, 'w) oneshot \<times> 'a oneshot_result poll \<times> 'w list" where
  "os_poll_receiver ww w s = (case os_take s of
       (s', Ready r) \<Rightarrow> (s', Ready r, [])
     | (s', Pending) \<Rightarrow> (case os_register_receiver ww w s' of (s'', ws) \<Rightarrow>
         (case os_take s'' of (s''', r) \<Rightarrow> (s''', r, ws))))"

definition os_poll_cancellation :: "('w \<Rightarrow> 'w \<Rightarrow> bool) \<Rightarrow> 'w \<Rightarrow> ('a, 'w) oneshot
    \<Rightarrow> ('a, 'w) oneshot \<times> unit poll \<times> 'w list" where
  "os_poll_cancellation ww w s =
     (if os_canceled s then (s, Ready (), [])
      else (case os_register_sender ww w s of (s', ws) \<Rightarrow>
        (s', if os_canceled s' then Ready () else Pending, ws)))"

section \<open>The two tasks interleaved\<close>

text \<open>
  The receiver: idle, in its poll before the first test, the registration and the second
  test, parked, finished with a result, marked dropped with the wake to come, gone. The
  sender: idle, in a cancellation poll before the registration and the second test, parked
  in it, told of the cancellation, sent with its drop to come, marked dropped with the wake
  to come, gone. The ledger: what \<open>send\<close> was given and returned, what the receiver got, and
  what its drop dropped.
\<close>

datatype 'a recv_phase =
    RIdle | RFirst | RReg | RSecond | RParked | RDone "'a oneshot_result" | RClosing | RGone

datatype send_phase = SIdle | SReg | SSecond | SParked | SCanceled | SSent | SClosing | SGone

record ('a, 'w) os_sys =
  oz_chan :: "('a, 'w) oneshot"
  oz_recv :: "'a recv_phase"
  oz_send :: send_phase
  oz_rcur :: 'w
  oz_scur :: 'w
  oz_rnotified :: bool
  oz_snotified :: bool
  oz_sent :: "'a option"
  oz_returned :: "'a option"
  oz_got :: "'a option"
  oz_dropped :: "'a option"

definition oz_init :: "'w \<Rightarrow> 'w \<Rightarrow> ('a, 'w) os_sys" where
  "oz_init r s = \<lparr>oz_chan = os_channel, oz_recv = RIdle, oz_send = SIdle, oz_rcur = r, oz_scur = s,
     oz_rnotified = False, oz_snotified = False, oz_sent = None, oz_returned = None,
     oz_got = None, oz_dropped = None\<rparr>"

datatype ('a, 'w) os_cmd =
    OPoll 'w | OTake1 | ORegister | OTake2 | ODropReceiver | ODropReceiverWake
  | OSend 'a | ODropSender | ODropSenderWake
  | OCancelPoll 'w | OCancelRegister | OCancelTest2

definition oz_take :: "'a recv_phase \<Rightarrow> ('a, 'w) os_sys \<Rightarrow> ('a, 'w) os_sys" where
  "oz_take pending s = (case os_take (oz_chan s) of
       (c, Ready (Received v)) \<Rightarrow> s\<lparr>oz_chan := c, oz_recv := RDone (Received v), oz_got := Some v\<rparr>
     | (c, Ready Canceled) \<Rightarrow> s\<lparr>oz_chan := c, oz_recv := RDone Canceled\<rparr>
     | (c, Pending) \<Rightarrow> s\<lparr>oz_chan := c, oz_recv := pending\<rparr>)"

text \<open>A future is dropped between two polls, or after the last.\<close>

fun recv_droppable :: "'a recv_phase \<Rightarrow> bool" where
  "recv_droppable RIdle \<longleftrightarrow> True"
| "recv_droppable RParked \<longleftrightarrow> True"
| "recv_droppable (RDone r) \<longleftrightarrow> True"
| "recv_droppable _ \<longleftrightarrow> False"

fun os_do :: "('w \<Rightarrow> 'w \<Rightarrow> bool) \<Rightarrow> ('a, 'w) os_cmd \<Rightarrow> ('a, 'w) os_sys \<Rightarrow> ('a, 'w) os_sys" where
  "os_do ww (OPoll w) s =
     (if oz_recv s \<in> {RIdle, RParked}
      then s\<lparr>oz_recv := RFirst, oz_rcur := w, oz_rnotified := False\<rparr> else s)"
| "os_do ww OTake1 s = (if oz_recv s = RFirst then oz_take RReg s else s)"
| "os_do ww ORegister s =
     (if oz_recv s = RReg
      then (case os_register_receiver ww (oz_rcur s) (oz_chan s) of (c, ws) \<Rightarrow>
        s\<lparr>oz_chan := c, oz_recv := RSecond, oz_rnotified := oz_rnotified s \<or> heard ww (oz_rcur s) ws\<rparr>)
      else s)"
| "os_do ww OTake2 s = (if oz_recv s = RSecond then oz_take RParked s else s)"
| "os_do ww ODropReceiver s =
     (if recv_droppable (oz_recv s)
      then (case os_mark_receiver (oz_chan s) of (c, v) \<Rightarrow>
        s\<lparr>oz_chan := c, oz_recv := RClosing, oz_dropped := v\<rparr>)
      else s)"
| "os_do ww ODropReceiverWake s =
     (if oz_recv s = RClosing
      then (case os_wake_sender ww (oz_chan s) of (c, ws) \<Rightarrow>
        s\<lparr>oz_chan := c, oz_recv := RGone, oz_snotified := oz_snotified s \<or> heard ww (oz_scur s) ws\<rparr>)
      else s)"
| "os_do ww (OSend v) s =
     (if oz_send s \<in> {SIdle, SParked, SCanceled}
      then (case os_send v (oz_chan s) of (c, r) \<Rightarrow>
        s\<lparr>oz_chan := c, oz_send := SSent, oz_sent := Some v, oz_returned := r\<rparr>)
      else s)"
| "os_do ww ODropSender s =
     (if oz_send s \<in> {SIdle, SParked, SCanceled, SSent}
      then s\<lparr>oz_chan := os_mark_sender (oz_chan s), oz_send := SClosing\<rparr> else s)"
| "os_do ww ODropSenderWake s =
     (if oz_send s = SClosing
      then (case os_wake_receiver ww (oz_chan s) of (c, ws) \<Rightarrow>
        s\<lparr>oz_chan := c, oz_send := SGone, oz_rnotified := oz_rnotified s \<or> heard ww (oz_rcur s) ws\<rparr>)
      else s)"
| "os_do ww (OCancelPoll w) s =
     (if oz_send s \<in> {SIdle, SParked}
      then s\<lparr>oz_send := (if os_canceled (oz_chan s) then SCanceled else SReg),
             oz_scur := w, oz_snotified := False\<rparr>
      else s)"
| "os_do ww OCancelRegister s =
     (if oz_send s = SReg
      then (case os_register_sender ww (oz_scur s) (oz_chan s) of (c, ws) \<Rightarrow>
        s\<lparr>oz_chan := c, oz_send := SSecond, oz_snotified := oz_snotified s \<or> heard ww (oz_scur s) ws\<rparr>)
      else s)"
| "os_do ww OCancelTest2 s =
     (if oz_send s = SSecond
      then s\<lparr>oz_send := (if os_canceled (oz_chan s) then SCanceled else SParked)\<rparr> else s)"

inductive os_reachable :: "('w \<Rightarrow> 'w \<Rightarrow> bool) \<Rightarrow> ('a, 'w) os_sys \<Rightarrow> bool"
  for ww :: "'w \<Rightarrow> 'w \<Rightarrow> bool" where
  os_start: "os_reachable ww (oz_init r s)"
| os_next: "os_reachable ww s \<Longrightarrow> os_reachable ww (os_do ww c s)"

lemma os_fold_reachable: "os_reachable ww s \<Longrightarrow> os_reachable ww (fold (os_do ww) cs s)"
  by (induction cs arbitrary: s) (auto intro: os_next)

text \<open>A call that nobody disturbs is its steps one after the other.\<close>

lemma os_poll_receiver_steps:
  assumes "oz_recv s = RFirst" and "os_poll_receiver ww (oz_rcur s) (oz_chan s) = (c, r, ws)"
  shows "oz_chan (fold (os_do ww) [OTake1, ORegister, OTake2] s) = c
    \<and> oz_recv (fold (os_do ww) [OTake1, ORegister, OTake2] s) = (case r of Ready x \<Rightarrow> RDone x | Pending \<Rightarrow> RParked)"
  using assms
  by (auto simp: os_poll_receiver_def oz_take_def split: prod.splits poll.splits oneshot_result.splits)

lemma os_drop_receiver_steps:
  assumes "recv_droppable (oz_recv s)" and "os_drop_receiver ww (oz_chan s) = (c, v, ws)"
  shows "oz_chan (fold (os_do ww) [ODropReceiver, ODropReceiverWake] s) = c
    \<and> oz_dropped (fold (os_do ww) [ODropReceiver, ODropReceiverWake] s) = v"
  using assms by (auto simp: os_drop_receiver_def split: prod.splits)

lemma os_send_steps:
  assumes "oz_send s \<in> {SIdle, SParked, SCanceled}" and "os_send_call ww v (oz_chan s) = (c, r, ws)"
  shows "oz_chan (fold (os_do ww) [OSend v, ODropSender, ODropSenderWake] s) = c
    \<and> oz_returned (fold (os_do ww) [OSend v, ODropSender, ODropSenderWake] s) = r"
  using assms by (auto simp: os_send_call_def os_drop_sender_def split: prod.splits)

lemma os_poll_cancellation_steps:
  assumes "oz_send s \<in> {SIdle, SParked}" and "os_poll_cancellation ww w (oz_chan s) = (c, r, ws)"
  shows "oz_chan (fold (os_do ww) [OCancelPoll w, OCancelRegister, OCancelTest2] s) = c
    \<and> oz_send (fold (os_do ww) [OCancelPoll w, OCancelRegister, OCancelTest2] s)
        = (case r of Ready u \<Rightarrow> SCanceled | Pending \<Rightarrow> SParked)"
  using assms by (auto simp: os_poll_cancellation_def split: prod.splits if_splits)

section \<open>The invariant\<close>

text \<open>What a task that registered knows: \<open>hope\<close> is that it was notified or is in the cell.\<close>

fun recv_ok :: "bool \<Rightarrow> bool \<Rightarrow> bool \<Rightarrow> 'a recv_phase \<Rightarrow> bool" where
  "recv_ok hope news told RSecond \<longleftrightarrow> hope"
| "recv_ok hope news told RParked \<longleftrightarrow> hope \<and> (news \<longrightarrow> told)"
| "recv_ok hope news told _ \<longleftrightarrow> True"

fun send_ok :: "bool \<Rightarrow> bool \<Rightarrow> bool \<Rightarrow> send_phase \<Rightarrow> bool" where
  "send_ok hope news told SSecond \<longleftrightarrow> hope"
| "send_ok hope news told SParked \<longleftrightarrow> hope \<and> (news \<longrightarrow> told)"
| "send_ok hope news told _ \<longleftrightarrow> True"

text \<open>Where the value is: a value given to \<open>send\<close> is in exactly one place.\<close>

definition os_ledger :: "'a option \<Rightarrow> 'a option list \<Rightarrow> bool" where
  "os_ledger sent places \<longleftrightarrow>
     filter (\<lambda>x. x \<noteq> None) places = (case sent of None \<Rightarrow> [] | Some v \<Rightarrow> [Some v])"

definition os_result_ok :: "('a, 'w) os_sys \<Rightarrow> bool" where
  "os_result_ok s \<longleftrightarrow> (case oz_recv s of
       RDone (Received v) \<Rightarrow> oz_got s = Some v
     | RDone Canceled \<Rightarrow> oz_sent s = None \<and> os_sender_dropped (oz_chan s)
     | RClosing \<Rightarrow> True | RGone \<Rightarrow> True
     | _ \<Rightarrow> oz_got s = None \<and> oz_dropped s = None)"

definition os_data_ok :: "('a, 'w) os_sys \<Rightarrow> bool" where
  "os_data_ok s \<longleftrightarrow>
     (let c = oz_chan s in
      aw_state (os_receiver_waker c) = WAITING \<and> aw_state (os_sender_waker c) = WAITING
      \<and> (os_sender_dropped c \<longleftrightarrow> oz_send s \<in> {SClosing, SGone})
      \<and> (os_receiver_dropped c \<longleftrightarrow> oz_recv s \<in> {RClosing, RGone})
      \<and> (oz_send s \<notin> {SSent, SClosing, SGone} \<longrightarrow> oz_sent s = None)
      \<and> (\<not> os_receiver_dropped c \<longrightarrow> oz_returned s = None \<and> oz_dropped s = None)
      \<and> os_ledger (oz_sent s) [os_value c, oz_returned s, oz_got s, oz_dropped s]
      \<and> os_result_ok s)"

definition os_wakers_ok :: "('w \<Rightarrow> 'w \<Rightarrow> bool) \<Rightarrow> ('a, 'w) os_sys \<Rightarrow> bool" where
  "os_wakers_ok ww s \<longleftrightarrow>
     (let c = oz_chan s in
      recv_ok (oz_rnotified s \<or> in_cell ww (oz_rcur s) (os_receiver_waker c))
        (os_value c \<noteq> None \<or> os_sender_dropped c)
        (oz_rnotified s \<or> oz_send s \<in> {SSent, SClosing}) (oz_recv s)
      \<and> send_ok (oz_snotified s \<or> in_cell ww (oz_scur s) (os_sender_waker c))
        (os_receiver_dropped c) (oz_snotified s \<or> oz_recv s = RClosing) (oz_send s))"

lemma os_data_init: "os_data_ok (oz_init r s)"
  by (simp add: os_data_ok_def oz_init_def os_channel_def aw_new_def os_ledger_def os_result_ok_def)

lemma oz_take_data:
  assumes "os_data_ok s" and "oz_recv s = RFirst \<or> oz_recv s = RSecond"
    and "pending = RReg \<or> pending = RParked"
  shows "os_data_ok (oz_take pending s)"
proof (cases "os_value (oz_chan s)")
  case (Some v)
  then show ?thesis using assms
    by (cases "oz_sent s")
      (auto simp: os_data_ok_def os_result_ok_def Let_def oz_take_def os_take_def os_ledger_def)
next
  case None
  then show ?thesis using assms
    by (cases "oz_sent s"; cases "os_sender_dropped (oz_chan s)")
      (auto simp: os_data_ok_def os_result_ok_def Let_def oz_take_def os_take_def os_ledger_def)
qed

lemma os_data_step:
  assumes "os_data_ok s"
  shows "os_data_ok (os_do ww c s)"
proof (cases c)
  case (OPoll w)
  then show ?thesis using assms
    by (cases "oz_recv s") (auto simp: os_data_ok_def os_result_ok_def Let_def)
next
  case OTake1
  then show ?thesis using assms oz_take_data [OF assms] by simp
next
  case OTake2
  then show ?thesis using assms oz_take_data [OF assms] by simp
next
  case ORegister
  obtain a ws where w: "aw_register ww (oz_rcur s) (os_receiver_waker (oz_chan s)) = (a, ws)"
    by fastforce
  have "aw_state a = WAITING" using assms in_cell_register [OF _ w] by (simp add: os_data_ok_def Let_def)
  then show ?thesis using assms ORegister w
    by (cases "oz_recv s") (auto simp: os_data_ok_def os_result_ok_def Let_def os_register_receiver_def
        split: oneshot_result.splits)
next
  case ODropReceiver
  then show ?thesis using assms
    by (cases "oz_sent s")
      (auto simp: os_data_ok_def os_result_ok_def Let_def os_mark_receiver_def os_ledger_def
        split: recv_phase.splits oneshot_result.splits if_splits)
next
  case ODropReceiverWake
  obtain a ws where w: "aw_wake ww (os_sender_waker (oz_chan s)) = (a, ws)" by fastforce
  have "aw_state a = WAITING" using assms in_cell_wake [OF _ w] by (simp add: os_data_ok_def Let_def)
  then show ?thesis using assms ODropReceiverWake w
    by (cases "oz_recv s") (auto simp: os_data_ok_def os_result_ok_def Let_def os_wake_sender_def
        split: oneshot_result.splits)
next
  case (OSend v)
  show ?thesis
  proof (cases "oz_send s \<in> {SIdle, SParked, SCanceled}")
    case True
    then have sent: "oz_sent s = None" using assms by (auto simp: os_data_ok_def Let_def)
    then have none: "os_value (oz_chan s) = None" "oz_returned s = None" "oz_got s = None" "oz_dropped s = None"
      using assms by (auto simp: os_data_ok_def Let_def os_ledger_def split: if_splits)
    have sd: "\<not> os_sender_dropped (oz_chan s)" using assms True by (auto simp: os_data_ok_def Let_def)
    show ?thesis using assms OSend True sent none sd
      by (cases "oz_recv s"; simp add: os_data_ok_def Let_def os_send_def os_ledger_def os_result_ok_def
          split: oneshot_result.splits)
  next
    case False
    then show ?thesis using assms OSend by simp
  qed
next
  case ODropSender
  then show ?thesis using assms
    by (auto simp: os_data_ok_def os_result_ok_def Let_def os_mark_sender_def
        split: recv_phase.splits oneshot_result.splits)
next
  case ODropSenderWake
  obtain a ws where w: "aw_wake ww (os_receiver_waker (oz_chan s)) = (a, ws)" by fastforce
  have "aw_state a = WAITING" using assms in_cell_wake [OF _ w] by (simp add: os_data_ok_def Let_def)
  then show ?thesis using assms ODropSenderWake w
    by (cases "oz_recv s") (auto simp: os_data_ok_def os_result_ok_def Let_def os_wake_receiver_def
        split: oneshot_result.splits)
next
  case (OCancelPoll w)
  then show ?thesis using assms
    by (auto simp: os_data_ok_def os_result_ok_def Let_def
        split: recv_phase.splits oneshot_result.splits)
next
  case OCancelRegister
  obtain a ws where w: "aw_register ww (oz_scur s) (os_sender_waker (oz_chan s)) = (a, ws)" by fastforce
  have "aw_state a = WAITING" using assms in_cell_register [OF _ w] by (simp add: os_data_ok_def Let_def)
  then show ?thesis using assms OCancelRegister w
    by (cases "oz_recv s") (auto simp: os_data_ok_def os_result_ok_def Let_def os_register_sender_def
        split: oneshot_result.splits)
next
  case OCancelTest2
  then show ?thesis using assms
    by (auto simp: os_data_ok_def os_result_ok_def Let_def
        split: recv_phase.splits oneshot_result.splits)
qed

lemma os_wakers_step:
  assumes data: "os_data_ok s" and ok: "os_wakers_ok ww s"
  shows "os_wakers_ok ww (os_do ww c s)"
proof -
  have idle: "aw_state (os_receiver_waker (oz_chan s)) = WAITING"
      "aw_state (os_sender_waker (oz_chan s)) = WAITING"
    and sd: "os_sender_dropped (oz_chan s) \<longleftrightarrow> oz_send s \<in> {SClosing, SGone}"
    and rd: "os_receiver_dropped (oz_chan s) \<longleftrightarrow> oz_recv s \<in> {RClosing, RGone}"
    using data by (simp_all add: os_data_ok_def Let_def)
  show ?thesis
  proof (cases c)
    case (OPoll w)
    then show ?thesis using ok by (auto simp: os_wakers_ok_def Let_def)
  next
    case OTake1
    then show ?thesis using ok rd
      by (auto simp: os_wakers_ok_def Let_def oz_take_def os_take_def
          split: option.splits oneshot_result.splits)
  next
    case OTake2
    then show ?thesis using ok rd
      by (auto simp: os_wakers_ok_def Let_def oz_take_def os_take_def
          split: option.splits oneshot_result.splits)
  next
    case ORegister
    then show ?thesis using ok in_cell_register [OF idle(1)]
      by (auto simp: os_wakers_ok_def Let_def os_register_receiver_def split: prod.splits)
  next
    case ODropReceiver
    then show ?thesis using ok rd
      by (cases "oz_send s") (auto simp: os_wakers_ok_def Let_def os_mark_receiver_def)
  next
    case ODropReceiverWake
    obtain a ws where w: "aw_wake ww (os_sender_waker (oz_chan s)) = (a, ws)" by fastforce
    show ?thesis using ok ODropReceiverWake w in_cell_wake [OF idle(2) w]
      by (cases "oz_send s") (auto simp: os_wakers_ok_def Let_def os_wake_sender_def)
  next
    case (OSend v)
    then show ?thesis using ok rd
      by (cases "oz_recv s") (auto simp: os_wakers_ok_def Let_def os_send_def)
  next
    case ODropSender
    then show ?thesis using ok
      by (cases "oz_recv s") (auto simp: os_wakers_ok_def Let_def os_mark_sender_def)
  next
    case ODropSenderWake
    obtain a ws where w: "aw_wake ww (os_receiver_waker (oz_chan s)) = (a, ws)" by fastforce
    show ?thesis using ok ODropSenderWake w in_cell_wake [OF idle(1) w]
      by (cases "oz_recv s") (auto simp: os_wakers_ok_def Let_def os_wake_receiver_def)
  next
    case (OCancelPoll w)
    then show ?thesis using ok
      by (cases "oz_recv s") (auto simp: os_wakers_ok_def Let_def)
  next
    case OCancelRegister
    obtain a ws where w: "aw_register ww (oz_scur s) (os_sender_waker (oz_chan s)) = (a, ws)"
      by fastforce
    show ?thesis using ok OCancelRegister w in_cell_register [OF idle(2) w]
      by (cases "oz_recv s") (auto simp: os_wakers_ok_def Let_def os_register_sender_def)
  next
    case OCancelTest2
    then show ?thesis using ok
      by (cases "oz_recv s") (auto simp: os_wakers_ok_def Let_def os_canceled_def)
  qed
qed

lemma os_reachable_ok: "os_reachable ww s \<Longrightarrow> os_data_ok s \<and> os_wakers_ok ww s"
proof (induction rule: os_reachable.induct)
  case (os_start r s)
  then show ?case using os_data_init by (auto simp: os_wakers_ok_def Let_def oz_init_def)
next
  case (os_next s c)
  then show ?case using os_data_step os_wakers_step by blast
qed

section \<open>Properties\<close>

text \<open>
  No lost wake-up, in either direction: a receiver that is parked while a value or the end
  of the sender is there, or a sender parked in a cancellation while the receiver is gone, has
  been woken since its poll began, as soon as the other side's wake is not still to come.
\<close>

theorem os_no_lost_wakeup:
  assumes "os_reachable ww s"
  shows "(oz_recv s = RParked \<and> (os_value (oz_chan s) \<noteq> None \<or> os_sender_dropped (oz_chan s))
       \<and> oz_send s \<noteq> SSent \<and> oz_send s \<noteq> SClosing \<longrightarrow> oz_rnotified s)
    \<and> (oz_send s = SParked \<and> os_receiver_dropped (oz_chan s) \<and> oz_recv s \<noteq> RClosing
       \<longrightarrow> oz_snotified s)"
  using os_reachable_ok [OF assms] by (auto simp: os_wakers_ok_def Let_def)

text \<open>The sender sends between the receiver's registration and its second test, and after it.\<close>

theorem os_no_lost_wakeup_witness:
  "let s = fold (os_do (=)) [OPoll 1, OTake1, ORegister, OTake2, OSend ''x'', ODropSender, ODropSenderWake]
      (oz_init 0 (0 :: nat));
       t = fold (os_do (=)) [OCancelPoll 2, OCancelRegister, OCancelTest2, ODropReceiver, ODropReceiverWake]
      (oz_init 0 (0 :: nat) :: (string, nat) os_sys)
   in oz_recv s = RParked \<and> oz_rnotified s \<and> oz_send t = SParked \<and> oz_snotified t"
proof -
  define s where "s = fold (os_do (=))
    [OPoll 1, OTake1, ORegister, OTake2, OSend ''x'', ODropSender, ODropSenderWake] (oz_init 0 (0 :: nat))"
  define t where "t = fold (os_do (=))
    [OCancelPoll 2, OCancelRegister, OCancelTest2, ODropReceiver, ODropReceiverWake]
    (oz_init 0 (0 :: nat) :: (string, nat) os_sys)"
  have r: "os_reachable (=) s" "os_reachable (=) t"
    unfolding s_def t_def by (intro os_fold_reachable os_start)+
  have "oz_recv s = RParked" "os_sender_dropped (oz_chan s)" "oz_send s = SGone"
    unfolding s_def by code_simp+
  moreover have "oz_send t = SParked" "os_receiver_dropped (oz_chan t)" "oz_recv t = RGone"
    unfolding t_def by code_simp+
  ultimately show ?thesis
    unfolding Let_def s_def [symmetric] t_def [symmetric]
    using os_no_lost_wakeup [OF r(1)] os_no_lost_wakeup [OF r(2)] by simp
qed

text \<open>
  C27. A value given to \<open>send\<close> is in exactly one of four places: in the channel, returned to the
  sender, with the receiver, or dropped with the receiver; a receiver that finished has the value
  that was sent, and it is told of a cancellation only when the sender is gone without
  having sent.
\<close>

theorem os_value_in_one_place:
  assumes "os_reachable ww s"
  shows "filter (\<lambda>x. x \<noteq> None) [os_value (oz_chan s), oz_returned s, oz_got s, oz_dropped s]
      = (case oz_sent s of None \<Rightarrow> [] | Some v \<Rightarrow> [Some v])
    \<and> (case oz_recv s of RDone (Received v) \<Rightarrow> oz_sent s = Some v
       | RDone Canceled \<Rightarrow> oz_sent s = None \<and> os_sender_dropped (oz_chan s)
       | _ \<Rightarrow> True)"
proof -
  have ok: "os_data_ok s" using os_reachable_ok [OF assms] by blast
  then have l: "os_ledger (oz_sent s) [os_value (oz_chan s), oz_returned s, oz_got s, oz_dropped s]"
    and r: "os_result_ok s"
    by (simp_all add: os_data_ok_def Let_def)
  have "oz_sent s = Some v" if "oz_got s = Some v" for v
    using l that by (cases "oz_sent s") (auto simp: os_ledger_def split: if_splits)
  then show ?thesis
    using l r by (auto simp: os_ledger_def os_result_ok_def split: recv_phase.split oneshot_result.split)
qed

text \<open>The receiver is dropped while the value is in the channel.\<close>

theorem os_value_in_one_place_witness:
  "let s = fold (os_do (=)) [OPoll 1, OTake1, ORegister, OTake2, OSend ''x'', ODropReceiver]
      (oz_init 0 (0 :: nat))
   in oz_dropped s = Some ''x'' \<and> oz_sent s = Some ''x'' \<and> os_value (oz_chan s) = None
     \<and> oz_got s = None"
proof -
  define s where "s = fold (os_do (=))
    [OPoll 1, OTake1, ORegister, OTake2, OSend ''x'', ODropReceiver] (oz_init 0 (0 :: nat))"
  have r: "os_reachable (=) s" unfolding s_def by (intro os_fold_reachable os_start)
  have "oz_dropped s = Some ''x''" "oz_sent s = Some ''x''" unfolding s_def by code_simp+
  then show ?thesis
    unfolding Let_def s_def [symmetric] using os_value_in_one_place [OF r]
    by (auto split: if_splits)
qed

end
