(* ===== verification/FutureThreads.thy ===== *)
theory FutureThreads
  imports WakeProtocol Mpsc Oneshot
begin

text \<open>
  The channels of \<open>src/future/mpsc.rs\<close> and \<open>src/future/oneshot.rs\<close> with the calls of their wakers
  opened up: any number of senders wake at the same time, and their wakes interleave with the
  registration of the receiver access by access, with the memory orderings of the waker: the last
  number of a step is the message that a failed exchange may read. The waker is that of the protocol, so the
  channels are taken with a waker type of one element.
\<close>

section \<open>The receiver of a queue channel\<close>

text \<open>The critical sections of the senders and the other calls of the receiver.\<close>

datatype 'a mp_send_op = OpSend 'a | OpClone | OpDrop

datatype mp_recv_op = OwnTryRecv | OwnClose | OwnDrop

definition mpt_test :: "('a, unit) mpsc \<Rightarrow> ('a, unit) mpsc \<times> bool" where
  "mpt_test c = (case mp_try_recv c of (c', r) \<Rightarrow> (c', case r of Inl Empty \<Rightarrow> True | _ \<Rightarrow> False))"

fun mpt_own :: "mp_recv_op \<Rightarrow> ('a, unit) mpsc \<Rightarrow> ('a, unit) mpsc" where
  "mpt_own OwnTryRecv c = fst (mp_try_recv c)"
| "mpt_own OwnClose c = mp_close c"
| "mpt_own OwnDrop c = fst (mp_drop_receiver c)"

definition mpt_act :: "'a mp_send_op \<Rightarrow> ('a, unit) mpsc \<Rightarrow> ('a, unit) mpsc \<times> bool" where
  "mpt_act e c =
     (if mp_senders c = 0 then (c, False)
      else case e of
        OpSend v \<Rightarrow> (case mp_enqueue v c of (c', None) \<Rightarrow> (c', True) | (c', Some _) \<Rightarrow> (c', False))
      | OpClone \<Rightarrow> (case mp_clone_sender c of Ret c' \<Rightarrow> (c', False) | _ \<Rightarrow> (c, False))
      | OpDrop \<Rightarrow> mp_release_sender c)"

definition mpt_news :: "('a, unit) mpsc \<Rightarrow> bool" where
  "mpt_news c \<longleftrightarrow> mp_queue c \<noteq> [] \<or> mp_senders c = 0 \<or> \<not> mp_open c"

interpretation mpw: wake_protocol mpt_news mpt_test mpt_act
proof unfold_locales
  show "mpt_test c = (c', True) \<Longrightarrow> \<not> mpt_news c'" for c c' :: "('a, unit) mpsc"
    by (auto simp: mpt_test_def mpt_news_def mp_try_recv_def
        split: list.splits if_splits sum.splits try_recv_error.splits)
  show "mpt_act e c = (c', False) \<Longrightarrow> mpt_news c' \<Longrightarrow> mpt_news c"
    for e and c c' :: "('a, unit) mpsc"
    by (cases e) (auto simp: mpt_act_def mpt_news_def mp_enqueue_def mp_clone_sender_def
        mp_release_sender_def checked_add_def Let_def split: if_splits option.splits)
qed

section \<open>The two sides of a one-shot channel\<close>

text \<open>
  A sender that is in \<open>send\<close>, between the critical section that stores the value and that of its
  drop, is \<open>SendHalf\<close>.
\<close>

datatype sender_life = SendLive | SendHalf | SendEnded

datatype 'a os_send_op = OsSend 'a | OsDrop

definition ost_test :: "('a, unit) oneshot \<times> sender_life \<Rightarrow> (('a, unit) oneshot \<times> sender_life) \<times> bool" where
  "ost_test = (\<lambda>(c, l). case os_take c of (c', r) \<Rightarrow> ((c', l), case r of Pending \<Rightarrow> True | _ \<Rightarrow> False))"

definition ost_own :: "unit \<Rightarrow> ('a, unit) oneshot \<times> sender_life \<Rightarrow> ('a, unit) oneshot \<times> sender_life" where
  "ost_own u = (\<lambda>(c, l). (fst (os_mark_receiver c), l))"

fun ost_act :: "'a os_send_op \<Rightarrow> ('a, unit) oneshot \<times> sender_life
    \<Rightarrow> (('a, unit) oneshot \<times> sender_life) \<times> bool" where
  "ost_act (OsSend v) (c, SendLive) = ((fst (os_send v c), SendHalf), False)"
| "ost_act OsDrop (c, SendLive) = ((os_mark_sender c, SendEnded), True)"
| "ost_act OsDrop (c, SendHalf) = ((os_mark_sender c, SendEnded), True)"
| "ost_act _ s = (s, False)"

definition ost_news :: "('a, unit) oneshot \<times> sender_life \<Rightarrow> bool" where
  "ost_news = (\<lambda>(c, l). (os_value c \<noteq> None \<or> os_sender_dropped c) \<and> l \<noteq> SendHalf)"

interpretation osr: wake_protocol ost_news ost_test ost_act
proof unfold_locales
  show "ost_test c = (c', True) \<Longrightarrow> \<not> ost_news c'" for c c' :: "('a, unit) oneshot \<times> sender_life"
    by (cases c) (auto simp: ost_test_def ost_news_def os_take_def split: option.splits if_splits)
  show "ost_act e c = (c', False) \<Longrightarrow> ost_news c' \<Longrightarrow> ost_news c"
    for e and c c' :: "('a, unit) oneshot \<times> sender_life"
    by (cases "(e, c)" rule: ost_act.cases) (auto simp: ost_news_def)
qed

text \<open>
  The sender waits for its cancellation; the receiver takes, and is dropped. A sender that
  sends or is dropped waits no longer.
\<close>

datatype os_recv_op = OsTake | OsDropReceiver

definition osc_test :: "('a, unit) oneshot \<Rightarrow> ('a, unit) oneshot \<times> bool" where
  "osc_test c = (c, \<not> os_canceled c)"

fun osc_own :: "'a os_send_op \<Rightarrow> ('a, unit) oneshot \<Rightarrow> ('a, unit) oneshot" where
  "osc_own (OsSend v) c = fst (os_send v c)"
| "osc_own OsDrop c = os_mark_sender c"

fun osc_act :: "os_recv_op \<Rightarrow> ('a, unit) oneshot \<Rightarrow> ('a, unit) oneshot \<times> bool" where
  "osc_act OsTake c = (if os_receiver_dropped c then (c, False) else (fst (os_take c), False))"
| "osc_act OsDropReceiver c =
     (if os_receiver_dropped c then (c, False) else (fst (os_mark_receiver c), True))"

interpretation osc: wake_protocol os_receiver_dropped osc_test osc_act
proof unfold_locales
  show "osc_test c = (c', True) \<Longrightarrow> \<not> os_receiver_dropped c'" for c c' :: "('a, unit) oneshot"
    by (auto simp: osc_test_def os_canceled_def)
  show "osc_act e c = (c', False) \<Longrightarrow> os_receiver_dropped c' \<Longrightarrow> os_receiver_dropped c"
    for e and c c' :: "('a, unit) oneshot"
    by (cases e) (auto simp: os_take_def split: if_splits option.splits)
qed

section \<open>Properties\<close>

text \<open>
  C7. No lost wake-up in the queue channel, access by access with the memory orderings of the waker
  and any number of senders: when a receive returned Pending and no wake is in progress, the receiver has been woken since that
  poll began, or there is nothing to report: no item, senders left, and the channel open.
\<close>

theorem mp_threads_no_lost_wakeup:
  assumes "s = fold (proto_do mpt_test mpt_own mpt_act ww) cs (proto_init (mp_new n) w)"
    and "pt_phase s = TParked" and "\<And>t. wk_pc (pt_wake s) t = AwDone"
  shows "pt_woke s
    \<or> mp_queue (pt_chan s) = [] \<and> 0 < mp_senders (pt_chan s) \<and> mp_open (pt_chan s)"
  using mpw.parked_woken [OF assms] by (cases "mpt_news (pt_chan s)") (auto simp: mpt_news_def)

text \<open>
  Two senders wake while the receiver registers: one finds the registration in progress, the
  other the wake of the first.
\<close>

theorem mp_threads_no_lost_wakeup_witness:
  "let s = fold (proto_do mpt_test mpt_own mpt_act (=))
     ([TaskPoll (7::nat), TaskStep 9, TaskStep 9, Signal 1 (OpSend ''a''), TaskStep 9,
       SignalStep 1 9, Signal 2 (OpSend ''b''), TaskStep 9, SignalStep 2 9] @ replicate 5 (TaskStep 9)
      @ [SignalStep 1 9, SignalStep 2 9, TaskOwn OwnTryRecv, TaskPoll 8]
      @ replicate 6 (TaskStep 9) @ [Signal 1 OpDrop] @ replicate 4 (SignalStep 1 9))
     (proto_init (mp_new 3) 0)
   in pt_phase s = TParked \<and> mp_senders (pt_chan s) = 0 \<and> pt_woke s"
proof -
  define cs :: "(mp_recv_op, string mp_send_op, nat) proto_cmd list" where
    "cs = [TaskPoll (7::nat), TaskStep 9, TaskStep 9, Signal 1 (OpSend ''a''), TaskStep 9,
       SignalStep 1 9, Signal 2 (OpSend ''b''), TaskStep 9, SignalStep 2 9] @ replicate 5 (TaskStep 9)
      @ [SignalStep 1 9, SignalStep 2 9, TaskOwn OwnTryRecv, TaskPoll 8]
      @ replicate 6 (TaskStep 9) @ [Signal 1 OpDrop] @ replicate 4 (SignalStep 1 9)"
  define s where "s = fold (proto_do mpt_test mpt_own mpt_act (=)) cs (proto_init (mp_new 3) 0)"
  have h: "pt_phase s = TParked" "mp_senders (pt_chan s) = 0"
    unfolding s_def cs_def by code_simp+
  have "wk_pc (pt_wake s) 0 = AwDone" "wk_pc (pt_wake s) 1 = AwDone" "wk_pc (pt_wake s) 2 = AwDone"
    unfolding s_def cs_def by code_simp+
  moreover have "wk_pc (pt_wake s) t = AwDone" if "t \<notin> {0, 1, 2}" for t
    unfolding s_def using that by (subst proto_others) (auto simp: cs_def proto_init_def wk_init_def wr_init_def)
  ultimately have q: "wk_pc (pt_wake s) t = AwDone" for t by (cases "t \<in> {0, 1, 2}") auto
  show ?thesis
    unfolding Let_def cs_def [symmetric] s_def [symmetric]
    using mp_threads_no_lost_wakeup [OF s_def h(1) q] h by simp
qed

text \<open>
  C8. No lost wake-up in the one-shot channel, access by access with the memory orderings of the
  waker: when the receiver's poll returned Pending, the sender is not inside of \<open>send\<close> and no wake is in progress, the receiver has been
  woken since that poll began, or no value was sent and the sender lives.
\<close>

theorem os_threads_no_lost_wakeup:
  assumes "s = fold (proto_do ost_test ost_own ost_act ww) cs (proto_init (os_channel, SendLive) w)"
    and "pt_phase s = TParked" and "\<And>t. wk_pc (pt_wake s) t = AwDone"
    and "pt_chan s = (c, l)" and "l \<noteq> SendHalf"
  shows "pt_woke s \<or> os_value c = None \<and> \<not> os_sender_dropped c"
  using osr.parked_woken [OF assms(1-3)] assms(4,5)
  by (cases "ost_news (pt_chan s)") (auto simp: ost_news_def)

text \<open>The value and the drop of the sender arrive after the second test.\<close>

theorem os_threads_no_lost_wakeup_witness:
  "let s = fold (proto_do ost_test ost_own ost_act (=))
     ([TaskPoll (7::nat)] @ replicate 6 (TaskStep 9) @ [Signal 1 (OsSend ''v''), Signal 1 OsDrop]
      @ replicate 4 (SignalStep 1 9))
     (proto_init (os_channel, SendLive) 0)
   in pt_phase s = TParked \<and> os_value (fst (pt_chan s)) = Some ''v'' \<and> pt_woke s"
proof -
  define cs :: "(unit, string os_send_op, nat) proto_cmd list" where
    "cs = [TaskPoll (7::nat)] @ replicate 6 (TaskStep 9) @ [Signal 1 (OsSend ''v''), Signal 1 OsDrop]
      @ replicate 4 (SignalStep 1 9)"
  define s where
    "s = fold (proto_do ost_test ost_own ost_act (=)) cs (proto_init (os_channel, SendLive) 0)"
  have h: "pt_phase s = TParked" "os_value (fst (pt_chan s)) = Some ''v''" "snd (pt_chan s) = SendEnded"
    unfolding s_def cs_def by code_simp+
  have "wk_pc (pt_wake s) 0 = AwDone" "wk_pc (pt_wake s) 1 = AwDone"
    unfolding s_def cs_def by code_simp+
  moreover have "wk_pc (pt_wake s) t = AwDone" if "t \<notin> {0, 1}" for t
    unfolding s_def using that by (subst proto_others) (auto simp: cs_def proto_init_def wk_init_def wr_init_def)
  ultimately have q: "wk_pc (pt_wake s) t = AwDone" for t by (cases "t \<in> {0, 1}") auto
  have "pt_chan s = (fst (pt_chan s), SendEnded)" using h(3) by (cases "pt_chan s") simp
  from os_threads_no_lost_wakeup [OF s_def h(1) q this] h(2)
  show ?thesis unfolding Let_def cs_def [symmetric] s_def [symmetric] using h by simp
qed

text \<open>
  The cancellation of a sender, access by access: when its poll returned Pending, the receiver
  was dropped and no wake is in progress, the sender's task has been woken since that poll began.
\<close>

theorem os_threads_cancellation_woken:
  assumes "s = fold (proto_do osc_test osc_own osc_act ww) cs (proto_init os_channel w)"
    and "pt_phase s = TParked" and "\<And>t. wk_pc (pt_wake s) t = AwDone"
    and "os_canceled (pt_chan s)"
  shows "pt_woke s"
  using osc.parked_woken [OF assms(1-3)] assms(4) by (simp add: os_canceled_def)

text \<open>The receiver is dropped after the second test.\<close>

theorem os_threads_cancellation_woken_witness:
  "let s = fold (proto_do osc_test osc_own osc_act (=))
     ([TaskPoll (7::nat)] @ replicate 6 (TaskStep 9) @ [Signal 1 OsDropReceiver]
      @ replicate 4 (SignalStep 1 9))
     (proto_init (os_channel :: (string, unit) oneshot) 0)
   in pt_phase s = TParked \<and> os_canceled (pt_chan s) \<and> pt_woke s"
proof -
  define cs :: "(string os_send_op, os_recv_op, nat) proto_cmd list" where
    "cs = [TaskPoll (7::nat)] @ replicate 6 (TaskStep 9) @ [Signal 1 OsDropReceiver]
      @ replicate 4 (SignalStep 1 9)"
  define s where "s = fold (proto_do osc_test osc_own osc_act (=)) cs
    (proto_init (os_channel :: (string, unit) oneshot) 0)"
  have h: "pt_phase s = TParked" "os_canceled (pt_chan s)"
    unfolding s_def cs_def by code_simp+
  have "wk_pc (pt_wake s) 0 = AwDone" "wk_pc (pt_wake s) 1 = AwDone"
    unfolding s_def cs_def by code_simp+
  moreover have "wk_pc (pt_wake s) t = AwDone" if "t \<notin> {0, 1}" for t
    unfolding s_def using that by (subst proto_others) (auto simp: cs_def proto_init_def wk_init_def wr_init_def)
  ultimately have q: "wk_pc (pt_wake s) t = AwDone" for t by (cases "t \<in> {0, 1}") auto
  from os_threads_cancellation_woken [OF s_def h(1) q h(2)]
  show ?thesis unfolding Let_def cs_def [symmetric] s_def [symmetric] using h by simp
qed

end
