(* ===== verification/StreamModel.thy ===== *)
theory StreamModel
  imports Prelude "HOL-Library.Multiset"
begin

text \<open>
  The bounded stream of \<open>src/stream.rs\<close>. The shared state is behind one mutex, so every
  call is one step of the state; a blocking push is the attempt under the lock, repeated
  when the condition variable wakes the producer. A call returns the new state, its
  effects after the lock is released (the wakers it woke, the notification of the condition
  variable, the items and the wakers it dropped) and its outcome.

  Then the protocol of the stream: the futures of \<open>next\<close>, the \<open>Stream\<close> interface,
  blocked and notified producers, and the invariants that exclude a lost wake-up of the
  consumer and a lost notification of a producer.
\<close>

section \<open>State\<close>

record ('a, 'w) stream =
  sb_buffer :: "'a list"
  sb_waiters :: "(u64 \<times> 'w) list"
  sb_next_waiter :: u64
  sb_closed :: bool
  sb_consumer_gone :: bool
  sb_sender_count :: nat
  sb_capacity :: nat
  sb_poisoned :: bool

datatype notify = NotifyNone | NotifyOne | NotifyAll

record ('a, 'w) effects =
  fx_woken :: "'w list"
  fx_notify :: notify
  fx_dropped :: "'a list"
  fx_released :: "'w list"

definition no_fx :: "('a, 'w) effects" where
  "no_fx = \<lparr>fx_woken = [], fx_notify = NotifyNone, fx_dropped = [], fx_released = []\<rparr>"

definition bs_new :: "nat \<Rightarrow> ('a, 'w) stream run" where
  "bs_new capacity =
     (if capacity = 0 then Panic ''BoundedAsyncStream capacity must be > 0''
      else Ret \<lparr>sb_buffer = [], sb_waiters = [], sb_next_waiter = 1, sb_closed = False,
                sb_consumer_gone = False, sb_sender_count = 1, sb_capacity = capacity,
                sb_poisoned = False\<rparr>)"

text \<open>
  \<open>lock_state\<close> panics when the mutex is poisoned; \<open>lock_state_for_drop\<close> ignores it, so
  the drop handlers below have no such guard.
\<close>

type_synonym ('a, 'w, 'r) call =
  "('a, 'w) stream \<Rightarrow> ('a, 'w) stream \<times> ('a, 'w) effects \<times> 'r run"

definition lock_state :: "('a, 'w, 'r) call \<Rightarrow> ('a, 'w, 'r) call" where
  "lock_state f s =
     (if sb_poisoned s then (s, no_fx, Panic ''BoundedAsyncStream state mutex poisoned'')
      else f s)"

section \<open>Waiters\<close>

fun find_waiter :: "u64 \<Rightarrow> (u64 \<times> 'w) list \<Rightarrow> 'w option" where
  "find_waiter i [] = None"
| "find_waiter i ((j, w) # xs) = (if j = i then Some w else find_waiter i xs)"

fun replace_waiter :: "u64 \<Rightarrow> 'w \<Rightarrow> (u64 \<times> 'w) list \<Rightarrow> (u64 \<times> 'w) list" where
  "replace_waiter i w [] = []"
| "replace_waiter i w ((j, v) # xs) =
     (if j = i then (j, w) # xs else (j, v) # replace_waiter i w xs)"

fun waiter_position :: "u64 \<Rightarrow> (u64 \<times> 'w) list \<Rightarrow> nat option" where
  "waiter_position i [] = None"
| "waiter_position i ((j, w) # xs) =
     (if j = i then Some 0 else map_option Suc (waiter_position i xs))"

text \<open>\<open>Vec::swap_remove\<close>: the last element takes the place of the removed one.\<close>

definition swap_remove :: "'x list \<Rightarrow> nat \<Rightarrow> 'x list \<times> 'x" where
  "swap_remove xs i = (butlast (xs[i := last xs]), xs ! i)"

text \<open>
  \<open>register_waiter\<close>: the registration is numbered on first use; \<open>next_waker\<close> is the
  clone of the caller's waker, which stays with the caller (to be dropped) when the
  registered one is equivalent. Returns the state, the number, what is left of
  \<open>next_waker\<close>, and the waker replaced.
\<close>

definition register_waiter :: "('w \<Rightarrow> 'w \<Rightarrow> bool) \<Rightarrow> u64 option \<Rightarrow> 'w \<Rightarrow> ('a, 'w) stream
    \<Rightarrow> ('a, 'w) stream \<times> u64 \<times> 'w option \<times> 'w option" where
  "register_waiter ww waiter current s =
     (let (i, s') = (case waiter of
                       Some i \<Rightarrow> (i, s)
                     | None \<Rightarrow> (sb_next_waiter s,
                         s\<lparr>sb_next_waiter := max (sb_next_waiter s + 1) 1\<rparr>))
      in case find_waiter i (sb_waiters s') of
           Some existing \<Rightarrow>
             (if ww existing current then (s', i, Some current, None)
              else (s'\<lparr>sb_waiters := replace_waiter i current (sb_waiters s')\<rparr>,
                    i, None, Some existing))
         | None \<Rightarrow> (s'\<lparr>sb_waiters := sb_waiters s' @ [(i, current)]\<rparr>, i, None, None))"

definition remove_waiter :: "u64 option \<Rightarrow> ('a, 'w) stream \<Rightarrow> ('a, 'w) stream \<times> 'w option" where
  "remove_waiter waiter s =
     (case waiter of None \<Rightarrow> (s, None)
      | Some i \<Rightarrow>
          (case waiter_position i (sb_waiters s) of None \<Rightarrow> (s, None)
           | Some k \<Rightarrow> (case swap_remove (sb_waiters s) k of (ws, (_, w)) \<Rightarrow>
                          (s\<lparr>sb_waiters := ws\<rparr>, Some w))))"

definition opt_list :: "'x option \<Rightarrow> 'x list" where
  "opt_list x = (case x of None \<Rightarrow> [] | Some y \<Rightarrow> [y])"

section \<open>The consumer\<close>

definition bs_try_next :: "('a, 'w, 'a option) call" where
  "bs_try_next = lock_state (\<lambda>s.
     case sb_buffer s of
       [] \<Rightarrow> (s, no_fx, Ret None)
     | x # xs \<Rightarrow> (s\<lparr>sb_buffer := xs\<rparr>, no_fx\<lparr>fx_notify := NotifyOne\<rparr>, Ret (Some x)))"

definition bs_is_closed :: "('a, 'w, bool) call" where
  "bs_is_closed = lock_state (\<lambda>s. (s, no_fx, Ret (sb_closed s)))"

definition bs_buffered_count :: "('a, 'w, nat) call" where
  "bs_buffered_count = lock_state (\<lambda>s. (s, no_fx, Ret (length (sb_buffer s))))"

definition bs_capacity :: "('a, 'w) stream \<Rightarrow> nat" where
  "bs_capacity s = sb_capacity s"

definition bs_clear_buffer :: "('a, 'w, unit) call" where
  "bs_clear_buffer = lock_state (\<lambda>s.
     (s\<lparr>sb_buffer := []\<rparr>,
      no_fx\<lparr>fx_notify := NotifyAll, fx_dropped := sb_buffer s\<rparr>, Ret ()))"

text \<open>\<open>poll_next_item\<close> also returns the future's registration number after the poll.\<close>

definition bs_poll_next_item :: "('w \<Rightarrow> 'w \<Rightarrow> bool) \<Rightarrow> 'w \<Rightarrow> u64 option
    \<Rightarrow> ('a, 'w, 'a option poll \<times> u64 option) call" where
  "bs_poll_next_item ww cx waiter s =
     (let next_waker = cx in
      if sb_poisoned s
      then (s, no_fx\<lparr>fx_released := [next_waker]\<rparr>,
            Panic ''BoundedAsyncStream state mutex poisoned'')
      else case sb_buffer s of
        item # rest \<Rightarrow>
          (case remove_waiter waiter (s\<lparr>sb_buffer := rest\<rparr>) of (s', released) \<Rightarrow>
             (s', no_fx\<lparr>fx_notify := NotifyOne, fx_released := next_waker # opt_list released\<rparr>,
              Ret (Ready (Some item), None)))
      | [] \<Rightarrow>
          if sb_closed s
          then (case remove_waiter waiter s of (s', released) \<Rightarrow>
             (s', no_fx\<lparr>fx_released := next_waker # opt_list released\<rparr>,
              Ret (Ready None, None)))
          else (case register_waiter ww waiter next_waker s of (s', i, left, released) \<Rightarrow>
             (s', no_fx\<lparr>fx_released := opt_list left @ opt_list released\<rparr>,
              Ret (Pending, Some i))))"

definition bs_drop_stream :: "('a, 'w) stream \<Rightarrow> ('a, 'w) stream \<times> ('a, 'w) effects" where
  "bs_drop_stream s =
     (s\<lparr>sb_consumer_gone := True, sb_waiters := []\<rparr>,
      no_fx\<lparr>fx_notify := NotifyAll, fx_released := map snd (sb_waiters s)\<rparr>)"

text \<open>\<open>NextItem\<close>: \<open>next\<close> makes one without a number, \<open>poll\<close> is \<open>poll_next_item\<close>.\<close>

definition bs_next :: "u64 option" where
  "bs_next = None"

definition bs_drop_next_item :: "u64 option \<Rightarrow> ('a, 'w) stream
    \<Rightarrow> ('a, 'w) stream \<times> ('a, 'w) effects" where
  "bs_drop_next_item waiter s =
     (case remove_waiter waiter s of (s', released) \<Rightarrow>
        (s', no_fx\<lparr>fx_released := opt_list released\<rparr>))"

text \<open>The \<open>Stream\<close> interface polls with the reserved number.\<close>

definition STREAM_WAITER :: u64 where
  "STREAM_WAITER = 0"

definition bs_poll_next :: "('w \<Rightarrow> 'w \<Rightarrow> bool) \<Rightarrow> 'w \<Rightarrow> ('a, 'w, 'a option poll) call" where
  "bs_poll_next ww cx s =
     (case bs_poll_next_item ww cx (Some STREAM_WAITER) s of (s', fx, r) \<Rightarrow>
        (s', fx, run_map fst r))"

section \<open>The producers\<close>

definition bs_push :: "'a \<Rightarrow> ('a, 'w, unit) call" where
  "bs_push item = lock_state (\<lambda>s.
     let (overwritten, b) =
       (if length (sb_buffer s) \<ge> sb_capacity s
        then (case sb_buffer s of [] \<Rightarrow> ([], []) | x # xs \<Rightarrow> ([x], xs))
        else ([], sb_buffer s))
     in (s\<lparr>sb_buffer := b @ [item], sb_waiters := []\<rparr>,
         no_fx\<lparr>fx_woken := map snd (sb_waiters s), fx_dropped := overwritten\<rparr>, Ret ()))"

text \<open>
  \<open>push_or_block\<close> holds the lock from the condition of \<open>wait_while\<close> to its end, so one
  attempt is one step; \<open>Blocked\<close> is the wait on the condition variable, after which the
  same attempt is made again.
\<close>

datatype 'a attempt = Blocked | PushErr 'a | PushOk

definition bs_push_or_block :: "'a \<Rightarrow> ('a, 'w, 'a attempt) call" where
  "bs_push_or_block item = lock_state (\<lambda>s.
     if \<not> sb_consumer_gone s \<and> length (sb_buffer s) \<ge> sb_capacity s
     then (s, no_fx, Ret Blocked)
     else if sb_consumer_gone s then (s, no_fx, Ret (PushErr item))
     else (s\<lparr>sb_buffer := sb_buffer s @ [item], sb_waiters := []\<rparr>,
           no_fx\<lparr>fx_woken := map snd (sb_waiters s)\<rparr>, Ret PushOk))"

definition bs_is_consumer_gone :: "('a, 'w, bool) call" where
  "bs_is_consumer_gone = lock_state (\<lambda>s. (s, no_fx, Ret (sb_consumer_gone s)))"

text \<open>The overflow panic of \<open>clone\<close> happens under the lock: it poisons the mutex.\<close>

definition bs_clone_sender :: "('a, 'w, unit) call" where
  "bs_clone_sender = lock_state (\<lambda>s.
     case checked_add (sb_sender_count s) 1 of
       None \<Rightarrow> (s\<lparr>sb_poisoned := True\<rparr>, no_fx, Panic ''AsyncStreamSender count overflow'')
     | Some n \<Rightarrow> (s\<lparr>sb_sender_count := n\<rparr>, no_fx, Ret ()))"

definition bs_drop_sender :: "('a, 'w) stream \<Rightarrow> ('a, 'w) stream \<times> ('a, 'w) effects" where
  "bs_drop_sender s =
     (let n = sb_sender_count s - 1 in
      if n = 0
      then (s\<lparr>sb_sender_count := n, sb_closed := True, sb_waiters := []\<rparr>,
            no_fx\<lparr>fx_woken := map snd (sb_waiters s)\<rparr>)
      else (s\<lparr>sb_sender_count := n\<rparr>, no_fx))"

named_theorems bs_defs \<open>the operations of the bounded stream\<close>

lemmas bs_op_defs [bs_defs] = lock_state_def bs_try_next_def bs_is_closed_def
  bs_buffered_count_def bs_clear_buffer_def bs_poll_next_item_def bs_poll_next_def
  bs_drop_stream_def bs_drop_next_item_def bs_push_def bs_push_or_block_def
  bs_is_consumer_gone_def bs_clone_sender_def bs_drop_sender_def

section \<open>Waiter lists\<close>

lemma find_waiter_map_of: "find_waiter i ws = map_of ws i"
  by (induction ws) auto

lemma replace_waiter_fst [simp]: "map fst (replace_waiter i w ws) = map fst ws"
  by (induction ws) auto

lemma map_of_replace_waiter:
  "i \<in> fst ` set ws \<Longrightarrow> map_of (replace_waiter i w ws) = (map_of ws)(i \<mapsto> w)"
proof (induction ws)
  case (Cons x ws)
  then show ?case by (cases x) (force simp: fun_eq_iff)
qed simp

lemma waiter_position_Some:
  "waiter_position i ws = Some k \<Longrightarrow> k < length ws \<and> fst (ws ! k) = i"
proof (induction ws arbitrary: k)
  case (Cons x ws)
  then show ?case by (cases x) (auto split: if_splits)
qed simp

lemma waiter_position_None: "waiter_position i ws = None \<longleftrightarrow> i \<notin> fst ` set ws"
proof (induction ws)
  case (Cons x ws)
  then show ?case by (cases x) auto
qed simp

lemma mset_swap_remove:
  assumes "k < length xs"
  shows "mset xs = add_mset (xs ! k) (mset (fst (swap_remove xs k)))"
proof -
  let ?ys = "xs[k := last xs]"
  have ne: "?ys \<noteq> []" and ne': "xs \<noteq> []" using assms by auto
  have last: "last ?ys = last xs"
    using assms ne' by (subst last_conv_nth [OF ne]) (auto simp: last_conv_nth nth_list_update)
  have "mset ?ys = add_mset (last xs) (mset xs - {#xs ! k#})"
    using assms by (simp add: mset_update)
  moreover have "mset ?ys = add_mset (last xs) (mset (butlast ?ys))"
    using append_butlast_last_id [OF ne] last
    by (metis add_mset_add_single mset.simps(1) mset.simps(2) mset_append)
  ultimately have "mset (butlast ?ys) = mset xs - {#xs ! k#}" by simp
  then show ?thesis using assms by (simp add: swap_remove_def)
qed

lemma map_of_mset_insert:
  assumes "mset xs = add_mset (i, w) (mset ys)" and "distinct (map fst xs)"
  shows "distinct (map fst ys)" "map_of ys = (map_of xs)(i := None)"
proof -
  have m: "mset (map fst xs) = mset (i # map fst ys)"
    using arg_cong [OF assms(1), of "image_mset fst"] by simp
  then have d: "distinct (i # map fst ys)"
    using assms(2) mset_eq_imp_distinct_iff by blast
  then show d': "distinct (map fst ys)" by simp
  have set: "set xs = insert (i, w) (set ys)"
    using arg_cong [OF assms(1), of set_mset] by simp
  show "map_of ys = (map_of xs)(i := None)"
  proof
    fix j
    show "map_of ys j = ((map_of xs)(i := None)) j"
    proof (cases "j = i")
      case True
      then show ?thesis using d by (simp add: map_of_eq_None_iff)
    next
      case False
      have "map_of ys j = Some v \<longleftrightarrow> map_of xs j = Some v" for v
        using assms(2) d' set False by (simp add: map_of_eq_Some_iff)
      then show ?thesis using False by (cases "map_of xs j"; cases "map_of ys j") auto
    qed
  qed
qed

text \<open>What \<open>remove_waiter\<close> does to a list of distinct registrations.\<close>

lemma remove_waiter_spec:
  assumes "remove_waiter wt s = (s', r)" and "distinct (map fst (sb_waiters s))"
  obtains ws where "s' = s\<lparr>sb_waiters := ws\<rparr>" "distinct (map fst ws)"
    "set ws \<subseteq> set (sb_waiters s)"
    "map_of ws = (case wt of None \<Rightarrow> map_of (sb_waiters s)
       | Some i \<Rightarrow> (map_of (sb_waiters s))(i := None))"
    "mset (map snd (sb_waiters s)) = mset (opt_list r @ map snd ws)"
proof (cases "wt = None \<or> (\<exists>i. wt = Some i \<and> waiter_position i (sb_waiters s) = None)")
  case True
  then have "s' = s" "r = None" using assms(1)
    by (auto simp: remove_waiter_def)
  moreover have "map_of (sb_waiters s) = (case wt of None \<Rightarrow> map_of (sb_waiters s)
       | Some i \<Rightarrow> (map_of (sb_waiters s))(i := None))"
    using True by (auto simp: waiter_position_None map_of_eq_None_iff fun_eq_iff)
  ultimately show ?thesis using that [of "sb_waiters s"] assms(2)
    by (simp add: opt_list_def)
next
  case False
  then obtain i k where wt: "wt = Some i" and k: "waiter_position i (sb_waiters s) = Some k"
    by auto
  obtain w where w: "sb_waiters s ! k = (i, w)" "k < length (sb_waiters s)"
    using waiter_position_Some [OF k] by (cases "sb_waiters s ! k") auto
  define ws where "ws = fst (swap_remove (sb_waiters s) k)"
  have m: "mset (sb_waiters s) = add_mset (i, w) (mset ws)"
    using mset_swap_remove [OF w(2)] w(1) by (simp add: ws_def)
  have s': "s' = s\<lparr>sb_waiters := ws\<rparr>" "r = Some w"
    using assms(1) wt k w(1) by (auto simp: remove_waiter_def swap_remove_def ws_def)
  have "set ws \<subseteq> set (sb_waiters s)" using arg_cong [OF m, of set_mset] by auto
  moreover have "mset (map snd (sb_waiters s)) = mset (opt_list r @ map snd ws)"
    using arg_cong [OF m, of "image_mset snd"] s' by (simp add: opt_list_def)
  ultimately show ?thesis
    using that [OF s'(1)] map_of_mset_insert [OF m assms(2)] wt by simp
qed

section \<open>The protocol\<close>

text \<open>
  A stream in use. Future 0 is the \<open>Stream\<close> interface (it polls with the reserved number),
  the others are made by \<open>next\<close>; \<open>bx_futs\<close> holds their registration numbers. A future is
  parked with a waker from a poll that returned Pending until a waker of that task is
  woken. A blocked producer waits on the condition variable with its item, a notified one
  is about to repeat its attempt. \<open>bx_ones\<close> and \<open>bx_alls\<close> count the notifications that
  callers owe: the lock is released before the condition variable is notified, so
  other calls come between. The wakers taken from the list are woken by the same call;
  waking touches nothing of the stream, so it is attributed to the critical section.

  The ledgers \<open>bx_pushed\<close> and \<open>bx_out\<close> list the items that entered and that left
  the buffer (delivered, overwritten or cleared), and \<open>bx_regs\<close> counts the numbered
  registrations.
\<close>

record ('a, 'w) bx_sys =
  bx_stream :: "('a, 'w) stream"
  bx_made :: nat
  bx_futs :: "nat \<Rightarrow> u64 option option"
  bx_parked :: "nat \<Rightarrow> 'w option"
  bx_regs :: nat
  bx_blocked :: "'a multiset"
  bx_notified :: "'a multiset"
  bx_ones :: nat
  bx_alls :: nat
  bx_pushed :: "'a list"
  bx_out :: "'a list"

definition bx_init :: "('a, 'w) stream \<Rightarrow> ('a, 'w) bx_sys" where
  "bx_init s = \<lparr>bx_stream = s, bx_made = 0, bx_futs = [0 \<mapsto> Some STREAM_WAITER],
     bx_parked = (\<lambda>_. None), bx_regs = 0, bx_blocked = {#}, bx_notified = {#},
     bx_ones = 0, bx_alls = 0, bx_pushed = [], bx_out = []\<rparr>"

text \<open>The effects of a call on the rest of the system.\<close>

definition settle :: "('w \<Rightarrow> 'w \<Rightarrow> bool) \<Rightarrow> ('a, 'w) stream \<Rightarrow> ('a, 'w) effects
    \<Rightarrow> ('a, 'w) bx_sys \<Rightarrow> ('a, 'w) bx_sys" where
  "settle ww st fx s = s\<lparr>bx_stream := st,
     bx_parked := unpark ww (fx_woken fx) (bx_parked s),
     bx_ones := bx_ones s + (if fx_notify fx = NotifyOne then 1 else 0),
     bx_alls := bx_alls s + (if fx_notify fx = NotifyAll then 1 else 0)\<rparr>"

datatype ('a, 'w) bx_cmd =
    BNext | BPoll nat 'w | BDropFut nat | BTryNext | BClear | BDropStream
  | BPush 'a | BPushBlock 'a | BRetry 'a | BCloneSender | BDropSender
  | BNotifyOne 'a | BNotifyAll | BSpurious 'a

definition bx_push_block :: "('w \<Rightarrow> 'w \<Rightarrow> bool) \<Rightarrow> 'a \<Rightarrow> ('a, 'w) bx_sys \<Rightarrow> ('a, 'w) bx_sys" where
  "bx_push_block ww item s =
     (case bs_push_or_block item (bx_stream s) of (st, fx, r) \<Rightarrow>
        let s1 = settle ww st fx s in
        case r of Ret Blocked \<Rightarrow> s1\<lparr>bx_blocked := add_mset item (bx_blocked s1)\<rparr>
        | Ret PushOk \<Rightarrow> s1\<lparr>bx_pushed := bx_pushed s1 @ [item]\<rparr>
        | _ \<Rightarrow> s1)"

fun bx_step :: "('w \<Rightarrow> 'w \<Rightarrow> bool) \<Rightarrow> ('a, 'w) bx_cmd \<Rightarrow> ('a, 'w) bx_sys \<Rightarrow> ('a, 'w) bx_sys" where
  "bx_step ww BNext s =
     (if sb_consumer_gone (bx_stream s) then s
      else s\<lparr>bx_made := Suc (bx_made s), bx_futs := (bx_futs s)(Suc (bx_made s) \<mapsto> bs_next)\<rparr>)"
| "bx_step ww (BPoll f w) s =
     (case bx_futs s f of
        None \<Rightarrow> s
      | Some wt \<Rightarrow>
          if sb_consumer_gone (bx_stream s) then s
          else (case bs_poll_next_item ww w wt (bx_stream s) of (st, fx, r) \<Rightarrow>
            let s1 = settle ww st fx s in
            case r of
              Ret (Pending, wt') \<Rightarrow>
                s1\<lparr>bx_futs := (bx_futs s)(f \<mapsto> wt'),
                   bx_parked := (bx_parked s1)(f \<mapsto> w),
                   bx_regs := bx_regs s + (if wt = None then 1 else 0)\<rparr>
            | Ret (Ready x, wt') \<Rightarrow>
                s1\<lparr>bx_futs := (bx_futs s)(f \<mapsto> (if f = 0 then Some STREAM_WAITER else wt')),
                   bx_parked := (bx_parked s1)(f := None),
                   bx_out := bx_out s @ opt_list x\<rparr>
            | _ \<Rightarrow> s1))"
| "bx_step ww (BDropFut f) s =
     (case bx_futs s f of
        None \<Rightarrow> s
      | Some wt \<Rightarrow>
          if f = 0 then s
          else (case bs_drop_next_item wt (bx_stream s) of (st, fx) \<Rightarrow>
            (settle ww st fx s)\<lparr>bx_futs := (bx_futs s)(f := None),
               bx_parked := (bx_parked s)(f := None)\<rparr>))"
| "bx_step ww BTryNext s =
     (if sb_consumer_gone (bx_stream s) then s
      else (case bs_try_next (bx_stream s) of (st, fx, r) \<Rightarrow>
        let s1 = settle ww st fx s in
        case r of Ret x \<Rightarrow> s1\<lparr>bx_out := bx_out s @ opt_list x\<rparr> | _ \<Rightarrow> s1))"
| "bx_step ww BClear s =
     (if sb_consumer_gone (bx_stream s) then s
      else (case bs_clear_buffer (bx_stream s) of (st, fx, r) \<Rightarrow>
        (settle ww st fx s)\<lparr>bx_out := bx_out s @ fx_dropped fx\<rparr>))"
| "bx_step ww BDropStream s =
     (if sb_consumer_gone (bx_stream s) \<or> (\<exists>f \<in> {1..bx_made s}. bx_futs s f \<noteq> None) then s
      else (case bs_drop_stream (bx_stream s) of (st, fx) \<Rightarrow>
        (settle ww st fx s)\<lparr>bx_futs := (bx_futs s)(0 := None),
           bx_parked := (bx_parked s)(0 := None)\<rparr>))"
| "bx_step ww (BPush x) s =
     (if sb_sender_count (bx_stream s) = 0 then s
      else (case bs_push x (bx_stream s) of (st, fx, r) \<Rightarrow>
        let s1 = settle ww st fx s in
        case r of
          Ret u \<Rightarrow> s1\<lparr>bx_pushed := bx_pushed s @ [x], bx_out := bx_out s @ fx_dropped fx\<rparr>
        | _ \<Rightarrow> s1))"
| "bx_step ww (BPushBlock x) s =
     (if sb_sender_count (bx_stream s) = 0 then s else bx_push_block ww x s)"
| "bx_step ww (BRetry x) s =
     (if x \<in># bx_notified s
      then bx_push_block ww x (s\<lparr>bx_notified := bx_notified s - {#x#}\<rparr>) else s)"
| "bx_step ww BCloneSender s =
     (if sb_sender_count (bx_stream s) = 0 then s
      else (case bs_clone_sender (bx_stream s) of (st, fx, r) \<Rightarrow> settle ww st fx s))"
| "bx_step ww BDropSender s =
     (if sb_sender_count (bx_stream s) = 0
        \<or> sb_sender_count (bx_stream s) = 1 \<and> bx_blocked s + bx_notified s \<noteq> {#} then s
      else (case bs_drop_sender (bx_stream s) of (st, fx) \<Rightarrow> settle ww st fx s))"
| "bx_step ww (BNotifyOne x) s =
     (if bx_ones s = 0 then s
      else if bx_blocked s = {#} then s\<lparr>bx_ones := bx_ones s - 1\<rparr>
      else if x \<in># bx_blocked s
      then s\<lparr>bx_ones := bx_ones s - 1, bx_blocked := bx_blocked s - {#x#},
             bx_notified := add_mset x (bx_notified s)\<rparr>
      else s)"
| "bx_step ww BNotifyAll s =
     (if bx_alls s = 0 then s
      else s\<lparr>bx_alls := bx_alls s - 1, bx_blocked := {#},
             bx_notified := bx_notified s + bx_blocked s\<rparr>)"
| "bx_step ww (BSpurious x) s =
     (if x \<in># bx_blocked s
      then s\<lparr>bx_blocked := bx_blocked s - {#x#}, bx_notified := add_mset x (bx_notified s)\<rparr>
      else s)"

inductive bx_reachable :: "('w \<Rightarrow> 'w \<Rightarrow> bool) \<Rightarrow> nat \<Rightarrow> ('a, 'w) bx_sys \<Rightarrow> bool"
  for ww :: "'w \<Rightarrow> 'w \<Rightarrow> bool" and capacity :: nat where
  bx_start: "bs_new capacity = Ret s \<Longrightarrow> bx_reachable ww capacity (bx_init s)"
| bx_next: "bx_reachable ww capacity s \<Longrightarrow> bx_reachable ww capacity (bx_step ww c s)"

lemma bx_fold_reachable:
  "bx_reachable ww n s \<Longrightarrow> bx_reachable ww n (fold (bx_step ww) cs s)"
  by (induction cs arbitrary: s) (auto intro: bx_next)

section \<open>Producers and the ledger\<close>

definition bx_producers_ok :: "nat \<Rightarrow> ('a, 'w) bx_sys \<Rightarrow> bool" where
  "bx_producers_ok capacity s \<longleftrightarrow>
     (let st = bx_stream s in
      sb_capacity st = capacity \<and> 0 < capacity
      \<and> length (sb_buffer st) \<le> capacity
      \<and> (sb_closed st \<longleftrightarrow> sb_sender_count st = 0)
      \<and> sb_sender_count st \<le> usize_max
      \<and> bx_pushed s = bx_out s @ sb_buffer st
      \<and> (sb_sender_count st = 0 \<longrightarrow> bx_blocked s = {#} \<and> bx_notified s = {#})
      \<and> (bx_blocked s = {#} \<or> 0 < bx_alls s
         \<or> \<not> sb_consumer_gone st
            \<and> capacity - length (sb_buffer st) \<le> size (bx_notified s) + bx_ones s))"

lemmas bx_defs = bx_push_block_def settle_def Let_def no_fx_def

lemma bx_step_poisoned: "sb_poisoned (bx_stream s) \<Longrightarrow> sb_poisoned (bx_stream (bx_step ww c s))"
  by (cases c) (auto simp: bx_defs bs_defs remove_waiter_def split: option.split prod.split)

text \<open>The three outcomes of a poll.\<close>

lemma bs_poll_cases:
  assumes "bs_poll_next_item ww cx wt s = (s', fx, r)" and "\<not> sb_poisoned s"
  obtains
    (item) x xs released where "sb_buffer s = x # xs"
      "remove_waiter wt (s\<lparr>sb_buffer := xs\<rparr>) = (s', released)"
      "fx_woken fx = []" "fx_notify fx = NotifyOne" "fx_dropped fx = []"
      "fx_released fx = cx # opt_list released" "r = Ret (Ready (Some x), None)"
  | (ended) released where "sb_buffer s = []" "sb_closed s" "remove_waiter wt s = (s', released)"
      "fx_woken fx = []" "fx_notify fx = NotifyNone" "fx_dropped fx = []"
      "fx_released fx = cx # opt_list released" "r = Ret (Ready None, None)"
  | (pending) i left released where "sb_buffer s = []" "\<not> sb_closed s"
      "register_waiter ww wt cx s = (s', i, left, released)"
      "fx_woken fx = []" "fx_notify fx = NotifyNone" "fx_dropped fx = []"
      "fx_released fx = opt_list left @ opt_list released" "r = Ret (Pending, Some i)"
  using assms
  by (auto simp: bs_poll_next_item_def no_fx_def split: list.splits if_splits prod.splits)

lemma remove_waiter_frame:
  "remove_waiter wt s = (s', r) \<Longrightarrow> s' = s\<lparr>sb_waiters := sb_waiters s'\<rparr>"
  by (auto simp: remove_waiter_def split: option.splits prod.splits)

lemma register_waiter_frame:
  "register_waiter ww wt cx s = (s', i, l, r) \<Longrightarrow>
     s' = s\<lparr>sb_waiters := sb_waiters s', sb_next_waiter := sb_next_waiter s'\<rparr>"
  by (auto simp: register_waiter_def Let_def split: option.splits if_splits)

text \<open>Neither touches anything else.\<close>

lemma remove_waiter_same:
  assumes "remove_waiter wt s = (s', r)"
  shows "sb_buffer s' = sb_buffer s" "sb_closed s' = sb_closed s"
    "sb_consumer_gone s' = sb_consumer_gone s" "sb_sender_count s' = sb_sender_count s"
    "sb_capacity s' = sb_capacity s" "sb_poisoned s' = sb_poisoned s"
    "sb_next_waiter s' = sb_next_waiter s"
  by (subst remove_waiter_frame [OF assms], simp)+

lemma register_waiter_same:
  assumes "register_waiter ww wt cx s = (s', i, l, r)"
  shows "sb_buffer s' = sb_buffer s" "sb_closed s' = sb_closed s"
    "sb_consumer_gone s' = sb_consumer_gone s" "sb_sender_count s' = sb_sender_count s"
    "sb_capacity s' = sb_capacity s" "sb_poisoned s' = sb_poisoned s"
  by (subst register_waiter_frame [OF assms], simp)+

lemma bx_producers_step:
  assumes "bx_producers_ok n s" and "\<not> sb_poisoned (bx_stream (bx_step ww c s))"
  shows "bx_producers_ok n (bx_step ww c s)"
proof -
  have np: "\<not> sb_poisoned (bx_stream s)" using bx_step_poisoned assms(2) by blast
  show ?thesis
  proof (cases c)
    case BNext
    then show ?thesis using assms np by (auto simp: bx_producers_ok_def Let_def)
  next
    case BTryNext
    then show ?thesis using assms(1) np
      by (auto simp: bx_producers_ok_def bx_defs bs_defs opt_list_def split: list.splits)
  next
    case BClear
    then show ?thesis using assms(1) np
      by (auto simp: bx_producers_ok_def bx_defs bs_defs)
  next
    case BDropStream
    then show ?thesis using assms(1) np
      by (auto simp: bx_producers_ok_def bx_defs bs_defs)
  next
    case (BPush x)
    then show ?thesis using assms(1) np
      by (auto simp: bx_producers_ok_def bx_defs bs_defs split: list.splits)
  next
    case (BPushBlock x)
    then show ?thesis using assms(1) np
      by (auto simp: bx_producers_ok_def bx_defs bs_defs)
  next
    case (BRetry x)
    then show ?thesis using assms(1) np
      by (auto simp: bx_producers_ok_def bx_defs bs_defs dest!: multi_member_split)
  next
    case BCloneSender
    then show ?thesis using assms np
      by (auto simp: bx_producers_ok_def bx_defs bs_defs checked_add_def split: if_splits)
  next
    case BDropSender
    then show ?thesis using assms(1) np
      by (auto simp: bx_producers_ok_def bx_defs bs_defs)
  next
    case (BNotifyOne x)
    then show ?thesis using assms(1) np
      by (auto simp: bx_producers_ok_def Let_def)
  next
    case BNotifyAll
    then show ?thesis using assms(1) np
      by (auto simp: bx_producers_ok_def Let_def)
  next
    case (BSpurious x)
    then show ?thesis using assms(1) np
      by (auto simp: bx_producers_ok_def Let_def)
  next
    case (BDropFut f)
    then show ?thesis using assms(1) np
      by (auto simp: bx_producers_ok_def bx_defs bs_defs remove_waiter_def
          split: option.splits prod.splits)
  next
    case (BPoll f w)
    show ?thesis
    proof (cases "bx_futs s f = None \<or> sb_consumer_gone (bx_stream s)")
      case True
      then show ?thesis using assms(1) BPoll by (auto split: option.split)
    next
      case False
      then obtain wt where wt: "bx_futs s f = Some wt" by auto
      obtain st fx r where p: "bs_poll_next_item ww w wt (bx_stream s) = (st, fx, r)"
        by (metis prod_cases3)
      show ?thesis using p np
      proof (cases rule: bs_poll_cases)
        case (item x xs released)
        then show ?thesis using assms(1) BPoll wt False p
          by (auto simp: remove_waiter_same [OF item(2)] bx_producers_ok_def bx_defs opt_list_def)
      next
        case (ended released)
        then show ?thesis using assms(1) BPoll wt False p
          by (auto simp: remove_waiter_same [OF ended(3)] bx_producers_ok_def bx_defs opt_list_def)
      next
        case (pending i left released)
        then show ?thesis using assms(1) BPoll wt False p
          by (auto simp: register_waiter_same [OF pending(3)] bx_producers_ok_def bx_defs)
      qed
    qed
  qed
qed

section \<open>Registrations\<close>

text \<open>
  The registrations of the futures, as long as the 64-bit numbers have not come round.
  Registered wakers and buffered items exclude each other.
\<close>

definition numbered :: "nat \<Rightarrow> (nat \<Rightarrow> u64 option option) \<Rightarrow> bool" where
  "numbered regs futs \<longleftrightarrow>
     (\<forall>f i. futs f = Some (Some i) \<longrightarrow> unat i \<le> regs)
     \<and> (\<forall>f g i. futs f = Some (Some i) \<longrightarrow> futs g = Some (Some i) \<longrightarrow> f = g)"

definition parked_ok :: "('w \<Rightarrow> 'w \<Rightarrow> bool) \<Rightarrow> (u64 \<rightharpoonup> 'w) \<Rightarrow> (nat \<Rightarrow> u64 option option)
    \<Rightarrow> (nat \<Rightarrow> 'w option) \<Rightarrow> bool" where
  "parked_ok ww ws futs parked \<longleftrightarrow>
     (\<forall>f w. parked f = Some w \<longrightarrow>
        (\<exists>i v. futs f = Some (Some i) \<and> ws i = Some v \<and> wakes_task ww w v))"

definition bx_waiters_ok :: "('w \<Rightarrow> 'w \<Rightarrow> bool) \<Rightarrow> ('a, 'w) bx_sys \<Rightarrow> bool" where
  "bx_waiters_ok ww s \<longleftrightarrow>
     (let st = bx_stream s in
      distinct (map fst (sb_waiters st))
      \<and> (\<forall>i \<in> fst ` set (sb_waiters st). unat i \<le> bx_regs s)
      \<and> sb_next_waiter st = of_nat (bx_regs s + 1)
      \<and> numbered (bx_regs s) (bx_futs s)
      \<and> bx_futs s 0 = (if sb_consumer_gone st then None else Some (Some STREAM_WAITER))
      \<and> (\<forall>f > bx_made s. bx_futs s f = None)
      \<and> parked_ok ww (map_of (sb_waiters st)) (bx_futs s) (bx_parked s)
      \<and> (sb_consumer_gone st \<longrightarrow> (\<forall>f. bx_futs s f = None))
      \<and> (sb_waiters st \<noteq> [] \<longrightarrow> sb_buffer st = [] \<and> \<not> sb_closed st))"

lemma parked_okE:
  assumes "parked_ok ww ws futs parked" "parked f = Some w"
  obtains i v where "futs f = Some (Some i)" "ws i = Some v" "wakes_task ww w v"
  using assms unfolding parked_ok_def by blast

lemma parked_ok_unpark_all:
  assumes "parked_ok ww (map_of ws) futs parked"
  shows "unpark ww (map snd ws) parked = (\<lambda>_. None)"
proof
  fix f
  show "unpark ww (map snd ws) parked f = None"
  proof (cases "parked f")
    case (Some w)
    then obtain i v where "map_of ws i = Some v" "wakes_task ww w v"
      using assms by (blast elim: parked_okE)
    then have "list_ex (wakes_task ww w) (map snd ws)"
      using map_of_SomeD [of ws i v] by (force simp: list_ex_iff)
    then show ?thesis using Some by (simp add: unpark_def)
  qed (simp add: unpark_def)
qed

lemma parked_ok_none [simp]: "parked_ok ww ws futs (\<lambda>_. None)"
  by (simp add: parked_ok_def)

lemma numbered_inj:
  "numbered r futs \<Longrightarrow> futs f = Some (Some i) \<Longrightarrow> futs g = Some (Some i) \<Longrightarrow> f = g"
  unfolding numbered_def by blast

lemma numbered_le: "numbered r futs \<Longrightarrow> futs f = Some (Some i) \<Longrightarrow> unat i \<le> r"
  unfolding numbered_def by blast

lemma numbered_upd:
  "numbered r futs \<Longrightarrow> numbered r (futs(f := None))"
  "numbered r futs \<Longrightarrow> numbered r (futs(f := Some None))"
  by (auto simp: numbered_def)

lemma numbered_same:
  "numbered r futs \<Longrightarrow> futs f = Some (Some i) \<Longrightarrow> numbered r (futs(f := Some (Some i)))"
  by (simp add: fun_upd_idem)

lemma numbered_fresh:
  assumes "numbered r futs" and "r + 1 < 2 ^ 64"
  shows "numbered (Suc r) (futs(f := Some (Some (of_nat (r + 1)))))"
proof -
  have u: "unat (of_nat (r + 1) :: u64) = Suc r" using assms(2) 
    by (simp only: unat_of_nat) (simp add: take_bit_nat_eq_self)
  have "futs g \<noteq> Some (Some (of_nat (r + 1)))" for g
  proof
    assume "futs g = Some (Some (of_nat (r + 1)))"
    then have "unat (of_nat (r + 1) :: u64) \<le> r" using assms(1) by (auto simp: numbered_def)
    then show False using u by simp
  qed
  then show ?thesis using assms(1) u by (auto simp: numbered_def le_SucI)
qed

text \<open>The four ways in which the waiter list changes.\<close>

lemma parked_ok_drop:
  assumes "parked_ok ww ws futs parked" "numbered r futs" "futs f = Some wt"
  shows "parked_ok ww (case wt of None \<Rightarrow> ws | Some i \<Rightarrow> ws(i := None)) (futs(f := x)) (parked(f := None))"
  unfolding parked_ok_def
proof (intro allI impI)
  fix g w
  assume "(parked(f := None)) g = Some w"
  then have g: "g \<noteq> f" "parked g = Some w" by (auto split: if_splits)
  then obtain i v where i: "futs g = Some (Some i)" "ws i = Some v" "wakes_task ww w v"
    using assms(1) by (blast elim: parked_okE)
  then have "wt \<noteq> Some i" using assms(2,3) g(1) by (auto simp: numbered_def)
  then show "\<exists>i v. (futs(f := x)) g = Some (Some i)
      \<and> (case wt of None \<Rightarrow> ws | Some i \<Rightarrow> ws(i := None)) i = Some v \<and> wakes_task ww w v"
    using i g(1) by (auto split: option.split)
qed

lemma parked_ok_register:
  assumes "parked_ok ww ws futs parked" "numbered r (futs(f := Some (Some i)))"
    and "\<And>g j. g \<noteq> f \<Longrightarrow> futs g = Some (Some j) \<Longrightarrow> ws' j = ws j"
    and "ws' i = Some v" "wakes_task ww w v"
  shows "parked_ok ww ws' (futs(f := Some (Some i))) (parked(f := Some w))"
  unfolding parked_ok_def
proof (intro allI impI)
  fix g u
  assume "(parked(f := Some w)) g = Some u"
  then consider "g = f" "u = w" | "g \<noteq> f" "parked g = Some u" by (auto split: if_splits)
  then show "\<exists>i' v. (futs(f := Some (Some i))) g = Some (Some i') \<and> ws' i' = Some v \<and> wakes_task ww u v"
  proof cases
    case 1
    then show ?thesis using assms(4,5) by auto
  next
    case 2
    then obtain j x where "futs g = Some (Some j)" "ws j = Some x" "wakes_task ww u x"
      using assms(1) by (blast elim: parked_okE)
    then show ?thesis using 2 assms(3) by auto
  qed
qed

lemma next_waiter_Suc:
  assumes "Suc (Suc r) < 2 ^ 64"
  shows "max ((of_nat (r + 1) :: u64) + 1) 1 = of_nat (Suc r + 1)"
proof -
  have "unat (of_nat (Suc r + 1) :: u64) = Suc r + 1"
    using assms by (simp only: unat_of_nat) (simp add: take_bit_nat_eq_self)
  then have "(1 :: u64) \<le> of_nat (Suc r + 1)"
    by (simp only: word_le_nat_alt) simp
  then show ?thesis by (simp add: max_absorb1 add.commute add.left_commute)
qed

lemma map_of_append_fresh:
  "map_of ws i = None \<Longrightarrow> map_of (ws @ [(i, v)]) = (map_of ws)(i \<mapsto> v)"
  by (auto simp: map_add_def fun_eq_iff split: option.split)

text \<open>A registration: the waiter's number, and where its waker is found.\<close>

lemma register_waiter_spec:
  assumes reg: "register_waiter ww wt cx st = (st', i, l, rel)"
    and d: "distinct (map fst (sb_waiters st))"
    and ids: "\<forall>j \<in> fst ` set (sb_waiters st). unat j \<le> r"
    and nw: "sb_next_waiter st = of_nat (r + 1)"
    and r': "r' = r + (if wt = None then 1 else 0)" "r' + 1 < 2 ^ 64"
  obtains ws v where "st' = st\<lparr>sb_waiters := ws, sb_next_waiter := of_nat (r' + 1)\<rparr>"
    "distinct (map fst ws)" "fst ` set ws = insert i (fst ` set (sb_waiters st))"
    "case wt of None \<Rightarrow> i = of_nat (r + 1) | Some j \<Rightarrow> i = j"
    "map_of ws = (map_of (sb_waiters st))(i \<mapsto> v)" "wakes_task ww cx v"
proof (cases wt)
  case None
  have u: "unat (of_nat (r + 1) :: u64) = r + 1"
    using r' None by (simp only: unat_of_nat) (simp add: take_bit_nat_eq_self)
  then have fresh: "(of_nat (r + 1) :: u64) \<notin> fst ` set (sb_waiters st)"
    using ids by auto
  then have "find_waiter (of_nat (r + 1)) (sb_waiters st) = None"
    by (simp add: find_waiter_map_of map_of_eq_None_iff)
  moreover have "max ((of_nat (r + 1) :: u64) + 1) 1 = of_nat (r' + 1)"
    using next_waiter_Suc [of r] r' None by simp
  ultimately have "st' = st\<lparr>sb_waiters := sb_waiters st @ [(of_nat (r + 1), cx)],
      sb_next_waiter := of_nat (r' + 1)\<rparr>" "i = of_nat (r + 1)"
    using reg None nw by (simp_all only: register_waiter_def Let_def option.case prod.case) auto
  moreover have "map_of (sb_waiters st @ [(of_nat (r + 1), cx)])
      = (map_of (sb_waiters st))(of_nat (r + 1) \<mapsto> cx)"
    using fresh by (intro map_of_append_fresh) (simp only: map_of_eq_None_iff not_False_eq_True)
  ultimately show ?thesis
    using that [of "sb_waiters st @ [(of_nat (r + 1), cx)]" cx] d fresh None
    by (auto simp: wakes_task_def)
next
  case (Some j)
  have r: "r' = r" using r' Some by simp
  show ?thesis
  proof (cases "map_of (sb_waiters st) j")
    case None
    then have fresh: "j \<notin> fst ` set (sb_waiters st)" by (simp add: map_of_eq_None_iff)
    have "st' = st\<lparr>sb_waiters := sb_waiters st @ [(j, cx)],
      sb_next_waiter := of_nat (r' + 1)\<rparr>" "i = j"
      using reg None Some nw r by (auto simp: register_waiter_def find_waiter_map_of Let_def)
    moreover have "map_of (sb_waiters st @ [(j, cx)]) = (map_of (sb_waiters st))(j \<mapsto> cx)"
      using None by (rule map_of_append_fresh)
    ultimately show ?thesis
      using that [of "sb_waiters st @ [(j, cx)]" cx] d fresh Some by (auto simp: wakes_task_def)
  next
    case found: (Some v)
    then have mem: "j \<in> fst ` set (sb_waiters st)" by (force dest: map_of_SomeD)
    show ?thesis
    proof (cases "ww v cx")
      case True
      then have "st' = st" "i = j"
        using reg found Some by (auto simp: register_waiter_def find_waiter_map_of Let_def)
      then show ?thesis
        using that [of "sb_waiters st" v] d mem found True Some nw r
        by (auto simp: wakes_task_def fun_upd_idem)
    next
      case False
      then have "st' = st\<lparr>sb_waiters := replace_waiter j cx (sb_waiters st)\<rparr>" "i = j"
        using reg found Some by (auto simp: register_waiter_def find_waiter_map_of Let_def)
      moreover have "fst ` set (replace_waiter j cx (sb_waiters st)) = fst ` set (sb_waiters st)"
        using replace_waiter_fst [of j cx "sb_waiters st"] by (metis set_map)
      ultimately show ?thesis
        using that [of "replace_waiter j cx (sb_waiters st)" cx] d mem Some nw r
        by (auto simp: wakes_task_def map_of_replace_waiter)
    qed
  qed
qed

lemma bx_waiters_poll:
  assumes ok: "bx_waiters_ok ww s" and np: "\<not> sb_poisoned (bx_stream s)"
    and fut: "bx_futs s f = Some wt" and alive: "\<not> sb_consumer_gone (bx_stream s)"
    and bound: "bx_regs (bx_step ww (BPoll f w) s) + 1 < 2 ^ 64"
  shows "bx_waiters_ok ww (bx_step ww (BPoll f w) s)"
proof -
  obtain st fx r where p: "bs_poll_next_item ww w wt (bx_stream s) = (st, fx, r)"
    by (metis prod_cases3)
  have d: "distinct (map fst (sb_waiters (bx_stream s)))"
    and num: "numbered (bx_regs s) (bx_futs s)"
    and pk: "parked_ok ww (map_of (sb_waiters (bx_stream s))) (bx_futs s) (bx_parked s)"
    using ok by (simp_all add: bx_waiters_ok_def Let_def)
  have zero: "f = 0 \<Longrightarrow> wt = Some STREAM_WAITER"
    using ok fut alive by (auto simp: bx_waiters_ok_def Let_def)
  have num': "numbered (bx_regs s) ((bx_futs s)(f \<mapsto> (if f = 0 then Some STREAM_WAITER else None)))"
    using numbered_same [OF num] numbered_upd(2) [OF num] zero fut by auto
  have le: "f \<le> bx_made s"
    using ok fut unfolding bx_waiters_ok_def Let_def by (metis not_le option.distinct(1))
  show ?thesis using p np
  proof (cases rule: bs_poll_cases)
    case (item x xs released)
    obtain ws where ws: "st = bx_stream s\<lparr>sb_buffer := xs, sb_waiters := ws\<rparr>" "set ws \<subseteq> {}"
      using remove_waiter_spec [OF item(2)] d item(1) ok
      by (auto simp: bx_waiters_ok_def Let_def)
    have "sb_waiters (bx_stream s) = []" using ok item(1) by (auto simp: bx_waiters_ok_def Let_def)
    then have "parked_ok ww Map.empty
        ((bx_futs s)(f \<mapsto> (if f = 0 then Some STREAM_WAITER else None))) ((bx_parked s)(f := None))"
      using parked_ok_drop [OF pk num fut, of "Some (if f = 0 then Some STREAM_WAITER else None)"]
      by (auto split: option.splits simp: fun_upd_idem)
    then show ?thesis
      using ok fut alive p item ws num' le by (auto simp: bx_waiters_ok_def Let_def settle_def)
  next
    case (ended released)
    have "sb_waiters (bx_stream s) = []" using ok ended by (auto simp: bx_waiters_ok_def Let_def)
    moreover obtain ws where ws: "st = bx_stream s\<lparr>sb_waiters := ws\<rparr>"
        "set ws \<subseteq> set (sb_waiters (bx_stream s))"
      using remove_waiter_spec [OF ended(3) d] by metis
    moreover have "parked_ok ww Map.empty
        ((bx_futs s)(f \<mapsto> (if f = 0 then Some STREAM_WAITER else None))) ((bx_parked s)(f := None))"
      using calculation
        parked_ok_drop [OF pk num fut, of "Some (if f = 0 then Some STREAM_WAITER else None)"]
      by (auto split: option.splits simp: fun_upd_idem)
    ultimately show ?thesis
      using ok fut alive p ended num' le by (auto simp: bx_waiters_ok_def Let_def settle_def)
  next
    case (pending i left released)
    define r' where "r' = bx_regs s + (if wt = None then 1 else 0)"
    have step: "bx_step ww (BPoll f w) s = s\<lparr>bx_stream := st,
        bx_futs := (bx_futs s)(f \<mapsto> Some i), bx_parked := (bx_parked s)(f \<mapsto> w), bx_regs := r'\<rparr>"
      using fut alive p pending by (simp add: settle_def r'_def)
    have b: "r' + 1 < 2 ^ 64" using bound unfolding step by simp
    have ids: "\<forall>j \<in> fst ` set (sb_waiters (bx_stream s)). unat j \<le> bx_regs s"
      and nw: "sb_next_waiter (bx_stream s) = of_nat (bx_regs s + 1)"
      using ok by (simp_all add: bx_waiters_ok_def Let_def)
    obtain ws v where st: "st = bx_stream s\<lparr>sb_waiters := ws, sb_next_waiter := of_nat (r' + 1)\<rparr>"
      and dw: "distinct (map fst ws)"
      and fw: "fst ` set ws = insert i (fst ` set (sb_waiters (bx_stream s)))"
      and i: "case wt of None \<Rightarrow> i = of_nat (bx_regs s + 1) | Some j \<Rightarrow> i = j"
      and mw: "map_of ws = (map_of (sb_waiters (bx_stream s)))(i \<mapsto> v)" "wakes_task ww w v"
      using register_waiter_spec [OF pending(3) d ids nw r'_def b] by metis
    have numi: "numbered r' ((bx_futs s)(f \<mapsto> Some i))"
    proof (cases wt)
      case None
      then show ?thesis using numbered_fresh [OF num, of f] i b by (simp add: r'_def)
    next
      case (Some j)
      then show ?thesis using numbered_same [OF num, of f j] fut i by (simp add: r'_def)
    qed
    have "parked_ok ww (map_of ws) ((bx_futs s)(f \<mapsto> Some i)) ((bx_parked s)(f \<mapsto> w))"
    proof (rule parked_ok_register [OF pk numi])
      fix g j
      assume "g \<noteq> f" "bx_futs s g = Some (Some j)"
      then have "j \<noteq> i" using numbered_inj [OF numi, of f i g] by auto
      then show "map_of ws j = map_of (sb_waiters (bx_stream s)) j" using mw by simp
    next
      show "map_of ws i = Some v" "wakes_task ww w v" using mw by simp_all
    qed
    moreover have "\<forall>j \<in> fst ` set ws. unat j \<le> r'"
    proof -
      have "unat i \<le> r'" using numbered_le [OF numi, of f i] by simp
      then show ?thesis using ids unfolding fw by (auto simp: r'_def intro: le_SucI)
    qed
    moreover have "((bx_futs s)(f \<mapsto> Some i)) 0 = Some (Some STREAM_WAITER)"
      using zero i ok alive by (auto simp: bx_waiters_ok_def Let_def)
    moreover have "\<forall>g > bx_made s. ((bx_futs s)(f \<mapsto> Some i)) g = None"
      using ok le by (auto simp: bx_waiters_ok_def Let_def)
    ultimately show ?thesis
      unfolding step bx_waiters_ok_def Let_def using st dw numi pending(1,2) alive
      by (simp del: fun_upd_apply)
  qed
qed

lemma bx_waiters_step:
  assumes ok: "bx_waiters_ok ww s" and pr: "bx_producers_ok n s"
    and np': "\<not> sb_poisoned (bx_stream (bx_step ww c s))"
    and bound: "bx_regs (bx_step ww c s) + 1 < 2 ^ 64"
  shows "bx_waiters_ok ww (bx_step ww c s)"
proof -
  have np: "\<not> sb_poisoned (bx_stream s)" using bx_step_poisoned np' by blast
  have all: "unpark ww (map snd (sb_waiters (bx_stream s))) (bx_parked s) = (\<lambda>_. None)"
    using ok by (intro parked_ok_unpark_all) (auto simp: bx_waiters_ok_def Let_def)
  show ?thesis
  proof (cases c)
    case BNext
    have "parked_ok ww ws futs parked \<Longrightarrow> futs g = None \<Longrightarrow> parked_ok ww ws (futs(g := x)) parked"
      for ws futs parked g x by (auto simp: parked_ok_def) (metis option.distinct(1))
    moreover have "numbered r futs \<Longrightarrow> numbered r (futs(g \<mapsto> bs_next))" for r futs g
      using numbered_upd(2) by (simp add: bs_next_def)
    ultimately show ?thesis using ok BNext by (simp add: bx_waiters_ok_def Let_def)
  next
    case (BPoll f w)
    show ?thesis
    proof (cases "bx_futs s f = None \<or> sb_consumer_gone (bx_stream s)")
      case True
      then have "bx_step ww (BPoll f w) s = s" by (auto split: option.split)
      then show ?thesis using ok BPoll by simp
    next
      case False
      then obtain wt where "bx_futs s f = Some wt" by auto
      then show ?thesis
        using bx_waiters_poll [OF ok np _ _ bound [unfolded BPoll]] False BPoll by simp
    qed
  next
    case (BDropFut f)
    show ?thesis
    proof (cases "f = 0 \<or> bx_futs s f = None")
      case True
      then show ?thesis using ok BDropFut by (auto split: option.split)
    next
      case False
      then obtain wt where wt: "bx_futs s f = Some wt" "f \<noteq> 0" by auto
      obtain st rel where rm: "remove_waiter wt (bx_stream s) = (st, rel)" by fastforce
      have d: "distinct (map fst (sb_waiters (bx_stream s)))"
        and num: "numbered (bx_regs s) (bx_futs s)"
        and pk: "parked_ok ww (map_of (sb_waiters (bx_stream s))) (bx_futs s) (bx_parked s)"
        using ok by (simp_all add: bx_waiters_ok_def Let_def)
      obtain ws where ws: "st = bx_stream s\<lparr>sb_waiters := ws\<rparr>" "distinct (map fst ws)"
          "set ws \<subseteq> set (sb_waiters (bx_stream s))"
          "map_of ws = (case wt of None \<Rightarrow> map_of (sb_waiters (bx_stream s))
             | Some i \<Rightarrow> (map_of (sb_waiters (bx_stream s)))(i := None))"
        using remove_waiter_spec [OF rm d] by metis
      have "parked_ok ww (map_of ws) ((bx_futs s)(f := None)) ((bx_parked s)(f := None))"
        unfolding ws(4) by (rule parked_ok_drop [OF pk num wt(1)])
      moreover have "numbered (bx_regs s) ((bx_futs s)(f := None))" by (rule numbered_upd [OF num])
      moreover have "ws \<noteq> [] \<Longrightarrow> sb_waiters (bx_stream s) \<noteq> []" using ws(3) by auto
      ultimately show ?thesis
        using ok BDropFut wt rm ws(1-3)
        by (auto simp: bx_waiters_ok_def Let_def settle_def bs_drop_next_item_def no_fx_def)
    qed
  next
    case BTryNext
    then show ?thesis using ok np
      by (auto simp: bx_waiters_ok_def bx_defs bs_defs split: list.splits)
  next
    case BClear
    then show ?thesis using ok np by (auto simp: bx_waiters_ok_def bx_defs bs_defs)
  next
    case BDropStream
    show ?thesis
    proof (cases "sb_consumer_gone (bx_stream s) \<or> (\<exists>f \<in> {1..bx_made s}. bx_futs s f \<noteq> None)")
      case True
      then show ?thesis using ok BDropStream by auto
    next
      case False
      have none: "bx_futs s f = None" if "f \<noteq> 0" for f
        using ok False that by (cases "f \<le> bx_made s") (auto simp: bx_waiters_ok_def Let_def)
      then have "(bx_parked s)(0 := None) = (\<lambda>_. None)"
        using ok by (auto simp: bx_waiters_ok_def Let_def parked_ok_def fun_eq_iff)
          (metis option.distinct(1) option.exhaust)
      then show ?thesis using ok False BDropStream none
        by (auto simp: bx_waiters_ok_def bx_defs bs_defs numbered_def)
    qed
  next
    case (BPush x)
    then show ?thesis using ok np all
      by (auto simp: bx_waiters_ok_def bx_defs bs_defs split: list.splits)
  next
    case (BPushBlock x)
    then show ?thesis using ok np all by (auto simp: bx_waiters_ok_def bx_defs bs_defs)
  next
    case (BRetry x)
    then show ?thesis using ok np all by (auto simp: bx_waiters_ok_def bx_defs bs_defs)
  next
    case BCloneSender
    then show ?thesis using ok np np'
      by (auto simp: bx_waiters_ok_def bx_defs bs_defs checked_add_def split: if_splits)
  next
    case BDropSender
    then show ?thesis using ok np all by (auto simp: bx_waiters_ok_def bx_defs bs_defs)
  next
    case (BNotifyOne x)
    then show ?thesis using ok by (auto simp: bx_waiters_ok_def Let_def)
  next
    case BNotifyAll
    then show ?thesis using ok by (auto simp: bx_waiters_ok_def Let_def)
  next
    case (BSpurious x)
    then show ?thesis using ok by (auto simp: bx_waiters_ok_def Let_def)
  qed
qed

section \<open>Reachable states\<close>

lemma bx_step_regs: "bx_regs s \<le> bx_regs (bx_step ww c s)"
  by (cases c)
    (auto simp: bx_defs split: option.split prod.split run.split poll.split attempt.split)

lemma bx_init_ok:
  assumes "bs_new n = Ret st"
  shows "bx_producers_ok n (bx_init st)" "bx_waiters_ok ww (bx_init st)"
  using assms
  by (auto simp: bs_new_def bx_init_def bx_producers_ok_def bx_waiters_ok_def Let_def
      numbered_def parked_ok_def STREAM_WAITER_def usize_max_def split: if_splits)

lemma bx_reachable_ok:
  "bx_reachable ww n s \<Longrightarrow> \<not> sb_poisoned (bx_stream s) \<Longrightarrow>
     bx_producers_ok n s \<and> (bx_regs s + 1 < 2 ^ 64 \<longrightarrow> bx_waiters_ok ww s)"
proof (induction rule: bx_reachable.induct)
  case (bx_start st)
  then show ?case using bx_init_ok [OF bx_start(1)] by blast
next
  case (bx_next s c)
  have np: "\<not> sb_poisoned (bx_stream s)" using bx_step_poisoned bx_next.prems by blast
  have ih: "bx_producers_ok n s" "bx_regs s + 1 < 2 ^ 64 \<longrightarrow> bx_waiters_ok ww s"
    using bx_next.IH np by blast+
  show ?case
  proof (intro conjI impI)
    show "bx_producers_ok n (bx_step ww c s)"
      by (rule bx_producers_step [OF ih(1) bx_next.prems])
    assume b: "bx_regs (bx_step ww c s) + 1 < 2 ^ 64"
    have "bx_regs s + 1 < 2 ^ 64" using bx_step_regs [of s ww c] b by (rule order.strict_trans1 [OF add_right_mono])
    then show "bx_waiters_ok ww (bx_step ww c s)"
      using bx_waiters_step [OF _ ih(1) bx_next.prems b] ih(2) by blast
  qed
qed

section \<open>Properties\<close>



text \<open>
  C17. No lost notification of a producer: when producers wait on the condition variable and no
  notification is owed and no notified producer is on its way, the buffer is full and the
  consumer is alive. It holds under every interleaving of calls and spurious wake-ups.
\<close>

theorem bs_no_lost_capacity:
  assumes "bx_reachable ww n s" and "\<not> sb_poisoned (bx_stream s)"
    and "bx_ones s = 0" and "bx_alls s = 0" and "bx_notified s = {#}" and "bx_blocked s \<noteq> {#}"
  shows "length (sb_buffer (bx_stream s)) = n \<and> \<not> sb_consumer_gone (bx_stream s)
    \<and> 0 < sb_sender_count (bx_stream s)"
  using bx_reachable_ok [OF assms(1,2)] assms(3-)
  by (auto simp: bx_producers_ok_def Let_def)

theorem bs_no_lost_capacity_witness:
  "let s = fold (bx_step (=))
     [BPushBlock 1, BPushBlock 2, BPushBlock 3, BTryNext, BPushBlock 4, BNotifyOne 2, BRetry 2]
     (bx_init \<lparr>sb_buffer = [], sb_waiters = [], sb_next_waiter = 1, sb_closed = False,
       sb_consumer_gone = False, sb_sender_count = 1, sb_capacity = 1, sb_poisoned = False\<rparr>
       :: (nat, nat) bx_sys)
   in bx_blocked s = {#2, 3#} \<and> length (sb_buffer (bx_stream s)) = 1"
proof -
  define s where "s = fold (bx_step (=))
     [BPushBlock 1, BPushBlock 2, BPushBlock 3, BTryNext, BPushBlock 4, BNotifyOne 2, BRetry 2]
     (bx_init \<lparr>sb_buffer = [], sb_waiters = [], sb_next_waiter = 1, sb_closed = False,
       sb_consumer_gone = False, sb_sender_count = 1, sb_capacity = 1, sb_poisoned = False\<rparr>
       :: (nat, nat) bx_sys)"
  have r: "bx_reachable (=) 1 s"
    unfolding s_def by (intro bx_fold_reachable bx_start) (simp add: bs_new_def)
  have h: "\<not> sb_poisoned (bx_stream s)" "bx_ones s = 0" "bx_alls s = 0" "bx_notified s = {#}"
     "bx_blocked s = {#2, 3#}"
    by (simp_all add: s_def bx_init_def bx_push_block_def settle_def bs_defs no_fx_def)
  show ?thesis unfolding Let_def s_def [symmetric]
    using bs_no_lost_capacity [OF r h(1-4)] h by simp
qed

text \<open>
  C18. The buffer is a bounded FIFO: the items that left it (delivered, overwritten or
  cleared), followed by those in it, are exactly those that entered, in order; it never
  holds more than the capacity; and the stream is closed exactly when no sender is left.
\<close>

theorem bs_items_conserved:
  assumes "bx_reachable ww n s" and "\<not> sb_poisoned (bx_stream s)"
  shows "bx_pushed s = bx_out s @ sb_buffer (bx_stream s)
    \<and> length (sb_buffer (bx_stream s)) \<le> n
    \<and> (sb_closed (bx_stream s) \<longleftrightarrow> sb_sender_count (bx_stream s) = 0)"
  using bx_reachable_ok [OF assms] by (simp add: bx_producers_ok_def Let_def)

theorem bs_items_conserved_witness:
  "let s = fold (bx_step (=))
     [BPush 1, BPush 2, BPush 3, BPoll 0 9, BDropSender]
     (bx_init \<lparr>sb_buffer = [], sb_waiters = [], sb_next_waiter = 1, sb_closed = False,
       sb_consumer_gone = False, sb_sender_count = 1, sb_capacity = 2, sb_poisoned = False\<rparr>
       :: (nat, nat) bx_sys)
   in bx_pushed s = [1, 2, 3] \<and> bx_out s @ sb_buffer (bx_stream s) = [1, 2, 3]
     \<and> bx_out s = [1, 2] \<and> sb_closed (bx_stream s)"
proof -
  define s where "s = fold (bx_step (=))
     [BPush 1, BPush 2, BPush 3, BPoll 0 9, BDropSender]
     (bx_init \<lparr>sb_buffer = [], sb_waiters = [], sb_next_waiter = 1, sb_closed = False,
       sb_consumer_gone = False, sb_sender_count = 1, sb_capacity = 2, sb_poisoned = False\<rparr>
       :: (nat, nat) bx_sys)"
  have r: "bx_reachable (=) 2 s"
    unfolding s_def by (intro bx_fold_reachable bx_start) (simp add: bs_new_def)
  have h: "\<not> sb_poisoned (bx_stream s)" "bx_pushed s = [1, 2, 3]" "bx_out s = [1, 2]"
      "sb_sender_count (bx_stream s) = 0"
    by (simp_all add: s_def bx_init_def settle_def bs_defs no_fx_def remove_waiter_def
        STREAM_WAITER_def opt_list_def)
  show ?thesis unfolding Let_def s_def [symmetric]
    using bs_items_conserved [OF r h(1)] h by simp
qed

text \<open>
  The lossy push keeps the latest items: after any number of pushes the buffer is the
  suffix, of at most the capacity, of what was buffered followed by what was pushed.
\<close>

theorem bs_push_keeps_latest:
  assumes "\<not> sb_poisoned s" and "0 < sb_capacity s" and "length (sb_buffer s) \<le> sb_capacity s"
  shows "sb_buffer (fold (\<lambda>x s. fst (bs_push x s)) xs s)
    = drop (length (sb_buffer s) + length xs - sb_capacity s) (sb_buffer s @ xs)"
  using assms
proof (induction xs arbitrary: s)
  case (Cons x xs)
  define s' where "s' = fst (bs_push x s)"
  have b: "sb_buffer s' = drop (length (sb_buffer s) + 1 - sb_capacity s) (sb_buffer s @ [x])"
    using Cons.prems by (cases "sb_buffer s") (auto simp: s'_def bs_defs Let_def)
  have "\<not> sb_poisoned s'" "sb_capacity s' = sb_capacity s"
    using Cons.prems by (simp_all add: s'_def bs_defs Let_def split: prod.split)
  then have "sb_buffer (fold (\<lambda>x s. fst (bs_push x s)) xs s')
      = drop (length (sb_buffer s') + length xs - sb_capacity s) (sb_buffer s' @ xs)"
    using Cons.IH [of s'] Cons.prems b by simp
  also have "\<dots> = drop (length (sb_buffer s) + length (x # xs) - sb_capacity s)
      (sb_buffer s @ x # xs)"
    using Cons.prems(2,3) b by (cases "length (sb_buffer s) = sb_capacity s") auto
  finally show ?case by (simp add: s'_def)
qed simp

theorem bs_push_keeps_latest_witness:
  "sb_buffer (fold (\<lambda>x s. fst (bs_push x s)) [1, 2, 3, 4]
     (\<lparr>sb_buffer = [7], sb_waiters = [], sb_next_waiter = 1, sb_closed = False,
       sb_consumer_gone = False, sb_sender_count = 1, sb_capacity = 3, sb_poisoned = False\<rparr>
       :: (nat, nat) stream)) = [2, 3, 4]"
  by (subst bs_push_keeps_latest) simp_all

end
