(* ===== verification/ArrayVec.thy ===== *)
theory ArrayVec
  imports Prelude
begin

text \<open>
  The fixed-capacity vector of \<open>src/collections/array_vec.rs\<close>: a length and an array of
  possibly uninitialised slots (\<open>None\<close> when never written), \<open>CAP\<close> being the length of the
  array. The unsafe reads, copies and slices go through the memory primitives of the
  prelude, so an operation out of its contract would be \<open>UB\<close>.

  The refinement: every sequence of calls returns what the same calls return on a plain
  list, panics included, and never reaches \<open>UB\<close>.
\<close>

section \<open>Data and operations\<close>

record 'a array_vec =
  av_len :: nat
  av_items :: "'a option list"

definition av_new :: "nat \<Rightarrow> 'a array_vec" where
  "av_new cap = \<lparr>av_len = 0, av_items = replicate cap None\<rparr>"

definition av_cap :: "'a array_vec \<Rightarrow> nat" where
  "av_cap a = length (av_items a)"

definition av_as_slice :: "'a array_vec \<Rightarrow> 'a list run" where
  "av_as_slice a = raw_slice (av_items a) (av_len a)"

definition av_is_full :: "'a array_vec \<Rightarrow> bool" where
  "av_is_full a \<longleftrightarrow> av_len a = av_cap a"

definition av_push :: "'a \<Rightarrow> 'a array_vec \<Rightarrow> 'a array_vec run" where
  "av_push v a =
     (if av_len a < av_cap a
      then Ret \<lparr>av_len = av_len a + 1, av_items = (av_items a)[av_len a := Some v]\<rparr>
      else Panic ''ArrayVec is full'')"

definition av_pop :: "'a array_vec \<Rightarrow> ('a array_vec \<times> 'a option) run" where
  "av_pop a =
     (if av_len a = 0 then Ret (a, None)
      else let a' = a\<lparr>av_len := av_len a - 1\<rparr>
           in run_map (\<lambda>x. (a', Some x)) (assume_init_read (av_items a') (av_len a')))"

definition av_insert :: "nat \<Rightarrow> 'a \<Rightarrow> 'a array_vec \<Rightarrow> 'a array_vec run" where
  "av_insert index v a =
     (if \<not> index \<le> av_len a then Panic ''insertion index is out of bounds''
      else if \<not> av_len a < av_cap a then Panic ''ArrayVec is full''
      else run_map (\<lambda>items. \<lparr>av_len = av_len a + 1, av_items = items[index := Some v]\<rparr>)
             (ptr_copy (av_items a) index (index + 1) (av_len a - index)))"

definition av_remove :: "nat \<Rightarrow> 'a array_vec \<Rightarrow> ('a array_vec \<times> 'a) run" where
  "av_remove index a =
     (if \<not> index < av_len a then Panic ''removal index is out of bounds''
      else let n = av_len a - 1
           in run_bind (assume_init_read (av_items a) index) (\<lambda>v.
              run_map (\<lambda>items. (\<lparr>av_len = n, av_items = items\<rparr>, v))
                (ptr_copy (av_items a) (index + 1) index (n - index))))"

text \<open>\<open>truncate\<close> pops until the length is right; the popped values are dropped.\<close>

function av_truncate :: "nat \<Rightarrow> 'a array_vec \<Rightarrow> ('a array_vec \<times> 'a list) run" where
  "av_truncate n a =
     (if n < av_len a
      then (case av_pop a of
              Ret (a', x) \<Rightarrow>
                run_map (\<lambda>(a'', xs). (a'', (case x of None \<Rightarrow> xs | Some y \<Rightarrow> y # xs)))
                  (av_truncate n a')
            | Panic m \<Rightarrow> Panic m
            | UB \<Rightarrow> UB)
      else Ret (a, []))"
  by pat_completeness auto
termination
  by (relation "measure (\<lambda>(n, a). av_len a)")
    (auto simp: av_pop_def Let_def run_simps split: if_splits)

declare av_truncate.simps [simp del]

definition av_clear :: "'a array_vec \<Rightarrow> ('a array_vec \<times> 'a list) run" where
  "av_clear = av_truncate 0"

text \<open>
  \<open>retain\<close>. The closure has a state, may change the item and may panic (\<open>None\<close>): then the
  item it looked at is dropped by the unwinding and the array keeps what was kept so far,
  the items after it are leaked. \<open>av_retain_from\<close> is the loop from \<open>index\<close>, \<open>n\<close>
  iterations to go; the last component is the closure's state, \<open>None\<close> after its panic.
\<close>

type_synonym ('a, 's) keep = "'s \<Rightarrow> 'a \<Rightarrow> ('s \<times> 'a \<times> bool) option"

fun av_retain_from :: "('a, 's) keep \<Rightarrow> nat \<Rightarrow> nat \<Rightarrow> 's \<Rightarrow> 'a array_vec
    \<Rightarrow> ('a array_vec \<times> 's option) run" where
  "av_retain_from keep index 0 st a = Ret (a, Some st)"
| "av_retain_from keep index (Suc n) st a =
     run_bind (assume_init_read (av_items a) index) (\<lambda>v.
       case keep st v of
         None \<Rightarrow> Ret (a, None)
       | Some (st', v', k) \<Rightarrow>
           if k
           then (if av_len a < av_cap a
                 then av_retain_from keep (Suc index) n st'
                   \<lparr>av_len = av_len a + 1, av_items = (av_items a)[av_len a := Some v']\<rparr>
                 else Panic index_panic)
           else av_retain_from keep (Suc index) n st' a)"

definition av_retain :: "('a, 's) keep \<Rightarrow> 's \<Rightarrow> 'a array_vec \<Rightarrow> ('a array_vec \<times> 's option) run" where
  "av_retain keep st a = av_retain_from keep 0 (av_len a) st (a\<lparr>av_len := 0\<rparr>)"

section \<open>Iterators\<close>

record 'a av_iter =
  it_items :: "'a option list"
  it_start :: nat
  it_end :: nat

definition av_into_iter :: "'a array_vec \<Rightarrow> 'a av_iter" where
  "av_into_iter a = \<lparr>it_items = av_items a, it_start = 0, it_end = av_len a\<rparr>"

definition it_next :: "'a av_iter \<Rightarrow> ('a av_iter \<times> 'a option) run" where
  "it_next t =
     (if it_start t = it_end t then Ret (t, None)
      else let t' = t\<lparr>it_start := it_start t + 1\<rparr>
           in run_map (\<lambda>x. (t', Some x)) (assume_init_read (it_items t') (it_start t' - 1)))"

definition it_next_back :: "'a av_iter \<Rightarrow> ('a av_iter \<times> 'a option) run" where
  "it_next_back t =
     (if it_start t = it_end t then Ret (t, None)
      else let t' = t\<lparr>it_end := it_end t - 1\<rparr>
           in run_map (\<lambda>x. (t', Some x)) (assume_init_read (it_items t') (it_end t')))"

definition it_size_hint :: "'a av_iter \<Rightarrow> nat \<times> nat option" where
  "it_size_hint t = (it_end t - it_start t, Some (it_end t - it_start t))"

text \<open>The values dropped with the iterator: the slice \<open>start..end\<close> of the array.\<close>

definition it_drop :: "'a av_iter \<Rightarrow> 'a list run" where
  "it_drop t =
     (if it_start t \<le> it_end t \<and> it_end t \<le> length (it_items t)
      then (case those (take (it_end t - it_start t) (drop (it_start t) (it_items t))) of
              Some xs \<Rightarrow> Ret xs | None \<Rightarrow> UB)
      else Panic ''slice index out of range'')"

text \<open>A \<open>for\<close> loop or \<open>collect\<close> over an iterator.\<close>

function it_collect :: "'a av_iter \<Rightarrow> 'a list run" where
  "it_collect t =
     (case it_next t of
        Ret (t', None) \<Rightarrow> Ret []
      | Ret (t', Some x) \<Rightarrow> run_map (Cons x) (it_collect t')
      | Panic m \<Rightarrow> Panic m
      | UB \<Rightarrow> UB)"
  by pat_completeness auto
termination
  by (relation "measure (\<lambda>t. length (it_items t) - it_start t)")
    (auto simp: it_next_def Let_def run_simps assume_init_read_def split: if_splits)

declare it_collect.simps [simp del]

section \<open>Ranges, drain, extend\<close>

datatype bound = Included nat | Excluded nat | Unbounded

definition range_start :: "bound \<Rightarrow> nat option" where
  "range_start b = (case b of Included s \<Rightarrow> Some s | Excluded s \<Rightarrow> checked_add s 1
     | Unbounded \<Rightarrow> Some 0)"

definition range_end :: "nat \<Rightarrow> bound \<Rightarrow> nat option" where
  "range_end len b = (case b of Included e \<Rightarrow> checked_add e 1 | Excluded e \<Rightarrow> Some e
     | Unbounded \<Rightarrow> Some len)"

definition av_drain :: "bound \<Rightarrow> bound \<Rightarrow> 'a array_vec \<Rightarrow> ('a array_vec \<times> 'a av_iter) run" where
  "av_drain lo hi a =
     (case (range_start lo, range_end (av_len a) hi) of
        (Some s, Some e) \<Rightarrow>
          if s \<le> e \<and> e \<le> av_len a
          then run_bind (ptr_copy_to (av_items a) s (av_items (av_new (av_cap a) :: 'a array_vec)) 0 (e - s))
                 (\<lambda>drained.
               run_map (\<lambda>items.
                   (\<lparr>av_len = av_len a - (e - s), av_items = items\<rparr>,
                    av_into_iter \<lparr>av_len = e - s, av_items = drained\<rparr>))
                 (ptr_copy (av_items a) (s + (e - s)) s (av_len a - e)))
          else Panic ''drain range is out of bounds''
      | _ \<Rightarrow> Panic ''drain range is out of bounds'')"

fun av_extend :: "'a list \<Rightarrow> 'a array_vec \<Rightarrow> 'a array_vec run" where
  "av_extend [] a = Ret a"
| "av_extend (x # xs) a = run_bind (av_push x a) (av_extend xs)"

definition av_from_iter :: "nat \<Rightarrow> 'a list \<Rightarrow> 'a array_vec run" where
  "av_from_iter cap xs = av_extend xs (av_new cap)"

definition av_clone :: "('a \<Rightarrow> 'a) \<Rightarrow> 'a array_vec \<Rightarrow> 'a array_vec run" where
  "av_clone clone a = run_bind (av_as_slice a) (\<lambda>xs. av_from_iter (av_cap a) (map clone xs))"

text \<open>The values dropped with the array.\<close>

definition av_drop :: "'a array_vec \<Rightarrow> 'a list run" where
  "av_drop a = av_as_slice a"

section \<open>The list it represents\<close>

definition av_rep :: "nat \<Rightarrow> 'a array_vec \<Rightarrow> 'a list \<Rightarrow> bool" where
  "av_rep cap a xs \<longleftrightarrow> av_len a = length xs \<and> length (av_items a) = cap
     \<and> (\<exists>rest. av_items a = map Some xs @ rest)"

definition it_rep :: "'a av_iter \<Rightarrow> 'a list \<Rightarrow> bool" where
  "it_rep t xs \<longleftrightarrow> it_end t = it_start t + length xs
     \<and> (\<exists>pre rest. it_items t = pre @ map Some xs @ rest \<and> length pre = it_start t)"

text \<open>The same operations on a plain list of at most \<open>cap\<close> items.\<close>

definition lv_push :: "nat \<Rightarrow> 'a \<Rightarrow> 'a list \<Rightarrow> 'a list run" where
  "lv_push cap x xs = (if length xs < cap then Ret (xs @ [x]) else Panic ''ArrayVec is full'')"

definition lv_pop :: "'a list \<Rightarrow> ('a list \<times> 'a option) run" where
  "lv_pop xs = Ret (butlast xs, (if xs = [] then None else Some (last xs)))"

definition lv_insert :: "nat \<Rightarrow> nat \<Rightarrow> 'a \<Rightarrow> 'a list \<Rightarrow> 'a list run" where
  "lv_insert cap i x xs =
     (if length xs < i then Panic ''insertion index is out of bounds''
      else if length xs < cap then Ret (take i xs @ x # drop i xs)
      else Panic ''ArrayVec is full'')"

definition lv_remove :: "nat \<Rightarrow> 'a list \<Rightarrow> ('a list \<times> 'a) run" where
  "lv_remove i xs =
     (if i < length xs then Ret (take i xs @ drop (Suc i) xs, xs ! i)
      else Panic ''removal index is out of bounds'')"

definition lv_truncate :: "nat \<Rightarrow> 'a list \<Rightarrow> ('a list \<times> 'a list) run" where
  "lv_truncate n xs = Ret (take n xs, rev (drop n xs))"

fun lv_retain :: "('a, 's) keep \<Rightarrow> 's \<Rightarrow> 'a list \<Rightarrow> 'a list \<times> 's option" where
  "lv_retain keep st [] = ([], Some st)"
| "lv_retain keep st (x # xs) =
     (case keep st x of
        None \<Rightarrow> ([], None)
      | Some (st', y, k) \<Rightarrow>
          (case lv_retain keep st' xs of (ys, r) \<Rightarrow> (if k then y # ys else ys, r)))"

text \<open>The bounds of a range, when they are in order and in the list.\<close>

definition range_bounds :: "nat \<Rightarrow> bound \<Rightarrow> bound \<Rightarrow> (nat \<times> nat) option" where
  "range_bounds len lo hi =
     (case (range_start lo, range_end len hi) of
        (Some s, Some e) \<Rightarrow> if s \<le> e \<and> e \<le> len then Some (s, e) else None
      | _ \<Rightarrow> None)"

definition lv_drain :: "string \<Rightarrow> bound \<Rightarrow> bound \<Rightarrow> 'a list \<Rightarrow> ('a list \<times> 'a list) run" where
  "lv_drain message lo hi xs =
     (case range_bounds (length xs) lo hi of
        Some (s, e) \<Rightarrow> Ret (take s xs @ drop e xs, take (e - s) (drop s xs))
      | None \<Rightarrow> Panic message)"

section \<open>Each operation is the list operation\<close>

lemma av_repE:
  assumes "av_rep cap a xs"
  obtains rest where "av_len a = length xs" "av_items a = map Some xs @ rest"
    "length xs + length rest = cap" "av_cap a = cap"
  using assms by (auto simp: av_rep_def av_cap_def)

lemma av_rep_cap: "av_rep cap a xs \<Longrightarrow> av_cap a = cap \<and> av_len a = length xs \<and> length xs \<le> cap"
  by (elim av_repE) simp

lemma av_rep_new: "av_rep cap (av_new cap) []"
  by (simp add: av_rep_def av_new_def)

lemma av_as_slice_rep: "av_rep cap a xs \<Longrightarrow> av_as_slice a = Ret xs"
  by (elim av_repE) (simp add: av_as_slice_def raw_slice_def)

lemma av_push_rep:
  assumes "av_rep cap a xs"
  shows "run_rel (av_rep cap) (av_push x a) (lv_push cap x xs)"
proof -
  obtain rest where a: "av_len a = length xs" "av_items a = map Some xs @ rest"
      "length xs + length rest = cap" "av_cap a = cap"
    using assms by (rule av_repE)
  show ?thesis
  proof (cases rest)
    case (Cons y ys)
    then show ?thesis using a
      by (auto simp: av_push_def lv_push_def av_rep_def list_update_append intro!: exI [of _ ys])
  qed (use a in \<open>simp add: av_push_def lv_push_def\<close>)
qed

lemma av_pop_rep:
  assumes "av_rep cap a xs"
  shows "run_rel (rel_prod (av_rep cap) (=)) (av_pop a) (lv_pop xs)"
  using assms
  by (cases xs rule: rev_cases)
    (auto simp: av_pop_def lv_pop_def av_rep_def assume_init_read_def nth_append Let_def)

lemma av_insert_rep:
  assumes "av_rep cap a xs"
  shows "run_rel (av_rep cap) (av_insert i x a) (lv_insert cap i x xs)"
proof -
  obtain rest where a: "av_len a = length xs" "av_items a = map Some xs @ rest"
      "length xs + length rest = cap" "av_cap a = cap"
    using assms by (rule av_repE)
  show ?thesis
  proof (cases "i \<le> length xs \<and> length xs < cap")
    case True
    then obtain y ys where rest: "rest = y # ys" using a by (cases rest) auto
    have "ptr_copy (av_items a) i (i + 1) (length xs - i)
        = Ret (take (Suc i) (map Some xs @ y # ys) @ map Some (drop i xs) @ ys)"
      using True a by (simp add: ptr_copy_def rest take_map drop_map)
    then have "av_insert i x a = Ret \<lparr>av_len = length xs + 1,
        av_items = map Some (take i xs @ x # drop i xs) @ ys\<rparr>"
      using True a rest
      by (cases "i = length xs")
        (simp_all add: av_insert_def take_map drop_map take_Suc_conv_app_nth nth_append
          list_update_append)
    then show ?thesis using True a rest by (auto simp: lv_insert_def av_rep_def)
  qed (use a in \<open>auto simp: av_insert_def lv_insert_def\<close>)
qed

lemma av_remove_rep:
  assumes "av_rep cap a xs"
  shows "run_rel (rel_prod (av_rep cap) (=)) (av_remove i a) (lv_remove i xs)"
proof -
  obtain rest where a: "av_len a = length xs" "av_items a = map Some xs @ rest"
      "length xs + length rest = cap" "av_cap a = cap"
    using assms by (rule av_repE)
  show ?thesis
  proof (cases "i < length xs")
    case True
    have "assume_init_read (av_items a) i = Ret (xs ! i)"
      using True a by (simp add: assume_init_read_def nth_append)
    moreover have "ptr_copy (av_items a) (i + 1) i (length xs - 1 - i)
        = Ret (map Some (take i xs @ drop (Suc i) xs) @ drop (length xs - 1) (av_items a))"
      using True a by (simp add: ptr_copy_def take_map drop_map)
    ultimately show ?thesis using True a
      by (auto simp: av_remove_def lv_remove_def av_rep_def Let_def)
  qed (use a in \<open>auto simp: av_remove_def lv_remove_def\<close>)
qed

lemma av_truncate_rep:
  "av_rep cap a xs \<Longrightarrow> run_rel (rel_prod (av_rep cap) (=)) (av_truncate n a) (lv_truncate n xs)"
proof (induction xs arbitrary: a rule: rev_induct)
  case Nil
  then show ?case by (subst av_truncate.simps) (simp add: lv_truncate_def av_rep_def)
next
  case (snoc x xs)
  show ?case
  proof (cases "n < Suc (length xs)")
    case True
    obtain a' where a': "av_pop a = Ret (a', Some x)" "av_rep cap a' xs"
      using av_pop_rep [OF snoc.prems] by (auto simp: lv_pop_def run_simps rel_prod_sel)
    have "run_rel (rel_prod (av_rep cap) (=)) (av_truncate n a') (lv_truncate n xs)"
      by (rule snoc.IH [OF a'(2)])
    then obtain a'' where "av_truncate n a' = Ret (a'', rev (drop n xs))" "av_rep cap a'' (take n xs)"
      by (auto simp: lv_truncate_def run_simps rel_prod_sel)
    then show ?thesis using True a' av_rep_cap [OF snoc.prems]
      by (subst av_truncate.simps) (simp add: lv_truncate_def)
  next
    case False
    then show ?thesis using snoc.prems av_rep_cap [OF snoc.prems]
      by (subst av_truncate.simps) (simp add: lv_truncate_def)
  qed
qed

text \<open>
  The loop of \<open>retain\<close>: the kept items, then the hole left by the items that were read
  and not kept, then the items to come.
\<close>

lemma av_retain_from_rep:
  assumes "av_items a = map Some ys @ hole @ map Some zs @ rest" and "av_len a = length ys"
    and "index = length ys + length hole" and "length (av_items a) = cap"
  shows "run_rel (rel_prod (av_rep cap) (=)) (av_retain_from keep index (length zs) st a)
    (Ret (apfst ((@) ys) (lv_retain keep st zs)))"
  using assms
proof (induction zs arbitrary: a ys hole index st)
  case Nil
  then show ?case by (auto simp: av_rep_def)
next
  case (Cons z zs)
  have read: "assume_init_read (av_items a) index = Ret z"
    using Cons.prems by (simp add: assume_init_read_def nth_append)
  show ?case
  proof (cases "keep st z")
    case None
    then show ?thesis using read Cons.prems by (auto simp: av_rep_def)
  next
    case (Some r)
    then obtain st' z' k where k: "keep st z = Some (st', z', k)" by (cases r) auto
    show ?thesis
    proof (cases k)
      case True
      define b where "b = \<lparr>av_len = av_len a + 1, av_items = (av_items a)[av_len a := Some z']\<rparr>"
      define hole' where "hole' = tl (hole @ [Some z])"
      have "run_rel (rel_prod (av_rep cap) (=)) (av_retain_from keep (Suc index) (length zs) st' b)
          (Ret (apfst ((@) (ys @ [z'])) (lv_retain keep st' zs)))"
      proof (rule Cons.IH)
        show "av_items b = map Some (ys @ [z']) @ hole' @ map Some zs @ rest"
          using Cons.prems by (cases hole) (auto simp: b_def hole'_def list_update_append)
      qed (use Cons.prems in \<open>auto simp: b_def hole'_def\<close>)
      then show ?thesis using Cons.prems k read True
        by (auto simp: b_def av_cap_def split: prod.split)
    next
      case False
      have "run_rel (rel_prod (av_rep cap) (=)) (av_retain_from keep (Suc index) (length zs) st' a)
          (Ret (apfst ((@) ys) (lv_retain keep st' zs)))"
        using Cons.prems by (intro Cons.IH [where hole = "hole @ [Some z]"]) auto
      then show ?thesis using Cons.prems k read False by (auto split: prod.split)
    qed
  qed
qed

lemma av_retain_rep:
  assumes "av_rep cap a xs"
  shows "run_rel (rel_prod (av_rep cap) (=)) (av_retain keep st a) (Ret (lv_retain keep st xs))"
proof -
  obtain rest where "av_len a = length xs" "av_items a = map Some xs @ rest"
      "length xs + length rest = cap" "av_cap a = cap"
    using assms by (rule av_repE)
  then show ?thesis
    using av_retain_from_rep [of "a\<lparr>av_len := 0\<rparr>" "[]" "[]" xs rest 0 cap keep st]
    by (cases "lv_retain keep st xs") (simp add: av_retain_def)
qed

lemma av_drain_rep:
  assumes "av_rep cap a xs"
  shows "run_rel (rel_prod (av_rep cap) it_rep) (av_drain lo hi a)
    (lv_drain ''drain range is out of bounds'' lo hi xs)"
proof -
  obtain rest where a: "av_len a = length xs" "av_items a = map Some xs @ rest"
      "length xs + length rest = cap" "av_cap a = cap"
    using assms by (rule av_repE)
  show ?thesis
  proof (cases "range_bounds (length xs) lo hi")
    case None
    then show ?thesis using a
      by (auto simp: av_drain_def lv_drain_def range_bounds_def split: option.splits if_splits)
  next
    case (Some b)
    then obtain s e where b: "range_start lo = Some s" "range_end (length xs) hi = Some e"
        "s \<le> e" "e \<le> length xs" "b = (s, e)"
      by (auto simp: range_bounds_def split: option.splits if_splits)
    have "ptr_copy_to (av_items a) s (av_items (av_new (av_cap a) :: 'a array_vec)) 0 (e - s)
        = Ret (map Some (take (e - s) (drop s xs)) @ replicate (cap - (e - s)) None)"
      using a b by (simp add: ptr_copy_to_def av_new_def take_map drop_map)
    moreover have "ptr_copy (av_items a) e s (length xs - e)
        = Ret (map Some (take s xs @ drop e xs) @ drop (s + (length xs - e)) (av_items a))"
      using a b by (simp add: ptr_copy_def take_map drop_map)
    moreover have "it_rep (av_into_iter \<lparr>av_len = e - s,
        av_items = map Some (take (e - s) (drop s xs)) @ replicate (cap - (e - s)) None\<rparr>)
        (take (e - s) (drop s xs))"
      using b by (auto simp: it_rep_def av_into_iter_def)
    ultimately show ?thesis using a b Some
      by (auto simp: av_drain_def lv_drain_def av_rep_def)
  qed
qed

section \<open>Iterators yield the items from both ends\<close>

lemma av_into_iter_rep: "av_rep cap a xs \<Longrightarrow> it_rep (av_into_iter a) xs"
  by (elim av_repE) (auto simp: it_rep_def av_into_iter_def)

lemma it_next_rep:
  assumes "it_rep t xs"
  shows "run_rel (rel_prod it_rep (=)) (it_next t)
    (Ret (tl xs, (if xs = [] then None else Some (hd xs))))"
proof (cases xs)
  case Nil
  then show ?thesis using assms by (auto simp: it_next_def it_rep_def)
next
  case (Cons y ys)
  obtain pre rest where t: "it_end t = it_start t + length xs"
      "it_items t = pre @ map Some xs @ rest" "length pre = it_start t"
    using assms by (auto simp: it_rep_def)
  have "it_rep (t\<lparr>it_start := Suc (it_start t)\<rparr>) ys"
    unfolding it_rep_def using t Cons
    by (intro conjI exI [of _ "pre @ [Some y]"] exI [of _ rest]) auto
  then show ?thesis using t Cons
    by (auto simp: it_next_def assume_init_read_def Let_def nth_append)
qed

lemma it_next_back_rep:
  assumes "it_rep t xs"
  shows "run_rel (rel_prod it_rep (=)) (it_next_back t)
    (Ret (butlast xs, (if xs = [] then None else Some (last xs))))"
proof (cases xs rule: rev_cases)
  case Nil
  then show ?thesis using assms by (auto simp: it_next_back_def it_rep_def)
next
  case (snoc ys y)
  obtain pre rest where t: "it_end t = it_start t + length xs"
      "it_items t = pre @ map Some xs @ rest" "length pre = it_start t"
    using assms by (auto simp: it_rep_def)
  have "it_rep (t\<lparr>it_end := it_start t + length ys\<rparr>) ys"
    using t snoc by (auto simp: it_rep_def)
  then show ?thesis using t snoc
    by (auto simp: it_next_back_def assume_init_read_def Let_def nth_append)
qed

lemma it_collect_rep: "it_rep t xs \<Longrightarrow> it_collect t = Ret xs"
proof (induction xs arbitrary: t)
  case Nil
  then show ?case using it_next_rep [of t "[]"]
    by (subst it_collect.simps) (auto simp: run_simps rel_prod_sel)
next
  case (Cons x xs)
  obtain t' where "it_next t = Ret (t', Some x)" "it_rep t' xs"
    using it_next_rep [OF Cons.prems] by (auto simp: run_simps rel_prod_sel)
  then show ?case using Cons.IH by (subst it_collect.simps) simp
qed

lemma it_drop_rep: "it_rep t xs \<Longrightarrow> it_drop t = Ret xs"
  by (auto simp: it_rep_def it_drop_def)

lemma it_size_hint_rep: "it_rep t xs \<Longrightarrow> it_size_hint t = (length xs, Some (length xs))"
  by (auto simp: it_rep_def it_size_hint_def)

section \<open>Sequences of calls\<close>

datatype ('a, 's) av_call =
    AvPush 'a | AvPop | AvInsert nat 'a | AvRemove nat | AvTruncate nat | AvClear
  | AvRetain "('a, 's) keep" 's | AvDrain bound bound | AvSlice

datatype ('a, 's) av_out =
    OutUnit | OutItem "'a option" | OutItems "'a list" | OutState "'s option"

text \<open>
  A call on the array. A drained range is consumed by iterating over it. A panic of a guard
  leaves the array as it was; that of the closure of \<open>retain\<close> is a value.
\<close>

definition kept_on_panic :: "'s \<Rightarrow> ('s \<times> 'o) run \<Rightarrow> 's \<times> 'o run" where
  "kept_on_panic s r = (case r of Ret (s', x) \<Rightarrow> (s', Ret x) | Panic m \<Rightarrow> (s, Panic m) | UB \<Rightarrow> (s, UB))"

fun av_do :: "('a, 's) av_call \<Rightarrow> 'a array_vec \<Rightarrow> ('a array_vec \<times> ('a, 's) av_out) run" where
  "av_do (AvPush x) a = run_map (\<lambda>a'. (a', OutUnit)) (av_push x a)"
| "av_do AvPop a = run_map (apsnd OutItem) (av_pop a)"
| "av_do (AvInsert i x) a = run_map (\<lambda>a'. (a', OutUnit)) (av_insert i x a)"
| "av_do (AvRemove i) a = run_map (apsnd (OutItem \<circ> Some)) (av_remove i a)"
| "av_do (AvTruncate n) a = run_map (apsnd OutItems) (av_truncate n a)"
| "av_do AvClear a = run_map (apsnd OutItems) (av_clear a)"
| "av_do (AvRetain keep st) a = run_map (apsnd OutState) (av_retain keep st a)"
| "av_do (AvDrain lo hi) a =
     run_bind (av_drain lo hi a) (\<lambda>(a', t). run_map (\<lambda>xs. (a', OutItems xs)) (it_collect t))"
| "av_do AvSlice a = run_map (\<lambda>xs. (a, OutItems xs)) (av_as_slice a)"

fun lv_do :: "nat \<Rightarrow> ('a, 's) av_call \<Rightarrow> 'a list \<Rightarrow> ('a list \<times> ('a, 's) av_out) run" where
  "lv_do cap (AvPush x) xs = run_map (\<lambda>xs'. (xs', OutUnit)) (lv_push cap x xs)"
| "lv_do cap AvPop xs = run_map (apsnd OutItem) (lv_pop xs)"
| "lv_do cap (AvInsert i x) xs = run_map (\<lambda>xs'. (xs', OutUnit)) (lv_insert cap i x xs)"
| "lv_do cap (AvRemove i) xs = run_map (apsnd (OutItem \<circ> Some)) (lv_remove i xs)"
| "lv_do cap (AvTruncate n) xs = run_map (apsnd OutItems) (lv_truncate n xs)"
| "lv_do cap AvClear xs = Ret ([], OutItems (rev xs))"
| "lv_do cap (AvRetain keep st) xs = Ret (apsnd OutState (lv_retain keep st xs))"
| "lv_do cap (AvDrain lo hi) xs =
     run_map (apsnd OutItems) (lv_drain ''drain range is out of bounds'' lo hi xs)"
| "lv_do cap AvSlice xs = Ret (xs, OutItems xs)"

lemma run_rel_apsnd:
  "run_rel (rel_prod R (=)) r r' \<Longrightarrow>
     run_rel (rel_prod R (=)) (run_map (apsnd f) r) (run_map (apsnd f) r')"
  by (cases r; cases r') (auto simp: rel_prod_sel)

lemma av_do_rep:
  assumes "av_rep cap a xs"
  shows "run_rel (rel_prod (av_rep cap) (=)) (av_do c a) (lv_do cap c xs)"
proof (cases c)
  case (AvPush x)
  then show ?thesis using av_push_rep [OF assms] by (auto intro!: run_rel_map)
next
  case AvPop
  then show ?thesis using run_rel_apsnd [OF av_pop_rep [OF assms]] by simp
next
  case (AvInsert i x)
  then show ?thesis using av_insert_rep [OF assms] by (auto intro!: run_rel_map)
next
  case (AvRemove i)
  then show ?thesis using run_rel_apsnd [OF av_remove_rep [OF assms]] by simp
next
  case (AvTruncate n)
  then show ?thesis using run_rel_apsnd [OF av_truncate_rep [OF assms]] by simp
next
  case AvClear
  then show ?thesis using av_truncate_rep [OF assms, of 0]
    by (auto simp: av_clear_def lv_truncate_def run_simps rel_prod_sel)
next
  case (AvRetain keep st)
  then show ?thesis using av_retain_rep [OF assms, of keep st]
    by (auto simp: run_simps rel_prod_sel)
next
  case (AvDrain lo hi)
  show ?thesis unfolding AvDrain av_do.simps lv_do.simps run_map_eq_bind [of "apsnd OutItems"]
    by (rule run_rel_bind [OF av_drain_rep [OF assms]]) (auto simp: it_collect_rep rel_prod_sel)
next
  case AvSlice
  then show ?thesis using assms by (simp add: av_as_slice_rep)
qed

lemma kept_on_panic_rel:
  assumes "run_rel (rel_prod R (=)) r r'" and "R s s'"
  shows "R (fst (kept_on_panic s r)) (fst (kept_on_panic s' r'))
    \<and> snd (kept_on_panic s r) = snd (kept_on_panic s' r') \<and> snd (kept_on_panic s r) \<noteq> UB"
  using assms by (cases r; cases r') (auto simp: kept_on_panic_def)

section \<open>Stores of a list\<close>

text \<open>
  What the vectors share: a representation of a list that is pushed to and popped from at
  its end, with room as long as \<open>room\<close> says. Loops of pushes and of pops are proved once.
\<close>

fun push_all :: "('a \<Rightarrow> 's \<Rightarrow> 's run) \<Rightarrow> 'a list \<Rightarrow> 's \<Rightarrow> 's run" where
  "push_all push [] s = Ret s"
| "push_all push (x # xs) s = run_bind (push x s) (push_all push xs)"

fun pop_times :: "('s \<Rightarrow> ('s \<times> 'a option) run) \<Rightarrow> nat \<Rightarrow> 's \<Rightarrow> ('s \<times> 'a option list) run" where
  "pop_times pop 0 s = Ret (s, [])"
| "pop_times pop (Suc n) s =
     run_bind (pop s) (\<lambda>(s', x). run_map (apsnd ((#) x)) (pop_times pop n s'))"

locale list_store =
  fixes rep :: "'s \<Rightarrow> 'a list \<Rightarrow> bool"
    and room :: "nat \<Rightarrow> bool"
    and push :: "'a \<Rightarrow> 's \<Rightarrow> 's run"
    and pop :: "'s \<Rightarrow> ('s \<times> 'a option) run"
    and full :: string
  assumes push_room: "rep s xs \<Longrightarrow> room (length xs) \<Longrightarrow> \<exists>s'. push x s = Ret s' \<and> rep s' (xs @ [x])"
    and push_full: "rep s xs \<Longrightarrow> \<not> room (length xs) \<Longrightarrow> push x s = Panic full"
    and pop_rep: "rep s xs \<Longrightarrow>
      \<exists>s'. pop s = Ret (s', if xs = [] then None else Some (last xs)) \<and> rep s' (butlast xs)"
begin

lemma push_all_rep:
  "rep s xs \<Longrightarrow> (\<forall>i < length ys. room (length xs + i)) \<Longrightarrow>
     \<exists>s'. push_all push ys s = Ret s' \<and> rep s' (xs @ ys)"
proof (induction ys arbitrary: s xs)
  case (Cons y ys)
  obtain s1 where s1: "push y s = Ret s1" "rep s1 (xs @ [y])"
    using push_room [OF Cons.prems(1)] Cons.prems(2) by force
  have "\<forall>i < length ys. room (length (xs @ [y]) + i)" using Cons.prems(2) by auto
  then show ?case using Cons.IH [OF s1(2)] s1(1) by simp
qed simp

lemma push_all_full:
  "rep s xs \<Longrightarrow> i < length ys \<Longrightarrow> \<not> room (length xs + i) \<Longrightarrow> push_all push ys s = Panic full"
proof (induction ys arbitrary: s xs i)
  case (Cons y ys)
  show ?case
  proof (cases "room (length xs)")
    case False
    then show ?thesis using push_full [OF Cons.prems(1)] by simp
  next
    case True
    then obtain s1 where s1: "push y s = Ret s1" "rep s1 (xs @ [y])"
      using push_room [OF Cons.prems(1)] by blast
    have "i \<noteq> 0" using True Cons.prems(3) by (cases i) auto
    then show ?thesis using Cons.IH [OF s1(2), of "i - 1"] Cons.prems s1(1) by simp
  qed
qed simp

lemma pop_times_rep:
  "rep s xs \<Longrightarrow> n \<le> length xs \<Longrightarrow>
     \<exists>s'. pop_times pop n s = Ret (s', map Some (take n (rev xs))) \<and> rep s' (take (length xs - n) xs)"
proof (induction n arbitrary: s xs)
  case (Suc n)
  have ne: "xs \<noteq> []" using Suc.prems(2) by auto
  obtain s1 where s1: "pop s = Ret (s1, Some (last xs))" "rep s1 (butlast xs)"
    using pop_rep [OF Suc.prems(1)] ne by auto
  obtain s' where "pop_times pop n s1 = Ret (s', map Some (take n (rev (butlast xs))))"
      "rep s' (take (length (butlast xs) - n) (butlast xs))"
    using Suc.IH [OF s1(2)] Suc.prems(2) by (metis Suc_le_mono Suc_pred' length_butlast length_greater_0_conv ne)
  then show ?case using s1 ne
    by (cases xs rule: rev_cases) (auto simp: take_Cons' split: nat.split)
qed auto

text \<open>Pushing and popping as often gives the items back, latest first.\<close>

lemma push_pop_all:
  assumes "rep s xs" and "\<forall>i < length ys. room (length xs + i)"
  shows "\<exists>s1 s2. push_all push ys s = Ret s1
    \<and> pop_times pop (length ys) s1 = Ret (s2, map Some (rev ys)) \<and> rep s2 xs"
proof -
  obtain s1 where s1: "push_all push ys s = Ret s1" "rep s1 (xs @ ys)"
    using push_all_rep [OF assms] by blast
  then show ?thesis using pop_times_rep [OF s1(2), of "length ys"] by auto
qed

end

interpretation av: list_store "av_rep cap" "\<lambda>n. n < cap" av_push av_pop "''ArrayVec is full''"
  for cap
proof
  show "\<exists>s'. av_push x s = Ret s' \<and> av_rep cap s' (xs @ [x])"
    if "av_rep cap s xs" "length xs < cap" for s xs x
    using av_push_rep [OF that(1), of x] that(2) by (simp add: lv_push_def run_simps)
  show "av_push x s = Panic ''ArrayVec is full''" if "av_rep cap s xs" "\<not> length xs < cap" for s xs x
    using av_push_rep [OF that(1), of x] that(2) by (simp add: lv_push_def run_simps)
  show "\<exists>s'. av_pop s = Ret (s', if xs = [] then None else Some (last xs)) \<and> av_rep cap s' (butlast xs)"
    if "av_rep cap s xs" for s xs
    using av_pop_rep [OF that] by (auto simp: lv_pop_def run_simps rel_prod_sel)
qed

lemma av_extend_push_all: "av_extend xs a = push_all av_push xs a"
  by (induction xs arbitrary: a) (auto intro!: arg_cong2 [where f = run_bind])

lemma av_from_iter_rep:
  "if length xs \<le> cap then \<exists>a. av_from_iter cap xs = Ret a \<and> av_rep cap a xs
   else av_from_iter cap xs = Panic ''ArrayVec is full''"
  using av.push_all_rep [OF av_rep_new, of xs cap] av.push_all_full [OF av_rep_new, of cap xs cap]
  by (auto simp: av_from_iter_def av_extend_push_all)

text \<open>Calls on the two ends of an iterator, and of a list.\<close>

fun it_call :: "bool \<Rightarrow> 'a av_iter \<Rightarrow> 'a av_iter \<times> 'a option run" where
  "it_call back t = kept_on_panic t (if back then it_next_back t else it_next t)"

fun ends_call :: "bool \<Rightarrow> 'a list \<Rightarrow> 'a list \<times> 'a option run" where
  "ends_call back [] = ([], Ret None)"
| "ends_call True xs = (butlast xs, Ret (Some (last xs)))"
| "ends_call False xs = (tl xs, Ret (Some (hd xs)))"

lemma it_call_rep:
  assumes "it_rep t xs"
  shows "it_rep (fst (it_call b t)) (fst (ends_call b xs))
    \<and> snd (it_call b t) = snd (ends_call b xs)"
  using it_next_rep [OF assms] it_next_back_rep [OF assms]
  by (cases "(b, xs)" rule: ends_call.cases) (auto simp: kept_on_panic_def run_simps rel_prod_sel)

section \<open>Properties\<close>

text \<open>
  C35. The array vector is a list of bounded length: every sequence of calls on a fresh one
  returns exactly what the calls return on a plain list, with the same panics, its slice is
  that list at the end, and no call is undefined behaviour (no read of an uninitialised
  slot, no copy outside the array).
\<close>

theorem av_calls_refine_list:
  "let (a, outs) = run_calls (\<lambda>c a. kept_on_panic a (av_do c a)) cs (av_new cap);
       (xs, outs') = run_calls (\<lambda>c xs. kept_on_panic xs (lv_do cap c xs)) cs []
   in outs = outs' \<and> UB \<notin> set outs \<and> length xs \<le> cap \<and> av_as_slice a = Ret xs
     \<and> av_drop a = Ret xs"
proof -
  let ?f = "\<lambda>c a. kept_on_panic a (av_do c a)" and ?g = "\<lambda>c xs. kept_on_panic xs (lv_do cap c xs)"
  have sim: "av_rep cap (fst (run_calls ?f cs (av_new cap))) (fst (run_calls ?g cs []))
      \<and> snd (run_calls ?f cs (av_new cap)) = snd (run_calls ?g cs [])"
    by (rule run_calls_simulation [where P = "\<lambda>_. True"])
      (auto simp: av_rep_new dest: kept_on_panic_rel [OF av_do_rep])
  have "av_rep cap a xs \<Longrightarrow> UB \<notin> set (snd (run_calls ?f cs a))" for a xs
  proof (induction cs arbitrary: a xs)
    case (Cons c cs)
    have "av_rep cap (fst (?f c a)) (fst (?g c xs))" "snd (?f c a) \<noteq> UB"
      using kept_on_panic_rel [OF av_do_rep [OF Cons.prems] Cons.prems] by blast+
    then show ?case using Cons.IH by (auto simp: case_prod_beta)
  qed simp
  then show ?thesis
    using sim av_rep_new av_as_slice_rep av_rep_cap
    by (fastforce simp: case_prod_beta av_drop_def)
qed

text \<open>
  Consuming iteration: collecting items into an array of capacity \<open>cap\<close> panics exactly
  when there are more than \<open>cap\<close>; otherwise any interleaving of \<open>next\<close> and \<open>next_back\<close>
  yields the items from the two ends, and dropping the iterator drops exactly the
  items not yet yielded.
\<close>

theorem av_iterate_both_ends:
  "case av_from_iter cap xs of
     Ret a \<Rightarrow> length xs \<le> cap \<and>
       (let (t, outs) = run_calls it_call ds (av_into_iter a);
            (ys, outs') = run_calls ends_call ds xs
        in outs = outs' \<and> it_drop t = Ret ys \<and> it_size_hint t = (length ys, Some (length ys)))
   | Panic m \<Rightarrow> cap < length xs \<and> m = ''ArrayVec is full''
   | UB \<Rightarrow> False"
proof (cases "length xs \<le> cap")
  case True
  then obtain a where a: "av_from_iter cap xs = Ret a" "av_rep cap a xs"
    using av_from_iter_rep [of xs cap] by auto
  have "it_rep (fst (run_calls it_call ds (av_into_iter a))) (fst (run_calls ends_call ds xs))
      \<and> snd (run_calls it_call ds (av_into_iter a)) = snd (run_calls ends_call ds xs)"
    by (rule run_calls_simulation [where P = "\<lambda>_. True"])
      (simp_all only: it_call_rep av_into_iter_rep [OF a(2)] simp_thms HOL.simp_thms ball_triv)
  then show ?thesis using True a(1) by (auto simp: it_drop_rep it_size_hint_rep)
next
  case False
  then show ?thesis using av_from_iter_rep [of xs cap] by simp
qed

text \<open>
  \<open>retain\<close> whose closure panics: the array holds the items kept before the panic, in
  order, and is still valid; when it does not panic, every item was offered once, in order.
\<close>

theorem av_retain_panic_safe:
  assumes "av_from_iter cap xs = Ret a"
  shows "\<exists>a'. av_retain keep st a = Ret (a', snd (lv_retain keep st xs))
    \<and> av_as_slice a' = Ret (fst (lv_retain keep st xs))
    \<and> av_drop a' = Ret (fst (lv_retain keep st xs))"
proof -
  have "av_rep cap a xs" using av_from_iter_rep [of xs cap] assms by (auto split: if_splits)
  then obtain a' where "av_retain keep st a = Ret (a', snd (lv_retain keep st xs))"
      "av_rep cap a' (fst (lv_retain keep st xs))"
    using av_retain_rep [of cap a xs keep st] by (auto simp: run_simps rel_prod_sel)
  then show ?thesis by (auto simp: av_as_slice_rep av_drop_def)
qed

text \<open>The closure keeps the even numbers, doubled, and panics at 5.\<close>

theorem av_retain_panic_safe_witness:
  "\<exists>a a'. av_from_iter 6 [1, 2, 3, 4, 5, 6 :: nat] = Ret a
    \<and> av_retain (\<lambda>n x. if x = 5 then None else Some (Suc n, 2 * x, even x)) (0 :: nat) a = Ret (a', None)
    \<and> av_as_slice a' = Ret [4, 8]"
proof -
  obtain a where a: "av_from_iter 6 [1, 2, 3, 4, 5, 6 :: nat] = Ret a"
    by (simp add: av_from_iter_def av_new_def av_push_def av_cap_def)
  show ?thesis
    using av_retain_panic_safe [OF a,
      of "\<lambda>n x. if x = 5 then None else Some (Suc n, 2 * x, even x)" "0 :: nat"] a
    by auto
qed

text \<open>
  Stack discipline: pushing items on an array with room for them and popping as many
  returns them latest first and leaves the array as it was; pushing one too many panics.
\<close>

theorem av_push_pop_reverses:
  "if length xs + length ys \<le> cap
   then \<exists>a a1 a2. av_from_iter cap xs = Ret a \<and> av_extend ys a = Ret a1
     \<and> pop_times av_pop (length ys) a1 = Ret (a2, map Some (rev ys)) \<and> av_as_slice a2 = Ret xs
   else length xs \<le> cap \<longrightarrow>
     (\<exists>a. av_from_iter cap xs = Ret a \<and> av_extend ys a = Panic ''ArrayVec is full'')"
proof (cases "length xs + length ys \<le> cap")
  case True
  then obtain a where a: "av_from_iter cap xs = Ret a" "av_rep cap a xs"
    using av_from_iter_rep [of xs cap] by auto
  then show ?thesis
    using av.push_pop_all [OF a(2), of ys] True av_as_slice_rep
    by (auto simp: av_extend_push_all)
next
  case False
  then show ?thesis
    using av_from_iter_rep [of xs cap] av.push_all_full [of cap _ xs "cap - length xs" ys]
    by (auto simp: av_extend_push_all)
qed

text \<open>Two items on one fill the array, and the third does not fit.\<close>

theorem av_push_pop_reverses_witness:
  "(\<exists>a a1 a2. av_from_iter 3 [7 :: nat] = Ret a \<and> av_extend [8, 9] a = Ret a1
     \<and> pop_times av_pop 2 a1 = Ret (a2, [Some 9, Some 8]) \<and> av_as_slice a2 = Ret [7])
   \<and> (\<exists>a. av_from_iter 2 [7 :: nat] = Ret a \<and> av_extend [8, 9] a = Panic ''ArrayVec is full'')"
  using av_push_pop_reverses [of "[7 :: nat]" "[8, 9]" 3]
    av_push_pop_reverses [of "[7 :: nat]" "[8, 9]" 2]
  by (simp add: numeral_2_eq_2)

end
