(* ===== verification/SmallVec.thy ===== *)
theory SmallVec
  imports ArrayVec
begin

text \<open>
  The small vector of \<open>src/collections/small_vec.rs\<close>: an array vector of \<open>N\<close> slots until
  it outgrows them, a \<open>Vec\<close> from then on. A \<open>Vec\<close> is its list of items; its allocation
  (capacity overflow, out of memory) is not modelled, except where \<open>From<Vec>\<close> reads the
  capacity. Whatever the storage, the vector is the list of its items.
\<close>

section \<open>Data and operations\<close>

datatype 'a small_vec = Inline "'a array_vec" | Heap "'a list"

definition sv_new :: "nat \<Rightarrow> 'a small_vec" where
  "sv_new N = Inline (av_new N)"

definition sv_as_slice :: "'a small_vec \<Rightarrow> 'a list run" where
  "sv_as_slice s = (case s of Inline a \<Rightarrow> av_as_slice a | Heap v \<Rightarrow> Ret v)"

text \<open>\<open>heap\<close> moves the items of an inline vector to a new \<open>Vec\<close>.\<close>

definition sv_heap :: "'a small_vec \<Rightarrow> 'a list run" where
  "sv_heap s =
     (case s of
        Inline a \<Rightarrow> run_bind (av_drain Unbounded Unbounded a) (\<lambda>(a', t). it_collect t)
      | Heap v \<Rightarrow> Ret v)"

definition sv_push :: "'a \<Rightarrow> 'a small_vec \<Rightarrow> 'a small_vec run" where
  "sv_push x s =
     (case s of
        Inline a \<Rightarrow> if \<not> av_is_full a then run_map Inline (av_push x a)
                   else run_map (\<lambda>v. Heap (v @ [x])) (sv_heap s)
      | Heap v \<Rightarrow> run_map (\<lambda>v. Heap (v @ [x])) (sv_heap s))"

definition vec_pop :: "'a list \<Rightarrow> 'a list \<times> 'a option" where
  "vec_pop v = (butlast v, (if v = [] then None else Some (last v)))"

definition sv_pop :: "'a small_vec \<Rightarrow> ('a small_vec \<times> 'a option) run" where
  "sv_pop s =
     (case s of Inline a \<Rightarrow> run_map (apfst Inline) (av_pop a) | Heap v \<Rightarrow> Ret (apfst Heap (vec_pop v)))"

definition vec_remove :: "nat \<Rightarrow> 'a list \<Rightarrow> ('a list \<times> 'a) run" where
  "vec_remove i v =
     (if i < length v then Ret (take i v @ drop (Suc i) v, v ! i)
      else Panic ''removal index should be < len'')"

definition sv_remove :: "nat \<Rightarrow> 'a small_vec \<Rightarrow> ('a small_vec \<times> 'a) run" where
  "sv_remove i s =
     (case s of Inline a \<Rightarrow> run_map (apfst Inline) (av_remove i a)
      | Heap v \<Rightarrow> run_map (apfst Heap) (vec_remove i v))"

definition sv_truncate :: "nat \<Rightarrow> 'a small_vec \<Rightarrow> 'a small_vec run" where
  "sv_truncate n s =
     (case s of Inline a \<Rightarrow> run_map (\<lambda>(a', dropped). Inline a') (av_truncate n a)
      | Heap v \<Rightarrow> Ret (Heap (take n v)))"

definition sv_clear :: "'a small_vec \<Rightarrow> 'a small_vec run" where
  "sv_clear = sv_truncate 0"

text \<open>\<open>Vec::reserve\<close> changes no item, so on a heap vector there is nothing to do.\<close>

definition sv_reserve :: "nat \<Rightarrow> nat \<Rightarrow> 'a small_vec \<Rightarrow> 'a small_vec run" where
  "sv_reserve N additional s =
     (case s of
        Inline a \<Rightarrow>
          run_bind (av_as_slice a) (\<lambda>xs.
            if saturating_add (length xs) additional \<le> N then Ret s
            else run_map Heap (sv_heap s))
      | Heap v \<Rightarrow> run_map Heap (sv_heap s))"

text \<open>\<open>extend\<close>: \<open>hint\<close> is the lower bound of the iterator's \<open>size_hint\<close>.\<close>

definition sv_extend :: "nat \<Rightarrow> nat \<Rightarrow> 'a list \<Rightarrow> 'a small_vec \<Rightarrow> 'a small_vec run" where
  "sv_extend N hint xs s = run_bind (sv_reserve N hint s) (push_all sv_push xs)"

definition sv_extend_from_slice :: "nat \<Rightarrow> ('a \<Rightarrow> 'a) \<Rightarrow> 'a list \<Rightarrow> 'a small_vec \<Rightarrow> 'a small_vec run" where
  "sv_extend_from_slice N clone xs s = sv_extend N (length xs) (map clone xs) s"

definition sv_from_iter :: "nat \<Rightarrow> nat \<Rightarrow> 'a list \<Rightarrow> 'a small_vec run" where
  "sv_from_iter N hint xs = sv_extend N hint xs (sv_new N)"

text \<open>\<open>From<Vec>\<close> copies a vector whose capacity is at most \<open>N\<close>, and adopts a larger one.\<close>

definition sv_from_vec :: "nat \<Rightarrow> nat \<Rightarrow> 'a list \<Rightarrow> 'a small_vec run" where
  "sv_from_vec N capacity v =
     (if capacity \<le> N then sv_from_iter N (length v) v else Ret (Heap v))"

definition sv_from_slice :: "nat \<Rightarrow> ('a \<Rightarrow> 'a) \<Rightarrow> 'a list \<Rightarrow> 'a small_vec run" where
  "sv_from_slice N clone xs = sv_from_iter N (length xs) (map clone xs)"

definition sv_clone :: "nat \<Rightarrow> ('a \<Rightarrow> 'a) \<Rightarrow> 'a small_vec \<Rightarrow> 'a small_vec run" where
  "sv_clone N clone s = run_bind (sv_as_slice s) (sv_from_slice N clone)"

text \<open>
  \<open>dedup\<close> works in place on the slice: \<open>dedup_from\<close> is the loop at \<open>index\<close> with \<open>n\<close>
  iterations to go; \<open>eq\<close> is the items' \<open>PartialEq\<close>. The swap brings the item to keep next to
  the last one kept; the rest is truncated.
\<close>

definition list_swap :: "nat \<Rightarrow> nat \<Rightarrow> 'a list \<Rightarrow> 'a list" where
  "list_swap i j xs = xs[i := xs ! j, j := xs ! i]"

fun dedup_from :: "('a \<Rightarrow> 'a \<Rightarrow> bool) \<Rightarrow> nat \<Rightarrow> nat \<Rightarrow> nat \<Rightarrow> 'a list \<Rightarrow> 'a list \<times> nat" where
  "dedup_from eq index 0 kept xs = (xs, kept)"
| "dedup_from eq index (Suc n) kept xs =
     (if \<not> eq (xs ! index) (xs ! (kept - 1))
      then dedup_from eq (Suc index) n (kept + 1) (list_swap kept index xs)
      else dedup_from eq (Suc index) n kept xs)"

text \<open>Writing back the slice through \<open>as_mut_slice\<close>.\<close>

definition sv_set_slice :: "'a list \<Rightarrow> 'a small_vec \<Rightarrow> 'a small_vec" where
  "sv_set_slice xs s =
     (case s of
        Inline a \<Rightarrow> Inline (a\<lparr>av_items := map Some xs @ drop (length xs) (av_items a)\<rparr>)
      | Heap v \<Rightarrow> Heap xs)"

definition sv_dedup :: "('a \<Rightarrow> 'a \<Rightarrow> bool) \<Rightarrow> 'a small_vec \<Rightarrow> 'a small_vec run" where
  "sv_dedup eq s =
     run_bind (sv_as_slice s) (\<lambda>xs.
       case dedup_from eq 1 (length xs - 1) 1 xs of
         (ys, kept) \<Rightarrow> sv_truncate kept (sv_set_slice ys s))"

text \<open>
  \<open>Vec::retain_mut\<close>: when the closure panics, the vector keeps the item it looked at and
  those after it (an array vector leaks them).
\<close>

fun vec_retain :: "('a, 's) keep \<Rightarrow> 's \<Rightarrow> 'a list \<Rightarrow> 'a list \<times> 's option" where
  "vec_retain keep st [] = ([], Some st)"
| "vec_retain keep st (x # xs) =
     (case keep st x of
        None \<Rightarrow> (x # xs, None)
      | Some (st', y, k) \<Rightarrow>
          (case vec_retain keep st' xs of (ys, r) \<Rightarrow> (if k then y # ys else ys, r)))"

definition sv_retain :: "('a, 's) keep \<Rightarrow> 's \<Rightarrow> 'a small_vec \<Rightarrow> ('a small_vec \<times> 's option) run" where
  "sv_retain keep st s =
     (case s of Inline a \<Rightarrow> run_map (apfst Inline) (av_retain keep st a)
      | Heap v \<Rightarrow> Ret (apfst Heap (vec_retain keep st v)))"

text \<open>Iterators by value and drains; a drained \<open>Vec\<close> has closed the gap when the drain ends.\<close>

datatype 'a sv_iter = ItInline "'a av_iter" | ItHeap "'a list"

definition vec_drain :: "bound \<Rightarrow> bound \<Rightarrow> 'a list \<Rightarrow> ('a list \<times> 'a list) run" where
  "vec_drain = lv_drain ''range out of bounds''"

definition sv_drain :: "bound \<Rightarrow> bound \<Rightarrow> 'a small_vec \<Rightarrow> ('a small_vec \<times> 'a sv_iter) run" where
  "sv_drain lo hi s =
     (case s of Inline a \<Rightarrow> run_map (map_prod Inline ItInline) (av_drain lo hi a)
      | Heap v \<Rightarrow> run_map (map_prod Heap ItHeap) (vec_drain lo hi v))"

definition sv_into_iter :: "'a small_vec \<Rightarrow> 'a sv_iter" where
  "sv_into_iter s = (case s of Inline a \<Rightarrow> ItInline (av_into_iter a) | Heap v \<Rightarrow> ItHeap v)"

definition sv_next :: "'a sv_iter \<Rightarrow> ('a sv_iter \<times> 'a option) run" where
  "sv_next t =
     (case t of ItInline t \<Rightarrow> run_map (apfst ItInline) (it_next t)
      | ItHeap [] \<Rightarrow> Ret (ItHeap [], None) | ItHeap (x # xs) \<Rightarrow> Ret (ItHeap xs, Some x))"

definition sv_next_back :: "'a sv_iter \<Rightarrow> ('a sv_iter \<times> 'a option) run" where
  "sv_next_back t =
     (case t of ItInline t \<Rightarrow> run_map (apfst ItInline) (it_next_back t)
      | ItHeap v \<Rightarrow> Ret (apfst ItHeap (vec_pop v)))"

section \<open>Comparisons\<close>

datatype ordering = Less | Equal | Greater

definition sv_eq :: "('a \<Rightarrow> 'a \<Rightarrow> bool) \<Rightarrow> 'a small_vec \<Rightarrow> 'a small_vec \<Rightarrow> bool run" where
  "sv_eq eq s t = run_bind (sv_as_slice s) (\<lambda>xs. run_map (list_all2 eq xs) (sv_as_slice t))"

fun slice_cmp :: "('a \<Rightarrow> 'a \<Rightarrow> ordering option) \<Rightarrow> 'a list \<Rightarrow> 'a list \<Rightarrow> ordering option" where
  "slice_cmp cmp [] [] = Some Equal"
| "slice_cmp cmp [] (y # ys) = Some Less"
| "slice_cmp cmp (x # xs) [] = Some Greater"
| "slice_cmp cmp (x # xs) (y # ys) =
     (case cmp x y of Some Equal \<Rightarrow> slice_cmp cmp xs ys | r \<Rightarrow> r)"

definition sv_partial_cmp :: "('a \<Rightarrow> 'a \<Rightarrow> ordering option) \<Rightarrow> 'a small_vec \<Rightarrow> 'a small_vec
    \<Rightarrow> ordering option run" where
  "sv_partial_cmp cmp s t =
     run_bind (sv_as_slice s) (\<lambda>xs. run_map (slice_cmp cmp xs) (sv_as_slice t))"

section \<open>The list it represents\<close>

fun sv_rep :: "nat \<Rightarrow> 'a small_vec \<Rightarrow> 'a list \<Rightarrow> bool" where
  "sv_rep N (Inline a) xs \<longleftrightarrow> av_rep N a xs"
| "sv_rep N (Heap v) xs \<longleftrightarrow> v = xs"

fun si_rep :: "'a sv_iter \<Rightarrow> 'a list \<Rightarrow> bool" where
  "si_rep (ItInline t) xs \<longleftrightarrow> it_rep t xs"
| "si_rep (ItHeap v) xs \<longleftrightarrow> v = xs"

lemma sv_as_slice_rep: "sv_rep N s xs \<Longrightarrow> sv_as_slice s = Ret xs"
  by (cases s) (auto simp: sv_as_slice_def av_as_slice_rep)

lemma sv_rep_new: "sv_rep N (sv_new N) []"
  by (simp add: sv_new_def av_rep_new)

lemma sv_heap_rep: "sv_rep N s xs \<Longrightarrow> sv_heap s = Ret xs"
proof (cases s)
  case (Inline a)
  assume "sv_rep N s xs"
  then have "run_rel (rel_prod (av_rep N) it_rep) (av_drain Unbounded Unbounded a) (Ret ([], xs))"
    using av_drain_rep [of N a xs Unbounded Unbounded] Inline
    by (simp add: lv_drain_def range_bounds_def range_start_def range_end_def)
  then show ?thesis using Inline by (auto simp: sv_heap_def run_simps rel_prod_sel it_collect_rep)
qed (simp add: sv_heap_def)

lemma sv_push_rep:
  assumes "sv_rep N s xs"
  shows "\<exists>s'. sv_push x s = Ret s' \<and> sv_rep N s' (xs @ [x])"
proof (cases s)
  case (Inline a)
  then show ?thesis
    using assms av.push_room [of N a xs x] sv_heap_rep [OF assms] av_rep_cap [of N a xs]
    by (cases "length xs < N") (auto simp: sv_push_def av_is_full_def run_simps)
next
  case (Heap v)
  then show ?thesis using assms sv_heap_rep [OF assms] by (auto simp: sv_push_def)
qed

lemma sv_pop_rep:
  assumes "sv_rep N s xs"
  shows "\<exists>s'. sv_pop s = Ret (s', if xs = [] then None else Some (last xs)) \<and> sv_rep N s' (butlast xs)"
  using assms av.pop_rep [of N _ xs]
  by (cases s) (fastforce simp: sv_pop_def vec_pop_def)+

text \<open>A small vector is a list store that is never full.\<close>

interpretation sv: list_store "sv_rep N" "\<lambda>_. True" sv_push sv_pop "''''" for N
  by unfold_locales (auto simp: sv_push_rep sv_pop_rep)

section \<open>Growing\<close>

lemma sv_reserve_rep:
  assumes "sv_rep N s xs"
  shows "\<exists>s'. sv_reserve N additional s = Ret s' \<and> sv_rep N s' xs"
proof (cases s)
  case (Inline a)
  then show ?thesis using assms sv_heap_rep [OF assms] av_as_slice_rep [of N a xs]
    by (simp add: sv_reserve_def)
next
  case (Heap v)
  then show ?thesis using assms sv_heap_rep [OF assms] by (simp add: sv_reserve_def)
qed

lemma sv_extend_rep:
  assumes "sv_rep N s xs"
  shows "\<exists>s'. sv_extend N hint ys s = Ret s' \<and> sv_rep N s' (xs @ ys)"
proof -
  obtain s1 where s1: "sv_reserve N hint s = Ret s1" "sv_rep N s1 xs"
    using sv_reserve_rep [OF assms] by blast
  then show ?thesis using sv.push_all_rep [OF s1(2), of ys] by (simp add: sv_extend_def)
qed

lemma sv_from_iter_rep: "\<exists>s. sv_from_iter N hint xs = Ret s \<and> sv_rep N s xs"
  using sv_extend_rep [OF sv_rep_new, of N hint xs] by (simp add: sv_from_iter_def)

lemma sv_from_vec_rep: "\<exists>s. sv_from_vec N capacity v = Ret s \<and> sv_rep N s v"
  using sv_from_iter_rep [of N "length v" v] by (simp add: sv_from_vec_def)

section \<open>Removing equal neighbours\<close>

fun dedup_rest :: "('a \<Rightarrow> 'a \<Rightarrow> bool) \<Rightarrow> 'a \<Rightarrow> 'a list \<Rightarrow> 'a list" where
  "dedup_rest eq k [] = []"
| "dedup_rest eq k (x # xs) = (if eq x k then dedup_rest eq k xs else x # dedup_rest eq x xs)"

fun dedup_list :: "('a \<Rightarrow> 'a \<Rightarrow> bool) \<Rightarrow> 'a list \<Rightarrow> 'a list" where
  "dedup_list eq [] = []"
| "dedup_list eq (x # xs) = x # dedup_rest eq x xs"

lemma dedup_rest_remdups_adj: "x # dedup_rest (=) x xs = remdups_adj (x # xs)"
proof (induction xs arbitrary: x)
  case (Cons y ys)
  then show ?case by (cases "x = y") auto
qed simp

lemma dedup_list_remdups_adj: "dedup_list (=) xs = remdups_adj xs"
  by (cases xs) (simp_all add: dedup_rest_remdups_adj)

lemma list_swap_hole:
  "list_swap (length ks) (length ks + length hole) (ks @ hole @ z # zs)
     = ks @ z # tl (hole @ [hd (hole @ [z])]) @ zs"
  by (cases hole) (auto simp: list_swap_def list_update_append nth_append)

lemma dedup_from_spec:
  assumes "ks \<noteq> []"
  shows "\<exists>rest. dedup_from eq (length ks + length hole) (length zs) (length ks) (ks @ hole @ zs)
      = (ks @ dedup_rest eq (last ks) zs @ rest, length (ks @ dedup_rest eq (last ks) zs))
    \<and> length (ks @ dedup_rest eq (last ks) zs @ rest) = length (ks @ hole @ zs)"
  using assms
proof (induction zs arbitrary: ks hole)
  case Nil
  then show ?case by auto
next
  case (Cons z zs)
  have z: "(ks @ hole @ z # zs) ! (length ks + length hole) = z"
    by (simp add: nth_append)
  have k: "(ks @ hole @ z # zs) ! (length ks - 1) = last ks"
    using Cons.prems by (simp add: nth_append last_conv_nth)
  show ?case
  proof (cases "eq z (last ks)")
    case True
    then show ?thesis using Cons.IH [OF Cons.prems, of "hole @ [z]"] z k by simp
  next
    case False
    have "length (tl (hole @ [hd (hole @ [z])])) = length hole" by (cases hole) auto
    then show ?thesis
      using Cons.IH [of "ks @ [z]" "tl (hole @ [hd (hole @ [z])])"] False z k
      by (simp add: list_swap_hole)
  qed
qed

lemma sv_truncate_rep:
  assumes "sv_rep N s xs"
  shows "\<exists>s'. sv_truncate n s = Ret s' \<and> sv_rep N s' (take n xs)"
  using assms av_truncate_rep [of N _ xs n]
  by (cases s) (fastforce simp: sv_truncate_def lv_truncate_def run_simps rel_prod_sel)+

lemma sv_set_slice_rep:
  assumes "sv_rep N s xs" and "length ys = length xs"
  shows "sv_rep N (sv_set_slice ys s) ys"
  using assms by (cases s) (auto simp: sv_set_slice_def av_rep_def)

lemma sv_dedup_rep:
  assumes "sv_rep N s xs"
  shows "\<exists>s'. sv_dedup eq s = Ret s' \<and> sv_rep N s' (dedup_list eq xs)"
proof (cases xs)
  case Nil
  then show ?thesis
    using sv_truncate_rep [OF sv_set_slice_rep [OF assms], of "[]" 1] sv_as_slice_rep [OF assms]
    by (simp add: sv_dedup_def)
next
  case (Cons x zs)
  obtain rest where d: "dedup_from eq 1 (length xs - 1) 1 xs
      = (dedup_list eq xs @ rest, length (dedup_list eq xs))"
    "length (dedup_list eq xs @ rest) = length xs"
    using dedup_from_spec [of "[x]" eq "[]" zs] Cons by auto
  then show ?thesis
    using sv_truncate_rep [OF sv_set_slice_rep [OF assms d(2)], of "length (dedup_list eq xs)"]
      sv_as_slice_rep [OF assms]
    by (simp add: sv_dedup_def)
qed

section \<open>Sequences of calls\<close>

text \<open>
  The closure of \<open>retain\<close> has a state, may change the items and may panic (without changing the
  item it looks at); \<open>eq\<close> is any comparison of items.
\<close>

datatype ('a, 's) sv_call =
    SvPush 'a | SvPop | SvRemove nat | SvTruncate nat | SvClear | SvReserve nat
  | SvExtend nat "'a list" | SvDedup "'a \<Rightarrow> 'a \<Rightarrow> bool" | SvRetain "('a, 's) keep" 's
  | SvDrain bound bound | SvSlice

function sv_collect :: "'a sv_iter \<Rightarrow> 'a list run" where
  "sv_collect (ItInline t) = it_collect t"
| "sv_collect (ItHeap v) = Ret v"
  by pat_completeness auto
termination by lexicographic_order

fun sv_do :: "nat \<Rightarrow> ('a, 's) sv_call \<Rightarrow> 'a small_vec \<Rightarrow> ('a small_vec \<times> ('a, 's) av_out) run" where
  "sv_do N (SvPush x) s = run_map (\<lambda>s'. (s', OutUnit)) (sv_push x s)"
| "sv_do N SvPop s = run_map (apsnd OutItem) (sv_pop s)"
| "sv_do N (SvRemove i) s = run_map (apsnd (OutItem \<circ> Some)) (sv_remove i s)"
| "sv_do N (SvTruncate n) s = run_map (\<lambda>s'. (s', OutUnit)) (sv_truncate n s)"
| "sv_do N SvClear s = run_map (\<lambda>s'. (s', OutUnit)) (sv_clear s)"
| "sv_do N (SvReserve n) s = run_map (\<lambda>s'. (s', OutUnit)) (sv_reserve N n s)"
| "sv_do N (SvExtend hint xs) s = run_map (\<lambda>s'. (s', OutUnit)) (sv_extend N hint xs s)"
| "sv_do N (SvDedup eq) s = run_map (\<lambda>s'. (s', OutUnit)) (sv_dedup eq s)"
| "sv_do N (SvRetain keep st) s = run_map (apsnd OutState) (sv_retain keep st s)"
| "sv_do N (SvDrain lo hi) s =
     run_bind (sv_drain lo hi s) (\<lambda>(s', t). run_map (\<lambda>xs. (s', OutItems xs)) (sv_collect t))"
| "sv_do N SvSlice s = run_map (\<lambda>xs. (s, OutItems xs)) (sv_as_slice s)"

text \<open>
  The specification: a list, and whether it is on the heap. This bit says which message a panic has,
  and whether the items from the one on whose turn the closure of \<open>retain\<close> panicked are kept (heap) or
  gone (inline); nothing else depends on it. It is set when the items outgrow \<open>N\<close>, by a push or by
  what \<open>reserve\<close> or the hint of \<open>extend\<close> ask for, and never reset.
\<close>

fun retain_rest :: "('a, 's) keep \<Rightarrow> 's \<Rightarrow> 'a list \<Rightarrow> 'a list" where
  "retain_rest keep st [] = []"
| "retain_rest keep st (x # xs) =
     (case keep st x of None \<Rightarrow> x # xs | Some (st', y, k) \<Rightarrow> retain_rest keep st' xs)"

fun sl_do :: "nat \<Rightarrow> ('a, 's) sv_call \<Rightarrow> bool \<times> 'a list \<Rightarrow> ((bool \<times> 'a list) \<times> ('a, 's) av_out) run" where
  "sl_do N (SvPush x) (h, xs) = Ret ((h \<or> N < length xs + 1, xs @ [x]), OutUnit)"
| "sl_do N SvPop (h, xs) = Ret ((h, butlast xs), OutItem (if xs = [] then None else Some (last xs)))"
| "sl_do N (SvRemove i) (h, xs) =
     (if i < length xs then Ret ((h, take i xs @ drop (Suc i) xs), OutItem (Some (xs ! i)))
      else Panic (if h then ''removal index should be < len'' else ''removal index is out of bounds''))"
| "sl_do N (SvTruncate n) (h, xs) = Ret ((h, take n xs), OutUnit)"
| "sl_do N SvClear (h, xs) = Ret ((h, []), OutUnit)"
| "sl_do N (SvReserve n) (h, xs) = Ret ((h \<or> N < saturating_add (length xs) n, xs), OutUnit)"
| "sl_do N (SvExtend hint ys) (h, xs) =
     Ret ((h \<or> N < saturating_add (length xs) hint \<or> N < length xs + length ys, xs @ ys), OutUnit)"
| "sl_do N (SvDedup eq) (h, xs) = Ret ((h, dedup_list eq xs), OutUnit)"
| "sl_do N (SvRetain keep st) (h, xs) =
     (case lv_retain keep st xs of
        (ys, r) \<Rightarrow> Ret ((h, if h then ys @ retain_rest keep st xs else ys), OutState r))"
| "sl_do N (SvDrain lo hi) (h, xs) =
     (case range_bounds (length xs) lo hi of
        Some (s, e) \<Rightarrow> Ret ((h, take s xs @ drop e xs), OutItems (take (e - s) (drop s xs)))
      | None \<Rightarrow> Panic (if h then ''range out of bounds'' else ''drain range is out of bounds''))"
| "sl_do N SvSlice (h, xs) = Ret ((h, xs), OutItems xs)"

lemma vec_retain_lv:
  "vec_retain keep st xs
     = (fst (lv_retain keep st xs) @ retain_rest keep st xs, snd (lv_retain keep st xs))"
  by (induction keep st xs rule: vec_retain.induct) (auto split: option.split prod.split)

text \<open>A vector that represents a list, in the storage the specification says.\<close>

fun sv_spilled :: "'a small_vec \<Rightarrow> bool" where
  "sv_spilled (Inline a) = False"
| "sv_spilled (Heap v) = True"

fun sv_at :: "nat \<Rightarrow> 'a small_vec \<Rightarrow> bool \<times> 'a list \<Rightarrow> bool" where
  "sv_at N (Inline a) (h, xs) \<longleftrightarrow> \<not> h \<and> av_rep N a xs"
| "sv_at N (Heap v) (h, xs) \<longleftrightarrow> h \<and> v = xs"

lemma sv_at_iff: "sv_at N s (h, xs) \<longleftrightarrow> sv_rep N s xs \<and> sv_spilled s = h"
  by (cases s) auto

lemma sv_heap_at:
  assumes "sv_rep N s xs"
  shows "run_map Heap (sv_heap s) = Ret (Heap xs)" "run_map (\<lambda>v. Heap (v @ ys)) (sv_heap s) = Ret (Heap (xs @ ys))"
  using sv_heap_rep [OF assms] by simp_all

lemma sv_push_at:
  assumes "sv_at N s (h, xs)"
  shows "\<exists>s'. sv_push x s = Ret s' \<and> sv_at N s' (h \<or> N < length xs + 1, xs @ [x])"
proof (cases s)
  case (Inline a)
  then have a: "av_rep N a xs" "\<not> h" using assms by simp_all
  then show ?thesis
    using Inline av.push_room [of N a xs x] sv_heap_at(2) [of N s xs "[x]"] av_rep_cap [of N a xs]
    by (cases "length xs < N") (auto simp: sv_push_def av_is_full_def run_simps)
next
  case (Heap v)
  then show ?thesis using assms by (simp add: sv_push_def sv_heap_def)
qed

lemma sv_push_all_at:
  "sv_at N s (h, xs) \<Longrightarrow> \<exists>s'. push_all sv_push ys s = Ret s'
     \<and> sv_at N s' (h \<or> ys \<noteq> [] \<and> N < length xs + length ys, xs @ ys)"
proof (induction ys arbitrary: s h xs)
  case (Cons y ys)
  obtain s1 where s1: "sv_push y s = Ret s1" "sv_at N s1 (h \<or> N < length xs + 1, xs @ [y])"
    using sv_push_at [OF Cons.prems] by blast
  from Cons.IH [OF s1(2)] obtain s' where s': "push_all sv_push ys s1 = Ret s'"
    "sv_at N s' ((h \<or> N < length xs + 1) \<or> ys \<noteq> [] \<and> N < length (xs @ [y]) + length ys, (xs @ [y]) @ ys)"
    by blast
  have "((h \<or> N < length xs + 1) \<or> ys \<noteq> [] \<and> N < length (xs @ [y]) + length ys)
      = (h \<or> y # ys \<noteq> [] \<and> N < length xs + length (y # ys))"
    by (cases ys) auto
  then show ?case using s1(1) s' by (intro exI [of _ s']) simp
qed auto

lemma sv_reserve_at:
  assumes "sv_at N s (h, xs)"
  shows "\<exists>s'. sv_reserve N n s = Ret s' \<and> sv_at N s' (h \<or> N < saturating_add (length xs) n, xs)"
proof (cases s)
  case (Inline a)
  then have a: "av_rep N a xs" "\<not> h" "sv_rep N s xs" using assms by simp_all
  show ?thesis
    using Inline av_as_slice_rep [OF a(1)] sv_heap_at(1) [OF a(3)] assms a(2)
    by (cases "saturating_add (length xs) n \<le> N") (auto simp: sv_reserve_def)
next
  case (Heap v)
  then show ?thesis using assms by (simp add: sv_reserve_def sv_heap_def)
qed

lemma sv_extend_at:
  assumes "sv_at N s (h, xs)"
  shows "\<exists>s'. sv_extend N hint ys s = Ret s'
    \<and> sv_at N s' (h \<or> N < saturating_add (length xs) hint \<or> N < length xs + length ys, xs @ ys)"
proof -
  obtain s1 where s1: "sv_reserve N hint s = Ret s1" "sv_at N s1 (h \<or> N < saturating_add (length xs) hint, xs)"
    using sv_reserve_at [OF assms] by blast
  obtain s' where s': "push_all sv_push ys s1 = Ret s'"
    "sv_at N s' ((h \<or> N < saturating_add (length xs) hint) \<or> ys \<noteq> [] \<and> N < length xs + length ys, xs @ ys)"
    using sv_push_all_at [OF s1(2)] by blast
  have "N < length xs + length ys \<longrightarrow> ys \<noteq> [] \<or> h"
    using assms by (cases s) (auto dest: av_rep_cap)
  then have "((h \<or> N < saturating_add (length xs) hint) \<or> ys \<noteq> [] \<and> N < length xs + length ys)
      = (h \<or> N < saturating_add (length xs) hint \<or> N < length xs + length ys)" by blast
  then show ?thesis using s1(1) s' by (simp add: sv_extend_def)
qed

text \<open>The calls that leave the storage alone.\<close>

lemma sv_pop_storage: "sv_pop s = Ret (s', x) \<Longrightarrow> sv_spilled s' = sv_spilled s"
  by (cases s) (auto simp: sv_pop_def vec_pop_def run_simps)

lemma sv_truncate_storage: "sv_truncate n s = Ret s' \<Longrightarrow> sv_spilled s' = sv_spilled s"
  by (cases s) (auto simp: sv_truncate_def run_simps)

lemma sv_set_slice_storage [simp]: "sv_spilled (sv_set_slice xs s) = sv_spilled s"
  by (cases s) (simp_all add: sv_set_slice_def)

lemma sv_dedup_storage: "sv_dedup eq s = Ret s' \<Longrightarrow> sv_spilled s' = sv_spilled s"
  by (auto simp: sv_dedup_def run_simps split_beta dest: sv_truncate_storage)

lemma sv_remove_at:
  assumes "sv_at N s (h, xs)"
  shows "run_rel (rel_prod (sv_at N) (=)) (sv_do N (SvRemove i) s) (sl_do N (SvRemove i) (h, xs))"
  using assms av_remove_rep [of N _ xs i]
  by (cases s) (fastforce simp: sv_remove_def lv_remove_def vec_remove_def run_simps rel_prod_sel)+

lemma sv_retain_at:
  assumes "sv_at N s (h, xs)"
  shows "run_rel (rel_prod (sv_at N) (=)) (sv_do N (SvRetain keep st) s) (sl_do N (SvRetain keep st) (h, xs))"
proof (cases s)
  case (Inline a)
  then show ?thesis
    using assms av_retain_rep [of N a xs keep st]
    by (auto simp: sv_retain_def run_simps rel_prod_sel split: prod.split)
next
  case (Heap v)
  then show ?thesis using assms by (simp add: sv_retain_def vec_retain_lv split: prod.split)
qed

lemma sv_drain_at:
  assumes "sv_at N s (h, xs)"
  shows "run_rel (rel_prod (sv_at N) (=)) (sv_do N (SvDrain lo hi) s) (sl_do N (SvDrain lo hi) (h, xs))"
proof (cases s)
  case (Inline a)
  then have a: "av_rep N a xs" "\<not> h" using assms by simp_all
  show ?thesis
    using Inline a(2) av_drain_rep [OF a(1), of lo hi]
    by (cases "range_bounds (length xs) lo hi")
      (auto simp: sv_drain_def lv_drain_def run_simps rel_prod_sel it_collect_rep)
next
  case (Heap v)
  then show ?thesis using assms
    by (cases "range_bounds (length xs) lo hi") (auto simp: sv_drain_def vec_drain_def lv_drain_def)
qed

lemma sv_do_at:
  assumes "sv_at N s (h, xs)"
  shows "run_rel (rel_prod (sv_at N) (=)) (sv_do N c s) (sl_do N c (h, xs))"
proof -
  have rep: "sv_rep N s xs" and h: "sv_spilled s = h" using assms by (simp_all add: sv_at_iff)
  show ?thesis
  proof (cases c)
    case (SvRemove i)
    show ?thesis unfolding SvRemove by (rule sv_remove_at [OF assms])
  next
    case (SvDrain lo hi)
    show ?thesis unfolding SvDrain by (rule sv_drain_at [OF assms])
  next
    case (SvRetain keep st)
    show ?thesis unfolding SvRetain by (rule sv_retain_at [OF assms])
  next
    case (SvDedup eq)
    then show ?thesis using sv_dedup_rep [OF rep, of eq] sv_dedup_storage h by (fastforce simp: sv_at_iff)
  next
    case (SvExtend hint ys)
    then show ?thesis using sv_extend_at [OF assms, of hint ys] by auto
  next
    case (SvReserve n)
    then show ?thesis using sv_reserve_at [OF assms, of n] by auto
  next
    case (SvPush x)
    then show ?thesis using sv_push_at [OF assms, of x] by auto
  next
    case SvPop
    then show ?thesis using sv_pop_rep [OF rep] sv_pop_storage h by (fastforce simp: sv_at_iff)
  next
    case (SvTruncate n)
    then show ?thesis using sv_truncate_rep [OF rep, of n] sv_truncate_storage h by (fastforce simp: sv_at_iff)
  next
    case SvClear
    then show ?thesis using sv_truncate_rep [OF rep, of 0] sv_truncate_storage h
      by (fastforce simp: sv_at_iff sv_clear_def)
  next
    case SvSlice
    then show ?thesis using sv_as_slice_rep [OF rep] assms by simp
  qed
qed

text \<open>Without its messages, and when no closure panics, a call does not depend on the storage.\<close>

definition erase :: "'o run \<Rightarrow> 'o run" where
  "erase r = (case r of Ret x \<Rightarrow> Ret x | Panic m \<Rightarrow> Panic [] | UB \<Rightarrow> UB)"

fun retain_total :: "('a, 's) sv_call \<Rightarrow> bool" where
  "retain_total (SvRetain keep st) \<longleftrightarrow> (\<forall>st' x. keep st' x \<noteq> None)"
| "retain_total c \<longleftrightarrow> True"

lemma retain_rest_total: "\<forall>st x. keep st x \<noteq> None \<Longrightarrow> retain_rest keep st xs = []"
  by (induction keep st xs rule: retain_rest.induct) (auto split: option.split)

lemma sl_do_storage:
  assumes "retain_total c"
  defines "f \<equiv> \<lambda>N a. kept_on_panic a (sl_do N c a)"
  shows "snd (fst (f N (h, xs))) = snd (fst (f M (g, xs)))"
    "erase (snd (f N (h, xs))) = erase (snd (f M (g, xs)))"
  using assms(1) unfolding f_def
  by (cases c; auto simp: kept_on_panic_def erase_def retain_rest_total split: option.split prod.split)+

lemma run_calls_snd:
  "run_calls (\<lambda>c a. apsnd e (f c a)) cs a = apsnd (map e) (run_calls f cs a)"
  by (induction cs arbitrary: a) (auto simp: split_beta apsnd_def map_prod_def)

lemma sl_runs_storage:
  assumes "list_all retain_total cs"
  defines "f \<equiv> \<lambda>N. run_calls (\<lambda>c a. kept_on_panic a (sl_do N c a)) cs (False, [])"
  shows "snd (fst (f N)) = snd (fst (f M)) \<and> map erase (snd (f N)) = map erase (snd (f M))"
proof -
  let ?g = "\<lambda>N c a. apsnd erase (kept_on_panic a (sl_do N c a))"
  have "snd (fst (run_calls (?g N) cs (False, []))) = snd (fst (run_calls (?g M) cs (False, [])))
      \<and> snd (run_calls (?g N) cs (False, [])) = snd (run_calls (?g M) cs (False, []))"
    by (rule run_calls_simulation [where R = "\<lambda>a b. snd a = snd b" and P = retain_total])
      (use assms(1) sl_do_storage in \<open>auto simp: list_all_iff\<close>)
  then show ?thesis unfolding run_calls_snd f_def by simp
qed

section \<open>Properties\<close>

lemma sv_calls_at:
  defines "f \<equiv> \<lambda>N c s. kept_on_panic s (sv_do N c s)" and "g \<equiv> \<lambda>N c a. kept_on_panic a (sl_do N c a)"
  shows "sv_at N (fst (run_calls (f N) cs (sv_new N))) (fst (run_calls (g N) cs (False, [])))
    \<and> snd (run_calls (f N) cs (sv_new N)) = snd (run_calls (g N) cs (False, []))"
proof (rule run_calls_simulation [where P = "\<lambda>_. True"])
  show "sv_at N (sv_new N) (False, [])" by (simp add: sv_new_def av_rep_new)
  show "sv_at N (fst (f N c s)) (fst (g N c a)) \<and> snd (f N c s) = snd (g N c a)" if "sv_at N s a" for c s a
  proof (cases a)
    case (Pair h xs)
    then show ?thesis
      using kept_on_panic_rel [OF sv_do_at [of N s h xs c], of s "(h, xs)"] that by (simp add: f_def g_def)
  qed
qed simp

text \<open>
  C36. A small vector is a list: every sequence of calls on a fresh one of inline size \<open>N\<close>, with
  closures for \<open>retain\<close> that change items and panic and any comparison for \<open>dedup\<close>, returns what the
  specification returns, with the same panics (so no call is undefined behaviour), and ends
  with its items, in the storage it says. And the storage does not show: when no closure
  panics, vectors of inline sizes \<open>N\<close> and \<open>M\<close>, one of which may be on the heap while the other is
  not, return the same, the messages of panics apart, and end with the same items.
\<close>

theorem sv_calls_refine_list:
  "let (s, outs) = run_calls (\<lambda>c s. kept_on_panic s (sv_do N c s)) cs (sv_new N);
       ((h, xs), outs') = run_calls (\<lambda>c a. kept_on_panic a (sl_do N c a)) cs (False, []);
       (t, outs'') = run_calls (\<lambda>c s. kept_on_panic s (sv_do M c s)) cs (sv_new M)
   in outs = outs' \<and> sv_as_slice s = Ret xs \<and> sv_spilled s = h
     \<and> (list_all retain_total cs \<longrightarrow> map erase outs'' = map erase outs \<and> sv_as_slice t = Ret xs)"
proof -
  let ?g = "\<lambda>N. run_calls (\<lambda>c a. kept_on_panic a (sl_do N c a)) cs (False, [])"
  obtain s outs where s: "run_calls (\<lambda>c s. kept_on_panic s (sv_do N c s)) cs (sv_new N) = (s, outs)" by fastforce
  obtain t outs'' where t: "run_calls (\<lambda>c s. kept_on_panic s (sv_do M c s)) cs (sv_new M) = (t, outs'')" by fastforce
  obtain h xs outs' where n: "?g N = ((h, xs), outs')" by (metis surj_pair)
  obtain g ys outs2 where m: "?g M = ((g, ys), outs2)" by (metis surj_pair)
  have S: "sv_rep N s xs" "sv_spilled s = h" "outs = outs'" and T: "sv_rep M t ys" "outs2 = outs''"
    using sv_calls_at [of N cs] sv_calls_at [of M cs] unfolding s n t m by (auto simp: sv_at_iff)
  have "ys = xs \<and> map erase outs'' = map erase outs'" if "list_all retain_total cs"
    using sl_runs_storage [OF that, of M N] T(2) unfolding n m by simp
  then show ?thesis
    unfolding s n t using S sv_as_slice_rep [OF S(1)] sv_as_slice_rep [OF T(1)] by auto
qed

text \<open>
  Three items: inline in a vector of size 4, on the heap in one of size 2. The closure of \<open>retain\<close>
  counts the items, adds its count to them and keeps the even ones; the removal that follows is out
  of bounds.
\<close>

theorem sv_calls_refine_list_witness:
  "let cs = [SvPush (1::nat), SvPush 1, SvPush 2, SvDedup (=), SvPush 5,
         SvRetain (\<lambda>n x. Some (Suc n, x + n, even (x + n))) (1::nat), SvRemove 7];
       a = run_calls (\<lambda>c s. kept_on_panic s (sv_do 4 c s)) cs (sv_new 4);
       b = run_calls (\<lambda>c s. kept_on_panic s (sv_do 2 c s)) cs (sv_new 2)
   in sv_as_slice (fst a) = Ret [2, 4, 8] \<and> \<not> sv_spilled (fst a) \<and> sv_spilled (fst b)
     \<and> map erase (snd b) = map erase (snd a) \<and> sv_as_slice (fst b) = sv_as_slice (fst a)"
proof -
  define cs where "cs = [SvPush (1::nat), SvPush 1, SvPush 2, SvDedup (=), SvPush 5,
         SvRetain (\<lambda>n x. Some (Suc n, x + n, even (x + n))) (1::nat), SvRemove 7]"
  define a where "a = run_calls (\<lambda>c s. kept_on_panic s (sv_do 4 c s)) cs (sv_new 4)"
  define b where "b = run_calls (\<lambda>c s. kept_on_panic s (sv_do 2 c s)) cs (sv_new 2)"
  have "fst (run_calls (\<lambda>c x. kept_on_panic x (sl_do 4 c x)) cs (False, [])) = (False, [2, 4, 8])"
    "fst (run_calls (\<lambda>c x. kept_on_panic x (sl_do 2 c x)) cs (False, [])) = (True, [2, 4, 8])"
    unfolding cs_def by code_simp+
  moreover have "list_all retain_total cs" by (simp add: cs_def)
  ultimately have "sv_as_slice (fst a) = Ret [2, 4, 8] \<and> \<not> sv_spilled (fst a) \<and> sv_spilled (fst b)
      \<and> map erase (snd b) = map erase (snd a) \<and> sv_as_slice (fst b) = sv_as_slice (fst a)"
    using sv_calls_refine_list [of 4 cs 2] sv_calls_refine_list [of 2 cs 4]
    unfolding a_def [symmetric] b_def [symmetric] by (simp add: Let_def split_beta)
  then show ?thesis
    unfolding Let_def cs_def [symmetric] a_def [symmetric] b_def [symmetric] .
qed

text \<open>
  The in-place \<open>dedup\<close> keeps the first of each run of equal neighbours, as the list
  function does, whether the items are inline or on the heap.
\<close>

theorem sv_dedup_keeps_first:
  "case sv_from_vec N capacity xs of
     Ret s \<Rightarrow> (\<exists>s'. sv_dedup eq s = Ret s' \<and> sv_as_slice s' = Ret (dedup_list eq xs))
       \<and> (\<exists>s'. sv_dedup (=) s = Ret s' \<and> sv_as_slice s' = Ret (remdups_adj xs))
   | _ \<Rightarrow> False"
proof -
  obtain s where s: "sv_from_vec N capacity xs = Ret s" "sv_rep N s xs"
    using sv_from_vec_rep by blast
  show ?thesis
    using sv_dedup_rep [OF s(2), of eq] sv_dedup_rep [OF s(2), of "(=)"] s(1) sv_as_slice_rep
    by (fastforce simp: dedup_list_remdups_adj)
qed

text \<open>Calls on the two ends of a consuming iterator.\<close>

fun si_call :: "bool \<Rightarrow> 'a sv_iter \<Rightarrow> 'a sv_iter \<times> 'a option run" where
  "si_call back t = kept_on_panic t (if back then sv_next_back t else sv_next t)"

lemma si_call_rep:
  assumes "si_rep t xs"
  shows "si_rep (fst (si_call b t)) (fst (ends_call b xs))
    \<and> snd (si_call b t) = snd (ends_call b xs)"
proof (cases t)
  case (ItInline u)
  then show ?thesis
    using assms it_next_rep [of u xs] it_next_back_rep [of u xs]
    by (cases "(b, xs)" rule: ends_call.cases)
      (auto simp: kept_on_panic_def run_simps rel_prod_sel sv_next_def sv_next_back_def)
next
  case (ItHeap v)
  then show ?thesis using assms
    by (cases "(b, xs)" rule: ends_call.cases)
      (auto simp: kept_on_panic_def sv_next_def sv_next_back_def vec_pop_def)
qed

text \<open>
  Two small vectors made from vectors, of any inline sizes and capacities, compare as
  their items do: equality is that of the lists and the order is lexicographic; and each is
  iterated from both ends in the order of its items.
\<close>

theorem sv_compare_and_iterate:
  "case (sv_from_vec N capacity xs, sv_from_vec M capacity' ys) of
     (Ret s, Ret t) \<Rightarrow>
       sv_eq (=) s t = Ret (xs = ys) \<and> sv_partial_cmp cmp s t = Ret (slice_cmp cmp xs ys)
       \<and> snd (run_calls si_call ds (sv_into_iter s)) = snd (run_calls ends_call ds xs)
   | _ \<Rightarrow> False"
proof -
  obtain s t where s: "sv_from_vec N capacity xs = Ret s" "sv_rep N s xs"
    and t: "sv_from_vec M capacity' ys = Ret t" "sv_rep M t ys"
    using sv_from_vec_rep by metis
  have "si_rep (sv_into_iter s) xs"
    using s(2) by (cases s) (auto simp: sv_into_iter_def av_into_iter_rep)
  then have "snd (run_calls si_call ds (sv_into_iter s)) = snd (run_calls ends_call ds xs)"
    using run_calls_simulation [of si_rep "\<lambda>_. True" si_call ends_call "sv_into_iter s" xs ds]
      si_call_rep by blast
  then show ?thesis
    using s(1) t(1) sv_as_slice_rep [OF s(2)] sv_as_slice_rep [OF t(2)]
    by (simp add: sv_eq_def sv_partial_cmp_def list.rel_eq)
qed

end
