(* ===== verification/SlotMap.thy ===== *)
theory SlotMap
  imports Prelude
begin

text \<open>
  The generational maps of \<open>src/collections/slot_map.rs\<close>. A key is an index and an odd
  version; a slot's version is odd exactly while it is occupied, so a key of a removed value
  no longer matches. The vacant slots form a linked list through their \<open>Vacant\<close> index, which
  ends at the length of the slot vector. \<open>SecondaryMap\<close> attaches values to the keys of
  another map.
\<close>

section \<open>Keys\<close>

datatype key_data = KeyData (kd_idx: u32) (kd_version: u32)

definition kd_new :: "u32 \<Rightarrow> u32 \<Rightarrow> key_data" where
  "kd_new idx version = KeyData idx (version OR 1)"

definition kd_as_ffi :: "key_data \<Rightarrow> u64" where
  "kd_as_ffi k = push_bit 32 (ucast (kd_version k)) OR ucast (kd_idx k)"

definition kd_from_ffi :: "u64 \<Rightarrow> key_data" where
  "kd_from_ffi value = kd_new (ucast (value AND 0xffffffff)) (ucast (drop_bit 32 value))"

definition kd_is_null :: "key_data \<Rightarrow> bool" where
  "kd_is_null k \<longleftrightarrow> kd_idx k = 0xffffffff"

definition kd_default :: key_data where
  "kd_default = kd_new 0xffffffff 1"

text \<open>The derived order: by index, then by version.\<close>

instantiation key_data :: linorder
begin

definition less_eq_key_data :: "key_data \<Rightarrow> key_data \<Rightarrow> bool" where
  "less_eq_key_data k l \<longleftrightarrow>
     kd_idx k < kd_idx l \<or> kd_idx k = kd_idx l \<and> kd_version k \<le> kd_version l"

definition less_key_data :: "key_data \<Rightarrow> key_data \<Rightarrow> bool" where
  "less_key_data k l \<longleftrightarrow>
     kd_idx k < kd_idx l \<or> kd_idx k = kd_idx l \<and> kd_version k < kd_version l"

instance
  by standard
    (auto simp: less_eq_key_data_def less_key_data_def key_data.expand not_less not_le
      intro: order.trans order.strict_trans)

end

lemma kd_ffi_bits:
  "bit (kd_as_ffi k) n \<longleftrightarrow>
     (n < 32 \<and> bit (kd_idx k) n) \<or> (32 \<le> n \<and> n < 64 \<and> bit (kd_version k) (n - 32))"
  by (auto simp: kd_as_ffi_def bit_simps dest: bit_imp_le_length)

section \<open>The slot map\<close>

datatype 'v slot_state = Occupied 'v | Vacant u32

record 'v sm_slot =
  sl_version :: u32
  sl_state :: "'v slot_state"

record 'v slot_map =
  sm_slots :: "'v sm_slot list"
  sm_free_head :: u32
  sm_len :: nat

definition sm_with_capacity :: "nat \<Rightarrow> 'v slot_map run" where
  "sm_with_capacity capacity =
     (case checked_add capacity 1 of
        None \<Rightarrow> Panic ''attempt to add with overflow''
      | Some n \<Rightarrow> Ret \<lparr>sm_slots = [\<lparr>sl_version = 0, sl_state = Vacant 0\<rparr>],
                      sm_free_head = 1, sm_len = 0\<rparr>)"

definition sm_is_empty :: "'v slot_map \<Rightarrow> bool" where
  "sm_is_empty m \<longleftrightarrow> sm_len m = 0"

text \<open>\<open>slots.get(index)\<close>.\<close>

definition sm_slot_at :: "'v slot_map \<Rightarrow> nat \<Rightarrow> 'v sm_slot option" where
  "sm_slot_at m i = (if i < length (sm_slots m) then Some (sm_slots m ! i) else None)"

definition sm_insert :: "'v \<Rightarrow> 'v slot_map \<Rightarrow> 'v slot_map \<times> key_data run" where
  "sm_insert value m0 =
     (let m = m0\<lparr>sm_len := sm_len m0 + 1\<rparr>;
          index = sm_free_head m
      in case sm_slot_at m (unat index) of
           Some slot \<Rightarrow>
             (let version = sl_version slot OR 1
              in (m\<lparr>sm_slots := (sm_slots m)[unat index :=
                      \<lparr>sl_version = version, sl_state = Occupied value\<rparr>],
                    sm_free_head := (case sl_state slot of Vacant next \<Rightarrow> next
                                     | Occupied _ \<Rightarrow> index)\<rparr>,
                  Ret (kd_new index version)))
         | None \<Rightarrow>
             (let n = length (sm_slots m)
              in if n < 0xffffffff
                 then (m\<lparr>sm_slots := sm_slots m @ [\<lparr>sl_version = 1, sl_state = Occupied value\<rparr>],
                         sm_free_head := of_nat n + 1\<rparr>,
                       Ret (kd_new (of_nat n) 1))
                 else (m, Panic ''SlotMap is full'')))"

definition sm_remove :: "key_data \<Rightarrow> 'v slot_map \<Rightarrow> 'v slot_map \<times> 'v option run" where
  "sm_remove key m =
     (case sm_slot_at m (unat (kd_idx key)) of
        None \<Rightarrow> (m, Ret None)
      | Some slot \<Rightarrow>
          if sl_version slot \<noteq> kd_version key then (m, Ret None)
          else
            (let m' = m\<lparr>sm_slots := (sm_slots m)[unat (kd_idx key) :=
                          \<lparr>sl_version = sl_version slot + 1, sl_state = Vacant (sm_free_head m)\<rparr>],
                        sm_free_head := kd_idx key\<rparr>
             in if sm_len m = 0 then (m', Panic ''attempt to subtract with overflow'')
                else (m'\<lparr>sm_len := sm_len m - 1\<rparr>,
                      Ret (case sl_state slot of Occupied v \<Rightarrow> Some v | Vacant _ \<Rightarrow> None))))"

text \<open>The loop of \<open>clear\<close> from \<open>index\<close>, \<open>n\<close> iterations to go.\<close>

fun sm_clear_from :: "nat \<Rightarrow> nat \<Rightarrow> 'v slot_map \<Rightarrow> 'v slot_map" where
  "sm_clear_from index 0 m = m"
| "sm_clear_from index (Suc n) m =
     sm_clear_from (Suc index) n
       (case sl_state (sm_slots m ! index) of
          Occupied _ \<Rightarrow>
            m\<lparr>sm_slots := (sm_slots m)[index :=
                 \<lparr>sl_version = sl_version (sm_slots m ! index) + 1,
                  sl_state = Vacant (sm_free_head m)\<rparr>],
              sm_free_head := (if index < 2 ^ 32 then of_nat index else 0xffffffff)\<rparr>
        | Vacant _ \<Rightarrow> m)"

definition sm_clear :: "'v slot_map \<Rightarrow> 'v slot_map" where
  "sm_clear m = (sm_clear_from 1 (length (sm_slots m) - 1) m)\<lparr>sm_len := 0\<rparr>"

definition sm_get :: "'v slot_map \<Rightarrow> key_data \<Rightarrow> 'v option" where
  "sm_get m key =
     (case sm_slot_at m (unat (kd_idx key)) of
        Some slot \<Rightarrow>
          (case sl_state slot of
             Occupied v \<Rightarrow> if sl_version slot = kd_version key then Some v else None
           | Vacant _ \<Rightarrow> None)
      | None \<Rightarrow> None)"

text \<open>Writing through the reference that \<open>get_mut\<close> returns.\<close>

definition sm_get_mut :: "key_data \<Rightarrow> ('v \<Rightarrow> 'v) \<Rightarrow> 'v slot_map \<Rightarrow> 'v slot_map \<times> bool" where
  "sm_get_mut key f m =
     (case sm_get m key of
        Some v \<Rightarrow> (m\<lparr>sm_slots := (sm_slots m)[unat (kd_idx key) :=
                      (sm_slots m ! unat (kd_idx key))\<lparr>sl_state := Occupied (f v)\<rparr>]\<rparr>, True)
      | None \<Rightarrow> (m, False))"

definition sm_index :: "'v slot_map \<Rightarrow> key_data \<Rightarrow> 'v run" where
  "sm_index m key = (case sm_get m key of Some v \<Rightarrow> Ret v
     | None \<Rightarrow> Panic ''invalid SlotMap key used'')"

definition sm_keys :: "'v slot_map \<Rightarrow> key_data list" where
  "sm_keys m = List.map_filter
     (\<lambda>(index, slot). case sl_state slot of
        Occupied _ \<Rightarrow> if index < 2 ^ 32 then Some (kd_new (of_nat index) (sl_version slot)) else None
      | Vacant _ \<Rightarrow> None)
     (zip [0 ..< length (sm_slots m)] (sm_slots m))"

definition sm_values :: "'v slot_map \<Rightarrow> 'v list" where
  "sm_values m = List.map_filter
     (\<lambda>slot. case sl_state slot of Occupied v \<Rightarrow> Some v | Vacant _ \<Rightarrow> None) (sm_slots m)"

section \<open>The secondary map\<close>

type_synonym 'v secondary_map = "(u32 \<times> 'v) option list"

definition sec_new :: "'v secondary_map" where
  "sec_new = []"

definition sec_insert :: "key_data \<Rightarrow> 'v \<Rightarrow> 'v secondary_map \<Rightarrow> 'v secondary_map \<times> 'v option" where
  "sec_insert key value m =
     (if kd_is_null key then (m, None)
      else
        let index = unat (kd_idx key);
            m = (if length m \<le> index then m @ replicate (index + 1 - length m) None else m)
        in case m ! index of
             Some (version, old) \<Rightarrow>
               if version = kd_version key then (m[index := Some (version, value)], Some old)
               else if kd_version key - version \<ge> 2 ^ 31 then (m, None)
               else (m[index := Some (kd_version key, value)], None)
           | None \<Rightarrow> (m[index := Some (kd_version key, value)], None))"

definition sec_get :: "'v secondary_map \<Rightarrow> key_data \<Rightarrow> 'v option" where
  "sec_get m key =
     (if unat (kd_idx key) < length m
      then (case m ! unat (kd_idx key) of
              Some (version, v) \<Rightarrow> if version = kd_version key then Some v else None
            | None \<Rightarrow> None)
      else None)"

definition sec_remove :: "key_data \<Rightarrow> 'v secondary_map \<Rightarrow> 'v secondary_map \<times> 'v option" where
  "sec_remove key m =
     (if unat (kd_idx key) < length m
      then (case m ! unat (kd_idx key) of
              Some (version, v) \<Rightarrow>
                if version \<noteq> kd_version key then (m, None)
                else (m[unat (kd_idx key) := None], Some v)
            | None \<Rightarrow> (m, None))
      else (m, None))"

definition sec_get_mut :: "key_data \<Rightarrow> ('v \<Rightarrow> 'v) \<Rightarrow> 'v secondary_map \<Rightarrow> 'v secondary_map \<times> bool" where
  "sec_get_mut key f m =
     (case sec_get m key of
        Some v \<Rightarrow> (m[unat (kd_idx key) := Some (kd_version key, f v)], True)
      | None \<Rightarrow> (m, False))"

text \<open>
  \<open>get_disjoint_mut\<close>: the check, then the places (slot indices) of the references. A place
  outside the slots would be \<open>UB\<close>, an empty one is the \<open>unreachable!\<close>.
\<close>

fun sec_check :: "key_data list \<Rightarrow> key_data list \<Rightarrow> 'v secondary_map \<Rightarrow> bool" where
  "sec_check seen [] m = True"
| "sec_check seen (key # keys) m =
     (if sec_get m key = None \<or> kd_idx key \<in> set (map kd_idx seen) then False
      else sec_check (seen @ [key]) keys m)"

fun sec_places :: "key_data list \<Rightarrow> 'v secondary_map \<Rightarrow> nat list run" where
  "sec_places [] m = Ret []"
| "sec_places (key # keys) m =
     (let i = unat (kd_idx key)
      in if length m \<le> i then UB
         else if m ! i = None then Panic ''unreachable''
         else run_map ((#) i) (sec_places keys m))"

definition sec_get_disjoint_mut :: "key_data list \<Rightarrow> 'v secondary_map \<Rightarrow> nat list option run" where
  "sec_get_disjoint_mut keys m =
     (if sec_check [] keys m then run_map Some (sec_places keys m) else Ret None)"

section \<open>The invariant\<close>

definition occupied :: "'v sm_slot \<Rightarrow> bool" where
  "occupied s \<longleftrightarrow> (case sl_state s of Occupied _ \<Rightarrow> True | Vacant _ \<Rightarrow> False)"

lemma occupied_simps [simp]:
  "occupied \<lparr>sl_version = v, sl_state = Occupied x\<rparr>"
  "\<not> occupied \<lparr>sl_version = v, sl_state = Vacant n\<rparr>"
  by (simp_all add: occupied_def)

text \<open>The free list from \<open>h\<close>: the slots it visits, until the length of the vector.\<close>

fun free_chain :: "'v sm_slot list \<Rightarrow> u32 \<Rightarrow> nat list \<Rightarrow> bool" where
  "free_chain sl h [] \<longleftrightarrow> unat h = length sl"
| "free_chain sl h (i # is) \<longleftrightarrow>
     i = unat h \<and> i < length sl \<and> (\<exists>n. sl_state (sl ! i) = Vacant n \<and> free_chain sl n is)"

definition slots_ok :: "'v sm_slot list \<Rightarrow> u32 \<Rightarrow> bool" where
  "slots_ok sl h \<longleftrightarrow>
     0 < length sl \<and> length sl < 2 ^ 32
     \<and> \<not> occupied (sl ! 0) \<and> sl_version (sl ! 0) = 0
     \<and> (\<forall>i < length sl. occupied (sl ! i) \<longleftrightarrow> odd (sl_version (sl ! i)))
     \<and> (\<exists>is. free_chain sl h is \<and> distinct is
          \<and> set is = {i. 0 < i \<and> i < length sl \<and> \<not> occupied (sl ! i)})"

lemma slots_okI:
  assumes "0 < length sl" "length sl < 2 ^ 32" "\<not> occupied (sl ! 0)" "sl_version (sl ! 0) = 0"
    and "\<And>i. i < length sl \<Longrightarrow> occupied (sl ! i) \<longleftrightarrow> odd (sl_version (sl ! i))"
    and "free_chain sl h fs" "distinct fs"
    and "set fs = {i. 0 < i \<and> i < length sl \<and> \<not> occupied (sl ! i)}"
  shows "slots_ok sl h"
  using assms unfolding slots_ok_def by blast

definition sm_inv :: "'v slot_map \<Rightarrow> bool" where
  "sm_inv m \<longleftrightarrow> slots_ok (sm_slots m) (sm_free_head m)
     \<and> sm_len m = length (filter occupied (sm_slots m))"

lemma free_chain_update:
  "j \<notin> set is \<Longrightarrow> free_chain (sl[j := x]) h is = free_chain sl h is"
  by (induction sl h "is" rule: free_chain.induct) auto

lemma unat_of_nat_u32: "n < 2 ^ 32 \<Longrightarrow> unat (of_nat n :: u32) = n"
  by (simp only: unat_of_nat) (simp add: take_bit_nat_eq_self)

lemma odd_or_one: "odd (v OR 1 :: u32)"
  by (simp add: even_or_iff)

lemma even_or_one: "even v \<Longrightarrow> (v OR 1 :: u32) = v + 1"
  by (simp add: or_one_eq)

text \<open>Emptying the slot \<open>i\<close>: what \<open>remove\<close> and an iteration of \<open>clear\<close> do.\<close>

definition vacate :: "nat \<Rightarrow> 'v sm_slot list \<Rightarrow> u32 \<Rightarrow> 'v sm_slot list" where
  "vacate i sl h = sl[i := \<lparr>sl_version = sl_version (sl ! i) + 1, sl_state = Vacant h\<rparr>]"

lemma slots_ok_vacate:
  assumes ok: "slots_ok sl h" and i: "i < length sl" "occupied (sl ! i)"
  shows "slots_ok (vacate i sl h) (of_nat i)"
proof -
  obtain fs where fs: "free_chain sl h fs" "distinct fs"
      "set fs = {i. 0 < i \<and> i < length sl \<and> \<not> occupied (sl ! i)}"
    using ok by (auto simp: slots_ok_def)
  have len: "length sl < 2 ^ 32" and z: "\<not> occupied (sl ! 0)" "sl_version (sl ! 0) = 0"
    and par: "\<forall>j < length sl. occupied (sl ! j) \<longleftrightarrow> odd (sl_version (sl ! j))"
    using ok by (auto simp: slots_ok_def)
  have i0: "0 < i" using i z by (cases i) auto
  have u: "unat (of_nat i :: u32) = i" using i len by (intro unat_of_nat_u32) simp
  have fresh: "i \<notin> set fs" using fs(3) i by simp
  show ?thesis
  proof (rule slots_okI)
    show "free_chain (vacate i sl h) (of_nat i) (i # fs)"
      using fs(1) u i fresh by (simp add: vacate_def free_chain_update)
    show "distinct (i # fs)" using fs(2) fresh by simp
    show "set (i # fs)
      = {j. 0 < j \<and> j < length (vacate i sl h) \<and> \<not> occupied (vacate i sl h ! j)}"
      using fs(3) i i0 by (auto simp: vacate_def nth_list_update)
    show "occupied (vacate i sl h ! j) \<longleftrightarrow> odd (sl_version (vacate i sl h ! j))"
      if "j < length (vacate i sl h)" for j
      using par i that by (auto simp: vacate_def nth_list_update)
    show "0 < length (vacate i sl h)" using i by (auto simp: vacate_def)
  qed (use i0 len z in \<open>simp_all add: vacate_def\<close>)
qed

lemma filter_update:
  "i < length xs \<Longrightarrow> length (filter p (xs[i := x])) + (if p (xs ! i) then 1 else 0)
     = length (filter p xs) + (if p x then 1 else 0)"
proof (induction xs arbitrary: i)
  case (Cons y ys)
  then show ?case by (cases i) auto
qed simp

text \<open>Filling a vacant slot, and appending one.\<close>

lemma slots_ok_fill:
  assumes ok: "slots_ok sl h" and h: "unat h < length sl"
  obtains nx where "sl_state (sl ! unat h) = Vacant nx" "even (sl_version (sl ! unat h))"
    "slots_ok (sl[unat h := \<lparr>sl_version = sl_version (sl ! unat h) OR 1, sl_state = Occupied x\<rparr>]) nx"
    "0 < unat h"
proof -
  let ?i = "unat h"
  obtain fs where fs: "free_chain sl h fs" "distinct fs"
      "set fs = {i. 0 < i \<and> i < length sl \<and> \<not> occupied (sl ! i)}"
    using ok by (auto simp: slots_ok_def)
  obtain rest where rest: "fs = ?i # rest" using fs(1) h by (cases fs) auto
  then obtain n where n: "sl_state (sl ! ?i) = Vacant n" "free_chain sl n rest" using fs(1) by auto
  have i0: "0 < ?i" using fs(3) rest by auto
  have vac: "\<not> occupied (sl ! ?i)" using n by (simp add: occupied_def)
  then have ev: "even (sl_version (sl ! ?i))" using ok h by (auto simp: slots_ok_def)
  let ?sl = "sl[?i := \<lparr>sl_version = sl_version (sl ! ?i) OR 1, sl_state = Occupied x\<rparr>]"
  have "slots_ok ?sl n"
  proof (rule slots_okI)
    show "free_chain ?sl n rest" using n(2) fs(2) rest by (simp add: free_chain_update)
    show "distinct rest" using fs(2) rest by simp
    show "set rest = {i. 0 < i \<and> i < length ?sl \<and> \<not> occupied (?sl ! i)}"
    proof -
      have "set rest = set fs - {?i}" using fs(2) rest by auto
      then show ?thesis unfolding fs(3) using h by (auto simp: nth_list_update split: if_splits)
    qed
    show "occupied (?sl ! j) \<longleftrightarrow> odd (sl_version (?sl ! j))" if "j < length ?sl" for j
      using ok that h odd_or_one by (simp add: slots_ok_def nth_list_update)
    show "0 < length ?sl" "length ?sl < 2 ^ 32" using ok by (simp_all add: slots_ok_def)
    show "\<not> occupied (?sl ! 0)" "sl_version (?sl ! 0) = 0"
      using ok i0 by (simp_all add: slots_ok_def)
  qed
  then show ?thesis using that n(1) ev i0 by blast
qed

lemma slots_ok_push:
  assumes ok: "slots_ok sl h" and h: "\<not> unat h < length sl" and n: "length sl < 0xffffffff"
  shows "slots_ok (sl @ [\<lparr>sl_version = 1, sl_state = Occupied x\<rparr>]) (of_nat (length sl) + 1)"
    and "\<forall>i. 0 < i \<and> i < length sl \<longrightarrow> occupied (sl ! i)"
proof -
  obtain fs where fs: "free_chain sl h fs"
      "set fs = {i. 0 < i \<and> i < length sl \<and> \<not> occupied (sl ! i)}"
    using ok by (auto simp: slots_ok_def)
  have nil: "fs = []" using fs(1) h by (cases fs) auto
  then show all: "\<forall>i. 0 < i \<and> i < length sl \<longrightarrow> occupied (sl ! i)" using fs(2) by auto
  have u: "unat (of_nat (length sl) + 1 :: u32) = Suc (length sl)"
    using unat_of_nat_u32 [of "Suc (length sl)"] n by (simp add: add.commute)
  let ?sl = "sl @ [\<lparr>sl_version = 1, sl_state = Occupied x\<rparr>]"
  show "slots_ok ?sl (of_nat (length sl) + 1)"
  proof (rule slots_okI)
    show "free_chain ?sl (of_nat (length sl) + 1) []" using u by simp
    show "distinct ([] :: nat list)" by simp
    show "set [] = {i. 0 < i \<and> i < length ?sl \<and> \<not> occupied (?sl ! i)}"
      using all by (auto simp: nth_append)
    show "occupied (?sl ! i) \<longleftrightarrow> odd (sl_version (?sl ! i))" if "i < length ?sl" for i
      using ok that by (auto simp: nth_append slots_ok_def)
    show "\<not> occupied (?sl ! 0)" "sl_version (?sl ! 0) = 0"
      using ok by (simp_all add: slots_ok_def nth_append)
  qed (use n in simp_all)
qed

section \<open>The operations on the map of keys\<close>

text \<open>Every key the source can make has an odd version.\<close>

definition kd_ok :: "key_data \<Rightarrow> bool" where
  "kd_ok k \<longleftrightarrow> odd (kd_version k)"

lemma kd_ok_new [simp]: "kd_ok (kd_new i v)"
  by (simp add: kd_ok_def kd_new_def odd_or_one)

text \<open>\<open>get\<close> as a function of the slots.\<close>

definition slots_get :: "'v sm_slot list \<Rightarrow> key_data \<Rightarrow> 'v option" where
  "slots_get sl k = (if unat (kd_idx k) < length sl
     then (case sl_state (sl ! unat (kd_idx k)) of
             Occupied v \<Rightarrow> if sl_version (sl ! unat (kd_idx k)) = kd_version k then Some v else None
           | Vacant _ \<Rightarrow> None)
     else None)"

lemma sm_get_slots: "sm_get m = slots_get (sm_slots m)"
  by (simp add: fun_eq_iff sm_get_def slots_get_def sm_slot_at_def)

lemma kd_eqI: "unat (kd_idx k) = unat (kd_idx l) \<Longrightarrow> kd_version k = kd_version l \<Longrightarrow> k = l"
  by (cases k; cases l) (simp add: word_unat_eq_iff)

lemma slots_get_Some_iff:
  "slots_get sl k = Some v \<longleftrightarrow> unat (kd_idx k) < length sl
     \<and> sl ! unat (kd_idx k) = \<lparr>sl_version = kd_version k, sl_state = Occupied v\<rparr>"
  by (cases "sl ! unat (kd_idx k)") (auto simp: slots_get_def split: slot_state.split)

lemma slots_get_vacant:
  "\<not> occupied (sl ! unat (kd_idx k)) \<Longrightarrow> slots_get sl k = None"
  by (auto simp: slots_get_def occupied_def split: slot_state.splits)

lemma slots_get_other:
  "unat (kd_idx k) \<noteq> i \<Longrightarrow> slots_get (sl[i := x]) k = slots_get sl k"
  by (simp add: slots_get_def split: slot_state.split)

lemma slots_get_fill:
  assumes i: "unat (kd_idx K) < length sl" and vac: "\<not> occupied (sl ! unat (kd_idx K))"
  shows "slots_get (sl[unat (kd_idx K) := \<lparr>sl_version = kd_version K, sl_state = Occupied v\<rparr>])
    = (slots_get sl)(K \<mapsto> v)" (is "slots_get ?sl = _")
proof
  fix k
  show "slots_get ?sl k = ((slots_get sl)(K \<mapsto> v)) k"
  proof (cases "unat (kd_idx k) = unat (kd_idx K)")
    case True
    have "slots_get sl k = None" using vac True by (intro slots_get_vacant) simp
    moreover have "slots_get ?sl k = (if kd_version K = kd_version k then Some v else None)"
      using True i by (simp add: slots_get_def)
    ultimately show ?thesis using kd_eqI [OF True] by auto
  next
    case False
    then have "k \<noteq> K" by auto
    then show ?thesis using slots_get_other [OF False] by simp
  qed
qed

lemma slots_get_append:
  assumes i: "unat (kd_idx K) = length sl"
  shows "slots_get (sl @ [\<lparr>sl_version = kd_version K, sl_state = Occupied v\<rparr>])
    = (slots_get sl)(K \<mapsto> v)" (is "slots_get ?sl = _")
proof
  fix k
  show "slots_get ?sl k = ((slots_get sl)(K \<mapsto> v)) k"
  proof (cases "unat (kd_idx k) = unat (kd_idx K)")
    case True
    then have "slots_get sl k = None" using i by (simp add: slots_get_def)
    moreover have "slots_get ?sl k = (if kd_version K = kd_version k then Some v else None)"
      using True i by (simp add: slots_get_def)
    ultimately show ?thesis using kd_eqI [OF True] by auto
  next
    case False
    then have "k \<noteq> K" by auto
    then show ?thesis using False i by (auto simp: slots_get_def nth_append split: slot_state.split)
  qed
qed

lemma slots_get_vacate:
  assumes i: "unat (kd_idx K) < length sl" and v: "sl_version (sl ! unat (kd_idx K)) = kd_version K"
  shows "slots_get (vacate (unat (kd_idx K)) sl h) = (slots_get sl)(K := None)"
    (is "slots_get ?sl = _")
proof
  fix k
  show "slots_get ?sl k = ((slots_get sl)(K := None)) k"
  proof (cases "unat (kd_idx k) = unat (kd_idx K)")
    case True
    have "slots_get ?sl k = None" using True i by (simp add: slots_get_def vacate_def)
    moreover have "k \<noteq> K \<Longrightarrow> slots_get sl k = None"
      using True v kd_eqI [of k K] by (auto simp: slots_get_def split: slot_state.split)
    ultimately show ?thesis by simp
  next
    case False
    then have "k \<noteq> K" by auto
    then show ?thesis using slots_get_other [OF False] by (simp add: vacate_def)
  qed
qed

lemma sm_inv_new: "sm_with_capacity c = Ret m \<Longrightarrow> sm_inv m \<and> sm_get m = (\<lambda>_. None)"
  by (auto simp: sm_with_capacity_def sm_inv_def slots_ok_def sm_get_def sm_slot_at_def fun_eq_iff
      occupied_def split: option.splits intro!: exI [of _ "[]"])

definition sm_room :: "'v slot_map \<Rightarrow> bool" where
  "sm_room m \<longleftrightarrow> unat (sm_free_head m) < length (sm_slots m) \<or> length (sm_slots m) < 0xffffffff"

lemma sm_insert_reuse:
  assumes inv: "sm_inv m" and h: "unat (sm_free_head m) < length (sm_slots m)"
  shows "\<exists>m' k. sm_insert v m = (m', Ret k) \<and> sm_inv m' \<and> kd_ok k \<and> sm_get m k = None
    \<and> sm_get m' = (sm_get m)(k \<mapsto> v)"
proof -
  let ?i = "unat (sm_free_head m)" and ?sl = "sm_slots m"
  let ?ver = "sl_version (?sl ! ?i) OR 1"
  let ?k = "KeyData (sm_free_head m) ?ver"
  have ok: "slots_ok ?sl (sm_free_head m)" using inv by (simp add: sm_inv_def)
  obtain nx where nx: "sl_state (?sl ! ?i) = Vacant nx" "even (sl_version (?sl ! ?i))"
      "slots_ok (?sl[?i := \<lparr>sl_version = ?ver, sl_state = Occupied v\<rparr>]) nx"
    using slots_ok_fill [OF ok h, where x = v] by blast
  let ?m = "m\<lparr>sm_len := sm_len m + 1,
      sm_slots := ?sl[?i := \<lparr>sl_version = ?ver, sl_state = Occupied v\<rparr>], sm_free_head := nx\<rparr>"
  have vac: "\<not> occupied (?sl ! ?i)" using nx(1) by (simp add: occupied_def)
  have "sm_insert v m = (?m, Ret ?k)"
    using h nx(1) by (simp add: sm_insert_def sm_slot_at_def Let_def kd_new_def or.assoc)
  moreover have "sm_inv ?m"
    using inv nx(3) filter_update [OF h, of occupied "\<lparr>sl_version = ?ver, sl_state = Occupied v\<rparr>"] vac
    by (simp add: sm_inv_def)
  moreover have "sm_get m ?k = None"
    unfolding sm_get_slots using vac by (intro slots_get_vacant) simp
  moreover have "sm_get ?m = (sm_get m)(?k \<mapsto> v)"
    unfolding sm_get_slots using slots_get_fill [of ?k ?sl v] h vac by simp
  moreover have "kd_ok ?k" by (simp add: kd_ok_def odd_or_one)
  ultimately show ?thesis by auto
qed

lemma sm_insert_grow:
  assumes inv: "sm_inv m" and h: "\<not> unat (sm_free_head m) < length (sm_slots m)"
    and n: "length (sm_slots m) < 0xffffffff"
  shows "\<exists>m' k. sm_insert v m = (m', Ret k) \<and> sm_inv m' \<and> kd_ok k \<and> sm_get m k = None
    \<and> sm_get m' = (sm_get m)(k \<mapsto> v)"
proof -
  let ?n = "length (sm_slots m)"
  let ?k = "KeyData (of_nat ?n) 1"
  let ?m = "m\<lparr>sm_len := sm_len m + 1,
      sm_slots := sm_slots m @ [\<lparr>sl_version = 1, sl_state = Occupied v\<rparr>],
      sm_free_head := of_nat ?n + 1\<rparr>"
  have u: "unat (of_nat ?n :: u32) = ?n" using n by (intro unat_of_nat_u32) simp
  have ins: "sm_insert v m = (?m, Ret ?k)"
    using h n by (simp add: sm_insert_def sm_slot_at_def Let_def kd_new_def)
  have "slots_ok (sm_slots m) (sm_free_head m)" using inv by (simp add: sm_inv_def)
  then have inv': "sm_inv ?m" using inv slots_ok_push(1) [OF _ h n] by (simp add: sm_inv_def)
  have none: "sm_get m ?k = None" using u by (simp add: sm_get_slots slots_get_def)
  have "sm_get ?m = (sm_get m)(?k \<mapsto> v)"
    unfolding sm_get_slots using slots_get_append [of ?k "sm_slots m" v] u by simp
  then show ?thesis using ins inv' none by (auto simp: kd_ok_def)
qed

lemma sm_insert_room:
  assumes "sm_inv m" and "sm_room m"
  shows "\<exists>m' k. sm_insert v m = (m', Ret k) \<and> sm_inv m' \<and> kd_ok k \<and> sm_get m k = None
    \<and> sm_get m' = (sm_get m)(k \<mapsto> v)"
  using sm_insert_reuse [OF assms(1)] sm_insert_grow [OF assms(1)] assms(2)
  unfolding sm_room_def by blast

lemma sm_insert_full:
  "\<not> sm_room m \<Longrightarrow> sm_insert v m = (m\<lparr>sm_len := sm_len m + 1\<rparr>, Panic ''SlotMap is full'')"
  by (simp add: sm_room_def sm_insert_def sm_slot_at_def Let_def)

lemma sm_remove_spec:
  assumes inv: "sm_inv m" and k: "kd_ok k"
  shows "\<exists>m'. sm_remove k m = (m', Ret (sm_get m k)) \<and> sm_inv m' \<and> sm_get m' = (sm_get m)(k := None)"
proof (cases "sm_get m k")
  case None
  have "sm_remove k m = (m, Ret None)"
  proof (cases "unat (kd_idx k) < length (sm_slots m)
      \<and> sl_version (sm_slots m ! unat (kd_idx k)) = kd_version k")
    case True
    then have "occupied (sm_slots m ! unat (kd_idx k))"
      using inv k by (auto simp: sm_inv_def slots_ok_def kd_ok_def)
    then show ?thesis using None True
      by (auto simp: sm_get_def sm_slot_at_def occupied_def split: slot_state.splits)
  next
    case False
    then show ?thesis by (auto simp: sm_remove_def sm_slot_at_def)
  qed
  then show ?thesis using None inv by (simp add: fun_upd_idem)
next
  case (Some v)
  let ?i = "unat (kd_idx k)" and ?sl = "sm_slots m" and ?h = "sm_free_head m"
  have i: "?i < length ?sl" "?sl ! ?i = \<lparr>sl_version = kd_version k, sl_state = Occupied v\<rparr>"
    using Some by (simp_all add: sm_get_slots slots_get_Some_iff)
  then have occ: "occupied (?sl ! ?i)" by simp
  then have pos: "0 < sm_len m"
    using nth_mem [OF i(1)] inv by (auto simp: sm_inv_def filter_empty_conv)
  let ?m = "m\<lparr>sm_slots := vacate ?i ?sl ?h, sm_free_head := kd_idx k, sm_len := sm_len m - 1\<rparr>"
  have "sm_remove k m = (?m, Ret (Some v))"
    using i pos by (simp add: sm_remove_def sm_slot_at_def vacate_def)
  moreover have "slots_ok (vacate ?i ?sl ?h) (of_nat ?i)"
    using inv by (intro slots_ok_vacate [OF _ i(1) occ]) (simp add: sm_inv_def)
  then have "sm_inv ?m"
    using inv occ filter_update [OF i(1), of occupied "\<lparr>sl_version = kd_version k + 1, sl_state = Vacant ?h\<rparr>"] i
    by (simp add: sm_inv_def vacate_def)
  moreover have "sm_get ?m = (sm_get m)(k := None)"
    unfolding sm_get_slots using slots_get_vacate [OF i(1)] i(2) by simp
  ultimately show ?thesis using Some by auto
qed

lemma sm_clear_from_spec:
  assumes "slots_ok (sm_slots m) (sm_free_head m)" and "index + n = length (sm_slots m)"
  defines "m' \<equiv> sm_clear_from index n m"
  shows "slots_ok (sm_slots m') (sm_free_head m') \<and> length (sm_slots m') = length (sm_slots m)
    \<and> (\<forall>j. index \<le> j \<and> j < length (sm_slots m) \<longrightarrow> \<not> occupied (sm_slots m' ! j))
    \<and> (\<forall>j < index. sm_slots m' ! j = sm_slots m ! j)"
  using assms(1,2) unfolding m'_def
proof (induction n arbitrary: index m)
  case (Suc n)
  define m1 where "m1 = (case sl_state (sm_slots m ! index) of
      Occupied _ \<Rightarrow> m\<lparr>sm_slots := vacate index (sm_slots m) (sm_free_head m),
        sm_free_head := of_nat index\<rparr>
    | Vacant _ \<Rightarrow> m)"
  have i: "index < length (sm_slots m)" "index < 2 ^ 32"
    using Suc.prems by (auto simp: slots_ok_def)
  have step: "sm_clear_from index (Suc n) m = sm_clear_from (Suc index) n m1"
    using i by (simp add: m1_def vacate_def split: slot_state.split)
  have "slots_ok (sm_slots m1) (sm_free_head m1)"
    using Suc.prems(1) slots_ok_vacate [OF Suc.prems(1) i(1)]
    by (auto simp: m1_def occupied_def split: slot_state.split)
  moreover have len: "length (sm_slots m1) = length (sm_slots m)"
    by (simp add: m1_def vacate_def split: slot_state.split)
  moreover have "\<not> occupied (sm_slots m1 ! index)"
    using i by (simp add: m1_def vacate_def occupied_def split: slot_state.split)
  moreover have "\<forall>j < index. sm_slots m1 ! j = sm_slots m ! j"
    by (simp add: m1_def vacate_def split: slot_state.split)
  ultimately show ?case
    using Suc.IH [of m1 "Suc index"] Suc.prems(2) unfolding step
    by (metis Suc_leI add_Suc_shift le_neq_implies_less less_Suc_eq)
qed auto

lemma sm_clear_spec:
  assumes "sm_inv m"
  shows "sm_inv (sm_clear m) \<and> sm_get (sm_clear m) = (\<lambda>_. None)"
proof -
  let ?m = "sm_clear_from 1 (length (sm_slots m) - 1) m"
  have ok: "slots_ok (sm_slots m) (sm_free_head m)" "0 < length (sm_slots m)"
    "\<not> occupied (sm_slots m ! 0)"
    using assms by (auto simp: sm_inv_def slots_ok_def)
  then have c: "slots_ok (sm_slots ?m) (sm_free_head ?m)"
      "\<forall>j. 1 \<le> j \<and> j < length (sm_slots m) \<longrightarrow> \<not> occupied (sm_slots ?m ! j)"
      "sm_slots ?m ! 0 = sm_slots m ! 0" "length (sm_slots ?m) = length (sm_slots m)"
    using sm_clear_from_spec [OF ok(1), of 1 "length (sm_slots m) - 1"] by auto
  have none: "\<not> occupied (sm_slots ?m ! j)" if "j < length (sm_slots ?m)" for j
    using c(2-4) ok(3) that by (cases j) auto
  then have "filter occupied (sm_slots ?m) = []"
    by (auto simp: filter_empty_conv in_set_conv_nth)
  then have "sm_inv (sm_clear m)" using c(1) by (simp add: sm_clear_def sm_inv_def)
  moreover have "sm_get (sm_clear m) k = None" for k
    using none [of "unat (kd_idx k)"] slots_get_vacant [of "sm_slots ?m" k]
    by (cases "unat (kd_idx k) < length (sm_slots ?m)")
      (auto simp: sm_clear_def sm_get_slots slots_get_def)
  ultimately show ?thesis by auto
qed

section \<open>Iteration\<close>

definition occupied_indices :: "'v sm_slot list \<Rightarrow> nat list" where
  "occupied_indices sl = filter (\<lambda>i. occupied (sl ! i)) [0 ..< length sl]"

definition key_at :: "'v sm_slot list \<Rightarrow> nat \<Rightarrow> key_data" where
  "key_at sl i = KeyData (of_nat i) (sl_version (sl ! i))"

lemma zip_upt_nth: "zip [0 ..< length xs] xs = map (\<lambda>i. (i, xs ! i)) [0 ..< length xs]"
  by (rule nth_equalityI) simp_all

lemma map_filter_if:
  "(\<And>x. x \<in> set xs \<Longrightarrow> f x = (if P x then Some (g x) else None)) \<Longrightarrow>
     List.map_filter f xs = map g (filter P xs)"
  by (induction xs) (auto simp: List.map_filter_def)

lemma or_one_odd: "odd v \<Longrightarrow> (v OR 1 :: u32) = v"
  by (simp add: or_one_eq)

lemma sm_keys_indices:
  assumes "sm_inv m"
  shows "sm_keys m = map (key_at (sm_slots m)) (occupied_indices (sm_slots m))"
proof -
  let ?sl = "sm_slots m"
  let ?f = "\<lambda>i. case sl_state (?sl ! i) of
      Occupied _ \<Rightarrow> if i < 2 ^ 32 then Some (kd_new (of_nat i) (sl_version (?sl ! i))) else None
    | Vacant _ \<Rightarrow> None"
  have f: "?f i = (if occupied (?sl ! i) then Some (key_at ?sl i) else None)" if "i < length ?sl" for i
    using assms that
    by (auto simp: sm_inv_def slots_ok_def occupied_def key_at_def kd_new_def or_one_odd
        split: slot_state.splits)
  have "sm_keys m = List.map_filter ?f [0 ..< length ?sl]"
    unfolding sm_keys_def zip_upt_nth by (simp add: List.map_filter_def comp_def filter_map)
  also have "\<dots> = map (key_at ?sl) (occupied_indices ?sl)"
    unfolding occupied_indices_def by (rule map_filter_if) (simp add: f)
  finally show ?thesis .
qed

lemma key_at_get:
  assumes "sm_inv m" "i < length (sm_slots m)" "occupied (sm_slots m ! i)"
  shows "\<exists>v. sl_state (sm_slots m ! i) = Occupied v \<and> sm_get m (key_at (sm_slots m) i) = Some v"
proof -
  have "unat (of_nat i :: u32) = i"
    using assms(1,2) by (intro unat_of_nat_u32) (simp add: sm_inv_def slots_ok_def)
  then show ?thesis using assms(2,3)
    by (auto simp: sm_get_slots slots_get_def key_at_def occupied_def split: slot_state.splits)
qed

lemma sm_keys_spec:
  assumes "sm_inv m"
  shows "distinct (sm_keys m) \<and> set (sm_keys m) = dom (sm_get m) \<and> length (sm_keys m) = sm_len m
    \<and> sm_values m = map (the \<circ> sm_get m) (sm_keys m)"
proof -
  let ?sl = "sm_slots m" and ?is = "occupied_indices (sm_slots m)"
  have len: "length ?sl < 2 ^ 32" using assms by (simp add: sm_inv_def slots_ok_def)
  have u: "unat (kd_idx (key_at ?sl i)) = i" if "i < length ?sl" for i
    using that len unat_of_nat_u32 [of i] by (simp add: key_at_def)
  have keys: "sm_keys m = map (key_at ?sl) ?is" by (rule sm_keys_indices [OF assms])
  have "inj_on (key_at ?sl) (set ?is)"
    by (rule inj_onI) (metis (no_types, lifting) u atLeastLessThan_iff filter_is_subset
        occupied_indices_def set_upt subsetD)
  then have 1: "distinct (sm_keys m)" unfolding keys by (simp add: distinct_map occupied_indices_def)
  have "k \<in> set (sm_keys m) \<longleftrightarrow> sm_get m k \<noteq> None" for k
  proof
    assume "k \<in> set (sm_keys m)"
    then show "sm_get m k \<noteq> None"
      using key_at_get [OF assms] unfolding keys by (fastforce simp: occupied_indices_def)
  next
    assume "sm_get m k \<noteq> None"
    then obtain v where v: "unat (kd_idx k) < length ?sl"
        "?sl ! unat (kd_idx k) = \<lparr>sl_version = kd_version k, sl_state = Occupied v\<rparr>"
      by (auto simp: sm_get_slots slots_get_Some_iff)
    then have "key_at ?sl (unat (kd_idx k)) = k" by (cases k) (simp add: key_at_def)
    moreover have "unat (kd_idx k) \<in> set ?is" using v by (simp add: occupied_indices_def)
    ultimately show "k \<in> set (sm_keys m)" unfolding keys by force
  qed
  then have 2: "set (sm_keys m) = dom (sm_get m)" by auto
  have 3: "length (sm_keys m) = sm_len m"
  proof -
    have "filter occupied ?sl = map ((!) ?sl) ?is"
      unfolding occupied_indices_def
      by (subst (1) map_nth [symmetric]) (simp add: filter_map comp_def)
    then show ?thesis using assms unfolding keys sm_inv_def by (metis length_map)
  qed
  let ?g = "\<lambda>s. case sl_state s of Occupied v \<Rightarrow> Some v | Vacant _ \<Rightarrow> None"
  have "sm_values m = List.map_filter ?g (map ((!) ?sl) [0 ..< length ?sl])"
    by (simp add: sm_values_def map_nth)
  also have "\<dots> = List.map_filter (\<lambda>i. ?g (?sl ! i)) [0 ..< length ?sl]"
    by (simp add: List.map_filter_def comp_def filter_map)
  also have "\<dots> = map (\<lambda>i. the (?g (?sl ! i))) ?is"
    unfolding occupied_indices_def
    by (rule map_filter_if) (auto simp: occupied_def split: slot_state.split)
  also have "\<dots> = map (the \<circ> sm_get m) (sm_keys m)"
    unfolding keys using key_at_get [OF assms]
    by (fastforce simp: occupied_indices_def)
  finally show ?thesis using 1 2 3 by simp
qed

section \<open>Maps that choose their keys\<close>

text \<open>
  The contract of a generational map: an insertion below the limit returns a key that was
  free, a removal returns what the key was bound to. The client lemmas are about runs of
  insertions and of removals.
\<close>

locale key_map =
  fixes inv :: "'m \<Rightarrow> bool"
    and lookup :: "'m \<Rightarrow> 'k \<Rightarrow> 'v option"
    and count :: "'m \<Rightarrow> nat"
    and valid :: "'k \<Rightarrow> bool"
    and limit :: nat
    and ins :: "'v \<Rightarrow> 'm \<Rightarrow> 'm \<times> 'k run"
    and rem :: "'k \<Rightarrow> 'm \<Rightarrow> 'm \<times> 'v option run"
  assumes ins_law: "inv m \<Longrightarrow> count m < limit \<Longrightarrow>
      \<exists>m' k. ins v m = (m', Ret k) \<and> inv m' \<and> valid k \<and> lookup m k = None
        \<and> lookup m' = (lookup m)(k \<mapsto> v) \<and> count m' = count m + 1"
    and rem_law: "inv m \<Longrightarrow> valid k \<Longrightarrow>
      \<exists>m'. rem k m = (m', Ret (lookup m k)) \<and> inv m' \<and> lookup m' = (lookup m)(k := None)"
begin

lemma insert_many:
  "inv m \<Longrightarrow> count m + length vs \<le> limit \<Longrightarrow>
     \<exists>m' ks. run_calls ins vs m = (m', map Ret ks) \<and> inv m' \<and> length ks = length vs
       \<and> distinct ks \<and> (\<forall>k \<in> set ks. valid k \<and> lookup m k = None)
       \<and> lookup m' = lookup m ++ map_of (zip ks vs) \<and> count m' = count m + length vs"
proof (induction vs arbitrary: m)
  case (Cons v vs)
  obtain m1 k where k: "ins v m = (m1, Ret k)" "inv m1" "valid k" "lookup m k = None"
      "lookup m1 = (lookup m)(k \<mapsto> v)" "count m1 = count m + 1"
    using ins_law [OF Cons.prems(1)] Cons.prems(2) by (metis add_gr_0 le_add1 le_less_trans
        length_Cons less_add_same_cancel1 less_le_trans zero_less_Suc)
  obtain m2 ks where ks: "run_calls ins vs m1 = (m2, map Ret ks)" "inv m2" "length ks = length vs"
      "distinct ks" "\<forall>l \<in> set ks. valid l \<and> lookup m1 l = None"
      "lookup m2 = lookup m1 ++ map_of (zip ks vs)" "count m2 = count m1 + length vs"
    using Cons.IH [OF k(2)] Cons.prems(2) k(6) by auto
  have fresh: "k \<notin> set ks" "\<forall>l \<in> set ks. lookup m l = None"
    using ks(5) k(5) by (auto split: if_splits)
  have "lookup m2 = lookup m ++ map_of (zip (k # ks) (v # vs))"
  proof
    fix l
    have "k \<notin> dom (map_of (zip ks vs))" using fresh(1) ks(3) by (simp add: dom_map_of_zip)
    then show "lookup m2 l = (lookup m ++ map_of (zip (k # ks) (v # vs))) l"
      unfolding ks(6) k(5) by (auto simp: map_add_def split: option.split)
  qed
  moreover have "run_calls ins (v # vs) m = (m2, map Ret (k # ks))" using k(1) ks(1) by simp
  moreover have "distinct (k # ks)" "length (k # ks) = length (v # vs)"
      "\<forall>l \<in> set (k # ks). valid l \<and> lookup m l = None"
    using k(3,4) ks(3-5) fresh by simp_all
  moreover have "count m2 = count m + length (v # vs)" using k(6) ks(7) by simp
  ultimately show ?case using ks(2) by blast
qed simp

lemma remove_many:
  "inv m \<Longrightarrow> distinct ks \<Longrightarrow> \<forall>k \<in> set ks. valid k \<Longrightarrow>
     \<exists>m'. run_calls rem ks m = (m', map (\<lambda>k. Ret (lookup m k)) ks) \<and> inv m'
       \<and> lookup m' = (lookup m) |` (- set ks)"
proof (induction ks arbitrary: m)
  case (Cons k ks)
  obtain m1 where m1: "rem k m = (m1, Ret (lookup m k))" "inv m1" "lookup m1 = (lookup m)(k := None)"
    using rem_law Cons.prems by force
  obtain m2 where m2: "run_calls rem ks m1 = (m2, map (\<lambda>k. Ret (lookup m1 k)) ks)" "inv m2"
      "lookup m2 = (lookup m1) |` (- set ks)"
    using Cons.IH [OF m1(2)] Cons.prems by auto
  have "map (\<lambda>k. Ret (lookup m1 k)) ks = map (\<lambda>k. Ret (lookup m k)) ks"
    using Cons.prems(2) m1(3) by auto
  moreover have "lookup m2 = (lookup m) |` (- set (k # ks))"
    unfolding m2(3) m1(3) by (auto simp: restrict_map_def)
  ultimately show ?case using m1(1) m2 by simp
qed (simp add: restrict_map_def)

text \<open>Values that are inserted and removed by their keys come back, and the map is as before.\<close>

lemma insert_remove_many:
  assumes "inv m" and "count m + length vs \<le> limit"
  shows "\<exists>m1 ks m2. run_calls ins vs m = (m1, map Ret ks) \<and> distinct ks
    \<and> run_calls rem ks m1 = (m2, map (Ret \<circ> Some) vs) \<and> lookup m2 = lookup m"
proof -
  obtain m1 ks where ks: "run_calls ins vs m = (m1, map Ret ks)" "inv m1" "length ks = length vs"
      "distinct ks" "\<forall>k \<in> set ks. valid k \<and> lookup m k = None"
      "lookup m1 = lookup m ++ map_of (zip ks vs)"
    using insert_many [OF assms] by blast
  obtain m2 where m2: "run_calls rem ks m1 = (m2, map (\<lambda>k. Ret (lookup m1 k)) ks)"
      "lookup m2 = (lookup m1) |` (- set ks)"
    using remove_many [OF ks(2,4)] ks(5) by blast
  have "map (\<lambda>k. Ret (lookup m1 k)) ks = map (Ret \<circ> Some) vs"
  proof (rule nth_equalityI)
    fix i
    assume "i < length (map (\<lambda>k. Ret (lookup m1 k)) ks)"
    then have "map_of (zip ks vs) (ks ! i) = Some (vs ! i)"
      using ks(3,4) by (intro map_of_zip_nth) simp_all
    then show "map (\<lambda>k. Ret (lookup m1 k)) ks ! i = map (Ret \<circ> Some) vs ! i"
      using \<open>i < _\<close> ks(3,6) by simp
  qed (simp add: ks(3))
  moreover have "lookup m2 = lookup m"
  proof
    fix k
    show "lookup m2 k = lookup m k"
    proof (cases "k \<in> set ks")
      case True
      then show ?thesis using ks(5) m2(2) by simp
    next
      case False
      then have "map_of (zip ks vs) k = None" using ks(3) by (auto simp: map_of_eq_None_iff dest: set_zip_leftD)
      then show ?thesis using False m2(2) ks(6) by (simp add: map_add_def)
    qed
  qed
  ultimately show ?thesis using ks(1,4) m2(1) by auto
qed

end

text \<open>A map with fewer than \<open>2^32 - 2\<close> values has room for another.\<close>

lemma sm_room_len:
  assumes inv: "sm_inv m" and len: "sm_len m < 0xfffffffe"
  shows "sm_room m"
proof (rule ccontr)
  assume full: "\<not> sm_room m"
  have ok: "slots_ok (sm_slots m) (sm_free_head m)" using inv by (simp add: sm_inv_def)
  obtain fs where fs: "free_chain (sm_slots m) (sm_free_head m) fs"
      "set fs = {i. 0 < i \<and> i < length (sm_slots m) \<and> \<not> occupied (sm_slots m ! i)}"
    using ok by (auto simp: slots_ok_def)
  have "fs = []" using fs(1) full by (cases fs) (auto simp: sm_room_def)
  then have all: "\<forall>i. 0 < i \<and> i < length (sm_slots m) \<longrightarrow> occupied (sm_slots m ! i)"
    using fs(2) by auto
  have sz: "0xffffffff \<le> length (sm_slots m)" using full by (simp add: sm_room_def)
  have "\<forall>s \<in> set (tl (sm_slots m)). occupied s"
    using all by (auto simp: in_set_conv_nth nth_tl)
  then have "length (filter occupied (tl (sm_slots m))) = length (sm_slots m) - 1"
    by (simp add: filter_id_conv)
  moreover have "length (filter occupied (tl (sm_slots m))) \<le> sm_len m"
    using inv by (cases "sm_slots m") (auto simp: sm_inv_def)
  ultimately show False using len sz by simp
qed

lemma sm_insert_len: "sm_len (fst (sm_insert v m)) = sm_len m + 1"
  by (simp add: sm_insert_def Let_def split: option.split)

interpretation sm: key_map sm_inv sm_get sm_len kd_ok "0xfffffffe" sm_insert sm_remove
proof
  show "\<exists>m' k. sm_insert v m = (m', Ret k) \<and> sm_inv m' \<and> kd_ok k \<and> sm_get m k = None
      \<and> sm_get m' = (sm_get m)(k \<mapsto> v) \<and> sm_len m' = sm_len m + 1"
    if "sm_inv m" "sm_len m < 0xfffffffe" for m v
    using sm_insert_room [OF that(1) sm_room_len [OF that], of v] sm_insert_len [of v m] by fastforce
  show "\<exists>m'. sm_remove k m = (m', Ret (sm_get m k)) \<and> sm_inv m' \<and> sm_get m' = (sm_get m)(k := None)"
    if "sm_inv m" "kd_ok k" for m k
    by (rule sm_remove_spec [OF that])
qed

section \<open>Sequences of calls\<close>

datatype 'v sm_call = SmInsert 'v | SmRemove key_data | SmClear | SmWrite key_data 'v

fun sm_do :: "'v sm_call \<Rightarrow> 'v slot_map \<Rightarrow> 'v slot_map" where
  "sm_do (SmInsert v) m = fst (sm_insert v m)"
| "sm_do (SmRemove k) m = fst (sm_remove k m)"
| "sm_do SmClear m = sm_clear m"
| "sm_do (SmWrite k v) m = fst (sm_get_mut k (\<lambda>_. v) m)"

fun sm_call_ok :: "'v sm_call \<Rightarrow> bool" where
  "sm_call_ok (SmRemove k) \<longleftrightarrow> kd_ok k"
| "sm_call_ok (SmWrite k v) \<longleftrightarrow> kd_ok k"
| "sm_call_ok _ \<longleftrightarrow> True"

fun sm_is_insert :: "'v sm_call \<Rightarrow> bool" where
  "sm_is_insert (SmInsert v) \<longleftrightarrow> True"
| "sm_is_insert _ \<longleftrightarrow> False"

lemma sm_write_inv: "sm_inv m \<Longrightarrow> sm_inv (fst (sm_get_mut k f m))"
proof (cases "sm_get m k")
  case (Some v)
  assume inv: "sm_inv m"
  let ?i = "unat (kd_idx k)" and ?sl = "sm_slots m"
  let ?s = "\<lparr>sl_version = kd_version k, sl_state = Occupied (f v)\<rparr>"
  have i: "?i < length ?sl" "?sl ! ?i = \<lparr>sl_version = kd_version k, sl_state = Occupied v\<rparr>"
    using Some by (simp_all add: sm_get_slots slots_get_Some_iff)
  have m': "fst (sm_get_mut k f m) = m\<lparr>sm_slots := ?sl[?i := ?s]\<rparr>"
    using Some i by (simp add: sm_get_mut_def)
  obtain fs where fs: "free_chain ?sl (sm_free_head m) fs" "distinct fs"
      "set fs = {j. 0 < j \<and> j < length ?sl \<and> \<not> occupied (?sl ! j)}"
    using inv by (auto simp: sm_inv_def slots_ok_def)
  have occ: "occupied (?sl[?i := ?s] ! j) = occupied (?sl ! j)
      \<and> sl_version (?sl[?i := ?s] ! j) = sl_version (?sl ! j)" if "j < length ?sl" for j
    using that i by (cases "j = ?i") auto
  have "?i \<notin> set fs" using fs(3) i by simp
  then have "free_chain (?sl[?i := ?s]) (sm_free_head m) fs" using fs(1) by (simp add: free_chain_update)
  moreover have "set fs = {j. 0 < j \<and> j < length (?sl[?i := ?s]) \<and> \<not> occupied (?sl[?i := ?s] ! j)}"
    using fs(3) occ by auto
  ultimately have "slots_ok (?sl[?i := ?s]) (sm_free_head m)"
    using inv occ fs(2) by (intro slots_okI [where fs = fs]) (auto simp: sm_inv_def slots_ok_def)
  then show ?thesis
    unfolding m' using inv i filter_update [OF i(1), of occupied ?s] by (simp add: sm_inv_def)
qed (simp add: sm_get_mut_def)

text \<open>The maps a program can make: an insertion counts when it did not panic.\<close>

inductive sm_reachable :: "'v slot_map \<Rightarrow> bool" where
  sm_start: "sm_with_capacity c = Ret m \<Longrightarrow> sm_reachable m"
| sm_next_insert: "sm_reachable m \<Longrightarrow> sm_insert v m = (m', Ret k) \<Longrightarrow> sm_reachable m'"
| sm_next_other: "sm_reachable m \<Longrightarrow> sm_call_ok c \<Longrightarrow> \<not> sm_is_insert c \<Longrightarrow> sm_reachable (sm_do c m)"

lemma sm_reachable_inv: "sm_reachable m \<Longrightarrow> sm_inv m"
proof (induction rule: sm_reachable.induct)
  case (sm_start c m)
  then show ?case using sm_inv_new by blast
next
  case (sm_next_insert m v m' k)
  then have "sm_room m" using sm_insert_full [of m v] by fastforce
  then show ?case using sm_insert_room [OF sm_next_insert.IH, of v] sm_next_insert.hyps(2) by auto
next
  case (sm_next_other m c)
  then show ?case
  proof (cases c)
    case (SmRemove k)
    then show ?thesis using sm_remove_spec [of m k] sm_next_other by fastforce
  next
    case (SmWrite k v)
    then show ?thesis using sm_write_inv sm_next_other by simp
  qed (use sm_clear_spec sm_next_other in auto)
qed

section \<open>Stale keys\<close>

text \<open>A slot goes from one call to the next by one version at most.\<close>

definition slot_moves :: "bool \<Rightarrow> 'v sm_slot \<Rightarrow> 'v sm_slot \<Rightarrow> bool" where
  "slot_moves inserting s t \<longleftrightarrow>
     (sl_version t = sl_version s \<and> occupied t = occupied s)
     \<or> (occupied s \<and> \<not> occupied t \<and> sl_version t = sl_version s + 1)
     \<or> (inserting \<and> \<not> occupied s \<and> occupied t \<and> sl_version t = sl_version s + 1)"

lemma slot_moves_refl [simp]: "slot_moves b s s"
  by (simp add: slot_moves_def)

lemma sm_clear_from_moves:
  "i < length (sm_slots m) \<Longrightarrow> index + n \<le> length (sm_slots m) \<Longrightarrow>
     (i < index \<longrightarrow> sm_slots (sm_clear_from index n m) ! i = sm_slots m ! i)
     \<and> slot_moves False (sm_slots m ! i) (sm_slots (sm_clear_from index n m) ! i)
     \<and> length (sm_slots (sm_clear_from index n m)) = length (sm_slots m)"
proof (induction n arbitrary: index m)
  case (Suc n)
  define m1 where "m1 = (case sl_state (sm_slots m ! index) of
      Occupied _ \<Rightarrow> m\<lparr>sm_slots := vacate index (sm_slots m) (sm_free_head m),
        sm_free_head := (if index < 2 ^ 32 then of_nat index else 0xffffffff)\<rparr>
    | Vacant _ \<Rightarrow> m)"
  have step: "sm_clear_from index (Suc n) m = sm_clear_from (Suc index) n m1"
    by (simp add: m1_def vacate_def split: slot_state.split)
  have len: "length (sm_slots m1) = length (sm_slots m)"
    by (simp add: m1_def vacate_def split: slot_state.split)
  have other: "i \<noteq> index \<Longrightarrow> sm_slots m1 ! i = sm_slots m ! i"
    by (simp add: m1_def vacate_def split: slot_state.split)
  have same: "slot_moves False (sm_slots m ! index) (sm_slots m1 ! index)"
    using Suc.prems(2)
    by (simp add: m1_def vacate_def slot_moves_def occupied_def split: slot_state.split)
  have ih: "(i < Suc index \<longrightarrow> sm_slots (sm_clear_from (Suc index) n m1) ! i = sm_slots m1 ! i)
     \<and> slot_moves False (sm_slots m1 ! i) (sm_slots (sm_clear_from (Suc index) n m1) ! i)
     \<and> length (sm_slots (sm_clear_from (Suc index) n m1)) = length (sm_slots m1)"
    using Suc.prems len by (intro Suc.IH) auto
  show ?case unfolding step
    using ih len other same by (cases "i = index") auto
qed simp

lemma sm_do_moves:
  assumes ok: "slots_ok (sm_slots m) (sm_free_head m)" and c: "sm_call_ok c"
    and i: "i < length (sm_slots m)"
  shows "slot_moves (sm_is_insert c) (sm_slots m ! i) (sm_slots (sm_do c m) ! i)
    \<and> i < length (sm_slots (sm_do c m))"
proof (cases c)
  case (SmInsert v)
  show ?thesis
  proof (cases "unat (sm_free_head m) < length (sm_slots m)")
    case True
    let ?j = "unat (sm_free_head m)"
    obtain nx where nx: "sl_state (sm_slots m ! ?j) = Vacant nx" "even (sl_version (sm_slots m ! ?j))"
      using slots_ok_fill [OF ok True] by blast
    have "sm_slots (fst (sm_insert v m)) = (sm_slots m)[?j :=
        \<lparr>sl_version = sl_version (sm_slots m ! ?j) + 1, sl_state = Occupied v\<rparr>]"
      using True nx even_or_one by (simp add: sm_insert_def sm_slot_at_def Let_def)
    then show ?thesis using SmInsert i nx
      by (cases "i = ?j") (auto simp: slot_moves_def occupied_def)
  next
    case False
    then show ?thesis using SmInsert i
      by (auto simp: sm_insert_def sm_slot_at_def Let_def nth_append)
  qed
next
  case (SmRemove k)
  let ?j = "unat (kd_idx k)"
  show ?thesis
  proof (cases "?j < length (sm_slots m) \<and> sl_version (sm_slots m ! ?j) = kd_version k")
    case True
    then have "occupied (sm_slots m ! ?j)" using ok SmRemove c by (auto simp: slots_ok_def kd_ok_def)
    then show ?thesis using True SmRemove i
      by (cases "i = ?j") (auto simp: sm_remove_def sm_slot_at_def Let_def slot_moves_def)
  next
    case False
    then show ?thesis using SmRemove i by (auto simp: sm_remove_def sm_slot_at_def Let_def)
  qed
next
  case SmClear
  then show ?thesis
    using sm_clear_from_moves [OF i, of 1 "length (sm_slots m) - 1"] i ok
    by (simp add: sm_clear_def slots_ok_def)
next
  case (SmWrite k v)
  then show ?thesis using i
    by (cases "i = unat (kd_idx k)")
      (auto simp: sm_get_mut_def slot_moves_def occupied_def sm_get_slots slots_get_Some_iff
        split: option.split)
qed

text \<open>Runs of calls with the number of insertions that returned.\<close>

inductive sm_run :: "nat \<Rightarrow> 'v slot_map \<Rightarrow> 'v slot_map \<Rightarrow> bool" where
  run_nil: "sm_run 0 m m"
| run_insert: "sm_run n m a \<Longrightarrow> sm_insert v a = (b, Ret k) \<Longrightarrow> sm_run (Suc n) m b"
| run_other: "sm_run n m a \<Longrightarrow> sm_call_ok c \<Longrightarrow> \<not> sm_is_insert c \<Longrightarrow> sm_run n m (sm_do c a)"

lemma sm_run_reachable: "sm_run n m m' \<Longrightarrow> sm_reachable m \<Longrightarrow> sm_reachable m'"
  by (induction rule: sm_run.induct) (auto intro: sm_next_insert sm_next_other)

text \<open>How far the version of a slot is from the version \<open>v\<close> of a removed key.\<close>

definition version_away :: "u32 \<Rightarrow> nat \<Rightarrow> 'v sm_slot \<Rightarrow> bool" where
  "version_away v n s \<longleftrightarrow> 1 \<le> unat (sl_version s - v)
     \<and> unat (sl_version s - v) \<le> 2 * n + (if occupied s then 0 else 1)"

lemma unat_Suc_u32: "unat (d :: u32) + 1 < 2 ^ 32 \<Longrightarrow> unat (d + 1) = unat d + 1"
  by (simp add: unat_word_ariths)

lemma version_away_moves:
  assumes "slot_moves b s t" "version_away v n s" "n' < 2 ^ 31"
    and "n' = n + (if b then 1 else 0)"
  shows "version_away v n' t"
proof -
  have e: "sl_version s + 1 - v = (sl_version s - v) + 1" by simp
  have "unat (sl_version s + 1 - v) = unat (sl_version s - v) + 1" if b: "occupied s \<or> b"
  proof -
    have "unat (sl_version s - v) + 1 < 2 ^ 32"
      using assms b by (auto simp: version_away_def split: if_splits)
    then show ?thesis unfolding e by (rule unat_Suc_u32)
  qed
  then show ?thesis using assms by (auto simp: slot_moves_def version_away_def split: if_splits)
qed

lemma sm_run_away:
  assumes "sm_run n m m'" and "sm_reachable m" and "i < length (sm_slots m)"
    and "version_away v 0 (sm_slots m ! i)" and "n < 2 ^ 31"
  shows "i < length (sm_slots m') \<and> version_away v n (sm_slots m' ! i)"
  using assms
proof (induction rule: sm_run.induct)
  case (run_nil m)
  then show ?case by simp
next
  case (run_insert n m a w b k)
  have ih: "i < length (sm_slots a)" "version_away v n (sm_slots a ! i)"
    using run_insert by auto
  have "sm_inv a" using run_insert.hyps(1) run_insert.prems(1) sm_run_reachable sm_reachable_inv by blast
  then have mv: "slot_moves True (sm_slots a ! i) (sm_slots b ! i) \<and> i < length (sm_slots b)"
    using sm_do_moves [of a "SmInsert w" i] ih(1) run_insert.hyps(2) by (simp add: sm_inv_def)
  have "version_away v (Suc n) (sm_slots b ! i)"
    by (rule version_away_moves [OF conjunct1 [OF mv] ih(2) run_insert.prems(4)]) simp
  then show ?case using mv by blast
next
  case (run_other n m a c)
  have ih: "i < length (sm_slots a)" "version_away v n (sm_slots a ! i)"
    using run_other by auto
  have "sm_inv a" using run_other.hyps(1) run_other.prems(1) sm_run_reachable sm_reachable_inv by blast
  then have mv: "slot_moves False (sm_slots a ! i) (sm_slots (sm_do c a) ! i)
      \<and> i < length (sm_slots (sm_do c a))"
    using sm_do_moves [of a c i] ih(1) run_other.hyps(2,3) by (simp add: sm_inv_def)
  have "version_away v n (sm_slots (sm_do c a) ! i)"
    by (rule version_away_moves [OF conjunct1 [OF mv] ih(2) run_other.prems(4)]) simp
  then show ?case using mv by blast
qed

section \<open>Properties of the slot map\<close>

text \<open>
  C33. Insertion, in every map a program can make: it returns a key that was bound to nothing
  and binds it to the value, all other keys as before; it panics exactly when there are
  \<open>2^32 - 2\<close> values.
\<close>

theorem sm_insert_fresh_key:
  assumes "sm_reachable m"
  shows "case sm_insert v m of
     (m', Ret k) \<Rightarrow> sm_get m k = None \<and> sm_get m' = (sm_get m)(k \<mapsto> v)
       \<and> sm_len m' = sm_len m + 1 \<and> odd (kd_version k)
   | (m', Panic msg) \<Rightarrow> 0xfffffffe \<le> sm_len m \<and> msg = ''SlotMap is full'' \<and> sm_get m' = sm_get m
   | (m', UB) \<Rightarrow> False"
proof (cases "sm_room m")
  case True
  then show ?thesis
    using sm_insert_room [OF sm_reachable_inv [OF assms] True, of v] sm_insert_len [of v m]
    by (auto simp: kd_ok_def)
next
  case False
  then have "0xfffffffe \<le> sm_len m"
    using sm_room_len [OF sm_reachable_inv [OF assms]] not_le by blast
  then show ?thesis using sm_insert_full [OF False, of v] by (simp add: sm_get_slots)
qed

text \<open>A slot is reused after a removal.\<close>

theorem sm_insert_fresh_key_witness:
  "let m = fst (sm_remove (KeyData 1 1) (fst (sm_insert ''a'' \<lparr>sm_slots =
       [\<lparr>sl_version = 0, sl_state = Vacant 0\<rparr>], sm_free_head = 1, sm_len = 0\<rparr>)))
   in case sm_insert ''b'' m of (m', Ret k) \<Rightarrow> k = KeyData 1 3 \<and> sm_get m k = None \<and> sm_len m' = 1
      | _ \<Rightarrow> False"
proof -
  define m0 :: "string slot_map" where "m0 = \<lparr>sm_slots =
       [\<lparr>sl_version = 0, sl_state = Vacant 0\<rparr>], sm_free_head = 1, sm_len = 0\<rparr>"
  define m1 where "m1 = fst (sm_insert ''a'' m0)"
  define m where "m = fst (sm_remove (KeyData 1 1) m1)"
  have "sm_reachable m0" by (rule sm_start [of 0]) (simp add: m0_def sm_with_capacity_def checked_add_def usize_max_def)
  then have "sm_reachable m1"
    by (rule sm_next_insert [of _ "''a''" _ "KeyData 1 1"])
      (simp add: m1_def m0_def sm_insert_def sm_slot_at_def kd_new_def)
  then have "sm_reachable (sm_do (SmRemove (KeyData 1 1)) m1)"
    by (rule sm_next_other) (simp_all add: kd_ok_def)
  then have r: "sm_reachable m" by (simp add: m_def)
  have "sm_insert ''b'' m = (fst (sm_insert ''b'' m), Ret (KeyData 1 3))"
    unfolding m_def m1_def m0_def
    by (simp add: sm_insert_def sm_slot_at_def sm_remove_def kd_new_def)
  then obtain m' where m': "sm_insert ''b'' m = (m', Ret (KeyData 1 3))" by blast
  have "sm_len m = 0" unfolding m_def m1_def m0_def
    by (simp add: sm_insert_def sm_slot_at_def sm_remove_def kd_new_def)
  then show ?thesis
    using sm_insert_fresh_key [OF r, of "''b''"] m'
    unfolding Let_def m0_def [symmetric] m1_def [symmetric] m_def [symmetric] by simp
qed

text \<open>
  Removal with a key of the source's making returns what the key was bound to and
  unbinds it, all other keys as before; a key that is bound to nothing changes nothing.
\<close>

theorem sm_remove_unbinds:
  assumes "sm_reachable m" and "kd_ok k"
  shows "\<exists>m'. sm_remove k m = (m', Ret (sm_get m k)) \<and> sm_get m' = (sm_get m)(k := None)
    \<and> sm_index m k = (case sm_get m k of Some v \<Rightarrow> Ret v | None \<Rightarrow> Panic ''invalid SlotMap key used'')"
  using sm_remove_spec [OF sm_reachable_inv [OF assms(1)] assms(2)] by (auto simp: sm_index_def)

text \<open>The null key removes nothing.\<close>

theorem sm_remove_unbinds_witness:
  "\<exists>m m'. sm_with_capacity 4 = Ret m \<and> sm_remove kd_default m = (m', Ret (None :: nat option))"
proof -
  obtain m :: "nat slot_map" where m: "sm_with_capacity 4 = Ret m"
    by (simp add: sm_with_capacity_def checked_add_def usize_max_def)
  have "kd_ok kd_default" by (simp add: kd_default_def)
  then show ?thesis
    using sm_remove_unbinds [OF sm_start [OF m], of kd_default] sm_inv_new [OF m] m by auto
qed

text \<open>
  C34. A key of a removed value stays invalid, whatever is done with the map, until the map has
  been inserted to \<open>2^31\<close> times.
\<close>

theorem sm_removed_key_stays_stale:
  assumes "sm_reachable m0" and "sm_remove k m0 = (m, Ret (Some v))" and "sm_run n m m'"
    and "n < 2 ^ 31"
  shows "sm_get m' k = None"
proof -
  let ?i = "unat (kd_idx k)"
  have inv: "sm_inv m0" by (rule sm_reachable_inv [OF assms(1)])
  have slot: "?i < length (sm_slots m0)" "sl_version (sm_slots m0 ! ?i) = kd_version k"
    "occupied (sm_slots m0 ! ?i)"
    using assms(2)
    by (auto simp: sm_remove_def sm_slot_at_def Let_def occupied_def split: if_splits slot_state.splits)
  then have k: "kd_ok k" using inv by (auto simp: sm_inv_def slots_ok_def kd_ok_def)
  have "sm_reachable (sm_do (SmRemove k) m0)"
    by (rule sm_next_other [OF assms(1)]) (simp_all add: k)
  then have m: "sm_reachable m" using assms(2) by simp
  have "?i < length (sm_slots m) \<and> sm_slots m ! ?i
      = \<lparr>sl_version = kd_version k + 1, sl_state = Vacant (sm_free_head m0)\<rparr>"
    using assms(2) slot by (auto simp: sm_remove_def sm_slot_at_def Let_def split: if_splits)
  then have "?i < length (sm_slots m)" "version_away (kd_version k) 0 (sm_slots m ! ?i)"
    by (simp_all add: version_away_def)
  then have "version_away (kd_version k) n (sm_slots m' ! ?i)"
    using sm_run_away [OF assms(3) m _ _ assms(4)] by blast
  then have "sl_version (sm_slots m' ! ?i) \<noteq> kd_version k" by (auto simp: version_away_def)
  then show ?thesis by (auto simp: sm_get_slots slots_get_def split: slot_state.split)
qed

theorem sm_removed_key_stays_stale_witness:
  "let m0 = fst (sm_insert ''a'' \<lparr>sm_slots = [\<lparr>sl_version = 0, sl_state = Vacant 0\<rparr>],
              sm_free_head = 1, sm_len = 0\<rparr>);
       m = fst (sm_remove (KeyData 1 1) m0); m' = fst (sm_insert ''b'' m)
   in sm_get m' (KeyData 1 1) = None \<and> sm_get m' (KeyData 1 3) = Some ''b''"
proof -
  define s0 :: "string slot_map" where "s0 = \<lparr>sm_slots =
       [\<lparr>sl_version = 0, sl_state = Vacant 0\<rparr>], sm_free_head = 1, sm_len = 0\<rparr>"
  define m0 where "m0 = fst (sm_insert ''a'' s0)"
  define m where "m = fst (sm_remove (KeyData 1 1) m0)"
  define m' where "m' = fst (sm_insert ''b'' m)"
  note defs = m'_def m_def m0_def s0_def sm_insert_def sm_slot_at_def sm_remove_def kd_new_def
  have "sm_reachable s0"
    by (rule sm_start [of 0]) (simp add: s0_def sm_with_capacity_def checked_add_def usize_max_def)
  then have r: "sm_reachable m0"
    by (rule sm_next_insert [of _ "''a''" _ "KeyData 1 1"]) (simp add: defs)
  have rm: "sm_remove (KeyData 1 1) m0 = (m, Ret (Some ''a''))" by (simp add: defs)
  have "sm_insert ''b'' m = (m', Ret (KeyData 1 3))" by (simp add: defs)
  then have run: "sm_run 1 m m'" using run_insert [OF run_nil] by fastforce
  have "sm_get m' (KeyData 1 3) = Some ''b''" by (simp add: defs sm_get_def)
  then show ?thesis
    using sm_removed_key_stays_stale [OF r rm run]
    unfolding Let_def s0_def [symmetric] m0_def [symmetric] m_def [symmetric] m'_def [symmetric]
    by simp
qed

text \<open>Filling and emptying the first slot, \<open>n\<close> times.\<close>

fun sm_round :: "nat \<Rightarrow> 'v \<Rightarrow> 'v slot_map \<Rightarrow> 'v slot_map" where
  "sm_round 0 v m = m"
| "sm_round (Suc n) v m =
     (case sm_insert v (sm_round n v m) of
        (m', Ret k) \<Rightarrow> fst (sm_remove k m')
      | (m', _) \<Rightarrow> m')"

lemma sm_round_step:
  assumes "even V"
  shows "(case sm_insert v \<lparr>sm_slots = [\<lparr>sl_version = 0, sl_state = Vacant 0\<rparr>,
       \<lparr>sl_version = V, sl_state = Vacant 2\<rparr>], sm_free_head = 1, sm_len = 0\<rparr> of
      (m', Ret k) \<Rightarrow> fst (sm_remove k m') | (m', _) \<Rightarrow> m')
    = \<lparr>sm_slots = [\<lparr>sl_version = 0, sl_state = Vacant 0\<rparr>,
       \<lparr>sl_version = V + 2, sl_state = Vacant 2\<rparr>], sm_free_head = 1, sm_len = 0\<rparr>"
  using assms or_one_odd [of "V + 1"]
  by (simp add: sm_insert_def sm_slot_at_def sm_remove_def kd_new_def even_or_one add.assoc Let_def)

lemma sm_round_state:
  assumes "sm_with_capacity c = Ret m"
  shows "sm_round (Suc n) v m = \<lparr>sm_slots = [\<lparr>sl_version = 0, sl_state = Vacant 0\<rparr>,
     \<lparr>sl_version = of_nat (2 * Suc n), sl_state = Vacant 2\<rparr>], sm_free_head = 1, sm_len = 0\<rparr>"
proof (induction n)
  case 0
  have "m = \<lparr>sm_slots = [\<lparr>sl_version = 0, sl_state = Vacant 0\<rparr>], sm_free_head = 1, sm_len = 0\<rparr>"
    using assms by (auto simp: sm_with_capacity_def split: option.splits)
  then show ?case
    by (simp add: sm_insert_def sm_slot_at_def sm_remove_def kd_new_def)
next
  case (Suc n)
  have ev: "even (of_nat (2 * Suc n) :: u32)" by simp
  have eq: "(of_nat (2 * Suc n) + 2 :: u32) = of_nat (2 * Suc (Suc n))" by simp
  show ?case
    by (simp only: sm_round.simps(2) [of "Suc n"] Suc.IH sm_round_step [OF ev] eq)
qed

text \<open>
  The bound of the previous property is tight: a slot that is filled and emptied \<open>n\<close> times
  is at version \<open>2 n\<close> modulo \<open>2^32\<close>, so after \<open>2^31\<close> rounds the next insertion returns the
  very key of the first one.
\<close>

theorem sm_key_reused_after_2_31_rounds:
  assumes "sm_with_capacity c = Ret m"
  shows "snd (sm_insert v m) = Ret (KeyData 1 1)
    \<and> snd (sm_insert w (sm_round (2 ^ 31) v m)) = Ret (KeyData 1 1)"
proof -
  have m: "m = \<lparr>sm_slots = [\<lparr>sl_version = 0, sl_state = Vacant 0\<rparr>], sm_free_head = 1, sm_len = 0\<rparr>"
    using assms by (auto simp: sm_with_capacity_def split: option.splits)
  have "(of_nat (2 * Suc (2 ^ 31 - 1)) :: u32) = 0" by simp
  then have "sm_round (2 ^ 31) v m = \<lparr>sm_slots = [\<lparr>sl_version = 0, sl_state = Vacant 0\<rparr>,
     \<lparr>sl_version = 0, sl_state = Vacant 2\<rparr>], sm_free_head = 1, sm_len = 0\<rparr>"
    using sm_round_state [OF assms, of "2 ^ 31 - 1" v] by (simp del: sm_round.simps)
  then show ?thesis by (simp add: m sm_insert_def sm_slot_at_def kd_new_def)
qed

theorem sm_key_reused_after_2_31_rounds_witness:
  "\<exists>m. sm_with_capacity 0 = Ret m
    \<and> snd (sm_insert (7 :: nat) (sm_round (2 ^ 31) 5 m)) = Ret (KeyData 1 1)"
proof -
  obtain m :: "nat slot_map" where m: "sm_with_capacity 0 = Ret m"
    by (simp add: sm_with_capacity_def checked_add_def usize_max_def)
  then show ?thesis using sm_key_reused_after_2_31_rounds [OF m] by blast
qed

text \<open>
  Iteration: in every map a program can make, \<open>keys\<close> lists each bound key once and
  nothing else, \<open>values\<close> lists their values in the same order, and \<open>len\<close> is their number.
\<close>

theorem sm_keys_enumerate:
  assumes "sm_reachable m"
  shows "distinct (sm_keys m) \<and> set (sm_keys m) = dom (sm_get m)
    \<and> sm_len m = length (sm_keys m) \<and> sm_values m = map (the \<circ> sm_get m) (sm_keys m)
    \<and> (sm_is_empty m \<longleftrightarrow> sm_get m = (\<lambda>_. None))"
proof -
  have k: "distinct (sm_keys m)" "set (sm_keys m) = dom (sm_get m)" "length (sm_keys m) = sm_len m"
      "sm_values m = map (the \<circ> sm_get m) (sm_keys m)"
    using sm_keys_spec [OF sm_reachable_inv [OF assms]] by blast+
  have "sm_is_empty m \<longleftrightarrow> set (sm_keys m) = {}" using k(3) by (auto simp: sm_is_empty_def)
  then show ?thesis using k by (auto simp: fun_eq_iff)
qed

theorem sm_keys_enumerate_witness:
  "let m = fst (sm_insert ''a'' \<lparr>sm_slots = [\<lparr>sl_version = 0, sl_state = Vacant 0\<rparr>],
              sm_free_head = 1, sm_len = 0\<rparr>)
   in sm_keys m = [KeyData 1 1] \<and> sm_values m = [''a''] \<and> sm_len m = length (sm_keys m)"
proof -
  define s0 :: "string slot_map" where "s0 = \<lparr>sm_slots =
       [\<lparr>sl_version = 0, sl_state = Vacant 0\<rparr>], sm_free_head = 1, sm_len = 0\<rparr>"
  define m where "m = fst (sm_insert ''a'' s0)"
  have "sm_reachable s0"
    by (rule sm_start [of 0]) (simp add: s0_def sm_with_capacity_def checked_add_def usize_max_def)
  then have r: "sm_reachable m"
    by (rule sm_next_insert [of _ "''a''" _ "KeyData 1 1"])
      (simp add: m_def s0_def sm_insert_def sm_slot_at_def kd_new_def)
  have k: "sm_keys m = [KeyData 1 1] \<and> sm_values m = [''a'']"
    by (simp add: m_def s0_def sm_insert_def sm_slot_at_def kd_new_def sm_keys_def sm_values_def
        List.map_filter_def upt_rec)
  show ?thesis
    using sm_keys_enumerate [OF r] k unfolding Let_def s0_def [symmetric] m_def [symmetric] by blast
qed

text \<open>
  A batch of insertions returns distinct keys; removing those keys returns the values in
  order and leaves the bindings as they were.
\<close>

theorem sm_insert_remove_batch:
  assumes "sm_reachable m" and "sm_len m + length vs \<le> 0xfffffffe"
  shows "\<exists>m1 ks m2. run_calls sm_insert vs m = (m1, map Ret ks) \<and> distinct ks
    \<and> run_calls sm_remove ks m1 = (m2, map (Ret \<circ> Some) vs) \<and> sm_get m2 = sm_get m"
  using sm_reachable_inv [OF assms(1)] assms(2) by (rule sm.insert_remove_many)

theorem sm_insert_remove_batch_witness:
  "\<exists>m m1 ks m2. sm_with_capacity 0 = Ret m \<and> run_calls sm_insert [''a'', ''b''] m = (m1, map Ret ks)
    \<and> distinct ks \<and> run_calls sm_remove ks m1 = (m2, [Ret (Some ''a''), Ret (Some ''b'')])
    \<and> sm_get m2 = (\<lambda>_. None)"
proof -
  obtain m :: "string slot_map" where m: "sm_with_capacity 0 = Ret m"
    by (simp add: sm_with_capacity_def checked_add_def usize_max_def)
  have "sm_len m + length [''a'', ''b''] \<le> 0xfffffffe"
    using m by (auto simp: sm_with_capacity_def split: option.splits)
  then show ?thesis
    using sm_insert_remove_batch [OF sm_start [OF m], of "[''a'', ''b'']"] m sm_inv_new [OF m]
    by auto
qed

text \<open>A map with \<open>2^32 - 2\<close> values is full, and a program can make one.\<close>

lemma sm_full_no_room:
  assumes inv: "sm_inv m" and len: "sm_len m = 0xfffffffe"
  shows "\<not> sm_room m"
proof -
  let ?sl = "sm_slots m"
  have ok: "slots_ok ?sl (sm_free_head m)" using inv by (simp add: sm_inv_def)
  obtain s ss where sl: "?sl = s # ss" "\<not> occupied s"
    using ok by (cases ?sl) (auto simp: slots_ok_def)
  have f: "length (filter occupied ss) = 0xfffffffe" using inv len sl by (simp add: sm_inv_def)
  then have "0xfffffffe \<le> length ss" using length_filter_le [of occupied ss] by simp
  then have ss: "length ss = 0xfffffffe" using ok sl by (simp add: slots_ok_def)
  then have "filter occupied ss = ss" using f by (metis length_filter_less less_irrefl filter_True)
  then have all: "\<forall>x \<in> set ss. occupied x" by (simp add: filter_id_conv)
  obtain fs where fs: "free_chain ?sl (sm_free_head m) fs"
      "set fs = {i. 0 < i \<and> i < length ?sl \<and> \<not> occupied (?sl ! i)}"
    using ok by (auto simp: slots_ok_def)
  have "set fs = {}" unfolding fs(2) using all sl by (auto simp: nth_Cons' )
  then show ?thesis using fs(1) ss sl by (simp add: sm_room_def)
qed

lemma sm_reachable_inserts:
  "sm_reachable m \<Longrightarrow> run_calls sm_insert vs m = (m', map Ret ks) \<Longrightarrow> sm_reachable m'"
proof (induction vs arbitrary: m ks)
  case (Cons v vs)
  obtain m1 r where r: "sm_insert v m = (m1, r)" by fastforce
  then obtain k ks' where "r = Ret k" "run_calls sm_insert vs m1 = (m', map Ret ks')"
    using Cons.prems(2) by (auto split: prod.splits)
  then show ?case using Cons.IH sm_next_insert [OF Cons.prems(1)] r by blast
qed simp

text \<open>
  C39. An insertion into a full map panics after it has counted the value: a caller that
  catches the panic finds \<open>len\<close> one more than the number of values.
\<close>

theorem sm_full_insert_overcounts:
  assumes "sm_reachable m" and "sm_len m = 0xfffffffe"
  shows "\<exists>m'. sm_insert v m = (m', Panic ''SlotMap is full'')
    \<and> sm_keys m' = sm_keys m \<and> sm_len m' = length (sm_keys m') + 1"
proof -
  have i: "sm_insert v m = (m\<lparr>sm_len := sm_len m + 1\<rparr>, Panic ''SlotMap is full'')"
    by (rule sm_insert_full [OF sm_full_no_room [OF sm_reachable_inv [OF assms(1)] assms(2)]])
  have "sm_keys (m\<lparr>sm_len := sm_len m + 1\<rparr>) = sm_keys m" by (simp add: sm_keys_def)
  then show ?thesis using i sm_keys_spec [OF sm_reachable_inv [OF assms(1)]] by simp
qed

theorem sm_full_insert_overcounts_witness:
  "\<exists>m m' :: unit slot_map. sm_reachable m \<and> sm_insert () m = (m', Panic ''SlotMap is full'')
    \<and> sm_len m' = length (sm_keys m') + 1"
proof -
  obtain m0 :: "unit slot_map" where m0: "sm_with_capacity 0 = Ret m0"
    by (simp add: sm_with_capacity_def checked_add_def usize_max_def)
  have z: "sm_len m0 = 0" using m0 by (auto simp: sm_with_capacity_def split: option.splits)
  obtain m ks where m: "run_calls sm_insert (replicate 0xfffffffe ()) m0 = (m, map Ret ks)"
      "sm_len m = sm_len m0 + length (replicate 0xfffffffe ())"
    using sm.insert_many [of m0 "replicate 0xfffffffe ()"] sm_inv_new [OF m0] z
    by (metis add_0 length_replicate order_refl)
  have "sm_reachable m" by (rule sm_reachable_inserts [OF sm_start [OF m0] m(1)])
  moreover have "sm_len m = 0xfffffffe" using m(2) z by (simp only: length_replicate add_0)
  ultimately show ?thesis using sm_full_insert_overcounts [of m "()"] by blast
qed

section \<open>Properties of keys and of the secondary map\<close>

text \<open>
  A key crosses the FFI boundary unchanged: \<open>from_ffi\<close> undoes \<open>as_ffi\<close>, and any
  integer decodes to a key with an odd version, whose encoding is that integer with the low
  bit of the version set.
\<close>

theorem kd_ffi_roundtrip:
  "(kd_ok k \<longrightarrow> kd_from_ffi (kd_as_ffi k) = k)
   \<and> kd_ok (kd_from_ffi value) \<and> kd_as_ffi (kd_from_ffi value) = value OR 0x100000000"
proof (intro conjI impI)
  assume k: "kd_ok k"
  have idx: "ucast (kd_as_ffi k AND 0xffffffff) = kd_idx k"
  proof (rule bit_word_eqI)
    fix n assume n: "n < LENGTH(32)"
    have m: "(0xffffffff :: u64) = mask 32" by (simp add: mask_eq_exp_minus_1)
    show "bit (ucast (kd_as_ffi k AND 0xffffffff) :: u32) n = bit (kd_idx k) n"
      unfolding m using n by (simp add: bit_simps kd_ffi_bits)
  qed
  have ver: "ucast (drop_bit 32 (kd_as_ffi k)) = kd_version k"
    by (rule bit_word_eqI) (simp add: bit_simps kd_ffi_bits)
  show "kd_from_ffi (kd_as_ffi k) = k"
    using k or_one_odd by (simp add: kd_from_ffi_def idx ver kd_new_def kd_ok_def)
next
  show "kd_ok (kd_from_ffi value)" by (simp add: kd_from_ffi_def)
  show "kd_as_ffi (kd_from_ffi value) = value OR 0x100000000"
  proof (rule bit_word_eqI)
    fix n assume n: "n < LENGTH(64)"
    have m: "(0xffffffff :: u64) = mask 32" by (simp add: mask_eq_exp_minus_1)
    have h: "(0x100000000 :: u64) = push_bit 32 1" by simp
    have "bit (0x100000000 :: u64) n \<longleftrightarrow> n = 32"
      using n unfolding h bit_push_bit_iff by (auto simp: bit_1_iff)
    then show "bit (kd_as_ffi (kd_from_ffi value)) n = bit (value OR 0x100000000) n"
      unfolding kd_ffi_bits kd_from_ffi_def kd_new_def m using n
      by (auto simp: bit_simps bit_1_iff)
  qed
qed

theorem kd_ffi_roundtrip_witness:
  "kd_ok (KeyData 5 7) \<and> kd_from_ffi (kd_as_ffi (KeyData 5 7)) = KeyData 5 7
    \<and> kd_as_ffi (kd_from_ffi 5) = 0x100000005"
  using kd_ffi_roundtrip [of "KeyData 5 7" 5] by (simp add: kd_ok_def)

definition sec_entry :: "'v secondary_map \<Rightarrow> u32 \<Rightarrow> (u32 \<times> 'v) option" where
  "sec_entry m i = (if unat i < length m then m ! unat i else None)"

lemma sec_get_entry:
  "sec_get m k = (case sec_entry m (kd_idx k) of
     Some (version, v) \<Rightarrow> if version = kd_version k then Some v else None | None \<Rightarrow> None)"
  by (simp add: sec_get_def sec_entry_def)

text \<open>An insertion as a change of the entry of the key's slot.\<close>

definition sec_accepts :: "'v secondary_map \<Rightarrow> key_data \<Rightarrow> bool" where
  "sec_accepts m k \<longleftrightarrow> \<not> kd_is_null k \<and>
     (case sec_entry m (kd_idx k) of
        Some (version, v) \<Rightarrow> unat (kd_version k - version) < 2 ^ 31 | None \<Rightarrow> True)"

lemma sec_entry_pad:
  "sec_entry (if length m \<le> n then m @ replicate (n + 1 - length m) None else m) i = sec_entry m i"
  by (auto simp: sec_entry_def nth_append)

lemma unat_less_31: "(2 ^ 31 \<le> (d :: u32)) = (2 ^ 31 \<le> unat d)"
  by (simp add: word_le_nat_alt)

lemma sec_insert_entry:
  "snd (sec_insert k v m) = (if kd_is_null k then None else sec_get m k)
   \<and> sec_entry (fst (sec_insert k v m)) = (if sec_accepts m k
       then (sec_entry m)(kd_idx k := Some (kd_version k, v)) else sec_entry m)"
proof (cases "kd_is_null k")
  case True
  then show ?thesis by (simp add: sec_insert_def sec_accepts_def)
next
  case False
  let ?i = "unat (kd_idx k)"
  define p where "p = (if length m \<le> ?i then m @ replicate (?i + 1 - length m) None else m)"
  have len: "?i < length p" by (simp add: p_def)
  have ent: "sec_entry p = sec_entry m" unfolding p_def by (rule ext) (rule sec_entry_pad)
  then have e: "p ! ?i = sec_entry m (kd_idx k)" using len by (metis sec_entry_def)
  have upd: "sec_entry (p[?i := x]) = (sec_entry m)(kd_idx k := x)" for x
  proof
    fix j
    have "sec_entry p j = sec_entry m j" using ent by simp
    then show "sec_entry (p[?i := x]) j = ((sec_entry m)(kd_idx k := x)) j"
      using len by (cases "j = kd_idx k") (auto simp: sec_entry_def word_unat_eq_iff)
  qed
  have ins: "sec_insert k v m = (case p ! ?i of
       Some (version, old) \<Rightarrow>
         if version = kd_version k then (p[?i := Some (version, v)], Some old)
         else if kd_version k - version \<ge> 2 ^ 31 then (p, None)
         else (p[?i := Some (kd_version k, v)], None)
     | None \<Rightarrow> (p[?i := Some (kd_version k, v)], None))"
    using False unfolding sec_insert_def p_def Let_def by simp
  show ?thesis
  proof (cases "p ! ?i")
    case None
    then show ?thesis using False e ins upd by (simp add: sec_accepts_def sec_get_entry)
  next
    case (Some q)
    then obtain w old where q: "p ! ?i = Some (w, old)" by (cases q) auto
    consider "w = kd_version k" | "w \<noteq> kd_version k" "2 ^ 31 \<le> kd_version k - w"
      | "w \<noteq> kd_version k" "\<not> 2 ^ 31 \<le> kd_version k - w" by blast
    then show ?thesis
    proof cases
      case 1
      then show ?thesis using q False e ins upd by (simp add: sec_accepts_def sec_get_entry)
    next
      case 2
      then have "2 ^ 31 \<le> unat (kd_version k - w)" by (simp only: unat_less_31)
      then show ?thesis using 2 q False e ins ent by (auto simp: sec_accepts_def sec_get_entry)
    next
      case 3
      then have "unat (kd_version k - w) < 2 ^ 31" by (simp only: unat_less_31 not_le)
      then show ?thesis using 3 q False e ins upd by (auto simp: sec_accepts_def sec_get_entry)
    qed
  qed
qed

lemma opposite_far:
  assumes "(d :: u32) \<noteq> 0" and "unat d < 2 ^ 31"
  shows "\<not> unat (- d) < 2 ^ 31"
proof
  assume far: "unat (- d) < 2 ^ 31"
  have "(unat d + unat (- d)) mod 2 ^ 32 = unat (d + (- d))"
    by (simp only: unat_word_ariths(1)) simp
  moreover have "(unat d + unat (- d)) mod 2 ^ 32 = unat d + unat (- d)"
    using assms(2) far by (intro mod_less) simp
  moreover have "0 < unat d" using assms(1) by (simp add: unat_gt_0)
  ultimately show False by simp
qed

text \<open>
  Generations in the secondary map: of two keys of one slot less than \<open>2^31\<close>
  versions apart, the newer wins in whichever order they are inserted: its value is
  found and the older key finds nothing.
\<close>

theorem sec_newer_generation_wins:
  assumes "kd_idx old = kd_idx new" and "\<not> kd_is_null new" and "kd_version old \<noteq> kd_version new"
    and "unat (kd_version new - kd_version old) < 2 ^ 31"
    and "sec_entry m (kd_idx new) = None"
  shows "(let m1 = fst (sec_insert new x (fst (sec_insert old y m)))
          in sec_get m1 new = Some x \<and> sec_get m1 old = None)
    \<and> (let m2 = fst (sec_insert old y (fst (sec_insert new x m)))
       in sec_get m2 new = Some x \<and> sec_get m2 old = None)"
proof -
  have null: "\<not> kd_is_null old" using assms(1,2) by (simp add: kd_is_null_def)
  have d0: "kd_version new - kd_version old \<noteq> 0" using assms(3) by auto
  have far: "\<not> unat (kd_version old - kd_version new) < 2 ^ 31"
    using opposite_far [OF d0 assms(4)] by simp
  have e1: "sec_entry (fst (sec_insert old y m)) = (sec_entry m)(kd_idx old := Some (kd_version old, y))"
    and e2: "sec_entry (fst (sec_insert new x m)) = (sec_entry m)(kd_idx new := Some (kd_version new, x))"
    using assms null by (simp_all add: sec_insert_entry sec_accepts_def)
  show ?thesis
    using assms null far
    by (simp add: sec_insert_entry e1 e2 sec_accepts_def sec_get_entry Let_def)
qed

theorem sec_newer_generation_wins_witness:
  "let m2 = fst (sec_insert (KeyData 1 1) ''old'' (fst (sec_insert (KeyData 1 3) ''new'' sec_new)))
   in sec_get m2 (KeyData 1 3) = Some ''new'' \<and> sec_get m2 (KeyData 1 1) = None"
  using sec_newer_generation_wins [of "KeyData 1 1" "KeyData 1 3" sec_new "''new''" "''old''"]
  by (simp add: kd_is_null_def sec_entry_def sec_new_def)

lemma sec_check_iff:
  "sec_check seen keys m \<longleftrightarrow> (\<forall>k \<in> set keys. sec_get m k \<noteq> None) \<and> distinct (map kd_idx keys)
     \<and> set (map kd_idx keys) \<inter> set (map kd_idx seen) = {}"
  by (induction keys arbitrary: seen) auto

lemma sec_get_bound:
  "sec_get m k \<noteq> None \<Longrightarrow> unat (kd_idx k) < length m \<and> m ! unat (kd_idx k) \<noteq> None"
  by (auto simp: sec_get_def split: if_splits option.splits)

lemma sec_places_eq:
  "\<forall>k \<in> set keys. sec_get m k \<noteq> None \<Longrightarrow> sec_places keys m = Ret (map (unat \<circ> kd_idx) keys)"
  by (induction keys) (auto simp: sec_get_def split: if_splits option.splits)

text \<open>
  \<open>get_disjoint_mut\<close> is memory safe: it never dereferences a place outside the
  slots or an empty one, it returns references exactly when every key is bound and no two
  share a slot, and then the references are to pairwise distinct places, so none aliases.
\<close>

theorem sec_get_disjoint_mut_no_alias:
  "case sec_get_disjoint_mut keys m of
     Ret (Some places) \<Rightarrow>
       distinct places \<and> places = map (unat \<circ> kd_idx) keys \<and> (\<forall>p \<in> set places. p < length m \<and> m ! p \<noteq> None)
       \<and> (\<forall>k \<in> set keys. sec_get m k \<noteq> None)
   | Ret None \<Rightarrow> (\<exists>k \<in> set keys. sec_get m k = None) \<or> \<not> distinct (map kd_idx keys)
   | _ \<Rightarrow> False"
proof (cases "sec_check [] keys m")
  case True
  then have k: "\<forall>k \<in> set keys. sec_get m k \<noteq> None" "distinct (map kd_idx keys)"
    by (simp_all add: sec_check_iff)
  have "distinct (map (unat \<circ> kd_idx) keys)"
    using k(2) by (simp add: distinct_map inj_on_def word_unat_eq_iff)
  moreover have "\<forall>p \<in> set (map (unat \<circ> kd_idx) keys). p < length m \<and> m ! p \<noteq> None"
    unfolding set_map using sec_get_bound [OF bspec [OF k(1)]] by (auto simp: comp_def)
  ultimately show ?thesis using True k(1) sec_places_eq [OF k(1)] by (simp add: sec_get_disjoint_mut_def)
next
  case False
  then show ?thesis by (auto simp: sec_get_disjoint_mut_def sec_check_iff)
qed

text \<open>Two keys of different slots, then the same with a repeated slot.\<close>

theorem sec_get_disjoint_mut_no_alias_witness:
  "let m = fst (sec_insert (KeyData 2 1) ''b'' (fst (sec_insert (KeyData 1 1) ''a'' sec_new)))
   in (case sec_get_disjoint_mut [KeyData 1 1, KeyData 2 1] m of
         Ret (Some places) \<Rightarrow> distinct places \<and> places = [1, 2] | _ \<Rightarrow> False)
     \<and> sec_get_disjoint_mut [KeyData 1 1, KeyData 1 1] m = Ret None"
proof -
  define m where
    "m = fst (sec_insert (KeyData 2 1) ''b'' (fst (sec_insert (KeyData 1 1) ''a'' sec_new)))"
  have m: "m = [None, Some (1, ''a''), Some (1, ''b'')]"
    unfolding m_def by code_simp
  have "sec_get_disjoint_mut [KeyData 1 1, KeyData 2 1] m = Ret (Some [1, 2])"
    and "sec_get_disjoint_mut [KeyData 1 1, KeyData 1 1] m = Ret None"
    by (simp_all add: m sec_get_disjoint_mut_def sec_get_def)
  then show ?thesis
    using sec_get_disjoint_mut_no_alias [of "[KeyData 1 1, KeyData 2 1]" m]
    unfolding Let_def m_def [symmetric] by simp
qed

end
