(* ===== verification/OrderedMap.thy ===== *)
theory OrderedMap
  imports Prelude
begin

text \<open>
  The ordered map \<open>BTreeMap\<close> of the standard library, as the list of its entries in increasing
  order of the keys: what the mutex and the JSON objects use of it.
\<close>

fun bt_insert :: "'k :: linorder \<Rightarrow> 'w \<Rightarrow> ('k \<times> 'w) list \<Rightarrow> ('k \<times> 'w) list" where
  "bt_insert i w [] = [(i, w)]"
| "bt_insert i w ((j, v) # xs) =
     (if i < j then (i, w) # (j, v) # xs
      else if i = j then (i, w) # xs
      else (j, v) # bt_insert i w xs)"

definition bt_remove :: "'k :: linorder \<Rightarrow> ('k \<times> 'w) list \<Rightarrow> ('k \<times> 'w) list" where
  "bt_remove i xs = filter (\<lambda>(j, w). j \<noteq> i) xs"

definition bt_sorted :: "('k :: linorder \<times> 'w) list \<Rightarrow> bool" where
  "bt_sorted xs \<longleftrightarrow> sorted_wrt (<) (map fst xs)"

lemma bt_insert_keys: "fst ` set (bt_insert i w xs) = insert i (fst ` set xs)"
  by (induction i w xs rule: bt_insert.induct) auto

lemma bt_insert_sorted: "bt_sorted xs \<Longrightarrow> bt_sorted (bt_insert i w xs)"
proof (induction i w xs rule: bt_insert.induct)
  case (2 i w j v xs)
  have "fst ` set (bt_insert i w xs) = insert i (fst ` set xs)" by (rule bt_insert_keys)
  then show ?case using 2 by (fastforce simp: bt_sorted_def)
qed (simp add: bt_sorted_def)

lemma bt_insert_map_of: "bt_sorted xs \<Longrightarrow> map_of (bt_insert i w xs) = (map_of xs)(i \<mapsto> w)"
proof (induction i w xs rule: bt_insert.induct)
  case (2 i w j v xs)
  then show ?case by (auto simp: bt_sorted_def fun_eq_iff)
qed (auto simp: fun_eq_iff)

lemma bt_remove_sorted: "bt_sorted xs \<Longrightarrow> bt_sorted (bt_remove i xs)"
  by (induction xs) (auto simp: bt_sorted_def bt_remove_def)

lemma bt_remove_map_of: "map_of (bt_remove i xs) = (map_of xs)(i := None)"
  by (induction xs) (auto simp: bt_remove_def fun_eq_iff)

lemma bt_remove_keys: "fst ` set (bt_remove i xs) = fst ` set xs - {i}"
  by (force simp: bt_remove_def)

lemma bt_insert_all:
  "list_all P xs \<Longrightarrow> P (i, w) \<Longrightarrow> list_all P (bt_insert i w xs)"
  by (induction i w xs rule: bt_insert.induct) auto

end
