(* ===== verification/AsyncMutex.thy ===== *)
theory AsyncMutex
  imports OrderedMap
begin

text \<open>
  The asynchronous mutex of \<open>src/future/mutex.rs\<close>. Its state is behind a standard mutex
  whose poisoning is ignored, so a call is one step (the wake of the first waiter follows the
  critical section and touches nothing of the mutex). The waiters are a map ordered by number
  (a \<open>BTreeMap\<close>), here the list of its entries in increasing order.
\<close>

section \<open>State and operations\<close>

record 'w async_mutex =
  mu_locked :: bool
  mu_next_waiter :: nat
  mu_waiters :: "(nat \<times> 'w) list"

definition mu_default :: "'w async_mutex" where
  "mu_default = \<lparr>mu_locked = False, mu_next_waiter = 0, mu_waiters = []\<rparr>"

text \<open>\<open>lock\<close> makes a future without a number.\<close>

definition mu_lock :: "nat option" where
  "mu_lock = None"

text \<open>\<open>try_lock\<close>: whether the guard was obtained.\<close>

definition mu_try_lock :: "'w async_mutex \<Rightarrow> 'w async_mutex \<times> bool" where
  "mu_try_lock s = (s\<lparr>mu_locked := True\<rparr>, \<not> mu_locked s)"

definition mu_first_waiter :: "'w async_mutex \<Rightarrow> 'w list" where
  "mu_first_waiter s = (case mu_waiters s of [] \<Rightarrow> [] | (i, w) # _ \<Rightarrow> [w])"

text \<open>The drop of the guard, and the wakers woken.\<close>

definition mu_unlock :: "'w async_mutex \<Rightarrow> 'w async_mutex \<times> 'w list" where
  "mu_unlock s = (s\<lparr>mu_locked := False\<rparr>, mu_first_waiter s)"

text \<open>
  A poll of the future with number \<open>waiter\<close>; \<open>Ready ()\<close> is the guard. The number of a new
  waiter is checked for overflow.
\<close>

definition mu_poll :: "'w \<Rightarrow> nat option \<Rightarrow> 'w async_mutex \<Rightarrow> ('w async_mutex \<times> unit poll \<times> nat option) run" where
  "mu_poll w waiter s =
     (if \<not> mu_locked s
      then Ret (s\<lparr>mu_locked := True,
                  mu_waiters := (case waiter of Some i \<Rightarrow> bt_remove i (mu_waiters s)
                                 | None \<Rightarrow> mu_waiters s)\<rparr>, Ready (), None)
      else (case waiter of
          Some i \<Rightarrow> Ret (s\<lparr>mu_waiters := bt_insert i w (mu_waiters s)\<rparr>, Pending, Some i)
        | None \<Rightarrow>
            (case checked_add (mu_next_waiter s) 1 of
               None \<Rightarrow> Panic ''attempt to add with overflow''
             | Some i \<Rightarrow> Ret (s\<lparr>mu_next_waiter := i, mu_waiters := bt_insert i w (mu_waiters s)\<rparr>,
                             Pending, Some i))))"

definition mu_drop_future :: "nat option \<Rightarrow> 'w async_mutex \<Rightarrow> 'w async_mutex \<times> 'w list" where
  "mu_drop_future waiter s =
     (case waiter of
        None \<Rightarrow> (s, [])
      | Some i \<Rightarrow>
          (let s' = s\<lparr>mu_waiters := bt_remove i (mu_waiters s)\<rparr>
           in (s', if \<not> mu_locked s' then mu_first_waiter s' else [])))"

section \<open>Futures and guards\<close>

text \<open>
  The futures alive with their numbers, those parked with the waker of their last poll, and
  the number of guards that exist.
\<close>

record 'w mu_sys =
  mx_mutex :: "'w async_mutex"
  mx_futs :: "nat \<Rightarrow> nat option option"
  mx_parked :: "nat \<Rightarrow> 'w option"
  mx_guards :: nat

definition mx_init :: "'w mu_sys" where
  "mx_init = \<lparr>mx_mutex = mu_default, mx_futs = Map.empty, mx_parked = Map.empty, mx_guards = 0\<rparr>"

datatype 'w mu_cmd = ULock nat | UPoll nat 'w | UDropFuture nat | UTryLock | UUnlock

fun mu_do :: "('w \<Rightarrow> 'w \<Rightarrow> bool) \<Rightarrow> 'w mu_cmd \<Rightarrow> 'w mu_sys \<Rightarrow> 'w mu_sys" where
  "mu_do ww (ULock f) s =
     (case mx_futs s f of None \<Rightarrow> s\<lparr>mx_futs := (mx_futs s)(f \<mapsto> mu_lock)\<rparr> | Some _ \<Rightarrow> s)"
| "mu_do ww (UPoll f w) s =
     (case mx_futs s f of
        None \<Rightarrow> s
      | Some wt \<Rightarrow>
          (case mu_poll w wt (mx_mutex s) of
             Ret (m, Ready _, wt') \<Rightarrow>
               s\<lparr>mx_mutex := m, mx_futs := (mx_futs s)(f \<mapsto> wt'),
                 mx_parked := (mx_parked s)(f := None), mx_guards := mx_guards s + 1\<rparr>
           | Ret (m, Pending, wt') \<Rightarrow>
               s\<lparr>mx_mutex := m, mx_futs := (mx_futs s)(f \<mapsto> wt'),
                 mx_parked := (mx_parked s)(f \<mapsto> w)\<rparr>
           | _ \<Rightarrow> s))"
| "mu_do ww (UDropFuture f) s =
     (case mx_futs s f of
        None \<Rightarrow> s
      | Some wt \<Rightarrow>
          (case mu_drop_future wt (mx_mutex s) of (m, ws) \<Rightarrow>
             s\<lparr>mx_mutex := m, mx_futs := (mx_futs s)(f := None),
               mx_parked := unpark ww ws ((mx_parked s)(f := None))\<rparr>))"
| "mu_do ww UTryLock s =
     (case mu_try_lock (mx_mutex s) of (m, got) \<Rightarrow>
        s\<lparr>mx_mutex := m, mx_guards := mx_guards s + (if got then 1 else 0)\<rparr>)"
| "mu_do ww UUnlock s =
     (if mx_guards s = 0 then s
      else (case mu_unlock (mx_mutex s) of (m, ws) \<Rightarrow>
        s\<lparr>mx_mutex := m, mx_guards := mx_guards s - 1, mx_parked := unpark ww ws (mx_parked s)\<rparr>))"

inductive mu_reachable :: "('w \<Rightarrow> 'w \<Rightarrow> bool) \<Rightarrow> 'w mu_sys \<Rightarrow> bool" for ww :: "'w \<Rightarrow> 'w \<Rightarrow> bool" where
  mu_start: "mu_reachable ww mx_init"
| mu_next: "mu_reachable ww s \<Longrightarrow> mu_reachable ww (mu_do ww c s)"

lemma mu_fold_reachable: "mu_reachable ww s \<Longrightarrow> mu_reachable ww (fold (mu_do ww) cs s)"
  by (induction cs arbitrary: s) (auto intro: mu_next)

section \<open>The invariant\<close>

text \<open>
  Each waiter is the registration of one future, which carries the waker of its last poll;
  when the mutex is free, the future of the first waiter is not parked.
\<close>

definition regs_ok :: "(nat \<times> 'w) list \<Rightarrow> nat \<Rightarrow> (nat \<Rightarrow> nat option option)
    \<Rightarrow> (nat \<Rightarrow> 'w option) \<Rightarrow> bool" where
  "regs_ok ws n futs parked \<longleftrightarrow>
     bt_sorted ws
     \<and> (\<forall>i. map_of ws i \<noteq> None \<longleftrightarrow> (\<exists>f. futs f = Some (Some i)))
     \<and> (\<forall>f i. futs f = Some (Some i) \<longrightarrow> i \<le> n)
     \<and> (\<forall>f g i. futs f = Some (Some i) \<longrightarrow> futs g = Some (Some i) \<longrightarrow> f = g)
     \<and> (\<forall>f w. parked f = Some w \<longrightarrow> (\<exists>i. futs f = Some (Some i) \<and> map_of ws i = Some w))"

definition mu_regs_ok :: "'w mu_sys \<Rightarrow> bool" where
  "mu_regs_ok s \<longleftrightarrow> regs_ok (mu_waiters (mx_mutex s)) (mu_next_waiter (mx_mutex s)) (mx_futs s) (mx_parked s)"

definition first_ok :: "bool \<Rightarrow> (nat \<times> 'w) list \<Rightarrow> (nat \<Rightarrow> nat option option)
    \<Rightarrow> (nat \<Rightarrow> 'w option) \<Rightarrow> bool" where
  "first_ok locked ws futs parked \<longleftrightarrow> (locked \<or>
     (case ws of [] \<Rightarrow> True
      | (i, w) # _ \<Rightarrow> (\<forall>f. futs f = Some (Some i) \<longrightarrow> parked f = None)))"

definition mu_first_ok :: "'w mu_sys \<Rightarrow> bool" where
  "mu_first_ok s \<longleftrightarrow> first_ok (mu_locked (mx_mutex s)) (mu_waiters (mx_mutex s)) (mx_futs s) (mx_parked s)"

definition mu_inv :: "'w mu_sys \<Rightarrow> bool" where
  "mu_inv s \<longleftrightarrow> mu_regs_ok s \<and> mu_first_ok s
     \<and> mx_guards s = (if mu_locked (mx_mutex s) then 1 else 0)"

lemma mu_inv_init: "mu_inv mx_init"
  by (simp add: mu_inv_def mu_regs_ok_def regs_ok_def mu_first_ok_def first_ok_def mx_init_def mu_default_def bt_sorted_def)

lemma unpark_Some: "unpark ww ws parked f = Some w \<Longrightarrow> parked f = Some w"
  by (auto simp: unpark_def split: option.splits if_splits)

lemma unpark_woken: "parked f = Some w \<Longrightarrow> w \<in> set ws \<Longrightarrow> unpark ww ws parked f = None"
  by (auto simp: unpark_def list_ex_iff wakes_task_def split: option.splits)

text \<open>Waking the first waiter unparks its future.\<close>

lemma mu_wake_first:
  assumes "\<forall>f w. parked f = Some w \<longrightarrow> (\<exists>i. futs f = Some (Some i) \<and> map_of ws i = Some w)"
  shows "case ws of [] \<Rightarrow> True
     | (i, w) # _ \<Rightarrow> (\<forall>f. futs f = Some (Some i) \<longrightarrow>
         unpark ww (case ws of [] \<Rightarrow> [] | (i, w) # _ \<Rightarrow> [w]) parked f = None)"
proof (cases ws)
  case (Cons x xs)
  obtain i w where x: "x = (i, w)" by (cases x)
  have "unpark ww [w] parked f = None" if "futs f = Some (Some i)" for f
  proof (cases "parked f")
    case (Some u)
    then have "map_of ws i = Some u" using assms that by fastforce
    then have "u = w" using Cons x by simp
    then show ?thesis using unpark_woken [of parked f u "[w]" ww] Some by simp
  qed (simp add: unpark_def)
  then show ?thesis using Cons x by simp
qed simp

lemma regs_unpark: "regs_ok ws n futs parked \<Longrightarrow> regs_ok ws n futs (unpark ww woken parked)"
  unfolding regs_ok_def by (blast dest: unpark_Some)

lemma regs_new_fut:
  assumes "regs_ok ws n futs parked" and "futs f = None"
  shows "regs_ok ws n (futs(f \<mapsto> None)) parked"
proof -
  have "(futs(f \<mapsto> None)) g = Some (Some i) \<longleftrightarrow> futs g = Some (Some i)" for g i
    using assms(2) by auto
  then show ?thesis using assms(1) unfolding regs_ok_def by presburger
qed

text \<open>Forgetting the registration of a future, when it is dropped or gets the guard.\<close>

lemma regs_forget:
  assumes ok: "regs_ok ws n futs parked" and f: "futs f = Some wt" and x: "x = None \<or> x = Some None"
  shows "regs_ok (case wt of Some i \<Rightarrow> bt_remove i ws | None \<Rightarrow> ws) n (futs(f := x)) (parked(f := None))"
proof -
  have keep: "(futs(f := x)) g = Some (Some i) \<longleftrightarrow> g \<noteq> f \<and> futs g = Some (Some i)" for g i
    using x by auto
  have mo: "map_of (case wt of Some i \<Rightarrow> bt_remove i ws | None \<Rightarrow> ws) j
      = (if wt = Some j then None else map_of ws j)" for j
    by (auto simp: bt_remove_map_of split: option.split)
  have srt: "bt_sorted (case wt of Some i \<Rightarrow> bt_remove i ws | None \<Rightarrow> ws)"
    using ok by (auto simp: regs_ok_def bt_remove_sorted split: option.split)
  have uniq: "futs g = Some (Some i) \<Longrightarrow> wt = Some i \<Longrightarrow> g = f" for g i
    using ok f unfolding regs_ok_def by blast
  have dom: "map_of ws i \<noteq> None \<longleftrightarrow> (\<exists>g. futs g = Some (Some i))" for i
    using ok unfolding regs_ok_def by blast
  have dom': "(if wt = Some i then None else map_of ws i) \<noteq> None
      \<longleftrightarrow> (\<exists>g. g \<noteq> f \<and> futs g = Some (Some i))" for i
  proof (cases "wt = Some i")
    case True
    then show ?thesis using uniq by auto
  next
    case False
    then have "futs f \<noteq> Some (Some i)" using f by simp
    then show ?thesis using dom [of i] False by (metis (no_types))
  qed
  have park: "\<exists>i. (g \<noteq> f \<and> futs g = Some (Some i)) \<and> (if wt = Some i then None else map_of ws i) = Some w"
    if "(parked(f := None)) g = Some w" for g w
  proof -
    have g: "g \<noteq> f" "parked g = Some w" using that by (auto split: if_splits)
    then obtain i where i: "futs g = Some (Some i)" "map_of ws i = Some w"
      using ok unfolding regs_ok_def by blast
    then have "wt \<noteq> Some i" using uniq g(1) by blast
    then show ?thesis using i g(1) by auto
  qed
  show ?thesis
    unfolding regs_ok_def keep mo using srt dom' park ok
    unfolding regs_ok_def by blast
qed

text \<open>A registration, under a new number or again under the future's own.\<close>

lemma regs_register:
  assumes ok: "regs_ok ws n futs parked" and f: "futs f = Some wt"
    and i: "wt = Some i \<and> n' = n \<or> wt = None \<and> i = n + 1 \<and> n' = n + 1"
  shows "regs_ok (bt_insert i w ws) n' (futs(f \<mapsto> Some i)) (parked(f \<mapsto> w))"
proof -
  have keep: "(futs(f \<mapsto> Some i)) g = Some (Some j) \<longleftrightarrow> (if g = f then j = i else futs g = Some (Some j))" for g j
    by auto
  have srt: "bt_sorted ws" using ok by (simp add: regs_ok_def)
  have mo: "map_of (bt_insert i w ws) j = (if j = i then Some w else map_of ws j)" for j
    by (simp add: bt_insert_map_of [OF srt])
  have le: "futs g = Some (Some j) \<Longrightarrow> j \<le> n" for g j using ok unfolding regs_ok_def by blast
  have inj: "futs a = Some (Some b) \<Longrightarrow> futs c = Some (Some b) \<Longrightarrow> a = c" for a b c
    using ok unfolding regs_ok_def by blast
  have uniq: "g = f" if g: "futs g = Some (Some i)" for g
  proof (cases wt)
    case None
    then show ?thesis using le [OF g] i by simp
  next
    case (Some k)
    then show ?thesis using inj [OF g] f i by simp
  qed
  have dom: "(if j = i then Some w else map_of ws j) \<noteq> None
      \<longleftrightarrow> (\<exists>g. if g = f then j = i else futs g = Some (Some j))" for j
  proof (cases "j = i")
    case False
    have "futs f \<noteq> Some (Some j)" using f i False by auto
    moreover have "map_of ws j \<noteq> None \<longleftrightarrow> (\<exists>g. futs g = Some (Some j))"
      using ok unfolding regs_ok_def by blast
    ultimately show ?thesis using False by (metis (no_types))
  qed auto
  have park: "\<exists>j. (if g = f then j = i else futs g = Some (Some j))
      \<and> (if j = i then Some w else map_of ws j) = Some u"
    if "(parked(f \<mapsto> w)) g = Some u" for g u
  proof (cases "g = f")
    case False
    then have "parked g = Some u" using that by simp
    then obtain j where j: "futs g = Some (Some j)" "map_of ws j = Some u"
      using ok unfolding regs_ok_def by blast
    then have "j \<noteq> i" using uniq False by blast
    then show ?thesis using j False by auto
  qed (use that in auto)
  have wt: "wt = Some i \<Longrightarrow> i \<le> n" using le [of f i] f by simp
  have "j \<le> n'" if g: "if g = f then j = i else futs g = Some (Some j)" for g j
  proof (cases "g = f")
    case True
    then show ?thesis using g i wt by auto
  next
    case False
    then have "j \<le> n" using g le by simp
    then show ?thesis using i by auto
  qed
  moreover have "g = h" if g: "if g = f then j = i else futs g = Some (Some j)"
      and h: "if h = f then j = i else futs h = Some (Some j)" for g h j
  proof (rule ccontr)
    assume ne: "g \<noteq> h"
    consider "g = f" "h \<noteq> f" | "g \<noteq> f" "h = f" | "g \<noteq> f" "h \<noteq> f" using ne by blast
    then show False
    proof cases
      case 1
      then have "futs h = Some (Some i)" using g h by (simp only: if_True if_False simp_thms)
      then show False using uniq 1 by blast
    next
      case 2
      then have "futs g = Some (Some i)" using g h by (simp only: if_True if_False simp_thms)
      then show False using uniq 2 by blast
    next
      case 3
      then show False using g h inj ne by (simp only: if_False) blast
    qed
  qed
  ultimately show ?thesis
    unfolding regs_ok_def keep mo using bt_insert_sorted [OF srt] dom park by blast
qed


text \<open>The steps keep the invariant.\<close>

lemma mu_inv_split:
  "mu_inv \<lparr>mx_mutex = \<lparr>mu_locked = l, mu_next_waiter = n, mu_waiters = ws\<rparr>, mx_futs = futs,
      mx_parked = parked, mx_guards = k\<rparr> \<longleftrightarrow>
   regs_ok ws n futs parked \<and> first_ok l ws futs parked \<and> k = (if l then 1 else 0)"
  by (simp add: mu_inv_def mu_regs_ok_def mu_first_ok_def)

lemma first_ok_locked [simp]: "first_ok True ws futs parked"
  by (simp add: first_ok_def)

lemma first_ok_wake:
  assumes "regs_ok ws n futs parked"
  shows "first_ok l ws futs (unpark ww (case ws of [] \<Rightarrow> [] | (i, w) # _ \<Rightarrow> [w]) parked)"
proof -
  have "\<forall>f w. parked f = Some w \<longrightarrow> (\<exists>i. futs f = Some (Some i) \<and> map_of ws i = Some w)"
    using assms unfolding regs_ok_def by blast
  from mu_wake_first [OF this] show ?thesis unfolding first_ok_def by blast
qed

lemma first_ok_new_fut:
  assumes "first_ok l ws futs parked" and "futs f = None"
  shows "first_ok l ws (futs(f \<mapsto> None)) parked"
proof -
  have "(futs(f \<mapsto> None)) g = Some (Some j) \<longleftrightarrow> futs g = Some (Some j)" for g j
    using assms(2) by auto
  then show ?thesis using assms(1) unfolding first_ok_def by presburger
qed

text \<open>The drop of a future that never registered takes no waiter away.\<close>

lemma first_ok_forget_none:
  assumes "first_ok l ws futs parked" and "futs f = Some None"
  shows "first_ok l ws (futs(f := None)) (parked(f := None))"
proof -
  have "(futs(f := None)) g = Some (Some j) \<longleftrightarrow> futs g = Some (Some j)" for g j
    using assms(2) by auto
  then show ?thesis using assms(1) unfolding first_ok_def
    by (auto split: list.splits simp del: fun_upd_apply simp: fun_upd_def)
qed

lemma mu_sys_cases:
  obtains l n ws futs parked k where
    "s = \<lparr>mx_mutex = \<lparr>mu_locked = l, mu_next_waiter = n, mu_waiters = ws\<rparr>, mx_futs = futs,
      mx_parked = parked, mx_guards = k\<rparr>"
  by (cases s; metis async_mutex.cases)

lemmas mu_op_defs = mu_lock_def mu_try_lock_def mu_unlock_def mu_first_waiter_def mu_poll_def
  mu_drop_future_def checked_add_def

lemma mu_do_inv: assumes "mu_inv s" shows "mu_inv (mu_do ww c s)"
proof (cases s rule: mu_sys_cases)
  case (1 l n ws futs parked k)
  have r: "regs_ok ws n futs parked" and f: "first_ok l ws futs parked" and k: "k = (if l then 1 else 0)"
    using assms unfolding 1 mu_inv_split by blast+
  show ?thesis
  proof (cases c)
    case (ULock f)
    then show ?thesis
      using assms k regs_new_fut [OF r, of f] first_ok_new_fut [OF \<open>first_ok l ws futs parked\<close>, of f]
      by (cases "futs f") (simp_all add: 1 mu_inv_split mu_op_defs del: fun_upd_apply)
  next
    case (UPoll f w)
    show ?thesis
    proof (cases "futs f")
      case (Some wt)
      show ?thesis
      proof (cases l)
        case False
        then show ?thesis
          using regs_forget [OF r Some, of "Some None"] Some k
          by (cases wt) (simp_all add: 1 UPoll mu_inv_split mu_op_defs del: fun_upd_apply)
      next
        case l: True
        show ?thesis
        proof (cases wt)
          case (Some i)
          then show ?thesis
            using l k \<open>futs f = Some wt\<close> regs_register [OF r \<open>futs f = Some wt\<close>, of i n w]
            by (simp add: 1 UPoll mu_inv_split mu_op_defs del: fun_upd_apply)
        next
          case None
          then show ?thesis
            using assms l k \<open>futs f = Some wt\<close> regs_register [OF r \<open>futs f = Some wt\<close>, of "n + 1" "n + 1" w]
            by (cases "n + 1 \<le> usize_max") (simp_all add: 1 UPoll mu_inv_split mu_op_defs del: fun_upd_apply)
        qed
      qed
    qed (use assms 1 UPoll in simp)
  next
    case (UDropFuture f)
    show ?thesis
    proof (cases "futs f")
      case (Some wt)
      show ?thesis
      proof (cases wt)
        case None
        then show ?thesis
          using k Some regs_forget [OF r Some, of None] first_ok_forget_none [OF f, of f]
          by (simp add: 1 UDropFuture mu_inv_split mu_op_defs del: fun_upd_apply)
      next
        case wt: (Some i)
        have g: "regs_ok (bt_remove i ws) n (futs(f := None)) (parked(f := None))"
          using regs_forget [OF r Some, of None] wt by simp
        show ?thesis
          using k Some wt g regs_unpark [OF g] first_ok_wake [OF g]
          by (cases l) (simp_all add: 1 UDropFuture mu_inv_split mu_op_defs Let_def del: fun_upd_apply)
      qed
    qed (use assms 1 UDropFuture in simp)
  next
    case UTryLock
    then show ?thesis using r k by (simp add: 1 mu_inv_split mu_op_defs)
  next
    case UUnlock
    then show ?thesis using assms r k regs_unpark [OF r] first_ok_wake [OF r]
      by (simp add: 1 mu_inv_split mu_op_defs)
  qed
qed

lemma mu_reachable_inv: "mu_reachable ww s \<Longrightarrow> mu_inv s"
  by (induction rule: mu_reachable.induct) (simp_all add: mu_inv_init mu_do_inv)

section \<open>Properties\<close>

text \<open>
  C29. At any time there is at most one guard, and there is one exactly when the mutex is
  locked; a \<open>try_lock\<close> gives a guard exactly when there is none.
\<close>

theorem mu_mutual_exclusion:
  assumes "mu_reachable ww s"
  shows "mx_guards s \<le> 1 \<and> (mx_guards s = 1 \<longleftrightarrow> mu_locked (mx_mutex s))
    \<and> (snd (mu_try_lock (mx_mutex s)) \<longleftrightarrow> mx_guards s = 0)"
  using mu_reachable_inv [OF assms] by (simp add: mu_inv_def mu_try_lock_def)

definition mu_example :: "nat mu_cmd list" where
  "mu_example = [UTryLock, ULock 1, ULock 2, UPoll 1 11, UPoll 2 12, UPoll 1 13]"

theorem mu_mutual_exclusion_witness:
  "let s = fold (mu_do (=)) mu_example mx_init in
     mx_guards s = 1 \<and> \<not> snd (mu_try_lock (mx_mutex s))"
proof -
  define s where "s = fold (mu_do (=)) mu_example mx_init"
  have r: "mu_reachable (=) s" unfolding s_def by (intro mu_fold_reachable mu_start)
  have "mu_locked (mx_mutex s)"
    by (simp add: s_def mu_example_def mx_init_def mu_default_def mu_op_defs usize_max_def)
  then show ?thesis unfolding Let_def s_def [symmetric] using mu_mutual_exclusion [OF r] by simp
qed

text \<open>
  C30. No lost wake-up: when the mutex is free and futures wait, the one that has waited
  longest was woken since its last poll, and its next poll, with any waker, gets the guard
  and takes its registration away.
\<close>

theorem mu_no_lost_wakeup:
  assumes "mu_reachable ww s" and "\<not> mu_locked (mx_mutex s)" and "mx_parked s g \<noteq> None"
  shows "\<exists>f i. mx_futs s f = Some (Some i) \<and> (\<forall>j \<in> fst ` set (mu_waiters (mx_mutex s)). i \<le> j)
    \<and> mx_parked s f = None
    \<and> (\<exists>m. mu_poll w (Some i) (mx_mutex s) = Ret (m, Ready (), None)
        \<and> mu_locked m \<and> mu_waiters m = tl (mu_waiters (mx_mutex s)))"
proof (cases s rule: mu_sys_cases)
  case (1 l n ws futs parked k)
  have r: "regs_ok ws n futs parked" and f: "first_ok l ws futs parked"
    using mu_reachable_inv [OF assms(1)] unfolding 1 mu_inv_split by blast+
  have l: "\<not> l" using assms(2) 1 by simp
  obtain v where "parked g = Some v" using assms(3) 1 by auto
  then obtain j where "map_of ws j = Some v" using r unfolding regs_ok_def by blast
  then obtain i u xs where ws: "ws = (i, u) # xs" by (cases ws) auto
  have "map_of ws i \<noteq> None" by (simp add: ws)
  then obtain h where h: "futs h = Some (Some i)" using r unfolding regs_ok_def by blast
  have "parked h = None" using f l h by (simp add: first_ok_def ws)
  moreover have srt: "\<forall>j \<in> fst ` set xs. i < j" using r by (auto simp: regs_ok_def bt_sorted_def ws)
  then have le: "\<forall>j \<in> fst ` set ws. i \<le> j" by (auto simp: ws)
  have "bt_remove i xs = xs"
    unfolding bt_remove_def filter_id_conv using srt by fastforce
  then have "bt_remove i ws = xs" by (simp add: ws bt_remove_def)
  then have "mu_poll w (Some i) (mx_mutex s)
      = Ret (\<lparr>mu_locked = True, mu_next_waiter = n, mu_waiters = xs\<rparr>, Ready (), None)"
    using l by (simp add: 1 mu_poll_def)
  ultimately show ?thesis using h le by (intro exI [of _ h] exI [of _ i]) (simp add: 1 ws)
qed

theorem mu_no_lost_wakeup_witness:
  "let s = fold (mu_do (=)) (mu_example @ [UUnlock]) mx_init in
     mx_parked s 2 = Some 12 \<and> mx_parked s 1 = None
     \<and> (\<exists>f i. mx_futs s f = Some (Some i) \<and> mx_parked s f = None)"
proof -
  define s where "s = fold (mu_do (=)) (mu_example @ [UUnlock]) mx_init"
  have r: "mu_reachable (=) s" unfolding s_def by (intro mu_fold_reachable mu_start)
  have h: "\<not> mu_locked (mx_mutex s)" "mx_parked s 2 = Some 12" "mx_parked s 1 = None"
    by (simp_all add: s_def mu_example_def mx_init_def mu_default_def mu_op_defs usize_max_def
      unpark_def wakes_task_def)
  have p: "mx_parked s 2 \<noteq> None" using h by simp
  show ?thesis unfolding Let_def s_def [symmetric]
    using mu_no_lost_wakeup [OF r h(1) p, of 0] h(2,3) by blast
qed

end
