(* ===== verification/Combinators.thy ===== *)
theory Combinators
  imports Prelude
begin

text \<open>
  The futures of \<open>src/future/mod.rs\<close> that are made of other futures. These are a parameter:
  \<open>pl cx f\<close> is a poll of the future in state \<open>f\<close> with context \<open>cx\<close> and returns its next state,
  dropped with the future when it is ready. A poll of an inner future that panics is not
  modelled, the panics of the combinators themselves are. The boxing of \<open>boxed\<close> changes
  nothing of a future.
\<close>

section \<open>Single futures\<close>

text \<open>The waker of \<open>now_or_never\<close> does nothing; \<open>noop\<close> is its context.\<close>

definition now_or_never :: "('c \<Rightarrow> 'f \<Rightarrow> 'f \<times> 'r poll) \<Rightarrow> 'c \<Rightarrow> 'f \<Rightarrow> 'r option" where
  "now_or_never pl noop f =
     (case snd (pl noop f) of Ready output \<Rightarrow> Some output | Pending \<Rightarrow> None)"

text \<open>The future of the next item of a stream polls the stream it borrows.\<close>

definition next_poll :: "('c \<Rightarrow> 's \<Rightarrow> 's \<times> 'i option poll) \<Rightarrow> 'c \<Rightarrow> 's \<Rightarrow> 's \<times> 'i option poll" where
  "next_poll poll_next cx stream = poll_next cx stream"

section \<open>Select\<close>

datatype ('a, 'b) either = Left 'a | Right 'b

type_synonym ('f, 'g) select = "('f \<times> 'g) option"

definition select_new :: "'f \<Rightarrow> 'g \<Rightarrow> ('f, 'g) select" where
  "select_new left right = Some (left, right)"

definition select_panic :: string where
  "select_panic = ''Select polled after completion''"

definition select_poll :: "('c \<Rightarrow> 'f \<Rightarrow> 'f \<times> 'a poll) \<Rightarrow> ('c \<Rightarrow> 'g \<Rightarrow> 'g \<times> 'b poll) \<Rightarrow> 'c \<Rightarrow> ('f, 'g) select
    \<Rightarrow> (('f, 'g) select \<times> ('a \<times> 'g, 'b \<times> 'f) either poll) run" where
  "select_poll pl pr cx futures =
     (case futures of
        None \<Rightarrow> Panic select_panic
      | Some (left, right) \<Rightarrow>
          (case pl cx left of
             (_, Ready output) \<Rightarrow> Ret (None, Ready (Left (output, right)))
           | (left', Pending) \<Rightarrow>
               (case pr cx right of
                  (_, Ready output) \<Rightarrow> Ret (None, Ready (Right (output, left')))
                | (right', Pending) \<Rightarrow> Ret (Some (left', right'), Pending))))"

section \<open>Join\<close>

datatype ('f, 'r) slot = SlotPending 'f | SlotDone 'r

definition join_all :: "'f list \<Rightarrow> ('f, 'r) slot list" where
  "join_all futures = map SlotPending futures"

text \<open>The loop of a poll over the slots, with the flag \<open>done\<close>.\<close>

fun join_loop :: "('c \<Rightarrow> 'f \<Rightarrow> 'f \<times> 'r poll) \<Rightarrow> 'c \<Rightarrow> ('f, 'r) slot list \<Rightarrow> bool
    \<Rightarrow> ('f, 'r) slot list \<times> bool" where
  "join_loop pl cx [] fin = ([], fin)"
| "join_loop pl cx (SlotPending f # slots) fin =
     (case pl cx f of
        (_, Ready output) \<Rightarrow>
          (case join_loop pl cx slots fin of (slots', fin') \<Rightarrow> (SlotDone output # slots', fin'))
      | (f', Pending) \<Rightarrow>
          (case join_loop pl cx slots False of (slots', fin') \<Rightarrow> (SlotPending f' # slots', fin')))"
| "join_loop pl cx (SlotDone r # slots) fin =
     (case join_loop pl cx slots fin of (slots', fin') \<Rightarrow> (SlotDone r # slots', fin'))"

fun slot_output :: "('f, 'r) slot \<Rightarrow> 'r option" where
  "slot_output (SlotDone output) = Some output"
| "slot_output (SlotPending f) = None"

definition join_poll :: "('c \<Rightarrow> 'f \<Rightarrow> 'f \<times> 'r poll) \<Rightarrow> 'c \<Rightarrow> ('f, 'r) slot list
    \<Rightarrow> ('f, 'r) slot list \<times> 'r list poll" where
  "join_poll pl cx slots =
     (case join_loop pl cx slots True of
        (slots', fin) \<Rightarrow>
          (if \<not> fin then (slots', Pending)
           else ([], Ready (List.map_filter slot_output slots'))))"

section \<open>Driving a future\<close>

text \<open>
  A future polled with a list of contexts, and no more once it is ready; what is left of it
  is its state or its output.
\<close>

fun drive :: "('c \<Rightarrow> 'f \<Rightarrow> 'f \<times> 'r poll) \<Rightarrow> 'c list \<Rightarrow> 'f \<Rightarrow> ('f, 'r) slot" where
  "drive pl [] f = SlotPending f"
| "drive pl (c # cs) f = (case pl c f of (_, Ready r) \<Rightarrow> SlotDone r | (f', Pending) \<Rightarrow> drive pl cs f')"

fun drive_slot :: "('c \<Rightarrow> 'f \<Rightarrow> 'f \<times> 'r poll) \<Rightarrow> 'c list \<Rightarrow> ('f, 'r) slot \<Rightarrow> ('f, 'r) slot" where
  "drive_slot pl cs (SlotPending f) = drive pl cs f"
| "drive_slot pl cs (SlotDone r) = SlotDone r"

fun is_done :: "('f, 'r) slot \<Rightarrow> bool" where
  "is_done (SlotDone r) \<longleftrightarrow> True"
| "is_done (SlotPending f) \<longleftrightarrow> False"

lemma drive_append: "drive pl (cs @ ds) f = drive_slot pl ds (drive pl cs f)"
  by (induction cs arbitrary: f) (auto split: prod.split poll.split)

lemma drive_slot_append: "drive_slot pl (cs @ ds) x = drive_slot pl ds (drive_slot pl cs x)"
  by (cases x) (simp_all add: drive_append)

lemma drive_slot_Nil [simp]: "drive_slot pl [] x = x"
  by (cases x) simp_all

lemma done_drive_slot [simp]: "is_done x \<Longrightarrow> drive_slot pl cs x = x"
  by (cases x) simp_all

text \<open>The loop polls each pending slot once and tells whether all are done.\<close>

lemma join_loop_eq:
  "join_loop pl cx slots fin =
     (map (drive_slot pl [cx]) slots, fin \<and> list_all is_done (map (drive_slot pl [cx]) slots))"
proof (induction slots arbitrary: fin)
  case (Cons x slots)
  then show ?case by (cases x) (auto split: prod.split poll.split)
qed simp

lemma join_poll_eq:
  "join_poll pl cx slots =
     (let slots' = map (drive_slot pl [cx]) slots
      in if list_all is_done slots' then ([], Ready (map (the \<circ> slot_output) slots'))
         else (slots', Pending))"
proof -
  have "List.map_filter slot_output xs = map (the \<circ> slot_output) xs" if "list_all is_done xs"
    for xs :: "('a, 'b) slot list"
    using that by (induction xs) (auto simp: map_filter_simps elim: is_done.elims)
  then show ?thesis by (simp add: join_poll_def join_loop_eq Let_def)
qed

lemma list_all_done_drive:
  "list_all is_done xs \<Longrightarrow> map (drive_slot pl cs) xs = xs"
  by (induction xs) simp_all

lemma drive_join:
  "drive (join_poll pl) (c # cs) slots =
     (let slots' = map (drive_slot pl (c # cs)) slots
      in if list_all is_done slots' then SlotDone (map (the \<circ> slot_output) slots')
         else SlotPending slots')"
proof (induction cs arbitrary: c slots)
  case Nil
  then show ?case by (simp add: join_poll_eq Let_def)
next
  case (Cons d ds)
  let ?once = "map (drive_slot pl [c]) slots"
  have more: "map (drive_slot pl (c # d # ds)) slots = map (drive_slot pl (d # ds)) ?once"
    using drive_slot_append [of pl "[c]" "d # ds"] by simp
  have step: "drive (join_poll pl) (c # d # ds) slots =
      (if list_all is_done ?once then SlotDone (map (the \<circ> slot_output) ?once)
       else drive (join_poll pl) (d # ds) ?once)"
    unfolding drive.simps(2) [of "join_poll pl" c] join_poll_eq Let_def by simp
  show ?case
  proof (cases "list_all is_done ?once")
    case True
    then show ?thesis unfolding step more list_all_done_drive [OF True] Let_def by simp
  next
    case False
    then show ?thesis unfolding step more using Cons.IH [of d ?once] by simp
  qed
qed

text \<open>
  C31. Driving the future of \<open>join_all\<close> with some contexts drives every inner future with
  them, none of them beyond the poll that made it ready; the joined future is ready exactly
  when all are, with their outputs in the order of the futures.
\<close>

theorem join_all_drives_each:
  "drive (join_poll pl) (c # cs) (join_all futures) =
     (let slots = map (drive pl (c # cs)) futures
      in if list_all is_done slots then SlotDone (map (the \<circ> slot_output) slots)
         else SlotPending slots)"
  by (simp add: drive_join join_all_def comp_def del: drive.simps)

section \<open>The race of two futures\<close>

text \<open>The number of polls that left a future pending before it became ready.\<close>

fun ready_at :: "('c \<Rightarrow> 'f \<Rightarrow> 'f \<times> 'r poll) \<Rightarrow> 'c list \<Rightarrow> 'f \<Rightarrow> nat option" where
  "ready_at pl [] f = None"
| "ready_at pl (c # cs) f =
     (case pl c f of (_, Ready r) \<Rightarrow> Some 0 | (f', Pending) \<Rightarrow> map_option Suc (ready_at pl cs f'))"

fun slot_future :: "('f, 'r) slot \<Rightarrow> 'f option" where
  "slot_future (SlotPending f) = Some f"
| "slot_future (SlotDone r) = None"

definition future_after :: "('c \<Rightarrow> 'f \<Rightarrow> 'f \<times> 'r poll) \<Rightarrow> 'c list \<Rightarrow> 'f \<Rightarrow> 'f" where
  "future_after pl cs f = the (slot_future (drive pl cs f))"

definition output_of :: "('c \<Rightarrow> 'f \<Rightarrow> 'f \<times> 'r poll) \<Rightarrow> 'c list \<Rightarrow> 'f \<Rightarrow> 'r" where
  "output_of pl cs f = the (slot_output (drive pl cs f))"

fun select_drive :: "('c \<Rightarrow> 'f \<Rightarrow> 'f \<times> 'a poll) \<Rightarrow> ('c \<Rightarrow> 'g \<Rightarrow> 'g \<times> 'b poll) \<Rightarrow> 'c list
    \<Rightarrow> ('f, 'g) select \<Rightarrow> (('f, 'g) select \<times> ('a \<times> 'g, 'b \<times> 'f) either poll) run" where
  "select_drive pl pr [] st = Ret (st, Pending)"
| "select_drive pl pr (c # cs) st =
     (case select_poll pl pr c st of
        Ret (st', Pending) \<Rightarrow> select_drive pl pr cs st'
      | r \<Rightarrow> r)"

text \<open>The outcomes of a race won by the left or by the right future after some polls.\<close>

definition left_wins :: "('c \<Rightarrow> 'f \<Rightarrow> 'f \<times> 'a poll) \<Rightarrow> ('c \<Rightarrow> 'g \<Rightarrow> 'g \<times> 'b poll) \<Rightarrow> 'c list \<Rightarrow> nat
    \<Rightarrow> 'f \<Rightarrow> 'g \<Rightarrow> (('f, 'g) select \<times> ('a \<times> 'g, 'b \<times> 'f) either poll) run" where
  "left_wins pl pr cs i l r =
     Ret (None, Ready (Left (output_of pl cs l, future_after pr (take i cs) r)))"

definition right_wins :: "('c \<Rightarrow> 'f \<Rightarrow> 'f \<times> 'a poll) \<Rightarrow> ('c \<Rightarrow> 'g \<Rightarrow> 'g \<times> 'b poll) \<Rightarrow> 'c list \<Rightarrow> nat
    \<Rightarrow> 'f \<Rightarrow> 'g \<Rightarrow> (('f, 'g) select \<times> ('a \<times> 'g, 'b \<times> 'f) either poll) run" where
  "right_wins pl pr cs j l r =
     Ret (None, Ready (Right (output_of pr cs r, future_after pl (take (Suc j) cs) l)))"

definition race :: "('c \<Rightarrow> 'f \<Rightarrow> 'f \<times> 'a poll) \<Rightarrow> ('c \<Rightarrow> 'g \<Rightarrow> 'g \<times> 'b poll) \<Rightarrow> 'c list
    \<Rightarrow> 'f \<Rightarrow> 'g \<Rightarrow> (('f, 'g) select \<times> ('a \<times> 'g, 'b \<times> 'f) either poll) run" where
  "race pl pr cs l r =
     (case (ready_at pl cs l, ready_at pr cs r) of
        (None, None) \<Rightarrow> Ret (Some (future_after pl cs l, future_after pr cs r), Pending)
      | (Some i, None) \<Rightarrow> left_wins pl pr cs i l r
      | (None, Some j) \<Rightarrow> right_wins pl pr cs j l r
      | (Some i, Some j) \<Rightarrow> if i \<le> j then left_wins pl pr cs i l r else right_wins pl pr cs j l r)"

text \<open>One poll of a race.\<close>

lemma pending_drive:
  assumes "pl c f = (f', Pending)"
  shows "future_after pl (c # cs) f = future_after pl cs f'"
    "output_of pl (c # cs) f = output_of pl cs f'"
    "ready_at pl (c # cs) f = map_option Suc (ready_at pl cs f')"
  using assms by (simp_all add: future_after_def output_of_def)

lemma ready_drive:
  assumes "pl c f = (f', Ready x)"
  shows "output_of pl (c # cs) f = x" "ready_at pl (c # cs) f = Some 0"
  using assms by (simp_all add: output_of_def)

lemma future_after_Nil [simp]: "future_after pl [] f = f"
  by (simp add: future_after_def)

lemma select_drive_race: "select_drive pl pr cs (Some (l, r)) = race pl pr cs l r"
proof (induction cs arbitrary: l r)
  case Nil
  then show ?case by (simp add: race_def)
next
  case (Cons c cs)
  obtain l' ol where l: "pl c l = (l', ol)" by (cases "pl c l")
  obtain r' or where r: "pr c r = (r', or)" by (cases "pr c r")
  show ?case
  proof (cases ol)
    case (Ready x)
    then have *: "pl c l = (l', Ready x)" using l by simp
    show ?thesis
      using * ready_drive [of pl, OF *, of cs]
      by (simp add: select_poll_def race_def left_wins_def split: option.split del: ready_at.simps)
  next
    case Pending
    then have *: "pl c l = (l', Pending)" using l by simp
    show ?thesis
    proof (cases or)
      case (Ready x)
      then have **: "pr c r = (r', Ready x)" using r by simp
      show ?thesis
        using * ** pending_drive [of pl, OF *] ready_drive [of pr, OF **, of cs]
        by (simp add: select_poll_def race_def right_wins_def split: option.split del: ready_at.simps)
    next
      case Pending
      then have **: "pr c r = (r', Pending)" using r by simp
      show ?thesis
        using * ** pending_drive [of pl, OF *] pending_drive [of pr, OF **] Cons.IH [of l' r']
        by (simp add: select_poll_def race_def left_wins_def right_wins_def split: option.split
            del: ready_at.simps)
    qed
  qed
qed

text \<open>
  C32. \<open>select\<close> is the race of the two futures: it is ready on the first poll on which one of
  them is, the left one wins a tie, and the other one is handed back in the state in which
  that many polls left it: the right one was not polled in the round it lost to the left. A
  poll after completion panics.
\<close>

theorem select_first_ready_wins:
  "select_drive pl pr cs (select_new l r) = race pl pr cs l r
   \<and> select_poll pl pr c (None :: ('f, 'g) select) = Panic ''Select polled after completion''"
  by (simp add: select_new_def select_drive_race select_poll_def select_panic_def)

end
