(* ===== verification/Utf8.thy ===== *)
theory Utf8
  imports Prelude
begin

text \<open>
  UTF-8 as the standard library of Rust validates, repairs and encodes it. The crate reads
  strings of C through \<open>str::from_utf8\<close> and \<open>String::from_utf8_lossy\<close>, and iterates over the
  characters of a \<open>str\<close>; a \<open>str\<close> is the list of its bytes.
\<close>

type_synonym bytes = "u8 list"

section \<open>The next sequence\<close>

text \<open>
  A first byte above \<open>0x7f\<close> determines how many continuation bytes follow and the range of
  the first of them (which excludes overlong forms, surrogates and values above
  \<open>0x10ffff\<close>).
\<close>

definition utf8_lead :: "u8 \<Rightarrow> (nat \<times> u8 \<times> u8) option" where
  "utf8_lead b =
     (if 0xC2 \<le> b \<and> b \<le> 0xDF then Some (1, 0x80, 0xBF)
      else if b = 0xE0 then Some (2, 0xA0, 0xBF)
      else if b = 0xED then Some (2, 0x80, 0x9F)
      else if 0xE1 \<le> b \<and> b \<le> 0xEF then Some (2, 0x80, 0xBF)
      else if b = 0xF0 then Some (3, 0x90, 0xBF)
      else if b = 0xF4 then Some (3, 0x80, 0x8F)
      else if 0xF1 \<le> b \<and> b \<le> 0xF3 then Some (3, 0x80, 0xBF)
      else None)"

definition utf8_cont :: "u8 \<Rightarrow> bool" where
  "utf8_cont b \<longleftrightarrow> 0x80 \<le> b \<and> b \<le> 0xBF"

text \<open>
  The length of the sequence at the start of the bytes and whether it is valid; of an invalid
  one the longest prefix that could have been the start of a valid one.
\<close>

fun utf8_step :: "bytes \<Rightarrow> nat \<times> bool" where
  "utf8_step [] = (0, False)"
| "utf8_step (b # bs) =
     (if b < 0x80 then (1, True)
      else (case (utf8_lead b, bs) of
          (Some (n, lo, hi), c # cs) \<Rightarrow>
            (if lo \<le> c \<and> c \<le> hi
             then (let k = length (takeWhile utf8_cont (take (n - 1) cs))
                   in (2 + k, k = n - 1))
             else (1, False))
        | _ \<Rightarrow> (1, False)))"

lemma utf8_step_pos: "bs \<noteq> [] \<Longrightarrow> 0 < fst (utf8_step bs)"
  by (cases bs) (auto simp: Let_def split: option.split list.split prod.split)

lemma utf8_lead_pos: "utf8_lead b = Some (n, lo, hi) \<Longrightarrow> 0 < n"
  by (auto simp: utf8_lead_def split: if_splits)

lemma utf8_step_le: "fst (utf8_step bs) \<le> length bs"
proof (cases bs)
  case (Cons b cs)
  have "length (takeWhile utf8_cont (take k ds)) \<le> length ds" for k ds
    by (rule order_trans [OF length_takeWhile_le]) simp
  then show ?thesis using Cons by (auto simp: Let_def split: option.split list.split prod.split)
qed simp

lemma utf8_step_rest: "bs \<noteq> [] \<Longrightarrow> length (drop (fst (utf8_step bs)) bs) < length bs"
  using utf8_step_pos [of bs] by (cases bs) (simp_all del: utf8_step.simps)

text \<open>Validation, repair and iteration go from one sequence to the next.\<close>

function utf8_valid :: "bytes \<Rightarrow> bool" where
  "utf8_valid bs =
     (if bs = [] then True
      else if snd (utf8_step bs) then utf8_valid (drop (fst (utf8_step bs)) bs)
      else False)"
  by auto
termination by (relation "measure length") (simp_all add: utf8_step_rest del: length_drop)

declare utf8_valid.simps [simp del]

definition replacement_character :: bytes where
  "replacement_character = [0xEF, 0xBF, 0xBD]"

function from_utf8_lossy :: "bytes \<Rightarrow> bytes" where
  "from_utf8_lossy bs =
     (if bs = [] then []
      else (if snd (utf8_step bs) then take (fst (utf8_step bs)) bs else replacement_character)
           @ from_utf8_lossy (drop (fst (utf8_step bs)) bs))"
  by auto
termination by (relation "measure length") (simp_all add: utf8_step_rest del: length_drop)

declare from_utf8_lossy.simps [simp del]

text \<open>The characters of a string, each as its bytes.\<close>

function chars :: "bytes \<Rightarrow> bytes list" where
  "chars bs =
     (if bs = [] then []
      else take (fst (utf8_step bs)) bs # chars (drop (fst (utf8_step bs)) bs))"
  by auto
termination by (relation "measure length") (simp_all add: utf8_step_rest del: length_drop)

declare chars.simps [simp del]

section \<open>Validity\<close>

lemma utf8_valid_Nil [simp]: "utf8_valid []"
  by (simp add: utf8_valid.simps)

lemma takeWhile_all_prefix:
  assumes "length (takeWhile P (take k cs)) = k"
  shows "takeWhile P (take k (take k cs @ rest)) = take k cs"
proof -
  have "takeWhile P (take k cs) = take (length (takeWhile P (take k cs))) (take k cs)"
    by (rule takeWhile_eq_take)
  then have eq: "takeWhile P (take k cs) = take k cs" unfolding assms by (simp only: take_take min.idem)
  have "length (take k cs) = k" using assms unfolding eq .
  then have "take k (take k cs @ rest) = take k cs"
    by (simp only: take_append diff_self_eq_0 take_0 take_take min.idem append_Nil2)
  then show ?thesis by (simp only: eq)
qed

lemma takeWhile_all_length:
  assumes "length (takeWhile P (take k cs)) = k"
  shows "length (take k cs) = k"
proof (rule order_antisym)
  show "k \<le> length (take k cs)" using length_takeWhile_le [of P "take k cs"] unfolding assms .
qed (simp only: length_take min.cobounded2)

text \<open>A valid sequence is recognised whatever follows it.\<close>

lemma utf8_step_append:
  assumes "snd (utf8_step bs)"
  shows "utf8_step (take (fst (utf8_step bs)) bs @ rest) = utf8_step bs"
proof (cases bs)
  case (Cons b cs)
  show ?thesis
  proof (cases "b < 0x80")
    case False
    obtain n lo hi where l: "utf8_lead b = Some (n, lo, hi)"
      using assms Cons False by (auto split: option.splits list.splits)
    obtain c ds where c: "cs = c # ds"
      using assms Cons False by (auto split: option.splits list.splits)
    have r: "lo \<le> c \<and> c \<le> hi" and k: "length (takeWhile utf8_cont (take (n - 1) ds)) = n - 1"
      using assms Cons False l c by (auto simp: Let_def split: if_splits)
    have "takeWhile utf8_cont (take (n - 1) (take (n - 1) ds @ rest)) = take (n - 1) ds"
      by (rule takeWhile_all_prefix [OF k])
    moreover have "length (take (n - 1) ds) = n - 1"
      by (rule takeWhile_all_length [OF k])
    ultimately show ?thesis using Cons False l c r k by (simp add: Let_def)
  qed (simp add: Cons)
qed (use assms in simp)

lemma utf8_valid_append_step:
  assumes "snd (utf8_step bs)" and "utf8_valid rest"
  shows "utf8_valid (take (fst (utf8_step bs)) bs @ rest)"
proof -
  let ?n = "fst (utf8_step bs)"
  have "length (take ?n bs) = ?n" using utf8_step_le [of bs] by simp
  then have "drop ?n (take ?n bs @ rest) = rest" by simp
  then show ?thesis
    unfolding utf8_valid.simps [of "take ?n bs @ rest"] utf8_step_append [OF assms(1), of rest]
    using assms by simp
qed

lemma utf8_valid_replacement: "utf8_valid rest \<Longrightarrow> utf8_valid (replacement_character @ rest)"
proof -
  have "utf8_step (0xEF # 0xBF # 0xBD # rest) = (3, True)"
    by (simp add: utf8_lead_def utf8_cont_def Let_def)
  then show "utf8_valid rest \<Longrightarrow> utf8_valid (replacement_character @ rest)"
    unfolding replacement_character_def append.simps utf8_valid.simps [of "0xEF # 0xBF # 0xBD # rest"]
    by simp
qed

text \<open>A string is valid exactly when it is a concatenation of valid sequences.\<close>

lemma utf8_valid_step:
  assumes "utf8_valid bs" and "bs \<noteq> []"
  shows "snd (utf8_step bs)" "utf8_valid (drop (fst (utf8_step bs)) bs)"
  using assms by (auto simp: utf8_valid.simps [of bs] split: if_splits)

lemma take_drop_rejoin: "take n xs @ drop n xs @ ys = xs @ ys"
  by (metis append.assoc append_take_drop_id)

lemma utf8_valid_append:
  "utf8_valid as \<Longrightarrow> utf8_valid bs \<Longrightarrow> utf8_valid (as @ bs)"
proof (induction as rule: utf8_valid.induct)
  case (1 as)
  show ?case
  proof (cases "as = []")
    case False
    have s: "snd (utf8_step as)" "utf8_valid (drop (fst (utf8_step as)) as)"
      using utf8_valid_step 1(2) False by blast+
    then have "utf8_valid (drop (fst (utf8_step as)) as @ bs)" using 1 False by blast
    from utf8_valid_append_step [OF s(1) this] show ?thesis unfolding take_drop_rejoin .
  qed (use 1 in simp)
qed

lemma utf8_step_prefix:
  assumes "snd (utf8_step as)"
  shows "utf8_step (as @ bs) = utf8_step as"
  using utf8_step_append [OF assms, of "drop (fst (utf8_step as)) as @ bs"] unfolding take_drop_rejoin .

lemma utf8_valid_cancel: "utf8_valid (as @ bs) \<Longrightarrow> utf8_valid as \<Longrightarrow> utf8_valid bs"
proof (induction as rule: utf8_valid.induct)
  case (1 as)
  show ?case
  proof (cases "as = []")
    case False
    have s: "snd (utf8_step as)" "utf8_valid (drop (fst (utf8_step as)) as)"
      using utf8_valid_step 1(3) False by blast+
    have "utf8_valid (drop (fst (utf8_step (as @ bs))) (as @ bs))"
      using utf8_valid_step(2) [OF 1(2)] False by simp
    then have "utf8_valid (drop (fst (utf8_step as)) as @ bs)"
      unfolding utf8_step_prefix [OF s(1)] using utf8_step_le [of as] by simp
    then show ?thesis using 1(1) s False by blast
  qed (use 1 in simp)
qed

lemma utf8_step_ascii: "b < 0x80 \<Longrightarrow> utf8_step (b # bs) = (1, True)"
  by simp

lemma utf8_valid_ascii_Cons: "b < 0x80 \<Longrightarrow> utf8_valid (b # bs) \<longleftrightarrow> utf8_valid bs"
  by (simp add: utf8_valid.simps [of "b # bs"])

lemma utf8_valid_ascii: "list_all (\<lambda>b. b < 0x80) bs \<Longrightarrow> utf8_valid bs"
  by (induction bs) (simp_all add: utf8_valid_ascii_Cons)

text \<open>The bytes of a valid sequence after the first are continuation bytes.\<close>

lemma utf8_lead_range:
  assumes "utf8_lead b = Some (n, lo, hi)" and "lo \<le> c" and "c \<le> hi"
  shows "utf8_cont c"
proof -
  have "0x80 \<le> lo \<and> hi \<le> 0xBF" using assms(1) by (auto simp: utf8_lead_def split: if_splits)
  then show ?thesis using assms(2,3) unfolding utf8_cont_def by (meson order_trans)
qed

lemma utf8_step_conts:
  assumes "snd (utf8_step (b # bs))"
  shows "list_all utf8_cont (take (fst (utf8_step (b # bs)) - 1) bs)"
proof (cases "b < 0x80")
  case False
  obtain n lo hi where l: "utf8_lead b = Some (n, lo, hi)"
    using assms False by (auto split: option.splits list.splits)
  obtain c ds where c: "bs = c # ds"
    using assms False by (auto split: option.splits list.splits)
  have r: "lo \<le> c" "c \<le> hi" and k: "length (takeWhile utf8_cont (take (n - 1) ds)) = n - 1"
    using assms False l c by (auto simp: Let_def split: if_splits)
  have "takeWhile utf8_cont (take (n - 1) ds) = take (n - 1) ds"
    using takeWhile_eq_take [of utf8_cont "take (n - 1) ds"] unfolding k by simp
  then have "list_all utf8_cont (take (n - 1) ds)"
    unfolding list_all_iff by (metis set_takeWhileD)
  then show ?thesis using utf8_lead_range [OF l r] False l r k c by (simp add: Let_def)
qed simp

lemma not_cont_ascii: "b < 0x80 \<Longrightarrow> \<not> utf8_cont b"
  by (auto simp: utf8_cont_def)

text \<open>An ASCII byte of a valid string starts and ends a sequence.\<close>

lemma utf8_valid_split_ascii:
  "utf8_valid (as @ b # bs) \<Longrightarrow> b < 0x80 \<Longrightarrow> utf8_valid as \<and> utf8_valid bs"
proof (induction as rule: utf8_valid.induct)
  case (1 as)
  show ?case
  proof (cases as)
    case Nil
    then show ?thesis using 1 by (simp add: utf8_valid_ascii_Cons)
  next
    case (Cons a cs)
    let ?all = "as @ b # bs"
    let ?n = "fst (utf8_step ?all)"
    have s: "snd (utf8_step ?all)" "utf8_valid (drop ?n ?all)"
      using utf8_valid_step [OF 1(2)] by simp_all
    have n: "0 < ?n" using utf8_step_pos [of ?all] by simp
    have le: "?n \<le> length as"
    proof (rule ccontr)
      assume "\<not> ?n \<le> length as"
      then have "b \<in> set (take (?n - 1) (cs @ b # bs))"
        using Cons n by (auto simp: take_Cons' simp del: utf8_step.simps)
      then have "utf8_cont b" using utf8_step_conts [of a "cs @ b # bs"] s(1)
        unfolding list_all_iff Cons append.simps by blast
      then show False using not_cont_ascii 1(3) by blast
    qed
    have whole: "take ?n as @ drop ?n ?all = ?all" using le by simp
    have tk: "take ?n ?all = take ?n as" using le by simp
    have st: "utf8_step as = utf8_step ?all"
      using utf8_step_append [OF s(1), of "drop ?n as"] unfolding tk by simp
    have "utf8_valid (drop ?n as @ b # bs)" using s(2) le by simp
    then have "utf8_valid (drop ?n as) \<and> utf8_valid bs"
      using 1(1) [of] s(1) Cons 1(3) st by simp
    then show ?thesis using s(1) st by (simp add: utf8_valid.simps [of as])
  qed
qed

lemma utf8_valid_no_leading_cont: "utf8_valid (b # bs) \<Longrightarrow> \<not> utf8_cont b"
proof
  assume v: "utf8_valid (b # bs)" and c: "utf8_cont b"
  have "\<not> b < 0x80" "utf8_lead b = None"
    using c by (auto simp: utf8_cont_def utf8_lead_def word_le_nat_alt word_less_nat_alt split: if_splits)
  then show False using utf8_valid_step(1) [OF v] by (simp split: list.splits)
qed

section \<open>Repair and iteration\<close>

lemma lossy_valid: "utf8_valid (from_utf8_lossy bs)"
proof (induction bs rule: from_utf8_lossy.induct)
  case (1 bs)
  then show ?case
    using utf8_valid_append_step [of bs] utf8_valid_replacement
    by (subst from_utf8_lossy.simps) simp
qed

lemma lossy_of_valid: "utf8_valid bs \<Longrightarrow> from_utf8_lossy bs = bs"
proof (induction bs rule: from_utf8_lossy.induct)
  case (1 bs)
  then show ?case
    using utf8_valid_step [OF 1(2)] by (subst from_utf8_lossy.simps) simp
qed

lemma lossy_eq_Nil [simp]: "from_utf8_lossy bs = [] \<longleftrightarrow> bs = []"
  using utf8_step_pos [of bs] by (subst from_utf8_lossy.simps) (auto simp: replacement_character_def)

lemma concat_chars [simp]: "concat (chars bs) = bs"
proof (induction bs rule: chars.induct)
  case (1 bs)
  then show ?case by (subst chars.simps) simp
qed

end
