(* ===== verification/FourCharCode.thy ===== *)
theory FourCharCode
  imports Utf8
begin

text \<open>
  Four-character codes (\<open>src/four_char_code.rs\<close>): a 32-bit integer and its four bytes,
  most significant first. Strings are UTF-8 bytes.
\<close>

section \<open>Big-endian bytes\<close>

definition u32_from_be_bytes :: "u8 \<Rightarrow> u8 \<Rightarrow> u8 \<Rightarrow> u8 \<Rightarrow> u32" where
  [std_defs]: "u32_from_be_bytes b0 b1 b2 b3 =
     push_bit 24 (ucast b0) OR push_bit 16 (ucast b1) OR push_bit 8 (ucast b2) OR ucast b3"

definition u32_to_be_bytes :: "u32 \<Rightarrow> u8 list" where
  [std_defs]: "u32_to_be_bytes x =
     [ucast (drop_bit 24 x), ucast (drop_bit 16 x), ucast (drop_bit 8 x), ucast x]"

lemma to_from_be_bytes: "u32_to_be_bytes (u32_from_be_bytes b0 b1 b2 b3) = [b0, b1, b2, b3]"
  by (auto simp: u32_to_be_bytes_def u32_from_be_bytes_def intro!: bit_word_eqI)
    (auto simp: bit_simps dest: bit_imp_le_length)

lemma from_to_be_bytes:
  "u32_from_be_bytes (ucast (drop_bit 24 x)) (ucast (drop_bit 16 x)) (ucast (drop_bit 8 x)) (ucast x) = x"
proof (rule bit_word_eqI)
  fix n assume n: "n < LENGTH(32)"
  consider "n < 8" | "8 \<le> n" "n < 16" | "16 \<le> n" "n < 24" | "24 \<le> n" "n < 32"
    using n by fastforce
  then show "bit (u32_from_be_bytes (ucast (drop_bit 24 x)) (ucast (drop_bit 16 x))
      (ucast (drop_bit 8 x)) (ucast x)) n = bit x n"
    by cases (auto simp: u32_from_be_bytes_def bit_simps)
qed

section \<open>Operations\<close>

datatype four_char_code = FourCharCode u32

definition fcc_from_bytes :: "u8 \<Rightarrow> u8 \<Rightarrow> u8 \<Rightarrow> u8 \<Rightarrow> four_char_code" where
  "fcc_from_bytes b0 b1 b2 b3 = FourCharCode (u32_from_be_bytes b0 b1 b2 b3)"

definition fcc_from_slice :: "bytes \<Rightarrow> four_char_code option" where
  "fcc_from_slice bs =
     (if length bs \<noteq> 4 then None
      else Some (FourCharCode (u32_from_be_bytes (bs ! 0) (bs ! 1) (bs ! 2) (bs ! 3))))"

fun fcc_as_u32 :: "four_char_code \<Rightarrow> u32" where
  "fcc_as_u32 (FourCharCode x) = x"

definition fcc_as_bytes :: "four_char_code \<Rightarrow> u8 list" where
  "fcc_as_bytes c = u32_to_be_bytes (fcc_as_u32 c)"

definition fcc_from_u32 :: "u32 \<Rightarrow> four_char_code" where
  "fcc_from_u32 x = FourCharCode x"

definition fcc_equals :: "four_char_code \<Rightarrow> four_char_code \<Rightarrow> bool" where
  "fcc_equals c d \<longleftrightarrow> fcc_as_u32 c = fcc_as_u32 d"

definition fcc_display :: "four_char_code \<Rightarrow> bytes" where
  "fcc_display c = from_utf8_lossy (u32_to_be_bytes (fcc_as_u32 c))"

text \<open>\<open>str::is_ascii\<close>.\<close>

definition is_ascii :: "bytes \<Rightarrow> bool" where
  [std_defs]: "is_ascii bs \<longleftrightarrow> list_all (\<lambda>b. b < 0x80) bs"

definition fcc_from_str :: "bytes \<Rightarrow> string + four_char_code" where
  "fcc_from_str s =
     (if length s \<noteq> 4 then Inl ''FourCharCode must be exactly 4 characters''
      else if \<not> is_ascii s then Inl ''FourCharCode must contain only ASCII characters''
      else Inr (FourCharCode (u32_from_be_bytes (s ! 0) (s ! 1) (s ! 2) (s ! 3))))"

section \<open>Properties\<close>

lemma list4_cases: assumes "length xs = 4" obtains a b c d where "xs = [a, b, c, d]"
  using assms by (auto simp: numeral_eq_Suc length_Suc_conv)

lemma list4_nth: "length xs = 4 \<Longrightarrow> [xs ! 0, xs ! 1, xs ! 2, xs ! 3] = xs"
  by (erule list4_cases) simp

lemma fcc_slice_bytes: "length bs = 4 \<Longrightarrow> fcc_from_slice bs = Some c \<longleftrightarrow> fcc_as_bytes c = bs"
proof -
  assume l: "length bs = 4"
  obtain x where c: "c = FourCharCode x" by (cases c)
  obtain b0 b1 b2 b3 where bs: "bs = [b0, b1, b2, b3]" using l by (rule list4_cases)
  show ?thesis
  proof
    assume "fcc_from_slice bs = Some c"
    then show "fcc_as_bytes c = bs"
      by (auto simp: bs fcc_from_slice_def fcc_as_bytes_def to_from_be_bytes)
  next
    assume "fcc_as_bytes c = bs"
    then have "b0 = ucast (drop_bit 24 x)" "b1 = ucast (drop_bit 16 x)" "b2 = ucast (drop_bit 8 x)" "b3 = ucast x"
      by (simp_all add: bs c fcc_as_bytes_def u32_to_be_bytes_def)
    then show "fcc_from_slice bs = Some c"
      by (simp add: bs c fcc_from_slice_def from_to_be_bytes)
  qed
qed

text \<open>
  The bytes of a code and the code of four bytes are inverse to each other: every code
  has four bytes, which give the code back, and four bytes have exactly one code; no other
  slice has one. Codes are equal when their integers are, and the integer of a code gives it
  back.
\<close>

theorem fcc_bytes_roundtrip:
  "fcc_from_slice (fcc_as_bytes c) = Some c
   \<and> fcc_as_bytes (fcc_from_bytes b0 b1 b2 b3) = [b0, b1, b2, b3]
   \<and> (fcc_from_slice bs = None \<longleftrightarrow> length bs \<noteq> 4)
   \<and> fcc_from_u32 (fcc_as_u32 c) = c \<and> (fcc_equals c d \<longleftrightarrow> c = d)"
proof -
  have "length (fcc_as_bytes c) = 4" by (simp add: fcc_as_bytes_def u32_to_be_bytes_def)
  then have "fcc_from_slice (fcc_as_bytes c) = Some c" by (simp add: fcc_slice_bytes)
  moreover have "fcc_as_bytes (fcc_from_bytes b0 b1 b2 b3) = [b0, b1, b2, b3]"
    by (simp add: fcc_as_bytes_def fcc_from_bytes_def to_from_be_bytes)
  moreover have "fcc_from_slice bs = None \<longleftrightarrow> length bs \<noteq> 4" by (simp add: fcc_from_slice_def)
  moreover have "fcc_from_u32 (fcc_as_u32 c) = c \<and> (fcc_equals c d \<longleftrightarrow> c = d)"
    by (cases c; cases d) (simp add: fcc_from_u32_def fcc_equals_def)
  ultimately show ?thesis by blast
qed

lemma fcc_from_str_Inr:
  "fcc_from_str s = Inr c \<longleftrightarrow> length s = 4 \<and> is_ascii s \<and> fcc_as_bytes c = s"
proof -
  have "fcc_from_str s = Inr c \<longleftrightarrow> length s = 4 \<and> is_ascii s \<and> fcc_from_slice s = Some c"
    by (auto simp: fcc_from_str_def fcc_from_slice_def)
  then show ?thesis using fcc_slice_bytes by blast
qed

text \<open>
  Parsing a text and displaying the code gives the text back, and a code whose display
  parses is the parsed one. The text of every code is valid UTF-8, and parses exactly when
  all bytes of the code are ASCII.
\<close>

theorem fcc_text_roundtrip:
  "(fcc_from_str s = Inr c \<longleftrightarrow> is_ascii (fcc_as_bytes c) \<and> fcc_display c = s)
   \<and> utf8_valid (fcc_display c)"
proof -
  have l: "length (fcc_as_bytes c) = 4" by (simp add: fcc_as_bytes_def u32_to_be_bytes_def)
  have d: "fcc_display c = from_utf8_lossy (fcc_as_bytes c)"
    by (simp add: fcc_display_def fcc_as_bytes_def)
  have "is_ascii (fcc_as_bytes c) \<Longrightarrow> fcc_display c = fcc_as_bytes c"
    unfolding d is_ascii_def by (intro lossy_of_valid utf8_valid_ascii)
  then have "fcc_from_str s = Inr c \<longleftrightarrow> is_ascii (fcc_as_bytes c) \<and> fcc_display c = s"
    unfolding fcc_from_str_Inr using l by metis
  then show ?thesis unfolding d using lossy_valid by blast
qed

end
