(* ===== verification/FfiString.thy ===== *)
theory FfiString
  imports Utf8
begin

text \<open>
  Strings of C (\<open>src/ffi_string.rs\<close>): a text that a foreign function writes into a buffer,
  and a text it allocates, which is copied and freed. A foreign call is a parameter: of the
  buffer functions it maps the buffer it is given and the length it is told to the buffer it
  leaves and whether it succeeded; of the owning functions it acts on a world, in which
  \<open>cstr w p\<close> are the bytes before the terminator at pointer \<open>p\<close> (\<open>None\<close> where there is no live
  terminated string: reading it is undefined behaviour). The null pointer is 0. A byte is the
  same value as \<open>i8\<close> and as \<open>u8\<close>.
\<close>

section \<open>Buffers\<close>

definition STACK_BUFFER_BYTES :: nat where
  "STACK_BUFFER_BYTES = 256"

definition isize_max :: nat where
  "isize_max = 2 ^ 63 - 1"

text \<open>\<open>Iterator::position\<close>.\<close>

fun position :: "('a \<Rightarrow> bool) \<Rightarrow> 'a list \<Rightarrow> nat option" where
  "position P [] = None"
| "position P (x # xs) = (if P x then Some 0 else map_option Suc (position P xs))"

definition parse_buffer :: "bytes \<Rightarrow> bytes option" where
  "parse_buffer buffer =
     (case position (\<lambda>b. b = 0) buffer of
        None \<Rightarrow> None
      | Some nul_pos \<Rightarrow>
          (let s = from_utf8_lossy (take nul_pos buffer) in if s = [] then None else Some s))"

text \<open>\<open>vec![0; n]\<close>, which panics for a size above \<open>isize::MAX\<close>.\<close>

definition vec_zeroed :: "nat \<Rightarrow> bytes run" where
  [std_defs]: "vec_zeroed n =
     (if n \<le> isize_max then Ret (replicate n 0) else Panic ''capacity overflow'')"

definition ffi_string_from_buffer :: "nat \<Rightarrow> (bytes \<Rightarrow> nat \<Rightarrow> bytes \<times> bool) \<Rightarrow> bytes option run" where
  "ffi_string_from_buffer buffer_size ffi_call =
     (if buffer_size \<le> STACK_BUFFER_BYTES
      then (case ffi_call (replicate STACK_BUFFER_BYTES 0) buffer_size of
              (buffer, success) \<Rightarrow>
                Ret (if \<not> success then None else parse_buffer (take buffer_size buffer)))
      else run_bind (vec_zeroed buffer_size) (\<lambda>buffer0.
             case ffi_call buffer0 (length buffer0) of
               (buffer, success) \<Rightarrow> Ret (if \<not> success then None else parse_buffer buffer)))"

definition unwrap_or_default :: "bytes option \<Rightarrow> bytes" where
  [std_defs]: "unwrap_or_default r = (case r of Some s \<Rightarrow> s | None \<Rightarrow> [])"

definition ffi_string_from_buffer_or_empty :: "nat \<Rightarrow> (bytes \<Rightarrow> nat \<Rightarrow> bytes \<times> bool) \<Rightarrow> bytes run" where
  "ffi_string_from_buffer_or_empty buffer_size ffi_call =
     run_map unwrap_or_default (ffi_string_from_buffer buffer_size ffi_call)"

section \<open>Owned strings\<close>

text \<open>\<open>CStr::from_ptr(ptr).to_bytes()\<close>.\<close>

definition cstr_bytes :: "('s \<Rightarrow> nat \<Rightarrow> bytes option) \<Rightarrow> nat \<Rightarrow> 's \<Rightarrow> bytes run" where
  [std_defs]: "cstr_bytes cstr ptr w = (case cstr w ptr of Some bs \<Rightarrow> Ret bs | None \<Rightarrow> UB)"

text \<open>The guard of \<open>ffi_string_owned\<close>: its pointer, and the function until it was called.\<close>

record 's free_guard =
  fg_ptr :: nat
  fg_free_fn :: "(nat \<Rightarrow> 's \<Rightarrow> 's) option"

definition fg_drop :: "'s free_guard \<Rightarrow> 's \<Rightarrow> 's" where
  "fg_drop g w =
     (if fg_ptr g \<noteq> 0 then (case fg_free_fn g of Some free \<Rightarrow> free (fg_ptr g) w | None \<Rightarrow> w) else w)"

definition ffi_string_owned :: "('s \<Rightarrow> nat \<Rightarrow> bytes option) \<Rightarrow> ('s \<Rightarrow> 's \<times> nat) \<Rightarrow> (nat \<Rightarrow> 's \<Rightarrow> 's)
    \<Rightarrow> 's \<Rightarrow> ('s \<times> bytes option) run" where
  "ffi_string_owned cstr ffi_call free_fn w =
     (case ffi_call w of (w1, ptr) \<Rightarrow>
        (if ptr = 0 then Ret (w1, None)
         else (let guard = \<lparr>fg_ptr = ptr, fg_free_fn = Some free_fn\<rparr>
               in run_bind (cstr_bytes cstr ptr w1) (\<lambda>bs.
                    if bs = [] then Ret (fg_drop guard w1, None)
                    else Ret (fg_drop guard w1, Some (from_utf8_lossy bs))))))"

definition ffi_string_owned_or_empty :: "('s \<Rightarrow> nat \<Rightarrow> bytes option) \<Rightarrow> ('s \<Rightarrow> 's \<times> nat)
    \<Rightarrow> (nat \<Rightarrow> 's \<Rightarrow> 's) \<Rightarrow> 's \<Rightarrow> ('s \<times> bytes) run" where
  "ffi_string_owned_or_empty cstr ffi_call free_fn w =
     run_map (\<lambda>(w', r). (w', unwrap_or_default r)) (ffi_string_owned cstr ffi_call free_fn w)"

definition take_owned_cstring :: "('s \<Rightarrow> nat \<Rightarrow> bytes option) \<Rightarrow> nat \<Rightarrow> (nat \<Rightarrow> 's \<Rightarrow> 's)
    \<Rightarrow> 's \<Rightarrow> ('s \<times> bytes option) run" where
  "take_owned_cstring cstr ptr free_fn w =
     (if ptr = 0 then Ret (w, None) else ffi_string_owned cstr (\<lambda>w. (w, ptr)) free_fn w)"

definition take_owned_cstring_c :: "('s \<Rightarrow> nat \<Rightarrow> bytes option) \<Rightarrow> nat \<Rightarrow> (nat \<Rightarrow> 's \<Rightarrow> 's)
    \<Rightarrow> 's \<Rightarrow> ('s \<times> bytes option) run" where
  "take_owned_cstring_c cstr ptr free_fn w =
     (if ptr = 0 then Ret (w, None)
      else run_bind (cstr_bytes cstr ptr w) (\<lambda>bs.
             let w' = free_fn ptr w
             in Ret (w', if bs = [] then None else Some (from_utf8_lossy bs))))"

section \<open>The text in a buffer\<close>

definition c_text :: "bytes \<Rightarrow> bytes" where
  "c_text bs = takeWhile (\<lambda>b. b \<noteq> 0) bs"

lemma position_eq:
  "position P xs = (if list_ex P xs then Some (length (takeWhile (\<lambda>x. \<not> P x) xs)) else None)"
  by (induction xs) auto

lemma parse_buffer_eq:
  "parse_buffer buffer =
     (if 0 \<in> set buffer \<and> c_text buffer \<noteq> [] then Some (from_utf8_lossy (c_text buffer)) else None)"
proof -
  have "list_ex (\<lambda>b. b = 0) buffer \<longleftrightarrow> 0 \<in> set buffer" by (auto simp: list_ex_iff)
  moreover have "take (length (c_text buffer)) buffer = c_text buffer"
    unfolding c_text_def by (rule takeWhile_eq_take [symmetric])
  ultimately show ?thesis
    by (simp add: parse_buffer_def position_eq c_text_def Let_def del: takeWhile_eq_Nil_iff)
qed

text \<open>A foreign function that writes some bytes to the start of the buffer.\<close>

definition writes :: "bytes \<Rightarrow> bool \<Rightarrow> bytes \<Rightarrow> nat \<Rightarrow> bytes \<times> bool" where
  "writes ys ok buffer len = (ys @ drop (length ys) buffer, ok)"

lemma c_text_zeros [simp]: "c_text (ys @ replicate k 0) = c_text ys"
proof -
  have "takeWhile (\<lambda>b. b \<noteq> (0::u8)) (replicate k 0) = []" by (cases k) simp_all
  then show ?thesis unfolding c_text_def by (induction ys) simp_all
qed

lemma buffer_writes:
  assumes "length ys \<le> n" and "n \<le> isize_max"
  shows "ffi_string_from_buffer n (writes ys ok) =
    Ret (if ok then parse_buffer (ys @ replicate (n - length ys) 0) else None)"
proof (cases "n \<le> STACK_BUFFER_BYTES")
  case True
  then have "take n (ys @ drop (length ys) (replicate STACK_BUFFER_BYTES 0))
      = ys @ replicate (n - length ys) 0"
    using assms(1) by (simp add: min_def)
  then show ?thesis using True by (simp add: ffi_string_from_buffer_def writes_def)
next
  case False
  then show ?thesis using assms by (simp add: ffi_string_from_buffer_def writes_def vec_zeroed_def)
qed

text \<open>
  C37. When a successful foreign call wrote some bytes within the length it was told, the
  result is the text before the first terminator, with invalid UTF-8 replaced, on the stack
  and on the heap alike; it is \<open>None\<close> when this text is empty or the buffer was filled
  without a terminator, or the call failed. A result is valid UTF-8 and never empty.
\<close>

theorem ffi_buffer_text:
  assumes "length ys \<le> n" and "n \<le> isize_max"
  shows "ffi_string_from_buffer n (writes ys ok) =
      Ret (if ok \<and> c_text ys \<noteq> [] \<and> (0 \<in> set ys \<or> length ys < n)
           then Some (from_utf8_lossy (c_text ys)) else None)
    \<and> utf8_valid (from_utf8_lossy (c_text ys))
    \<and> (from_utf8_lossy (c_text ys) = [] \<longleftrightarrow> c_text ys = [])"
proof -
  have "0 \<in> set (ys @ replicate (n - length ys) 0) \<longleftrightarrow> 0 \<in> set ys \<or> length ys < n"
    using assms(1) by auto
  then show ?thesis
    by (simp add: buffer_writes [OF assms] parse_buffer_eq lossy_valid del: set_append)
qed

text \<open>The call wrote \<open>Hi\<close>, a byte that is not UTF-8 and the terminator; and a full buffer.\<close>

theorem ffi_buffer_text_witness:
  "ffi_string_from_buffer 300 (writes [72, 105, 0xFF, 0, 7] True)
     = Ret (Some (from_utf8_lossy [72, 105, 0xFF]))
   \<and> ffi_string_from_buffer 2 (writes [72, 105] True) = Ret None"
proof -
  have "length [72, 105, 0xFF, 0, 7 :: u8] \<le> 300" "(300::nat) \<le> isize_max"
    "length [72, 105 :: u8] \<le> 2" "(2::nat) \<le> isize_max"
    by (simp_all add: isize_max_def)
  from ffi_buffer_text [OF this(1,2), of True] ffi_buffer_text [OF this(3,4), of True]
  show ?thesis by (simp add: c_text_def)
qed

section \<open>Owned strings are freed once\<close>

text \<open>A world of C strings: those allocated and not freed, and the frees so far.\<close>

record c_world =
  cw_strings :: "nat \<Rightarrow> bytes option"
  cw_freed :: "nat list"

definition cw_free :: "nat \<Rightarrow> c_world \<Rightarrow> c_world" where
  "cw_free p w = w\<lparr>cw_strings := (cw_strings w)(p := None), cw_freed := cw_freed w @ [p]\<rparr>"

definition cw_alloc :: "nat \<Rightarrow> bytes \<Rightarrow> c_world \<Rightarrow> c_world \<times> nat" where
  "cw_alloc p bs w = (w\<lparr>cw_strings := (cw_strings w)(p \<mapsto> bs)\<rparr>, p)"

text \<open>
  The two functions that take over a C string are the same function, whatever \<open>free_fn\<close>
  does: the early free of the second one is after its last read.
\<close>

theorem take_owned_agree:
  "take_owned_cstring cstr ptr free_fn w = take_owned_cstring_c cstr ptr free_fn w"
  by (cases "cstr w ptr")
    (simp_all add: take_owned_cstring_def take_owned_cstring_c_def ffi_string_owned_def cstr_bytes_def
      fg_drop_def Let_def)

text \<open>
  A string that a foreign function allocated comes back as its text, with invalid UTF-8
  replaced, and its pointer is freed exactly once, the empty string too; a null pointer is
  not freed; a second take of the pointer is undefined behaviour.
\<close>

theorem ffi_owned_freed_once:
  assumes "p \<noteq> 0"
  shows "ffi_string_owned cw_strings (cw_alloc p bs) cw_free w =
      Ret (cw_free p (fst (cw_alloc p bs w)), if bs = [] then None else Some (from_utf8_lossy bs))
    \<and> ffi_string_owned cw_strings (\<lambda>w. (w, 0)) cw_free w = Ret (w, None)
    \<and> take_owned_cstring cw_strings p cw_free (cw_free p w) = UB"
  using assms
  by (simp add: ffi_string_owned_def take_owned_cstring_def cw_alloc_def cw_free_def cstr_bytes_def
    fg_drop_def Let_def)

theorem ffi_owned_freed_once_witness:
  "ffi_string_owned cw_strings (cw_alloc 8 [104, 105]) cw_free \<lparr>cw_strings = Map.empty, cw_freed = []\<rparr>
     = Ret (\<lparr>cw_strings = Map.empty, cw_freed = [8]\<rparr>, Some (from_utf8_lossy [104, 105]))"
  using ffi_owned_freed_once [of 8 "[104, 105]" "\<lparr>cw_strings = Map.empty, cw_freed = []\<rparr>"]
  by (simp add: cw_alloc_def cw_free_def)

end
