(* ===== verification/PanicSafe.thy ===== *)
theory PanicSafe
  imports Prelude
begin

text \<open>
  Containment of panics at the boundary to C (\<open>src/panic_safe.rs\<close>). A piece of user code is a
  function on an environment with the standard error stream, the panic payloads destroyed and
  leaked so far and a state of its own; it returns, unwinds with a payload or aborts the
  process (as a panic while unwinding does). Destroying a payload runs a destructor of user
  code, which may itself unwind with a further payload, or abort.
\<close>

section \<open>Panics\<close>

datatype payload = StrPayload string | StringPayload string | OtherPayload nat destructor
  and destructor = DropsCleanly | DropUnwinds payload | DropAborts

datatype 'a outcome = Done 'a | Unwind payload | Abort

record 'u env =
  pe_stderr_open :: bool
  pe_stderr :: "string list"
  pe_dropped :: "payload list"
  pe_forgotten :: "payload list"
  pe_user :: 'u

type_synonym ('u, 'a) code = "'u env \<Rightarrow> 'u env \<times> 'a outcome"

definition code_return :: "'a \<Rightarrow> ('u, 'a) code" where
  "code_return x w = (w, Done x)"

definition code_bind :: "('u, 'a) code \<Rightarrow> ('a \<Rightarrow> ('u, 'b) code) \<Rightarrow> ('u, 'b) code" where
  "code_bind c f w =
     (case c w of
        (w', Done x) \<Rightarrow> f x w'
      | (w', Unwind p) \<Rightarrow> (w', Unwind p)
      | (w', Abort) \<Rightarrow> (w', Abort))"

text \<open>\<open>std::panic::catch_unwind\<close>, the destruction of a payload, \<open>mem::forget\<close> and \<open>eprintln!\<close>.\<close>

definition catch_unwind :: "('u, 'a) code \<Rightarrow> ('u, payload + 'a) code" where
  [std_defs]: "catch_unwind c w =
     (case c w of
        (w', Done x) \<Rightarrow> (w', Done (Inr x))
      | (w', Unwind p) \<Rightarrow> (w', Done (Inl p))
      | (w', Abort) \<Rightarrow> (w', Abort))"

fun drop_outcome :: "payload \<Rightarrow> unit outcome" where
  "drop_outcome (OtherPayload i (DropUnwinds q)) = Unwind q"
| "drop_outcome (OtherPayload i DropAborts) = Abort"
| "drop_outcome p = Done ()"

definition drop_payload :: "payload \<Rightarrow> ('u, unit) code" where
  [std_defs]: "drop_payload p w = (w\<lparr>pe_dropped := pe_dropped w @ [p]\<rparr>, drop_outcome p)"

definition forget_payload :: "payload \<Rightarrow> ('u, unit) code" where
  [std_defs]: "forget_payload p w = (w\<lparr>pe_forgotten := pe_forgotten w @ [p]\<rparr>, Done ())"

definition eprintln :: "string \<Rightarrow> ('u, unit) code" where
  [std_defs]: "eprintln line w =
     (if pe_stderr_open w then (w\<lparr>pe_stderr := pe_stderr w @ [line]\<rparr>, Done ())
      else (w, Unwind (StringPayload ''failed printing to stderr'')))"

section \<open>The helpers\<close>

definition drop_payload_best_effort :: "payload \<Rightarrow> ('u, unit) code" where
  "drop_payload_best_effort p =
     code_bind (catch_unwind (drop_payload p)) (\<lambda>r. case r of
        Inl undroppable \<Rightarrow> forget_payload undroppable
      | Inr _ \<Rightarrow> code_return ())"

fun panic_message :: "payload \<Rightarrow> string" where
  "panic_message (StrPayload m) = m"
| "panic_message (StringPayload m) = m"
| "panic_message (OtherPayload i d) = ''<non-string panic payload>''"

definition panic_line :: "string \<Rightarrow> payload \<Rightarrow> string" where
  "panic_line site p = ''doom-fish-utils: panic in '' @ site @ '' caught at C ABI boundary: '' @ panic_message p"

definition log_callback_panic :: "string \<Rightarrow> payload \<Rightarrow> ('u, unit) code" where
  "log_callback_panic site p =
     code_bind (catch_unwind (eprintln (panic_line site p))) (\<lambda>r. case r of
        Inl q \<Rightarrow> drop_payload_best_effort q
      | Inr _ \<Rightarrow> code_return ())"

definition catch_user_panic_result :: "string \<Rightarrow> ('u, 'r) code \<Rightarrow> ('u, 'r option) code" where
  "catch_user_panic_result site f =
     code_bind
       (catch_unwind
         (code_bind (catch_unwind f) (\<lambda>r. case r of
            Inr result \<Rightarrow> code_return (Some result)
          | Inl p \<Rightarrow> code_bind (log_callback_panic site p) (\<lambda>_.
                     code_bind (drop_payload p) (\<lambda>_. code_return None)))))
       (\<lambda>r. case r of
          Inr result \<Rightarrow> code_return result
        | Inl p \<Rightarrow> code_bind (log_callback_panic site p) (\<lambda>_.
                   code_bind (drop_payload_best_effort p) (\<lambda>_. code_return None)))"

definition catch_user_panic :: "string \<Rightarrow> ('u, unit) code \<Rightarrow> ('u, unit) code" where
  "catch_user_panic site f = code_bind (catch_user_panic_result site f) (\<lambda>_. code_return ())"

text \<open>
  The bodies of the callback and of the cleanup, and the destructors of the two closures, of
  the state and of a result.
\<close>

definition catch_user_panic_result_with_cleanup :: "string \<Rightarrow> ('u, 'r) code \<Rightarrow> ('u, unit) code
    \<Rightarrow> ('u, unit) code \<Rightarrow> ('u, unit) code \<Rightarrow> ('u, unit) code \<Rightarrow> ('r \<Rightarrow> ('u, unit) code)
    \<Rightarrow> ('u, 'r option) code" where
  "catch_user_panic_result_with_cleanup site f cleanup drop_f drop_cleanup drop_state drop_result =
     code_bind (catch_user_panic_result site f) (\<lambda>callback_result.
     code_bind (catch_user_panic_result site cleanup) (\<lambda>cleanup_succeeded.
     code_bind (catch_user_panic_result site drop_f) (\<lambda>callback_drop_succeeded.
     code_bind (catch_user_panic_result site drop_cleanup) (\<lambda>cleanup_drop_succeeded.
     code_bind (catch_user_panic_result site drop_state) (\<lambda>state_drop_succeeded.
       if callback_drop_succeeded \<noteq> None \<and> cleanup_succeeded \<noteq> None
          \<and> cleanup_drop_succeeded \<noteq> None \<and> state_drop_succeeded \<noteq> None
       then code_return callback_result
       else (case callback_result of
           Some result \<Rightarrow>
             code_bind (catch_user_panic site (drop_result result)) (\<lambda>_. code_return None)
         | None \<Rightarrow> code_return None))))))"

section \<open>A contained panic\<close>

text \<open>A payload, and the payloads that its destruction and theirs unwind with.\<close>

fun payload_chain :: "payload \<Rightarrow> payload list" where
  "payload_chain (OtherPayload i (DropUnwinds q)) = OtherPayload i (DropUnwinds q) # payload_chain q"
| "payload_chain p = [p]"

text \<open>The two payloads that are destroyed do not abort.\<close>

definition containable :: "payload \<Rightarrow> bool" where
  "containable p \<longleftrightarrow> list_all (\<lambda>q. drop_outcome q \<noteq> Abort) (take 2 (payload_chain p))"

lemmas code_defs = code_return_def code_bind_def catch_unwind_def drop_payload_def forget_payload_def
  eprintln_def

lemma drop_best_effort_eq:
  "drop_payload_best_effort p w =
     (case drop_outcome p of
        Done _ \<Rightarrow> (w\<lparr>pe_dropped := pe_dropped w @ [p]\<rparr>, Done ())
      | Unwind q \<Rightarrow> (w\<lparr>pe_dropped := pe_dropped w @ [p], pe_forgotten := pe_forgotten w @ [q]\<rparr>, Done ())
      | Abort \<Rightarrow> (w\<lparr>pe_dropped := pe_dropped w @ [p]\<rparr>, Abort))"
  by (cases "drop_outcome p") (simp_all add: drop_payload_best_effort_def code_defs)

text \<open>The log never unwinds and never aborts.\<close>

definition logged :: "string \<Rightarrow> payload \<Rightarrow> 'u env \<Rightarrow> 'u env" where
  "logged site p w =
     (if pe_stderr_open w then w\<lparr>pe_stderr := pe_stderr w @ [panic_line site p]\<rparr>
      else w\<lparr>pe_dropped := pe_dropped w @ [StringPayload ''failed printing to stderr'']\<rparr>)"

lemma log_callback_panic_eq: "log_callback_panic site p w = (logged site p w, Done ())"
  by (simp add: log_callback_panic_def logged_def drop_best_effort_eq code_defs)

text \<open>What is left of a panic with payload \<open>p\<close>.\<close>

definition contain :: "string \<Rightarrow> payload \<Rightarrow> 'u env \<Rightarrow> 'u env \<times> 'r option outcome" where
  "contain site p w =
     (let w1 = logged site p w; w2 = w1\<lparr>pe_dropped := pe_dropped w1 @ [p]\<rparr>
      in case drop_outcome p of
           Done _ \<Rightarrow> (w2, Done None)
         | Abort \<Rightarrow> (w2, Abort)
         | Unwind q \<Rightarrow>
             (case drop_payload_best_effort q (logged site q w2) of
                (w3, Done _) \<Rightarrow> (w3, Done None)
              | (w3, _) \<Rightarrow> (w3, Abort)))"

lemma catch_user_panic_result_eq:
  "catch_user_panic_result site f w =
     (case f w of
        (w', Done x) \<Rightarrow> (w', Done (Some x))
      | (w', Unwind p) \<Rightarrow> contain site p w'
      | (w', Abort) \<Rightarrow> (w', Abort))"
proof (cases "f w")
  case (Pair w' r)
  show ?thesis
  proof (cases r)
    case (Unwind p)
    show ?thesis
    proof (cases "drop_outcome p")
      case u: (Unwind q)
      then show ?thesis using Pair Unwind
        by (cases "drop_outcome q")
          (simp_all add: catch_user_panic_result_def contain_def code_bind_def catch_unwind_def
            code_return_def drop_payload_def log_callback_panic_eq drop_best_effort_eq Let_def)
    qed (simp_all add: Pair Unwind catch_user_panic_result_def contain_def code_bind_def catch_unwind_def
        code_return_def drop_payload_def log_callback_panic_eq Let_def)
  qed (simp_all add: Pair catch_user_panic_result_def code_defs)
qed

lemma logged_user [simp]: "pe_user (logged site p w) = pe_user w"
  by (simp add: logged_def)

lemma logged_update [simp]:
  "pe_stderr_open w \<Longrightarrow> logged site p w = w\<lparr>pe_stderr := pe_stderr w @ [panic_line site p]\<rparr>"
  by (simp add: logged_def)

lemma contain_user: "pe_user (fst (contain site p w)) = pe_user w"
  by (auto simp: contain_def drop_best_effort_eq Let_def split: outcome.split prod.split)

lemma contain_outcome:
  "snd (contain site p w) = (if containable p then Done None else Abort)"
proof (cases "drop_outcome p")
  case (Unwind q)
  then obtain i where "p = OtherPayload i (DropUnwinds q)"
    by (cases p rule: drop_outcome.cases) auto
  then show ?thesis
    by (cases q rule: payload_chain.cases)
      (auto simp: contain_def containable_def drop_best_effort_eq Let_def numeral_2_eq_2)
next
  case (Done u)
  then have "payload_chain p = [p]" by (cases p rule: drop_outcome.cases) auto
  then show ?thesis using Done by (simp add: contain_def containable_def Let_def)
next
  case Abort
  then have "payload_chain p = [p]" by (cases p rule: drop_outcome.cases) auto
  then show ?thesis using Abort by (simp add: contain_def containable_def Let_def)
qed

text \<open>The state of the user code after a panic is the one it left.\<close>

lemma panic_user: "pe_user (fst (catch_user_panic_result site f w)) = pe_user (fst (f w))"
  by (auto simp: catch_user_panic_result_eq contain_user split: prod.split outcome.split)

lemma catch_user: "pe_user (fst (catch_user_panic site f w)) = pe_user (fst (f w))"
  using panic_user [of site f w]
  by (auto simp: catch_user_panic_def code_bind_def code_return_def split: prod.split outcome.split)

lemma payload_chain_take:
  "take 1 (payload_chain p) = [p]"
  by (cases p rule: payload_chain.cases) simp_all

text \<open>
  C25. No panic leaves the boundary: the result of \<open>catch_user_panic_result\<close> is the value of the
  user code, or \<open>None\<close> after a panic whose payloads can be destroyed, and otherwise the process
  is aborted; nothing else of the state of the user code changes after its panic.
\<close>

theorem panic_never_escapes:
  "snd (catch_user_panic_result site f w) =
     (case snd (f w) of
        Done x \<Rightarrow> Done (Some x)
      | Unwind p \<Rightarrow> if containable p then Done None else Abort
      | Abort \<Rightarrow> Abort)
   \<and> pe_user (fst (catch_user_panic_result site f w)) = pe_user (fst (f w))"
  by (auto simp: catch_user_panic_result_eq contain_outcome contain_user
      split: prod.split outcome.split)

text \<open>
  C26. Each payload of a contained panic is destroyed or leaked once: the payload and the one
  its destruction unwinds with are reported in this order and destroyed, a third one is
  leaked without a report.
\<close>

theorem panic_payloads_destroyed_once:
  assumes "f w = (w', Unwind p)" and "pe_stderr_open w'" and "containable p"
  shows "catch_user_panic_result site f w =
    (w'\<lparr>pe_stderr := pe_stderr w' @ map (panic_line site) (take 2 (payload_chain p)),
        pe_dropped := pe_dropped w' @ take 2 (payload_chain p),
        pe_forgotten := pe_forgotten w' @ take 1 (drop 2 (payload_chain p))\<rparr>, Done None)"
proof (cases "drop_outcome p")
  case (Unwind q)
  then obtain i where p: "p = OtherPayload i (DropUnwinds q)"
    by (cases p rule: drop_outcome.cases) auto
  show ?thesis using assms
    by (cases q rule: payload_chain.cases)
      (auto simp: p catch_user_panic_result_eq contain_def containable_def drop_best_effort_eq Let_def
        numeral_2_eq_2 payload_chain_take [simplified])
next
  case (Done u)
  then have "payload_chain p = [p]" by (cases p rule: drop_outcome.cases) auto
  then show ?thesis using Done assms by (simp add: catch_user_panic_result_eq contain_def Let_def)
next
  case Abort
  then have "payload_chain p = [p]" by (cases p rule: drop_outcome.cases) auto
  then show ?thesis using Abort assms(3) by (simp add: containable_def)
qed

definition nested_payload :: payload where
  "nested_payload = OtherPayload 1 (DropUnwinds (OtherPayload 2 (DropUnwinds (StrPayload ''inner''))))"

definition empty_env :: "'u \<Rightarrow> 'u env" where
  "empty_env u = \<lparr>pe_stderr_open = True, pe_stderr = [], pe_dropped = [], pe_forgotten = [], pe_user = u\<rparr>"

theorem panic_payloads_destroyed_once_witness:
  "catch_user_panic_result ''cb'' (\<lambda>w. (w, Unwind nested_payload)) (empty_env ()) =
    (empty_env ()\<lparr>pe_stderr := [panic_line ''cb'' nested_payload,
          panic_line ''cb'' (OtherPayload 2 (DropUnwinds (StrPayload ''inner'')))],
        pe_dropped := [nested_payload, OtherPayload 2 (DropUnwinds (StrPayload ''inner''))],
        pe_forgotten := [StrPayload ''inner'']\<rparr>, Done None)"
proof -
  have "containable nested_payload" by (simp add: containable_def nested_payload_def)
  then show ?thesis
    using panic_payloads_destroyed_once [of "\<lambda>w. (w, Unwind nested_payload)" "empty_env ()" _ nested_payload "''cb''"]
    by (simp add: empty_env_def nested_payload_def)
qed

section \<open>The phases of a callback with cleanup\<close>

text \<open>A phase leaves its name in the state and has the given outcome.\<close>

definition phase :: "string \<Rightarrow> 'a outcome \<Rightarrow> (string list, 'a) code" where
  "phase name r w = (w\<lparr>pe_user := pe_user w @ [name]\<rparr>, r)"

fun harmless :: "'a outcome \<Rightarrow> bool" where
  "harmless (Done x) \<longleftrightarrow> True"
| "harmless (Unwind p) \<longleftrightarrow> containable p"
| "harmless Abort \<longleftrightarrow> False"

fun completed :: "'a outcome \<Rightarrow> 'a option" where
  "completed (Done x) = Some x"
| "completed (Unwind p) = None"
| "completed Abort = None"

lemma catch_phase:
  assumes "harmless r"
  obtains w' where "catch_user_panic_result site (phase name r) w = (w', Done (completed r))"
    "pe_user w' = pe_user w @ [name]"
proof -
  let ?c = "catch_user_panic_result site (phase name r) w"
  have "snd ?c = Done (completed r)" "pe_user (fst ?c) = pe_user w @ [name]"
    unfolding catch_user_panic_result_eq using assms
    by (cases r; simp add: phase_def contain_outcome contain_user)+
  then show ?thesis using that [of "fst ?c"] by (metis prod.collapse)
qed

text \<open>
  A callback with cleanup runs its five phases in order and each once, whichever of them
  panic; it returns the result of the callback when all of them completed, and otherwise
  \<open>None\<close>, after destroying the result once if there is one.
\<close>

theorem cleanup_phases_run_once:
  assumes "harmless rc" "harmless rl" "harmless rf" "harmless rd" "harmless rs" "harmless rr"
  shows "let all = (completed rl \<noteq> None \<and> completed rf \<noteq> None \<and> completed rd \<noteq> None \<and> completed rs \<noteq> None);
      r = catch_user_panic_result_with_cleanup site (phase ''callback'' rc) (phase ''cleanup'' rl)
        (phase ''drop callback'' rf) (phase ''drop cleanup'' rd) (phase ''drop state'' rs)
        (\<lambda>_. phase ''drop result'' rr) w
    in pe_user (fst r) = pe_user w
        @ [''callback'', ''cleanup'', ''drop callback'', ''drop cleanup'', ''drop state'']
        @ (if \<not> all \<and> completed rc \<noteq> None then [''drop result''] else [])
      \<and> snd r = Done (if all then completed rc else None)"
proof -
  obtain w1 where 1: "catch_user_panic_result site (phase ''callback'' rc) w = (w1, Done (completed rc))"
    "pe_user w1 = pe_user w @ [''callback'']" using catch_phase [OF assms(1)] .
  obtain w2 where 2: "catch_user_panic_result site (phase ''cleanup'' rl) w1 = (w2, Done (completed rl))"
    "pe_user w2 = pe_user w1 @ [''cleanup'']" using catch_phase [OF assms(2)] .
  obtain w3 where 3: "catch_user_panic_result site (phase ''drop callback'' rf) w2 = (w3, Done (completed rf))"
    "pe_user w3 = pe_user w2 @ [''drop callback'']" using catch_phase [OF assms(3)] .
  obtain w4 where 4: "catch_user_panic_result site (phase ''drop cleanup'' rd) w3 = (w4, Done (completed rd))"
    "pe_user w4 = pe_user w3 @ [''drop cleanup'']" using catch_phase [OF assms(4)] .
  obtain w5 where 5: "catch_user_panic_result site (phase ''drop state'' rs) w4 = (w5, Done (completed rs))"
    "pe_user w5 = pe_user w4 @ [''drop state'']" using catch_phase [OF assms(5)] .
  obtain w6 where 6: "catch_user_panic_result site (phase ''drop result'' rr) w5 = (w6, Done (completed rr))"
    "pe_user w6 = pe_user w5 @ [''drop result'']" using catch_phase [OF assms(6)] .
  show ?thesis
    unfolding Let_def catch_user_panic_result_with_cleanup_def code_bind_def 1(1) prod.case outcome.case
      2(1) 3(1) 4(1) 5(1)
    using 1(2) 2(2) 3(2) 4(2) 5(2) 6(2)
    by (auto simp: code_return_def code_bind_def catch_user_panic_def 6(1) split: option.splits)
qed

theorem cleanup_phases_run_once_witness:
  "let r = catch_user_panic_result_with_cleanup ''cb'' (phase ''callback'' (Done (7::nat)))
        (phase ''cleanup'' (Unwind (StrPayload ''oops!'')))
        (phase ''drop callback'' (Done ())) (phase ''drop cleanup'' (Done ()))
        (phase ''drop state'' (Unwind nested_payload)) (\<lambda>_. phase ''drop result'' (Done ())) (empty_env [])
   in pe_user (fst r) = [''callback'', ''cleanup'', ''drop callback'', ''drop cleanup'', ''drop state'',
        ''drop result'']
      \<and> snd r = Done None"
proof -
  have h: "harmless (Done (7::nat))" "harmless (Unwind (StrPayload ''oops!'') :: unit outcome)"
    "harmless (Done ())" "harmless (Unwind nested_payload :: unit outcome)"
    by (simp_all add: containable_def nested_payload_def)
  show ?thesis
    using cleanup_phases_run_once [OF h(1) h(2) h(3) h(3) h(4) h(3), of "''cb''" "empty_env []"]
    by (simp add: Let_def empty_env_def)
qed

end
