(* ===== verification/ArcMem.thy ===== *)
theory ArcMem
  imports Prelude
begin

text \<open>
  Memory of reference-counted allocations (\<open>std::sync::Arc\<close>), as the crate hands their raw
  pointers to C. A live allocation has a strong count above 0 and its data; the null pointer
  is 0; an address is not used again. Any use of a pointer that is not live is undefined
  behaviour. The abort of the standard library at \<open>isize::MAX\<close> references is left out.
\<close>

record 'a arc_mem =
  am_next :: nat
  am_cells :: "nat \<Rightarrow> (nat \<times> 'a) option"

definition arc_empty :: "'a arc_mem" where
  "arc_empty = \<lparr>am_next = 1, am_cells = Map.empty\<rparr>"

definition arc_new :: "'a \<Rightarrow> 'a arc_mem \<Rightarrow> nat \<times> 'a arc_mem" where
  [std_defs]: "arc_new x h =
     (am_next h, h\<lparr>am_next := am_next h + 1, am_cells := (am_cells h)(am_next h \<mapsto> (1, x))\<rparr>)"

definition arc_deref :: "nat \<Rightarrow> 'a arc_mem \<Rightarrow> 'a run" where
  [std_defs]: "arc_deref p h = (case am_cells h p of Some (n, x) \<Rightarrow> Ret x | None \<Rightarrow> UB)"

definition arc_write :: "nat \<Rightarrow> 'a \<Rightarrow> 'a arc_mem \<Rightarrow> 'a arc_mem run" where
  [std_defs]: "arc_write p y h =
     (case am_cells h p of
        Some (n, x) \<Rightarrow> Ret (h\<lparr>am_cells := (am_cells h)(p \<mapsto> (n, y))\<rparr>)
      | None \<Rightarrow> UB)"

text \<open>\<open>Arc::clone\<close> and \<open>Arc::increment_strong_count\<close>.\<close>

definition arc_increment :: "nat \<Rightarrow> 'a arc_mem \<Rightarrow> 'a arc_mem run" where
  [std_defs]: "arc_increment p h =
     (case am_cells h p of
        Some (n, x) \<Rightarrow> Ret (h\<lparr>am_cells := (am_cells h)(p \<mapsto> (n + 1, x))\<rparr>)
      | None \<Rightarrow> UB)"

text \<open>
  The drop of an \<open>Arc\<close> and \<open>Arc::decrement_strong_count\<close>: the last reference frees the
  allocation and gives the data to destroy.
\<close>

definition arc_decrement :: "nat \<Rightarrow> 'a arc_mem \<Rightarrow> ('a arc_mem \<times> 'a option) run" where
  [std_defs]: "arc_decrement p h =
     (case am_cells h p of
        Some (n, x) \<Rightarrow>
          (if n \<le> 1 then Ret (h\<lparr>am_cells := (am_cells h)(p := None)\<rparr>, Some x)
           else Ret (h\<lparr>am_cells := (am_cells h)(p \<mapsto> (n - 1, x))\<rparr>, None))
      | None \<Rightarrow> UB)"

lemmas arc_defs = arc_new_def arc_deref_def arc_write_def arc_increment_def arc_decrement_def

end
