(* ===== verification/CallbackContext.thy ===== *)
theory CallbackContext
  imports ArcMem PanicSafe
begin

text \<open>
  The context of foreign callbacks (\<open>src/callback_context.rs\<close>): a reference-counted value
  with a flag that tells callbacks to do nothing once the owner is gone. The operations act
  on the memory of reference-counted allocations; \<open>drop_value\<close> is the destructor of the value,
  a piece of user code.
\<close>

section \<open>Operations\<close>

record 'a cc_inner =
  ci_active :: bool
  ci_value :: 'a

type_synonym 'a cc_mem = "'a cc_inner arc_mem"

definition cc_new :: "'a \<Rightarrow> 'a cc_mem \<Rightarrow> nat \<times> 'a cc_mem" where
  "cc_new v h = arc_new \<lparr>ci_active = True, ci_value = v\<rparr> h"

definition cc_as_ptr :: "nat \<Rightarrow> nat" where
  "cc_as_ptr inner = inner"

definition cc_retained_ptr :: "nat \<Rightarrow> 'a cc_mem \<Rightarrow> ('a cc_mem \<times> nat) run" where
  "cc_retained_ptr inner h = run_map (\<lambda>h'. (h', inner)) (arc_increment inner h)"

definition cc_deactivate :: "nat \<Rightarrow> 'a cc_mem \<Rightarrow> 'a cc_mem run" where
  "cc_deactivate inner h =
     run_bind (arc_deref inner h) (\<lambda>x. arc_write inner (x\<lparr>ci_active := False\<rparr>) h)"

definition cc_is_active :: "nat \<Rightarrow> 'a cc_mem \<Rightarrow> bool run" where
  "cc_is_active inner h = run_map ci_active (arc_deref inner h)"

definition cc_get :: "nat \<Rightarrow> 'a cc_mem \<Rightarrow> 'a run" where
  "cc_get inner h = run_map ci_value (arc_deref inner h)"

definition cc_with :: "nat \<Rightarrow> string \<Rightarrow> ('a \<Rightarrow> ('u, 'r) code) \<Rightarrow> 'a cc_mem \<Rightarrow> 'u env
    \<Rightarrow> ('u env \<times> 'r option outcome) run" where
  "cc_with ptr site f h w =
     (if ptr = 0 then Ret (w, Done None)
      else run_bind (arc_deref ptr h) (\<lambda>inner.
             if \<not> ci_active inner then Ret (w, Done None)
             else Ret (catch_user_panic_result site (f (ci_value inner)) w)))"

definition cc_retain :: "nat \<Rightarrow> 'a cc_mem \<Rightarrow> 'a cc_mem run" where
  "cc_retain ptr h = (if ptr \<noteq> 0 then arc_increment ptr h else Ret h)"

text \<open>The destruction of the value of a freed allocation.\<close>

definition cc_destroy :: "('a \<Rightarrow> ('u, unit) code) \<Rightarrow> 'a cc_inner option \<Rightarrow> ('u, unit) code" where
  "cc_destroy drop_value freed =
     (case freed of Some inner \<Rightarrow> drop_value (ci_value inner) | None \<Rightarrow> code_return ())"

definition cc_release :: "('a \<Rightarrow> ('u, unit) code) \<Rightarrow> nat \<Rightarrow> 'a cc_mem \<Rightarrow> 'u env
    \<Rightarrow> ('a cc_mem \<times> 'u env \<times> unit outcome) run" where
  "cc_release drop_value ptr h w =
     (if ptr \<noteq> 0
      then run_map (\<lambda>(h', freed).
             (h', catch_user_panic ''CallbackContext::RELEASE'' (cc_destroy drop_value freed) w))
             (arc_decrement ptr h)
      else Ret (h, w, Done ()))"

text \<open>The drop of the owner: its own \<open>drop\<close>, then the drop of its reference.\<close>

definition cc_drop :: "('a \<Rightarrow> ('u, unit) code) \<Rightarrow> nat \<Rightarrow> 'a cc_mem \<Rightarrow> 'u env
    \<Rightarrow> ('a cc_mem \<times> 'u env \<times> unit outcome) run" where
  "cc_drop drop_value inner h w =
     run_bind (cc_deactivate inner h) (\<lambda>h1.
       run_map (\<lambda>(h', freed). (h', cc_destroy drop_value freed w)) (arc_decrement inner h1))"

section \<open>An owner and foreign references\<close>

text \<open>
  A context with its owner and the foreign code that holds references: it may use the pointer
  while there is a reference at all, and gives back only what it holds. The user code is
  observed: it logs the calls of the callback and the destruction of the value.
\<close>

datatype 'a cc_event = Called 'a | Destroyed 'a

definition observed :: "('a \<Rightarrow> 'a cc_event) \<Rightarrow> 'r outcome \<Rightarrow> 'a \<Rightarrow> ('a cc_event list, 'r) code" where
  "observed ev r v w = (w\<lparr>pe_user := pe_user w @ [ev v]\<rparr>, r)"

record 'a cc_sys =
  cy_mem :: "'a cc_mem"
  cy_env :: "'a cc_event list env"
  cy_ptr :: nat
  cy_owner :: bool
  cy_off :: bool
  cy_refs :: nat

definition cc_start :: "'a \<Rightarrow> 'a cc_sys" where
  "cc_start v =
     (case cc_new v arc_empty of (p, h) \<Rightarrow>
        \<lparr>cy_mem = h, cy_env = empty_env [], cy_ptr = p, cy_owner = True, cy_off = False, cy_refs = 0\<rparr>)"

text \<open>A callback, a release and a drop of the owner name the outcome of the user code.\<close>

datatype cc_cmd = XRetainedPtr | XDeactivate | XWith "unit outcome" | XRetain
  | XRelease "unit outcome" | XDropOwner "unit outcome"

definition cy_count :: "'a cc_sys \<Rightarrow> nat" where
  "cy_count s = cy_refs s + (if cy_owner s then 1 else 0)"

fun cc_allowed :: "cc_cmd \<Rightarrow> 'a cc_sys \<Rightarrow> bool" where
  "cc_allowed XRetainedPtr s \<longleftrightarrow> cy_owner s"
| "cc_allowed XDeactivate s \<longleftrightarrow> cy_owner s"
| "cc_allowed (XWith r) s \<longleftrightarrow> 0 < cy_count s"
| "cc_allowed XRetain s \<longleftrightarrow> 0 < cy_count s"
| "cc_allowed (XRelease r) s \<longleftrightarrow> 0 < cy_refs s"
| "cc_allowed (XDropOwner r) s \<longleftrightarrow> cy_owner s"

fun cc_do :: "cc_cmd \<Rightarrow> 'a cc_sys \<Rightarrow> 'a cc_sys run" where
  "cc_do XRetainedPtr s =
     run_map (\<lambda>(h, p). s\<lparr>cy_mem := h, cy_refs := cy_refs s + 1\<rparr>) (cc_retained_ptr (cy_ptr s) (cy_mem s))"
| "cc_do XDeactivate s =
     run_map (\<lambda>h. s\<lparr>cy_mem := h, cy_off := True\<rparr>) (cc_deactivate (cy_ptr s) (cy_mem s))"
| "cc_do (XWith r) s =
     run_map (\<lambda>(w, _). s\<lparr>cy_env := w\<rparr>)
       (cc_with (cc_as_ptr (cy_ptr s)) ''callback'' (observed Called r) (cy_mem s) (cy_env s))"
| "cc_do XRetain s =
     run_map (\<lambda>h. s\<lparr>cy_mem := h, cy_refs := cy_refs s + 1\<rparr>) (cc_retain (cy_ptr s) (cy_mem s))"
| "cc_do (XRelease r) s =
     run_map (\<lambda>(h, w, _). s\<lparr>cy_mem := h, cy_env := w, cy_refs := cy_refs s - 1\<rparr>)
       (cc_release (observed Destroyed r) (cy_ptr s) (cy_mem s) (cy_env s))"
| "cc_do (XDropOwner r) s =
     run_map (\<lambda>(h, w, _). s\<lparr>cy_mem := h, cy_env := w, cy_owner := False, cy_off := True\<rparr>)
       (cc_drop (observed Destroyed r) (cy_ptr s) (cy_mem s) (cy_env s))"

inductive cc_reachable :: "'a \<Rightarrow> 'a cc_sys \<Rightarrow> bool" for v :: 'a where
  cc_begin: "cc_reachable v (cc_start v)"
| cc_next: "cc_reachable v s \<Longrightarrow> cc_allowed c s \<Longrightarrow> cc_do c s = Ret s' \<Longrightarrow> cc_reachable v s'"

text \<open>
  The count is that of the owner and the foreign references, the flag is off when the owner
  turned it off or is gone, and the value was destroyed once exactly when nobody is left.
\<close>

definition cc_inv :: "'a \<Rightarrow> 'a cc_sys \<Rightarrow> bool" where
  "cc_inv v s \<longleftrightarrow>
     cy_ptr s \<noteq> 0
     \<and> am_cells (cy_mem s) (cy_ptr s) =
        (if cy_count s = 0 then None
         else Some (cy_count s, \<lparr>ci_active = (\<not> cy_off s), ci_value = v\<rparr>))
     \<and> (cy_owner s \<or> cy_off s)
     \<and> filter (\<lambda>e. e = Destroyed v) (pe_user (cy_env s)) = (if cy_count s = 0 then [Destroyed v] else [])"

lemma cc_inv_start: "cc_inv v (cc_start v)"
  by (simp add: cc_inv_def cc_start_def cc_new_def arc_new_def arc_empty_def cy_count_def empty_env_def)

lemma catch_observed_user:
  "pe_user (fst (catch_user_panic_result site (observed ev r v) w)) = pe_user w @ [ev v]"
  by (simp add: panic_user observed_def)

lemma catch_release_user:
  "pe_user (fst (catch_user_panic site (cc_destroy (observed Destroyed r) freed) w)) =
     pe_user w @ (case freed of Some i \<Rightarrow> [Destroyed (ci_value i)] | None \<Rightarrow> [])"
  by (cases freed) (simp_all add: catch_user cc_destroy_def observed_def code_return_def)

lemmas cc_op_defs = cc_retained_ptr_def cc_deactivate_def cc_with_def cc_retain_def cc_release_def
  cc_drop_def cc_as_ptr_def arc_defs cy_count_def

lemma cc_do_ok:
  assumes inv: "cc_inv v s" and ok: "cc_allowed c s"
  shows "\<exists>s'. cc_do c s = Ret s' \<and> cc_inv v s'"
proof -
  have p: "cy_ptr s \<noteq> 0" using inv by (simp add: cc_inv_def)
  have live: "0 < cy_count s" using ok by (cases c) (auto simp: cy_count_def)
  then have cell: "am_cells (cy_mem s) (cy_ptr s) = Some (cy_count s, \<lparr>ci_active = (\<not> cy_off s), ci_value = v\<rparr>)"
    and own: "cy_owner s \<or> cy_off s"
    and ev: "filter (\<lambda>e. e = Destroyed v) (pe_user (cy_env s)) = []"
    using inv by (simp_all add: cc_inv_def)
  show ?thesis
  proof (cases c)
    case (XWith r)
    then show ?thesis using p cell own ev live
      by (cases "cy_off s")
        (auto simp: cc_inv_def cc_with_def cc_as_ptr_def arc_deref_def cy_count_def
          catch_observed_user case_prod_unfold)
  next
    case (XRelease r)
    then show ?thesis using p cell own ev ok
      by (cases "cy_count s \<le> 1")
        (auto simp: cc_inv_def cc_release_def arc_decrement_def cy_count_def
          catch_release_user case_prod_unfold)
  next
    case (XDropOwner r)
    then show ?thesis using p cell own ev ok
      by (cases "cy_refs s = 0")
        (auto simp: cc_inv_def cc_op_defs cc_destroy_def observed_def code_return_def)
  qed (use p cell own ev ok in \<open>auto simp: cc_inv_def cc_op_defs\<close>)
qed

lemma cc_reachable_inv: "cc_reachable v s \<Longrightarrow> cc_inv v s"
proof (induction rule: cc_reachable.induct)
  case (cc_next s c s')
  then show ?case using cc_do_ok by fastforce
qed (rule cc_inv_start)

section \<open>Properties\<close>

text \<open>A run of commands, of which the contract lets through what it allows.\<close>

fun cc_run :: "cc_cmd list \<Rightarrow> 'a cc_sys \<Rightarrow> 'a cc_sys run" where
  "cc_run [] s = Ret s"
| "cc_run (c # cs) s =
     (if cc_allowed c s then run_bind (cc_do c s) (cc_run cs) else cc_run cs s)"

lemma cc_run_reachable:
  "cc_reachable v s \<Longrightarrow> \<exists>s'. cc_run cs s = Ret s' \<and> cc_reachable v s'"
proof (induction cs arbitrary: s)
  case (Cons c cs)
  show ?case
  proof (cases "cc_allowed c s")
    case True
    obtain s1 where "cc_do c s = Ret s1"
      using cc_do_ok [OF cc_reachable_inv [OF Cons.prems] True] by blast
    then show ?thesis using Cons.IH [OF cc_next [OF Cons.prems True]] True by simp
  qed (use Cons in simp)
qed simp

text \<open>
  Whatever the owner and foreign code that keeps the contract do, in any order, there is
  no undefined behaviour: the value is alive while the owner or a reference exists, and was
  destroyed exactly once when none is left.
\<close>

theorem cc_contract_safe:
  "case cc_run cs (cc_start v) of
     Ret s \<Rightarrow> filter (\<lambda>e. e = Destroyed v) (pe_user (cy_env s)) = (if cy_count s = 0 then [Destroyed v] else [])
        \<and> cc_get (cy_ptr s) (cy_mem s) = (if cy_count s = 0 then UB else Ret v)
        \<and> cc_is_active (cy_ptr s) (cy_mem s) = (if cy_count s = 0 then UB else Ret (\<not> cy_off s))
   | _ \<Rightarrow> False"
proof -
  obtain s where s: "cc_run cs (cc_start v) = Ret s" "cc_reachable v s"
    using cc_run_reachable [OF cc_begin, of cs v] by blast
  have "cc_inv v s" using cc_reachable_inv [OF s(2)] .
  then show ?thesis
    by (cases "cy_count s = 0") (auto simp: s(1) cc_inv_def cc_get_def cc_is_active_def arc_deref_def)
qed

lemma cc_off_step:
  assumes "cc_inv v s" "cy_off s" "cc_allowed c s" "cc_do c s = Ret s'"
  shows "cy_off s' \<and> filter (\<lambda>e. e = Called v) (pe_user (cy_env s')) = filter (\<lambda>e. e = Called v) (pe_user (cy_env s))"
proof -
  have p: "cy_ptr s \<noteq> 0" using assms(1) by (simp add: cc_inv_def)
  have "0 < cy_count s" using assms(3) by (cases c) (auto simp: cy_count_def)
  then have cell: "am_cells (cy_mem s) (cy_ptr s) = Some (cy_count s, \<lparr>ci_active = False, ci_value = v\<rparr>)"
    using assms(1,2) by (simp add: cc_inv_def)
  show ?thesis
  proof (cases c)
    case (XWith r)
    then show ?thesis using assms(2,4) p cell by (auto simp: cc_with_def cc_as_ptr_def arc_deref_def)
  next
    case (XRelease r)
    then show ?thesis using assms(2,4) p cell
      by (cases "cy_count s \<le> 1")
        (auto simp: cc_release_def arc_decrement_def catch_release_user case_prod_unfold)
  next
    case (XDropOwner r)
    then show ?thesis using assms(2,4) p cell
      by (cases "cy_count s \<le> 1")
        (auto simp: cc_drop_def cc_deactivate_def arc_defs cc_destroy_def observed_def code_return_def)
  qed (use assms(2,4) p cell in \<open>auto simp: cc_op_defs\<close>)
qed

lemma cc_off_run:
  "cc_reachable v s \<Longrightarrow> cy_off s \<Longrightarrow> cc_run cs s = Ret s' \<Longrightarrow>
   cy_off s' \<and> filter (\<lambda>e. e = Called v) (pe_user (cy_env s')) = filter (\<lambda>e. e = Called v) (pe_user (cy_env s))"
proof (induction cs arbitrary: s)
  case (Cons c cs)
  show ?case
  proof (cases "cc_allowed c s")
    case True
    obtain s1 where s1: "cc_do c s = Ret s1"
      using cc_do_ok [OF cc_reachable_inv [OF Cons.prems(1)] True] by blast
    have "cc_reachable v s1" using cc_next [OF Cons.prems(1) True s1] .
    then show ?thesis
      using Cons.IH [of s1] Cons.prems(3) True s1
        cc_off_step [OF cc_reachable_inv [OF Cons.prems(1)] Cons.prems(2) True s1] by simp
  qed (use Cons in simp)
qed simp

text \<open>
  Once the owner turned the context off or was dropped, no later callback runs the user
  code, however long foreign code keeps its references: a callback returns \<open>None\<close> and changes
  nothing.
\<close>

theorem cc_off_is_final:
  assumes "cc_run cs (cc_start v) = Ret s" and "cy_off s \<or> \<not> cy_owner s"
    and "cc_run ds s = Ret s'" and "0 < cy_count s'"
  shows "filter (\<lambda>e. e = Called v) (pe_user (cy_env s')) = filter (\<lambda>e. e = Called v) (pe_user (cy_env s))
    \<and> cc_with (cc_as_ptr (cy_ptr s')) site f (cy_mem s') w = Ret (w, Done None)"
proof -
  have r: "cc_reachable v s" using cc_run_reachable [OF cc_begin, of cs v] assms(1) by simp
  have r': "cc_reachable v s'" using cc_run_reachable [OF r, of ds] assms(3) by simp
  have off: "cy_off s" using assms(2) cc_reachable_inv [OF r] by (auto simp: cc_inv_def)
  have *: "cy_off s'" "filter (\<lambda>e. e = Called v) (pe_user (cy_env s')) = filter (\<lambda>e. e = Called v) (pe_user (cy_env s))"
    using cc_off_run [OF r off assms(3)] by simp_all
  have "am_cells (cy_mem s') (cy_ptr s') = Some (cy_count s', \<lparr>ci_active = False, ci_value = v\<rparr>)"
    using cc_reachable_inv [OF r'] assms(4) *(1) by (simp add: cc_inv_def)
  then show ?thesis using * by (simp add: cc_with_def cc_as_ptr_def arc_deref_def)
qed

theorem cc_off_is_final_witness:
  "\<exists>s s'. cc_run [XRetainedPtr, XWith (Done ()), XDropOwner (Done ())] (cc_start (5::nat)) = Ret s
     \<and> cc_run [XWith (Done ()), XRetain] s = Ret s'
     \<and> filter (\<lambda>e. e = Called 5) (pe_user (cy_env s')) = [Called 5]"
proof -
  define r where "r = cc_run [XRetainedPtr, XWith (Done ()), XDropOwner (Done ())] (cc_start (5::nat))"
  obtain s where s: "r = Ret s" "cc_reachable 5 s"
    using cc_run_reachable [OF cc_begin, of "[XRetainedPtr, XWith (Done ()), XDropOwner (Done ())]" "5::nat"] unfolding r_def by blast
  have e: "cy_off s" "pe_user (cy_env s) = [Called 5]"
    using s(1) unfolding r_def
    by (auto simp: cc_start_def cc_new_def arc_empty_def cc_op_defs empty_env_def observed_def
      catch_user_panic_result_eq cc_destroy_def code_return_def)
  obtain s' where s': "cc_run [XWith (Done ()), XRetain] s = Ret s'"
    using cc_run_reachable [OF s(2), of "[XWith (Done ()), XRetain]"] by blast
  have "0 < cy_count s'"
    using s(1) s' unfolding r_def
    by (auto simp: cc_start_def cc_new_def arc_empty_def cc_op_defs empty_env_def observed_def
      catch_user_panic_result_eq cc_destroy_def code_return_def)
  then have "filter (\<lambda>e. e = Called 5) (pe_user (cy_env s')) = [Called 5]"
    using cc_off_is_final [OF s(1) [unfolded r_def] _ s', where site = "''callback''"
      and f = "observed Called (Done ())" and w = "cy_env s"] e by simp
  then show ?thesis using s(1) s' unfolding r_def by blast
qed

end
