(* ===== verification/CallbackThreads.thy ===== *)
theory CallbackThreads
  imports CallbackContext
begin

text \<open>
  The context of \<open>src/callback_context.rs\<close> with callbacks on any number of threads. The calls of
  \<open>CallbackContext\<close> are opened up: \<open>with\<close> reads the flag, runs the user code and returns, and the
  drop of the owner first turns the context off and then gives up its reference, so that
  deactivations, drops and releases fall between the steps of callbacks.

  The flag is stored with \<open>Release\<close> and loaded with \<open>Acquire\<close>: a load may miss the store unless the
  store happens before it.
\<close>

section \<open>Threads\<close>

datatype with_pc = WithIdle | WithLoad | WithRun | WithReturn

text \<open>
  \<open>ck_told\<close> is whether the store of the flag happens before the next step of a thread, \<open>ck_calls\<close>
  how often it has run the user code.
\<close>

record 'a ck_sys =
  ck_ctx :: "'a cc_sys"
  ck_dropping :: bool
  ck_pc :: "with_pc list"
  ck_told :: "nat \<Rightarrow> bool"
  ck_calls :: "nat \<Rightarrow> nat"

definition ck_start :: "nat \<Rightarrow> 'a \<Rightarrow> 'a ck_sys" where
  "ck_start n v = \<lparr>ck_ctx = cc_start v, ck_dropping = False, ck_pc = replicate n WithIdle,
     ck_told = (\<lambda>_. False), ck_calls = (\<lambda>_. 0)\<rparr>"

text \<open>
  The next step of \<open>with\<close> in thread \<open>t\<close>. With \<open>b\<close> the load of the flag misses the store when it
  may; \<open>r\<close> is the outcome of the user code, which holds a reference to the value until \<open>with\<close>
  returns.
\<close>

definition ck_with :: "nat \<Rightarrow> bool \<Rightarrow> unit outcome \<Rightarrow> 'a ck_sys \<Rightarrow> 'a ck_sys run" where
  "ck_with t b r s =
     (let x = ck_ctx s; ptr = cc_as_ptr (cy_ptr x); go = (\<lambda>p. (ck_pc s)[t := p]) in
      case ck_pc s ! t of
        WithIdle \<Rightarrow> Ret s
      | WithLoad \<Rightarrow>
          if ptr = 0 then Ret (s\<lparr>ck_pc := go WithIdle\<rparr>)
          else run_map (\<lambda>inner.
            if \<not> ci_active inner \<and> (ck_told s t \<or> \<not> b)
            then s\<lparr>ck_pc := go WithIdle, ck_told := (ck_told s)(t := True)\<rparr>
            else s\<lparr>ck_pc := go WithRun\<rparr>) (arc_deref ptr (cy_mem x))
      | WithRun \<Rightarrow>
          run_map (\<lambda>inner.
            s\<lparr>ck_ctx := x\<lparr>cy_env := fst (catch_user_panic_result ''callback''
                (observed Called r (ci_value inner)) (cy_env x))\<rparr>,
              ck_pc := go WithReturn, ck_calls := (ck_calls s)(t := ck_calls s t + 1)\<rparr>)
            (arc_deref ptr (cy_mem x))
      | WithReturn \<Rightarrow> run_map (\<lambda>inner. s\<lparr>ck_pc := go WithIdle\<rparr>) (arc_deref ptr (cy_mem x)))"

text \<open>The two steps of the drop of the owner.\<close>

definition ck_drop_off :: "'a ck_sys \<Rightarrow> 'a ck_sys run" where
  "ck_drop_off s = run_map (\<lambda>x. s\<lparr>ck_ctx := x, ck_dropping := True\<rparr>) (cc_do XDeactivate (ck_ctx s))"

definition ck_drop_ref :: "unit outcome \<Rightarrow> 'a ck_sys \<Rightarrow> 'a ck_sys run" where
  "ck_drop_ref r s =
     (let x = ck_ctx s in
      run_map (\<lambda>(h, freed). s\<lparr>ck_ctx := x\<lparr>cy_mem := h, cy_owner := False,
          cy_env := fst (cc_destroy (observed Destroyed r) freed (cy_env x))\<rparr>, ck_dropping := False\<rparr>)
        (arc_decrement (cy_ptr x) (cy_mem x)))"

section \<open>The contract\<close>

text \<open>
  \<open>KCtx\<close> is another call of the owner or of foreign code. \<open>KSync\<close> is a synchronisation elsewhere
  that makes what was done so far happen before the next step of a thread. Foreign code calls
  back while there is a reference, and the last one stays while a callback is in progress.
\<close>

datatype ck_cmd = KCtx cc_cmd | KDropOff | KDropRef "unit outcome" | KCall nat
  | KStep nat bool "unit outcome" | KSync nat

definition ck_busy :: "'a ck_sys \<Rightarrow> bool" where
  "ck_busy s \<longleftrightarrow> list_ex (\<lambda>p. p \<noteq> WithIdle) (ck_pc s)"

fun ck_allowed :: "ck_cmd \<Rightarrow> 'a ck_sys \<Rightarrow> bool" where
  "ck_allowed (KCtx c) s \<longleftrightarrow> cc_allowed c (ck_ctx s) \<and> (case c of
       XRetainedPtr \<Rightarrow> \<not> ck_dropping s
     | XDeactivate \<Rightarrow> \<not> ck_dropping s
     | XRetain \<Rightarrow> True
     | XRelease r \<Rightarrow> \<not> ck_busy s \<or> 1 < cy_count (ck_ctx s)
     | _ \<Rightarrow> False)"
| "ck_allowed KDropOff s \<longleftrightarrow> cy_owner (ck_ctx s) \<and> \<not> ck_dropping s"
| "ck_allowed (KDropRef r) s \<longleftrightarrow> ck_dropping s \<and> (\<not> ck_busy s \<or> 1 < cy_count (ck_ctx s))"
| "ck_allowed (KCall t) s \<longleftrightarrow> t < length (ck_pc s) \<and> ck_pc s ! t = WithIdle \<and> 0 < cy_count (ck_ctx s)"
| "ck_allowed (KStep t b r) s \<longleftrightarrow> t < length (ck_pc s)"
| "ck_allowed (KSync t) s \<longleftrightarrow> True"

fun ck_do :: "ck_cmd \<Rightarrow> 'a ck_sys \<Rightarrow> 'a ck_sys run" where
  "ck_do (KCtx c) s = run_map (\<lambda>x. s\<lparr>ck_ctx := x\<rparr>) (cc_do c (ck_ctx s))"
| "ck_do KDropOff s = ck_drop_off s"
| "ck_do (KDropRef r) s = ck_drop_ref r s"
| "ck_do (KCall t) s = Ret (s\<lparr>ck_pc := (ck_pc s)[t := WithLoad]\<rparr>)"
| "ck_do (KStep t b r) s = ck_with t b r s"
| "ck_do (KSync t) s = Ret (s\<lparr>ck_told := (ck_told s)(t := cy_off (ck_ctx s))\<rparr>)"

fun ck_run :: "ck_cmd list \<Rightarrow> 'a ck_sys \<Rightarrow> 'a ck_sys run" where
  "ck_run [] s = Ret s"
| "ck_run (c # cs) s = (if ck_allowed c s then run_bind (ck_do c s) (ck_run cs) else ck_run cs s)"

section \<open>The invariant\<close>

definition ck_inv :: "'a \<Rightarrow> 'a ck_sys \<Rightarrow> bool" where
  "ck_inv v s \<longleftrightarrow> cc_inv v (ck_ctx s) \<and> (ck_busy s \<longrightarrow> 0 < cy_count (ck_ctx s))
     \<and> (ck_dropping s \<longrightarrow> cy_owner (ck_ctx s) \<and> cy_off (ck_ctx s)) \<and> (\<forall>t. ck_told s t \<longrightarrow> cy_off (ck_ctx s))"

lemma cc_inv_cell:
  "cc_inv v x \<Longrightarrow> 0 < cy_count x \<Longrightarrow>
    arc_deref (cy_ptr x) (cy_mem x) = Ret \<lparr>ci_active = (\<not> cy_off x), ci_value = v\<rparr> \<and> cy_ptr x \<noteq> 0"
  by (simp add: cc_inv_def arc_deref_def)

lemma cc_inv_called:
  "cc_inv v x \<Longrightarrow> 0 < cy_count x \<Longrightarrow>
    cc_inv v (x\<lparr>cy_env := fst (catch_user_panic_result site (observed Called r v) (cy_env x))\<rparr>)"
  by (simp add: cc_inv_def cy_count_def catch_observed_user)

text \<open>What the other calls do to the owner and the references.\<close>

lemma cc_do_fields:
  assumes "cc_do c x = Ret x'"
  shows "cy_off x \<Longrightarrow> cy_off x'" "c = XDeactivate \<Longrightarrow> cy_off x'"
    "(\<And>r. c \<noteq> XDropOwner r) \<Longrightarrow> cy_owner x' = cy_owner x"
    "(\<And>r. c \<noteq> XDropOwner r \<and> c \<noteq> XRelease r) \<Longrightarrow> cy_refs x \<le> cy_refs x'"
    "c = XRelease r \<Longrightarrow> cy_refs x' = cy_refs x - 1"
  using assms by (cases c; auto simp: run_simps)+

lemma ck_busy_upd:
  "ck_busy (s\<lparr>ck_pc := (ck_pc s)[t := WithIdle]\<rparr>) \<Longrightarrow> ck_busy s"
  "t < length (ck_pc s) \<Longrightarrow> ck_pc s ! t \<noteq> WithIdle \<Longrightarrow> ck_busy s"
  using set_update_subset_insert [of "ck_pc s" t WithIdle] nth_mem [of t "ck_pc s"]
  by (auto simp: ck_busy_def list_ex_iff)

lemma ck_with_ok:
  assumes inv: "ck_inv v s" and t: "t < length (ck_pc s)"
  shows "\<exists>s'. ck_with t b r s = Ret s' \<and> ck_inv v s'"
proof (cases "ck_pc s ! t = WithIdle")
  case True
  then show ?thesis using inv by (simp add: ck_with_def Let_def)
next
  case False
  have I: "cc_inv v (ck_ctx s)" "ck_dropping s \<longrightarrow> cy_owner (ck_ctx s) \<and> cy_off (ck_ctx s)"
    "\<forall>t. ck_told s t \<longrightarrow> cy_off (ck_ctx s)" and live: "0 < cy_count (ck_ctx s)"
    using inv ck_busy_upd(2) [OF t False] by (auto simp: ck_inv_def)
  note C = cc_inv_cell [OF I(1) live] and U = cc_inv_called [OF I(1) live]
  show ?thesis
    using False I live C U [of "''callback''" r]
    by (cases "ck_pc s ! t") (auto simp: ck_with_def Let_def cc_as_ptr_def ck_inv_def cy_count_def)
qed

lemma ck_drop_ok:
  assumes inv: "ck_inv v s" and ok: "ck_allowed (KDropRef r) s"
  shows "\<exists>s'. ck_drop_ref r s = Ret s' \<and> ck_inv v s'"
proof -
  let ?x = "ck_ctx s"
  have x: "cc_inv v ?x" "cy_owner ?x" "cy_off ?x" and told: "\<forall>t. ck_told s t \<longrightarrow> cy_off ?x"
    using inv ok by (auto simp: ck_inv_def)
  have cell: "am_cells (cy_mem ?x) (cy_ptr ?x) = Some (Suc (cy_refs ?x), \<lparr>ci_active = False, ci_value = v\<rparr>)"
    "filter (\<lambda>e. e = Destroyed v) (pe_user (cy_env ?x)) = []" "cy_ptr ?x \<noteq> 0"
    using x by (simp_all add: cc_inv_def cy_count_def)
  show ?thesis
    using cell x told ok
    by (cases "cy_refs ?x = 0")
      (auto simp: ck_drop_ref_def Let_def arc_decrement_def ck_inv_def cc_inv_def cy_count_def ck_busy_def
        cc_destroy_def observed_def code_return_def)
qed

lemma ck_do_ok:
  assumes inv: "ck_inv v s" and ok: "ck_allowed c s"
  shows "\<exists>s'. ck_do c s = Ret s' \<and> ck_inv v s'"
proof -
  have I: "cc_inv v (ck_ctx s)" using inv by (simp add: ck_inv_def)
  show ?thesis
  proof (cases c)
    case (KCtx d)
    then obtain x where x: "cc_do d (ck_ctx s) = Ret x" "cc_inv v x"
      using cc_do_ok [OF I, of d] ok by auto
    note F = cc_do_fields [OF x(1)]
    have d: "d \<noteq> XDropOwner r" for r using ok KCtx by (cases d) auto
    have "0 < cy_count x" if "ck_busy s"
    proof (cases "\<exists>r. d = XRelease r")
      case True
      then show ?thesis using F(3,5) ok KCtx that by (auto simp: cy_count_def)
    next
      case False
      then show ?thesis using F(3,4) d inv that by (auto simp: ck_inv_def cy_count_def)
    qed
    then show ?thesis
      using KCtx x F(1,3) d inv by (auto simp: ck_inv_def ck_busy_def)
  next
    case KDropOff
    then obtain x where x: "cc_do XDeactivate (ck_ctx s) = Ret x" "cc_inv v x"
      using cc_do_ok [OF I, of XDeactivate] ok by auto
    note F = cc_do_fields [OF x(1)]
    have "cy_owner x" "cy_off x" using F(2,3) ok KDropOff by auto
    then show ?thesis
      using KDropOff x inv by (auto simp: ck_drop_off_def ck_inv_def ck_busy_def cy_count_def)
  next
    case (KDropRef r)
    then show ?thesis using ck_drop_ok [OF inv] ok by simp
  next
    case (KCall t)
    then show ?thesis using inv ok by (auto simp: ck_inv_def)
  next
    case (KStep t b r)
    then show ?thesis using ck_with_ok [OF inv] ok by simp
  qed (use inv in \<open>auto simp: ck_inv_def ck_busy_def split: if_splits\<close>)
qed

lemma ck_run_ok:
  "ck_inv v s \<Longrightarrow> \<exists>s'. ck_run cs s = Ret s' \<and> ck_inv v s'"
proof (induction cs arbitrary: s)
  case (Cons c cs)
  then show ?case using ck_do_ok [OF Cons.prems, of c] by (auto simp del: ck_do.simps ck_allowed.simps)
qed simp

lemma ck_start_ok: "ck_inv v (ck_start n v)"
  using cc_inv_start [of v] by (auto simp: ck_inv_def ck_start_def ck_busy_def list_ex_iff)

section \<open>Properties\<close>

text \<open>
  C23. Whatever the owner, foreign code and any number of threads in callbacks do, step by step, under
  the contract: no use of the pointer is undefined behaviour, the value is alive while a callback
  is in progress, and it was destroyed exactly once when nobody is left.
\<close>

theorem cc_threads_safe:
  "case ck_run cs (ck_start n v) of
     Ret s \<Rightarrow> filter (\<lambda>e. e = Destroyed v) (pe_user (cy_env (ck_ctx s)))
          = (if cy_count (ck_ctx s) = 0 then [Destroyed v] else [])
        \<and> (if ck_busy s then cc_get (cy_ptr (ck_ctx s)) (cy_mem (ck_ctx s)) = Ret v else True)
   | _ \<Rightarrow> False"
proof -
  obtain s where s: "ck_run cs (ck_start n v) = Ret s" "ck_inv v s"
    using ck_run_ok [OF ck_start_ok [of v n], of cs] by blast
  then show ?thesis
    using cc_inv_cell [of v "ck_ctx s"] by (auto simp: ck_inv_def cc_inv_def cc_get_def)
qed

text \<open>The steps of a thread that knows of the store, and is not about to run the user code.\<close>

lemma ck_told_step:
  assumes inv: "ck_inv v s" and told: "ck_told s t" "ck_pc s ! t \<noteq> WithRun" and s': "ck_do c s = Ret s'"
    and ok: "ck_allowed c s"
  shows "ck_told s' t \<and> ck_pc s' ! t \<noteq> WithRun \<and> ck_calls s' t = ck_calls s t"
proof -
  have I: "cc_inv v (ck_ctx s)" and off: "cy_off (ck_ctx s)" using inv told by (auto simp: ck_inv_def)
  show ?thesis
  proof (cases c)
    case (KStep u b r)
    have u: "u < length (ck_pc s)" using ok KStep by simp
    show ?thesis
    proof (cases "ck_pc s ! u = WithIdle")
      case True
      then show ?thesis using told s' KStep by (auto simp: ck_with_def Let_def)
    next
      case False
      then have "0 < cy_count (ck_ctx s)" using inv ck_busy_upd(2) [OF u] by (auto simp: ck_inv_def)
      note C = cc_inv_cell [OF I this]
      show ?thesis
        using False told s' KStep C off u
        by (cases "ck_pc s ! u"; cases "u = t")
          (auto simp: ck_with_def Let_def cc_as_ptr_def nth_list_update split: if_splits)
    qed
  next
    case (KCall u)
    then show ?thesis using told s' ok by (cases "u = t") auto
  qed (use told s' off in \<open>auto simp: ck_drop_off_def ck_drop_ref_def Let_def run_simps\<close>)
qed

text \<open>
  C24. A callback that happens after the context was turned off does not run the user code: when the
  store of the flag happens before the next step of a thread that is not between the test of the
  flag and the user code, that thread never runs the user code again, whatever the others do.
\<close>

theorem cc_threads_off_is_final:
  assumes "ck_run cs (ck_start n v) = Ret s" and "ck_told s t" and "ck_pc s ! t \<noteq> WithRun"
    and "ck_run ds s = Ret s'"
  shows "ck_calls s' t = ck_calls s t"
proof -
  have "ck_inv v s" using ck_run_ok [OF ck_start_ok [of v n], of cs] assms(1) by auto
  then show ?thesis
    using assms(2-4)
  proof (induction ds arbitrary: s)
    case (Cons c ds)
    show ?case
    proof (cases "ck_allowed c s")
      case True
      obtain s1 where s1: "ck_do c s = Ret s1" "ck_inv v s1" using ck_do_ok [OF Cons.prems(1) True] by blast
      then show ?thesis
        using Cons.IH [OF s1(2)] ck_told_step [OF Cons.prems(1-3) s1(1) True] Cons.prems(4) True
        by (simp del: ck_do.simps ck_allowed.simps)
    qed (use Cons in \<open>simp del: ck_allowed.simps\<close>)
  qed simp
qed

text \<open>
  The owner is dropped while the callback of one thread is between its test and the user code,
  which it runs; the callback of another thread that knows of the drop does not.
\<close>

theorem cc_threads_off_is_final_witness:
  "\<exists>s s'. ck_run [KCtx XRetainedPtr, KCall 0, KStep 0 False (Done ()), KDropOff, KDropRef (Done ()),
       KStep 0 False (Done ()), KSync 1] (ck_start 2 (5::nat)) = Ret s
     \<and> ck_run [KCall 1, KStep 1 True (Done ()), KStep 1 True (Done ())] s = Ret s'
     \<and> ck_calls s' 0 = 1 \<and> ck_calls s' 1 = 0"
proof -
  define cs where "cs = [KCtx XRetainedPtr, KCall 0, KStep 0 False (Done ()), KDropOff, KDropRef (Done ()),
       KStep 0 False (Done ()), KSync 1]"
  define ds where "ds = [KCall 1, KStep 1 True (Done ()), KStep 1 True (Done ())]"
  obtain s where s: "ck_run cs (ck_start 2 (5::nat)) = Ret s" "ck_inv 5 s"
    using ck_run_ok [OF ck_start_ok [of 5 2], of cs] by blast
  obtain s' where s': "ck_run ds s = Ret s'" using ck_run_ok [OF s(2), of ds] by blast
  have "case ck_run cs (ck_start 2 (5::nat)) of
      Ret s \<Rightarrow> ck_told s 1 \<and> ck_pc s ! 1 \<noteq> WithRun \<and> ck_calls s 1 = 0
        \<and> (case ck_run ds s of Ret s' \<Rightarrow> ck_calls s' 0 = 1 | _ \<Rightarrow> False) | _ \<Rightarrow> False"
    unfolding cs_def ds_def by code_simp
  then have h: "ck_told s 1" "ck_pc s ! 1 \<noteq> WithRun" "ck_calls s 1 = 0" "ck_calls s' 0 = 1"
    using s(1) s' by simp_all
  show ?thesis
    using cc_threads_off_is_final [OF s(1) h(1,2) s'] h(3,4) s(1) s' unfolding cs_def ds_def by auto
qed

text \<open>The value is alive in the middle of the callback, after the drop of the owner.\<close>

theorem cc_threads_safe_witness:
  "case ck_run [KCtx XRetainedPtr, KCall 0, KStep 0 False (Done ()), KDropOff, KDropRef (Done ()),
       KStep 0 False (Done ()), KCtx (XRelease (Done ()))] (ck_start 2 (5::nat)) of
     Ret s \<Rightarrow> cc_get (cy_ptr (ck_ctx s)) (cy_mem (ck_ctx s)) = Ret 5 | _ \<Rightarrow> False"
proof -
  define cs where "cs = [KCtx XRetainedPtr, KCall 0, KStep 0 False (Done ()), KDropOff, KDropRef (Done ()),
       KStep 0 False (Done ()), KCtx (XRelease (Done ()))]"
  have "case ck_run cs (ck_start 2 (5::nat)) of Ret s \<Rightarrow> ck_busy s | _ \<Rightarrow> False"
    unfolding cs_def by code_simp
  then show ?thesis
    using cc_threads_safe [where cs = cs and n = 2 and v = "5::nat"] unfolding cs_def [symmetric] by (auto split: run.splits)
qed

end
