(* ===== verification/Completion.thy ===== *)
theory Completion
  imports ArcMem Utf8
begin

text \<open>
  Completions of asynchronous foreign calls (\<open>src/completion.rs\<close>): the shared cell is a
  reference-counted allocation, one reference belongs to the owner (the waiting thread or the
  future) and one to the foreign callback. A result is an error text (its bytes) or a value.
  The atomic swap of the callback, each critical section, the notification or wake and the
  drop of the reference are single steps; the steps of the callback and of the owner
  interleave. The poisoning of the locks is ignored by the code, the diagnostic of a duplicate
  callback is not modelled.
\<close>

type_synonym 'a completion_result = "bytes + 'a"

section \<open>Error texts\<close>

definition str_bytes :: "string \<Rightarrow> bytes" where
  "str_bytes s = map of_char s"

text \<open>The message is null (\<open>None\<close>) or the bytes of a terminated string.\<close>

definition error_from_cstr :: "bytes option \<Rightarrow> bytes" where
  "error_from_cstr msg =
     (case msg of
        None \<Rightarrow> str_bytes ''Unknown error''
      | Some bs \<Rightarrow> if utf8_valid bs then bs else str_bytes ''Unknown error'')"

section \<open>Synchronous completion\<close>

record 'a sc_inner =
  si_consumed :: bool
  si_result :: "'a completion_result option"

type_synonym 'a sc_mem = "'a sc_inner arc_mem"

text \<open>One reference is the owner's, the other one becomes the context pointer.\<close>

definition sc_new :: "'a sc_mem \<Rightarrow> (nat \<times> 'a sc_mem) run" where
  "sc_new h =
     (case arc_new \<lparr>si_consumed = False, si_result = None\<rparr> h of
        (p, h') \<Rightarrow> run_map (\<lambda>h''. (p, h'')) (arc_increment p h'))"

definition sc_context_ptr :: "nat \<Rightarrow> nat" where
  "sc_context_ptr inner = inner"

text \<open>
  The program points of \<open>complete_with_result\<close>: the null check and the swap, the critical
  section, the notification, the drop of the reference.
\<close>

datatype sc_pc = CbStart | CbSet | CbNotify | CbDrop | CbDone

text \<open>A step; the flag tells whether the condition variable was notified.\<close>

fun sc_complete_step :: "nat \<Rightarrow> 'a completion_result \<Rightarrow> sc_pc \<Rightarrow> 'a sc_mem
    \<Rightarrow> ('a sc_mem \<times> sc_pc \<times> bool) run" where
  "sc_complete_step context result CbStart h =
     (if context = 0 then Ret (h, CbDone, False)
      else run_bind (arc_deref context h) (\<lambda>inner.
        run_bind (arc_write context (inner\<lparr>si_consumed := True\<rparr>) h) (\<lambda>h'.
          Ret (h', if si_consumed inner then CbDone else CbSet, False))))"
| "sc_complete_step context result CbSet h =
     run_bind (arc_deref context h) (\<lambda>inner.
       run_bind (arc_write context (inner\<lparr>si_result := Some result\<rparr>) h) (\<lambda>h'.
         Ret (h', CbNotify, False)))"
| "sc_complete_step context result CbNotify h =
     run_bind (arc_deref context h) (\<lambda>inner. Ret (h, CbDrop, True))"
| "sc_complete_step context result CbDrop h =
     run_map (\<lambda>(h', freed). (h', CbDone, False)) (arc_decrement context h)"
| "sc_complete_step context result CbDone h = Ret (h, CbDone, False)"

text \<open>
  The loop of \<open>wait\<close> and \<open>wait_timeout\<close> after it has the lock: it returns with the result or
  with nothing when the time is over, or sleeps, with a timeout until some time.
\<close>

datatype 'a sc_wait = WReturn "'a completion_result option" | WSleep "nat option"

definition sc_wait_check :: "nat option \<Rightarrow> nat \<Rightarrow> nat \<Rightarrow> 'a sc_inner \<Rightarrow> 'a sc_inner \<times> 'a sc_wait" where
  "sc_wait_check timeout start now inner =
     (case si_result inner of
        Some result \<Rightarrow> (inner\<lparr>si_result := None\<rparr>, WReturn (Some result))
      | None \<Rightarrow>
          (case timeout of
             None \<Rightarrow> (inner, WSleep None)
           | Some t \<Rightarrow>
               (if t < now - start then (inner, WReturn None)
                else (inner, WSleep (Some (now + (t - (now - start))))))))"

text \<open>A call of \<open>complete_with_result\<close> that no other step interrupts.\<close>

definition sc_complete_with_result :: "nat \<Rightarrow> 'a completion_result \<Rightarrow> 'a sc_mem \<Rightarrow> 'a sc_mem run" where
  "sc_complete_with_result context result h =
     run_bind (sc_complete_step context result CbStart h) (\<lambda>(h1, pc1, _).
     run_bind (sc_complete_step context result pc1 h1) (\<lambda>(h2, pc2, _).
     run_bind (sc_complete_step context result pc2 h2) (\<lambda>(h3, pc3, _).
     run_bind (sc_complete_step context result pc3 h3) (\<lambda>(h4, pc4, _). Ret h4))))"

definition sc_complete_ok :: "nat \<Rightarrow> 'a \<Rightarrow> 'a sc_mem \<Rightarrow> 'a sc_mem run" where
  "sc_complete_ok context value h = sc_complete_with_result context (Inr value) h"

definition sc_complete_err :: "nat \<Rightarrow> bytes \<Rightarrow> 'a sc_mem \<Rightarrow> 'a sc_mem run" where
  "sc_complete_err context error h = sc_complete_with_result context (Inl error) h"

text \<open>\<open>UnitCompletion::callback\<close>; nothing in it panics, so the boundary around it is the identity.\<close>

definition unit_callback :: "nat \<Rightarrow> bool \<Rightarrow> bytes option \<Rightarrow> unit sc_mem \<Rightarrow> unit sc_mem run" where
  "unit_callback context success msg h =
     (if success then sc_complete_ok context () h
      else sc_complete_err context (error_from_cstr msg) h)"

section \<open>The owner and the callback of a synchronous completion\<close>

text \<open>
  The owner holds the completion, is about to lock and check, sleeps on the condition
  variable, is about to drop its reference, or is gone; with the timeout, the time its wait
  started and what it returns.
\<close>

datatype 'a sc_owner = OHeld | OCheck "nat option" nat | OAsleep "nat option" nat "nat option"
  | OLeaving "'a completion_result option" | OGone "'a completion_result option"

text \<open>The callback that won the swap, with its result and program point.\<close>

record 'a sc_sys =
  sy_mem :: "'a sc_mem"
  sy_ptr :: nat
  sy_now :: nat
  sy_owner :: "'a sc_owner"
  sy_winner :: "('a completion_result \<times> sc_pc) option"

definition sc_start :: "'a sc_sys run" where
  "sc_start = run_map (\<lambda>(p, h).
     \<lparr>sy_mem = h, sy_ptr = p, sy_now = 0, sy_owner = OHeld, sy_winner = None\<rparr>) (sc_new arc_empty)"

text \<open>
  A callback with a result arrives and swaps; the callback that won goes on; the owner starts
  a wait or drops the completion, goes on, wakes up spuriously or by its timeout; time passes.
\<close>

datatype 'a sc_cmd = YComplete "'a completion_result" | YCallback | YWait "nat option" | YDropOwner
  | YOwner | YWakeUp | YTick

fun sc_do :: "'a sc_cmd \<Rightarrow> 'a sc_sys \<Rightarrow> 'a sc_sys run" where
  "sc_do (YComplete r) s =
     run_map (\<lambda>(h, pc, _). s\<lparr>sy_mem := h, sy_winner := (if pc = CbSet then Some (r, CbSet) else sy_winner s)\<rparr>)
       (sc_complete_step (sc_context_ptr (sy_ptr s)) r CbStart (sy_mem s))"
| "sc_do YCallback s =
     (case sy_winner s of
        None \<Rightarrow> Ret s
      | Some (r, pc) \<Rightarrow>
          run_map (\<lambda>(h, pc', notified).
              s\<lparr>sy_mem := h, sy_winner := Some (r, pc'),
                sy_owner := (case sy_owner s of
                    OAsleep t st u \<Rightarrow> if notified then OCheck t st else OAsleep t st u
                  | ow \<Rightarrow> ow)\<rparr>)
            (sc_complete_step (sc_context_ptr (sy_ptr s)) r pc (sy_mem s)))"
| "sc_do (YWait t) s =
     Ret (case sy_owner s of OHeld \<Rightarrow> s\<lparr>sy_owner := OCheck t (sy_now s)\<rparr> | _ \<Rightarrow> s)"
| "sc_do YDropOwner s =
     Ret (case sy_owner s of OHeld \<Rightarrow> s\<lparr>sy_owner := OLeaving None\<rparr> | _ \<Rightarrow> s)"
| "sc_do YOwner s =
     (case sy_owner s of
        OCheck t st \<Rightarrow>
          run_bind (arc_deref (sy_ptr s) (sy_mem s)) (\<lambda>inner.
            case sc_wait_check t st (sy_now s) inner of
              (inner', w) \<Rightarrow>
                run_map (\<lambda>h. s\<lparr>sy_mem := h,
                    sy_owner := (case w of WReturn r \<Rightarrow> OLeaving r | WSleep u \<Rightarrow> OAsleep t st u)\<rparr>)
                  (arc_write (sy_ptr s) inner' (sy_mem s)))
      | OLeaving r \<Rightarrow>
          run_map (\<lambda>(h, _). s\<lparr>sy_mem := h, sy_owner := OGone r\<rparr>) (arc_decrement (sy_ptr s) (sy_mem s))
      | _ \<Rightarrow> Ret s)"
| "sc_do YWakeUp s =
     Ret (case sy_owner s of OAsleep t st u \<Rightarrow> s\<lparr>sy_owner := OCheck t st\<rparr> | _ \<Rightarrow> s)"
| "sc_do YTick s = Ret (s\<lparr>sy_now := sy_now s + 1\<rparr>)"

text \<open>
  The contract: a callback may only arrive while the allocation is live, that is while the
  owner or the winning callback has its reference.
\<close>

fun owner_refs :: "'a sc_owner \<Rightarrow> nat" where
  "owner_refs (OGone r) = 0"
| "owner_refs _ = 1"

fun winner_refs :: "('a completion_result \<times> sc_pc) option \<Rightarrow> nat" where
  "winner_refs (Some (r, CbDone)) = 0"
| "winner_refs _ = 1"

definition sc_count :: "'a sc_sys \<Rightarrow> nat" where
  "sc_count s = owner_refs (sy_owner s) + winner_refs (sy_winner s)"

fun sc_allowed :: "'a sc_cmd \<Rightarrow> 'a sc_sys \<Rightarrow> bool" where
  "sc_allowed (YComplete r) s \<longleftrightarrow> 0 < sc_count s"
| "sc_allowed _ s \<longleftrightarrow> True"

text \<open>What the owner took, and the result the callback has stored.\<close>

fun owner_took :: "'a sc_owner \<Rightarrow> 'a completion_result option" where
  "owner_took (OLeaving r) = r"
| "owner_took (OGone r) = r"
| "owner_took _ = None"

fun winner_stored :: "('a completion_result \<times> sc_pc) option \<Rightarrow> 'a completion_result option" where
  "winner_stored (Some (r, CbNotify)) = Some r"
| "winner_stored (Some (r, CbDrop)) = Some r"
| "winner_stored (Some (r, CbDone)) = Some r"
| "winner_stored _ = None"

fun asleep_ok :: "'a sc_owner \<Rightarrow> ('a completion_result \<times> sc_pc) option \<Rightarrow> bool" where
  "asleep_ok (OAsleep t st u) (Some (r, CbDrop)) \<longleftrightarrow> False"
| "asleep_ok (OAsleep t st u) (Some (r, CbDone)) \<longleftrightarrow> False"
| "asleep_ok _ _ \<longleftrightarrow> True"

fun winner_started :: "('a completion_result \<times> sc_pc) option \<Rightarrow> bool" where
  "winner_started (Some (r, CbStart)) \<longleftrightarrow> False"
| "winner_started _ \<longleftrightarrow> True"

definition sc_inv :: "'a sc_sys \<Rightarrow> bool" where
  "sc_inv s \<longleftrightarrow>
     sy_ptr s \<noteq> 0
     \<and> am_cells (sy_mem s) (sy_ptr s) =
        (if sc_count s = 0 then None
         else Some (sc_count s, \<lparr>si_consumed = (sy_winner s \<noteq> None),
            si_result = (if owner_took (sy_owner s) = None then winner_stored (sy_winner s) else None)\<rparr>))
     \<and> (owner_took (sy_owner s) = None \<or> owner_took (sy_owner s) = winner_stored (sy_winner s))
     \<and> asleep_ok (sy_owner s) (sy_winner s) \<and> winner_started (sy_winner s)"

lemma sc_start_inv: "\<exists>s. sc_start = Ret s \<and> sc_inv s"
  by (simp add: sc_start_def sc_new_def arc_defs arc_empty_def sc_inv_def sc_count_def)

lemmas sc_inv_simps = sc_inv_def sc_count_def sc_context_ptr_def

text \<open>An outcome is a state with the invariant.\<close>

definition sc_good :: "'a sc_sys run \<Rightarrow> bool" where
  "sc_good r \<longleftrightarrow> (\<exists>s. r = Ret s \<and> sc_inv s)"

lemma sc_do_complete: assumes "sc_inv s" "0 < sc_count s" shows "sc_good (sc_do (YComplete r) s)"
  using assms by (cases "sy_winner s") (auto simp: sc_good_def sc_inv_simps arc_defs)

lemma sc_do_callback: assumes "sc_inv s" shows "sc_good (sc_do YCallback s)"
proof (cases "sy_winner s")
  case (Some w)
  obtain r pc where w: "w = (r, pc)" by (cases w)
  show ?thesis
    by (cases pc; cases "sy_owner s") (use assms Some w in \<open>auto simp: sc_good_def sc_inv_simps arc_defs\<close>)
qed (use assms in \<open>simp add: sc_good_def\<close>)

lemma sc_do_owner: assumes "sc_inv s" shows "sc_good (sc_do YOwner s)"
proof (cases "sy_winner s")
  case None
  then show ?thesis
    using assms by (cases "sy_owner s") (auto simp: sc_good_def sc_inv_simps arc_defs sc_wait_check_def
      split: option.splits)
next
  case (Some w)
  obtain r pc where w: "w = (r, pc)" by (cases w)
  show ?thesis
    by (cases pc; cases "sy_owner s")
      (use assms Some w in \<open>auto simp: sc_good_def sc_inv_simps arc_defs sc_wait_check_def
        split: option.splits if_splits\<close>)
qed

lemma sc_do_good:
  assumes "sc_inv s" "sc_allowed c s"
  shows "sc_good (sc_do c s)"
proof (cases c)
  case (YComplete r)
  then show ?thesis using sc_do_complete [OF assms(1)] assms(2) by (simp only: sc_allowed.simps)
next
  case YCallback
  then show ?thesis using sc_do_callback [OF assms(1)] by (simp only:)
next
  case YOwner
  then show ?thesis using sc_do_owner [OF assms(1)] by (simp only:)
qed (use assms(1) in \<open>cases "sy_owner s"; auto simp: sc_good_def sc_inv_simps\<close>)+

section \<open>Runs under the contract\<close>

fun sc_run :: "'a sc_cmd list \<Rightarrow> 'a sc_sys \<Rightarrow> 'a sc_sys run" where
  "sc_run [] s = Ret s"
| "sc_run (c # cs) s =
     (if sc_allowed c s then run_bind (sc_do c s) (sc_run cs) else sc_run cs s)"

lemma sc_run_good: "sc_inv s \<Longrightarrow> sc_good (sc_run cs s)"
proof (induction cs arbitrary: s)
  case (Cons c cs)
  show ?case
  proof (cases "sc_allowed c s")
    case True
    obtain s1 where "sc_do c s = Ret s1" "sc_inv s1"
      using sc_do_good [OF Cons.prems True] unfolding sc_good_def by blast
    then show ?thesis using Cons.IH [of s1] True by simp
  qed (use Cons in simp)
qed (simp add: sc_good_def)

lemma sc_start_run:
  fixes cs :: "'a sc_cmd list"
  shows "sc_good (run_bind sc_start (sc_run cs))"
proof -
  obtain s where s: "(sc_start :: 'a sc_sys run) = Ret s" "sc_inv s" using sc_start_inv by blast
  show ?thesis unfolding s(1) run_bind.simps using sc_run_good [OF s(2)] .
qed

lemma sc_run_inv: "run_bind sc_start (sc_run cs) = Ret s \<Longrightarrow> sc_inv s"
  using sc_start_run [of cs] unfolding sc_good_def by auto

text \<open>
  C19. Whatever the owner and the callbacks do under the contract, in any interleaving, there
  is no undefined behaviour; the owner takes nothing but the result of the callback that won;
  the allocation is freed exactly when the owner has dropped its reference and the winning
  callback its own, once, however many duplicates arrived while it was live; in particular it
  is live until a callback has won.
\<close>

theorem sc_interleavings_safe:
  "case run_bind sc_start (sc_run cs) of
     Ret s \<Rightarrow>
       (am_cells (sy_mem s) (sy_ptr s) = None \<longleftrightarrow>
          owner_refs (sy_owner s) = 0 \<and> winner_refs (sy_winner s) = 0)
       \<and> owner_took (sy_owner s) \<in> {None, winner_stored (sy_winner s)}
   | _ \<Rightarrow> False"
proof -
  obtain s where s: "run_bind sc_start (sc_run cs) = Ret s" "sc_inv s"
    using sc_start_run [of cs] unfolding sc_good_def by blast
  then show ?thesis by (auto simp: sc_inv_simps split: if_splits)
qed

text \<open>
  C20. No lost wake-up: once the winning callback has notified, a waiting owner is awake, and
  its next check takes the result, also when the time is over.
\<close>

theorem sc_no_lost_wakeup:
  assumes "run_bind sc_start (sc_run cs) = Ret s"
    and "sy_winner s = Some (r, pc)" and "pc \<in> {CbDrop, CbDone}"
  shows "case sy_owner s of
      OAsleep t st u \<Rightarrow> False
    | OCheck t st \<Rightarrow> \<exists>s'. sc_do YOwner s = Ret s' \<and> sy_owner s' = OLeaving (Some r)
    | _ \<Rightarrow> True"
proof -
  have inv: "sc_inv s" by (rule sc_run_inv [OF assms(1)])
  show ?thesis
  proof (cases "sy_owner s")
    case (OCheck t st)
    then show ?thesis using inv assms(2,3) by (auto simp: sc_inv_simps arc_defs sc_wait_check_def)
  next
    case (OAsleep t st u)
    then show ?thesis using inv assms(2,3) by (auto simp: sc_inv_def)
  qed simp_all
qed

definition sc_example :: "nat sc_cmd list" where
  "sc_example = [YWait (Some 5), YOwner, YComplete (Inr 7), YComplete (Inl []), YCallback, YCallback]"

theorem sc_no_lost_wakeup_witness:
  "\<exists>s. run_bind sc_start (sc_run sc_example) = Ret s \<and> sy_owner s = OCheck (Some 5) 0
     \<and> (\<exists>s'. sc_do YOwner s = Ret s' \<and> sy_owner s' = OLeaving (Some (Inr 7)))"
proof -
  obtain s where s: "run_bind sc_start (sc_run sc_example) = Ret s"
    using sc_start_run [of sc_example] unfolding sc_good_def by blast
  then have h: "sy_winner s = Some (Inr 7, CbDrop)" "sy_owner s = OCheck (Some 5) 0"
    by (auto simp: sc_example_def sc_start_def sc_new_def arc_defs arc_empty_def sc_context_ptr_def
      sc_count_def sc_wait_check_def)
  show ?thesis using sc_no_lost_wakeup [OF s h(1)] h(2) s by auto
qed

definition unit_result :: "bool \<Rightarrow> bytes option \<Rightarrow> unit completion_result" where
  "unit_result success msg = (if success then Inr () else Inl (error_from_cstr msg))"

text \<open>
  \<open>wait_timeout\<close> gives up only when the timeout is over and there is no result, a wait
  without a timeout never; a result that is there is always taken, and is there only once.
  \<open>UnitCompletion::callback\<close> delivers success, or the error message when it is valid UTF-8 and
  \<open>Unknown error\<close> otherwise.
\<close>

theorem sc_wait_outcomes:
  "(snd (sc_wait_check timeout start now inner) = WReturn None
      \<longleftrightarrow> si_result inner = None \<and> timeout \<noteq> None \<and> start + the timeout < max start now)
   \<and> (snd (sc_wait_check timeout start now inner) = WReturn (Some r) \<longleftrightarrow> si_result inner = Some r)
   \<and> (case sc_new arc_empty of
        Ret (p, h) \<Rightarrow>
          run_bind (unit_callback p success msg h) (arc_deref p)
            = Ret \<lparr>si_consumed = True, si_result = Some (unit_result success msg)\<rparr>
      | _ \<Rightarrow> False)"
proof -
  have "snd (sc_wait_check timeout start now inner) = WReturn None
      \<longleftrightarrow> si_result inner = None \<and> timeout \<noteq> None \<and> start + the timeout < max start now"
    by (auto simp: sc_wait_check_def split: option.splits)
  moreover have "snd (sc_wait_check timeout start now inner) = WReturn (Some r) \<longleftrightarrow> si_result inner = Some r"
    by (auto simp: sc_wait_check_def split: option.splits)
  moreover have "case sc_new arc_empty of
        Ret (p, h) \<Rightarrow>
          run_bind (unit_callback p success msg h) (arc_deref p)
            = Ret \<lparr>si_consumed = True, si_result = Some (unit_result success msg)\<rparr>
      | _ \<Rightarrow> False"
    by (simp add: sc_new_def arc_empty_def arc_defs unit_callback_def unit_result_def sc_complete_ok_def
      sc_complete_err_def sc_complete_with_result_def)
  ultimately show ?thesis by blast
qed

end
