(* ===== verification/AsyncCompletion.thy ===== *)
theory AsyncCompletion
  imports Completion
begin

text \<open>
  The asynchronous completion of \<open>src/completion.rs\<close>: a future that shares a cell with the
  foreign callback, and the waker it leaves there. Like the synchronous one, with a poll in
  the place of the wait.
\<close>

section \<open>Operations\<close>

record ('a, 'w) ac_inner =
  ai_consumed :: bool
  ai_result :: "'a completion_result option"
  ai_waker :: "'w option"

type_synonym ('a, 'w) ac_mem = "('a, 'w) ac_inner arc_mem"

definition ac_create :: "('a, 'w) ac_mem \<Rightarrow> (nat \<times> ('a, 'w) ac_mem) run" where
  "ac_create h =
     (case arc_new \<lparr>ai_consumed = False, ai_result = None, ai_waker = None\<rparr> h of
        (p, h') \<Rightarrow> run_map (\<lambda>h''. (p, h'')) (arc_increment p h'))"

text \<open>
  The program points of \<open>complete_with_result\<close>: the null check and the swap, the critical
  section, the wake of the waker it took, the drop of the reference.
\<close>

datatype 'w ac_pc = AcStart | AcSet | AcWake "'w option" | AcDrop | AcDone

text \<open>A step, and the wakers woken.\<close>

fun ac_complete_step :: "nat \<Rightarrow> 'a completion_result \<Rightarrow> 'w ac_pc \<Rightarrow> ('a, 'w) ac_mem
    \<Rightarrow> (('a, 'w) ac_mem \<times> 'w ac_pc \<times> 'w list) run" where
  "ac_complete_step context result AcStart h =
     (if context = 0 then Ret (h, AcDone, [])
      else run_bind (arc_deref context h) (\<lambda>inner.
        run_bind (arc_write context (inner\<lparr>ai_consumed := True\<rparr>) h) (\<lambda>h'.
          Ret (h', if ai_consumed inner then AcDone else AcSet, []))))"
| "ac_complete_step context result AcSet h =
     run_bind (arc_deref context h) (\<lambda>inner.
       run_bind (arc_write context (inner\<lparr>ai_result := Some result, ai_waker := None\<rparr>) h) (\<lambda>h'.
         Ret (h', AcWake (ai_waker inner), [])))"
| "ac_complete_step context result (AcWake waker) h =
     Ret (h, AcDrop, case waker of Some w \<Rightarrow> [w] | None \<Rightarrow> [])"
| "ac_complete_step context result AcDrop h =
     run_map (\<lambda>(h', freed). (h', AcDone, [])) (arc_decrement context h)"
| "ac_complete_step context result AcDone h = Ret (h, AcDone, [])"

definition ac_poll :: "('w \<Rightarrow> 'w \<Rightarrow> bool) \<Rightarrow> 'w \<Rightarrow> ('a, 'w) ac_inner
    \<Rightarrow> ('a, 'w) ac_inner \<times> 'a completion_result poll" where
  "ac_poll ww waker inner =
     (case ai_result inner of
        Some result \<Rightarrow> (inner\<lparr>ai_result := None\<rparr>, Ready result)
      | None \<Rightarrow>
          (inner\<lparr>ai_waker := (case ai_waker inner of
              Some existing \<Rightarrow> if ww existing waker then Some existing else Some waker
            | None \<Rightarrow> Some waker)\<rparr>, Pending))"

text \<open>A call of \<open>complete_with_result\<close> that no other step interrupts, with the wakers woken.\<close>

definition ac_complete_with_result :: "nat \<Rightarrow> 'a completion_result \<Rightarrow> ('a, 'w) ac_mem
    \<Rightarrow> (('a, 'w) ac_mem \<times> 'w list) run" where
  "ac_complete_with_result context result h =
     run_bind (ac_complete_step context result AcStart h) (\<lambda>(h1, pc1, _).
     run_bind (ac_complete_step context result pc1 h1) (\<lambda>(h2, pc2, _).
     run_bind (ac_complete_step context result pc2 h2) (\<lambda>(h3, pc3, woken).
     run_bind (ac_complete_step context result pc3 h3) (\<lambda>(h4, pc4, _). Ret (h4, woken)))))"

definition ac_complete_ok :: "nat \<Rightarrow> 'a \<Rightarrow> ('a, 'w) ac_mem \<Rightarrow> (('a, 'w) ac_mem \<times> 'w list) run" where
  "ac_complete_ok context value h = ac_complete_with_result context (Inr value) h"

definition ac_complete_err :: "nat \<Rightarrow> bytes \<Rightarrow> ('a, 'w) ac_mem \<Rightarrow> (('a, 'w) ac_mem \<times> 'w list) run" where
  "ac_complete_err context error h = ac_complete_with_result context (Inl error) h"

section \<open>The future and the callback\<close>

text \<open>
  The future is alive or dropped; it is parked with the waker of its last poll when this
  returned \<open>Pending\<close> and its task was not woken since; the results its polls returned.
\<close>

record ('a, 'w) ac_sys =
  az_mem :: "('a, 'w) ac_mem"
  az_ptr :: nat
  az_alive :: bool
  az_parked :: "'w option"
  az_delivered :: "'a completion_result list"
  az_winner :: "('a completion_result \<times> 'w ac_pc) option"

definition ac_start :: "('a, 'w) ac_sys run" where
  "ac_start = run_map (\<lambda>(p, h).
     \<lparr>az_mem = h, az_ptr = p, az_alive = True, az_parked = None, az_delivered = [], az_winner = None\<rparr>)
       (ac_create arc_empty)"

datatype ('a, 'w) ac_cmd = ZComplete "'a completion_result" | ZCallback | ZPoll 'w | ZDropFuture

definition ac_wake :: "('w \<Rightarrow> 'w \<Rightarrow> bool) \<Rightarrow> 'w list \<Rightarrow> 'w option \<Rightarrow> 'w option" where
  "ac_wake ww woken parked =
     (case parked of None \<Rightarrow> None
      | Some w \<Rightarrow> if list_ex (wakes_task ww w) woken then None else Some w)"

fun ac_do :: "('w \<Rightarrow> 'w \<Rightarrow> bool) \<Rightarrow> ('a, 'w) ac_cmd \<Rightarrow> ('a, 'w) ac_sys \<Rightarrow> ('a, 'w) ac_sys run" where
  "ac_do ww (ZComplete r) s =
     run_map (\<lambda>(h, pc, _). s\<lparr>az_mem := h, az_winner := (case pc of AcSet \<Rightarrow> Some (r, AcSet) | _ \<Rightarrow> az_winner s)\<rparr>)
       (ac_complete_step (az_ptr s) r AcStart (az_mem s))"
| "ac_do ww ZCallback s =
     (case az_winner s of
        None \<Rightarrow> Ret s
      | Some (r, pc) \<Rightarrow>
          run_map (\<lambda>(h, pc', woken).
              s\<lparr>az_mem := h, az_winner := Some (r, pc'), az_parked := ac_wake ww woken (az_parked s)\<rparr>)
            (ac_complete_step (az_ptr s) r pc (az_mem s)))"
| "ac_do ww (ZPoll w) s =
     (if az_alive s
      then run_bind (arc_deref (az_ptr s) (az_mem s)) (\<lambda>inner.
        case ac_poll ww w inner of
          (inner', res) \<Rightarrow>
            run_map (\<lambda>h. case res of
                Ready r \<Rightarrow> s\<lparr>az_mem := h, az_parked := None, az_delivered := az_delivered s @ [r]\<rparr>
              | Pending \<Rightarrow> s\<lparr>az_mem := h, az_parked := Some w\<rparr>)
              (arc_write (az_ptr s) inner' (az_mem s)))
      else Ret s)"
| "ac_do ww ZDropFuture s =
     (if az_alive s
      then run_map (\<lambda>(h, _). s\<lparr>az_mem := h, az_alive := False, az_parked := None\<rparr>)
             (arc_decrement (az_ptr s) (az_mem s))
      else Ret s)"

text \<open>The contract: a callback may only arrive while the allocation is live.\<close>

fun acw_refs :: "('a completion_result \<times> 'w ac_pc) option \<Rightarrow> nat" where
  "acw_refs (Some (r, AcDone)) = 0"
| "acw_refs _ = 1"

definition ac_count :: "('a, 'w) ac_sys \<Rightarrow> nat" where
  "ac_count s = (if az_alive s then 1 else 0) + acw_refs (az_winner s)"

fun ac_allowed :: "('a, 'w) ac_cmd \<Rightarrow> ('a, 'w) ac_sys \<Rightarrow> bool" where
  "ac_allowed (ZComplete r) s \<longleftrightarrow> 0 < ac_count s"
| "ac_allowed _ s \<longleftrightarrow> True"

fun ac_run :: "('w \<Rightarrow> 'w \<Rightarrow> bool) \<Rightarrow> ('a, 'w) ac_cmd list \<Rightarrow> ('a, 'w) ac_sys \<Rightarrow> ('a, 'w) ac_sys run" where
  "ac_run ww [] s = Ret s"
| "ac_run ww (c # cs) s =
     (if ac_allowed c s then run_bind (ac_do ww c s) (ac_run ww cs) else ac_run ww cs s)"

section \<open>The invariant\<close>

fun acw_stored :: "('a completion_result \<times> 'w ac_pc) option \<Rightarrow> 'a completion_result option" where
  "acw_stored (Some (r, AcWake w)) = Some r"
| "acw_stored (Some (r, AcDrop)) = Some r"
| "acw_stored (Some (r, AcDone)) = Some r"
| "acw_stored _ = None"

fun acw_started :: "('a completion_result \<times> 'w ac_pc) option \<Rightarrow> bool" where
  "acw_started (Some (r, AcStart)) \<longleftrightarrow> False"
| "acw_started _ \<longleftrightarrow> True"

text \<open>
  The waker that will wake the parked task: the one in the cell before the result is stored,
  then the one the callback took; after a delivery there is none.
\<close>

fun wakes_opt :: "('w \<Rightarrow> 'w \<Rightarrow> bool) \<Rightarrow> 'w \<Rightarrow> 'w option \<Rightarrow> bool" where
  "wakes_opt ww w (Some v) \<longleftrightarrow> wakes_task ww w v"
| "wakes_opt ww w None \<longleftrightarrow> False"

fun ac_parked_ok :: "('w \<Rightarrow> 'w \<Rightarrow> bool) \<Rightarrow> 'w option \<Rightarrow> 'w option \<Rightarrow> ('a completion_result \<times> 'w ac_pc) option \<Rightarrow> bool" where
  "ac_parked_ok ww None waker winner \<longleftrightarrow> True"
| "ac_parked_ok ww (Some w) waker None \<longleftrightarrow> wakes_opt ww w waker"
| "ac_parked_ok ww (Some w) waker (Some (r, AcStart)) \<longleftrightarrow> wakes_opt ww w waker"
| "ac_parked_ok ww (Some w) waker (Some (r, AcSet)) \<longleftrightarrow> wakes_opt ww w waker"
| "ac_parked_ok ww (Some w) waker (Some (r, AcWake v)) \<longleftrightarrow> wakes_opt ww w v"
| "ac_parked_ok ww (Some w) waker (Some (r, AcDrop)) \<longleftrightarrow> False"
| "ac_parked_ok ww (Some w) waker (Some (r, AcDone)) \<longleftrightarrow> False"

fun undelivered :: "'b list \<Rightarrow> 'b option \<Rightarrow> 'b option" where
  "undelivered [] x = x"
| "undelivered (_ # _) x = None"

fun delivered_ok :: "'b list \<Rightarrow> 'b option \<Rightarrow> bool" where
  "delivered_ok [] x \<longleftrightarrow> True"
| "delivered_ok [r] (Some r') \<longleftrightarrow> r = r'"
| "delivered_ok _ _ \<longleftrightarrow> False"

fun ac_cell_ok :: "('w \<Rightarrow> 'w \<Rightarrow> bool) \<Rightarrow> nat \<Rightarrow> 'w option \<Rightarrow> 'a completion_result list
    \<Rightarrow> ('a completion_result \<times> 'w ac_pc) option \<Rightarrow> (nat \<times> ('a, 'w) ac_inner) option \<Rightarrow> bool" where
  "ac_cell_ok ww k parked dl winner None \<longleftrightarrow> k = 0"
| "ac_cell_ok ww k parked dl winner (Some (n, inner)) \<longleftrightarrow>
     0 < k \<and> n = k \<and> ai_consumed inner = (winner \<noteq> None)
     \<and> ai_result inner = undelivered dl (acw_stored winner)
     \<and> (dl \<noteq> [] \<or> ac_parked_ok ww parked (ai_waker inner) winner)"

text \<open>A result is delivered at most once and is the one of the callback that won.\<close>

definition ac_inv :: "('w \<Rightarrow> 'w \<Rightarrow> bool) \<Rightarrow> ('a, 'w) ac_sys \<Rightarrow> bool" where
  "ac_inv ww s \<longleftrightarrow>
     az_ptr s \<noteq> 0
     \<and> ac_cell_ok ww (ac_count s) (az_parked s) (az_delivered s) (az_winner s)
         (am_cells (az_mem s) (az_ptr s))
     \<and> delivered_ok (az_delivered s) (acw_stored (az_winner s))
     \<and> (az_alive s \<or> az_parked s = None)
     \<and> acw_started (az_winner s)"

definition ac_good :: "('w \<Rightarrow> 'w \<Rightarrow> bool) \<Rightarrow> ('a, 'w) ac_sys run \<Rightarrow> bool" where
  "ac_good ww r \<longleftrightarrow> (\<exists>s. r = Ret s \<and> ac_inv ww s)"

lemma ac_good_Ret [simp]: "ac_good ww (Ret s) \<longleftrightarrow> ac_inv ww s"
  by (simp add: ac_good_def)

lemma ac_start_good: "ac_good ww ac_start"
  by (simp add: ac_start_def ac_create_def arc_defs arc_empty_def ac_inv_def ac_count_def)

lemmas ac_inv_simps = ac_inv_def ac_count_def

text \<open>A live cell, with the parts of the state.\<close>

lemma ac_inv_cell:
  assumes "ac_inv ww s" "0 < ac_count s"
  obtains inner where "am_cells (az_mem s) (az_ptr s) = Some (ac_count s, inner)"
    "ai_consumed inner = (az_winner s \<noteq> None)"
    "ai_result inner = undelivered (az_delivered s) (acw_stored (az_winner s))"
    "az_delivered s \<noteq> [] \<or> ac_parked_ok ww (az_parked s) (ai_waker inner) (az_winner s)"
  using assms by (cases "am_cells (az_mem s) (az_ptr s)") (auto simp: ac_inv_def)

lemma ac_do_complete:
  assumes "ac_inv ww s" "0 < ac_count s"
  shows "ac_good ww (ac_do ww (ZComplete r) s)"
proof -
  obtain inner where c: "am_cells (az_mem s) (az_ptr s) = Some (ac_count s, inner)"
    "ai_consumed inner = (az_winner s \<noteq> None)"
    "ai_result inner = undelivered (az_delivered s) (acw_stored (az_winner s))"
    "az_delivered s \<noteq> [] \<or> ac_parked_ok ww (az_parked s) (ai_waker inner) (az_winner s)"
    using ac_inv_cell [OF assms] .
  have i: "az_ptr s \<noteq> 0" "delivered_ok (az_delivered s) (acw_stored (az_winner s))"
    "az_alive s \<or> az_parked s = None" "acw_started (az_winner s)"
    using assms(1) by (simp_all add: ac_inv_def)
  show ?thesis
  proof (cases "az_winner s")
    case None
    then show ?thesis using c i
      by (cases "az_parked s"; cases "az_delivered s") (simp_all add: ac_inv_simps arc_defs)
  next
    case (Some w)
    then show ?thesis using c i assms(2) by (simp add: ac_inv_simps arc_defs)
  qed
qed

lemma ac_do_poll:
  assumes "ac_inv ww s"
  shows "ac_good ww (ac_do ww (ZPoll w) s)"
proof (cases "az_alive s")
  case True
  then have "0 < ac_count s" by (simp add: ac_count_def)
  then obtain inner where c: "am_cells (az_mem s) (az_ptr s) = Some (ac_count s, inner)"
    "ai_consumed inner = (az_winner s \<noteq> None)"
    "ai_result inner = undelivered (az_delivered s) (acw_stored (az_winner s))"
    "az_delivered s \<noteq> [] \<or> ac_parked_ok ww (az_parked s) (ai_waker inner) (az_winner s)"
    using ac_inv_cell [OF assms] by blast
  have i: "az_ptr s \<noteq> 0" "delivered_ok (az_delivered s) (acw_stored (az_winner s))"
    "acw_started (az_winner s)"
    using assms(1) by (simp_all add: ac_inv_def)
  show ?thesis
  proof (cases "ai_result inner")
    case None
    have "wakes_opt ww w (case ai_waker inner of
        Some existing \<Rightarrow> if ww existing w then Some existing else Some w | None \<Rightarrow> Some w)"
      by (simp add: wakes_task_def split: option.split)
    moreover have "az_winner s = None \<or> (\<exists>r. az_winner s = Some (r, AcSet)) \<or> az_delivered s \<noteq> []"
      using None c(3) i(3) by (cases "az_delivered s"; cases "az_winner s" rule: acw_stored.cases) auto
    ultimately show ?thesis using None c i True
      by (auto simp: ac_inv_simps arc_defs ac_poll_def)
  next
    case (Some r)
    then have "az_delivered s = []" "acw_stored (az_winner s) = Some r"
      using c(3) by (cases "az_delivered s"; simp)+
    then show ?thesis using Some c i True
      by (simp add: ac_inv_simps arc_defs ac_poll_def)
  qed
qed (use assms in \<open>simp\<close>)

lemma ac_do_callback:
  assumes "ac_inv ww s"
  shows "ac_good ww (ac_do ww ZCallback s)"
proof (cases "az_winner s")
  case (Some x)
  obtain r pc where x: "x = (r, pc)" by (cases x)
  have i: "az_ptr s \<noteq> 0" "delivered_ok (az_delivered s) (acw_stored (az_winner s))"
    "az_alive s \<or> az_parked s = None" "acw_started (az_winner s)"
    using assms(1) by (simp_all add: ac_inv_def)
  show ?thesis
  proof (cases "pc = AcDone")
    case True
    then show ?thesis using assms Some x by (cases "az_parked s"; cases "az_alive s") (simp_all add: ac_wake_def ac_inv_simps)
  next
    case False
    then have "0 < ac_count s" using Some x by (cases pc) (simp_all add: ac_count_def)
    then obtain inner where c: "am_cells (az_mem s) (az_ptr s) = Some (ac_count s, inner)"
      "ai_consumed inner = (az_winner s \<noteq> None)"
      "ai_result inner = undelivered (az_delivered s) (acw_stored (az_winner s))"
      "az_delivered s \<noteq> [] \<or> ac_parked_ok ww (az_parked s) (ai_waker inner) (az_winner s)"
      using ac_inv_cell [OF assms] by blast
    show ?thesis
    proof (cases pc)
      case AcSet
      then show ?thesis using c i Some x
        by (cases "az_delivered s"; cases "az_parked s") (simp_all add: ac_inv_simps arc_defs ac_wake_def)
    next
      case (AcWake v)
      then show ?thesis using c i Some x
        by (cases v; cases "az_delivered s"; cases "az_parked s")
          (simp_all add: ac_inv_simps arc_defs ac_wake_def)
    next
      case AcDrop
      then show ?thesis using c i Some x
        by (cases "az_alive s"; cases "az_delivered s"; cases "az_parked s")
          (simp_all add: ac_inv_simps arc_defs ac_wake_def)
    qed (use False i Some x in simp_all)
  qed
qed (use assms in \<open>simp\<close>)

lemma ac_do_drop:
  assumes "ac_inv ww s"
  shows "ac_good ww (ac_do ww ZDropFuture s)"
proof (cases "az_alive s")
  case True
  then have "0 < ac_count s" by (simp add: ac_count_def)
  then obtain inner where c: "am_cells (az_mem s) (az_ptr s) = Some (ac_count s, inner)"
    "ai_consumed inner = (az_winner s \<noteq> None)"
    "ai_result inner = undelivered (az_delivered s) (acw_stored (az_winner s))"
    using ac_inv_cell [OF assms] by blast
  have "az_ptr s \<noteq> 0" "delivered_ok (az_delivered s) (acw_stored (az_winner s))" "acw_started (az_winner s)"
    using assms(1) by (simp_all add: ac_inv_def)
  then show ?thesis using True c
    by (cases "acw_refs (az_winner s) = 0") (simp_all add: ac_inv_simps arc_defs)
qed (use assms in \<open>simp\<close>)

lemma ac_do_good:
  assumes "ac_inv ww s" "ac_allowed c s"
  shows "ac_good ww (ac_do ww c s)"
  using assms ac_do_complete ac_do_poll ac_do_callback ac_do_drop
  by (cases c) (simp_all only: ac_allowed.simps)

lemma ac_run_good: "ac_inv ww s \<Longrightarrow> ac_good ww (ac_run ww cs s)"
proof (induction cs arbitrary: s)
  case (Cons c cs)
  show ?case
  proof (cases "ac_allowed c s")
    case True
    obtain s1 where "ac_do ww c s = Ret s1" "ac_inv ww s1"
      using ac_do_good [OF Cons.prems True] unfolding ac_good_def by blast
    then show ?thesis using Cons.IH [of s1] True by simp
  qed (use Cons in simp)
qed simp

lemma ac_start_run:
  fixes cs :: "('a, 'w) ac_cmd list"
  shows "ac_good ww (run_bind ac_start (ac_run ww cs))"
proof -
  obtain s where s: "(ac_start :: ('a, 'w) ac_sys run) = Ret s" "ac_inv ww s"
    using ac_start_good unfolding ac_good_def by blast
  show ?thesis unfolding s(1) run_bind.simps using ac_run_good [OF s(2)] .
qed

lemma ac_run_inv: "run_bind ac_start (ac_run ww cs) = Ret s \<Longrightarrow> ac_inv ww s"
  using ac_start_run [of ww cs] unfolding ac_good_def by auto

section \<open>Properties\<close>

text \<open>
  C21. Whatever the future and the callbacks do under the contract, in any interleaving, there
  is no undefined behaviour; the polls deliver the result of the callback that won and nothing
  else, at most once; the allocation is freed exactly when the future is dropped and the
  winning callback has dropped its reference.
\<close>

theorem ac_interleavings_safe:
  "case run_bind ac_start (ac_run ww cs) of
     Ret s \<Rightarrow>
       delivered_ok (az_delivered s) (acw_stored (az_winner s))
       \<and> (am_cells (az_mem s) (az_ptr s) = None \<longleftrightarrow> \<not> az_alive s \<and> acw_refs (az_winner s) = 0)
   | _ \<Rightarrow> False"
proof -
  obtain s where s: "run_bind ac_start (ac_run ww cs) = Ret s" "ac_inv ww s"
    using ac_start_run [of ww cs] unfolding ac_good_def by blast
  then show ?thesis
    by (cases "am_cells (az_mem s) (az_ptr s)"; cases "az_alive s") (auto simp: ac_inv_simps)
qed

text \<open>
  C22. No lost wake-up: once the winning callback has woken the waker it took, the future is
  not parked unless it was polled again after it had delivered; and while it is alive and has
  not delivered, a poll delivers the result. The waker may change from poll to poll.
\<close>

theorem ac_no_lost_wakeup:
  assumes "run_bind ac_start (ac_run ww cs) = Ret s"
    and "az_winner s = Some (r, pc)" and "pc \<in> {AcDrop, AcDone}" and "az_delivered s = []"
  shows "az_parked s = None
    \<and> (if az_alive s then (\<exists>s'. ac_do ww (ZPoll w) s = Ret s' \<and> az_delivered s' = [r]) else True)"
proof -
  have inv: "ac_inv ww s" by (rule ac_run_inv [OF assms(1)])
  show ?thesis
  proof (cases "am_cells (az_mem s) (az_ptr s)")
    case None
    then show ?thesis using inv by (auto simp: ac_inv_simps split: if_splits)
  next
    case (Some c)
    then have "az_parked s = None"
      using inv assms(2-4) by (cases c; cases "az_parked s") (auto simp: ac_inv_simps)
    then show ?thesis
      using Some inv assms(2-4) by (cases c) (auto simp: ac_inv_simps arc_defs ac_poll_def)
  qed
qed

definition ac_example :: "(nat, nat) ac_cmd list" where
  "ac_example = [ZPoll 1, ZPoll 2, ZComplete (Inr 7), ZComplete (Inl []), ZCallback, ZCallback]"

theorem ac_no_lost_wakeup_witness:
  "\<exists>s. run_bind ac_start (ac_run (=) ac_example) = Ret s \<and> az_parked s = None
     \<and> (\<exists>s'. ac_do (=) (ZPoll 2) s = Ret s' \<and> az_delivered s' = [Inr 7])"
proof -
  obtain s where s: "run_bind ac_start (ac_run (=) ac_example) = Ret s"
    using ac_start_run [of "(=)" ac_example] unfolding ac_good_def by blast
  then have h: "az_winner s = Some (Inr 7, AcDrop)" "az_delivered s = []" "az_alive s"
    by (auto simp: ac_example_def ac_start_def ac_create_def arc_defs arc_empty_def
      ac_count_def ac_poll_def)
  show ?thesis using ac_no_lost_wakeup [OF s h(1) _ h(2), of 2] h(3) s by auto
qed

end
