(* ===== verification/Json.thy ===== *)
theory Json
  imports OrderedMap Utf8 "HOL-Library.List_Lexorder"
begin

text \<open>
  JSON values, their text and the parser of \<open>src/json.rs\<close>. A string is the list of its UTF-8
  bytes, an object the list of its entries in increasing order of the keys. The floats and
  what the standard library does with them (its parser, its \<open>{:?}\<close> format, the test for
  finiteness, the conversions) are a parameter.
\<close>

section \<open>Values\<close>

type_synonym i64 = "64 word"

datatype 'f json = JNull | JBool bool | JInteger i64 | JFloat 'f | JString bytes
  | JArray "'f json list" | JObject "(bytes \<times> 'f json) list"

record 'f f64_ops =
  fl_parse :: "bytes \<Rightarrow> 'f option"
  fl_finite :: "'f \<Rightarrow> bool"
  fl_debug :: "'f \<Rightarrow> bytes"
  fl_of_i64 :: "i64 \<Rightarrow> 'f"

datatype json_error = JsonError bytes

definition ascii_bytes :: "string \<Rightarrow> bytes" where
  "ascii_bytes s = map of_char s"

section \<open>Text of a value\<close>

text \<open>The decimal digits of an integer.\<close>

fun dec_nat :: "nat \<Rightarrow> bytes" where
  "dec_nat n = (if n < 10 then [of_nat (48 + n)] else dec_nat (n div 10) @ [of_nat (48 + n mod 10)])"

declare dec_nat.simps [simp del]

definition dec_int :: "int \<Rightarrow> bytes" where
  "dec_int i = (if i < 0 then 0x2D # dec_nat (nat (- i)) else dec_nat (nat i))"

definition hex_digit :: "nat \<Rightarrow> u8" where
  "hex_digit n = (if n < 10 then of_nat (48 + n) else of_nat (87 + n))"

text \<open>The match of \<open>write_string\<close> on one character, given by its bytes.\<close>

definition write_char :: "bytes \<Rightarrow> bytes" where
  "write_char ch =
     (case ch of
        [b] \<Rightarrow>
          (if b = 0x22 then [0x5C, 0x22]
           else if b = 0x5C then [0x5C, 0x5C]
           else if b = 0x08 then [0x5C, 0x62]
           else if b = 0x0C then [0x5C, 0x66]
           else if b = 0x0A then [0x5C, 0x6E]
           else if b = 0x0D then [0x5C, 0x72]
           else if b = 0x09 then [0x5C, 0x74]
           else if b \<le> 0x1F
           then [0x5C, 0x75, 0x30, 0x30, hex_digit (unat b div 16), hex_digit (unat b mod 16)]
           else [b])
      | _ \<Rightarrow> ch)"

definition write_string :: "bytes \<Rightarrow> bytes" where
  "write_string text = [0x22] @ concat (map write_char (chars text)) @ [0x22]"

text \<open>The items with a comma before each but the first.\<close>

fun comma_separated :: "bytes list \<Rightarrow> bytes" where
  "comma_separated [] = []"
| "comma_separated [x] = x"
| "comma_separated (x # y # xs) = x @ [0x2C] @ comma_separated (y # xs)"

fun json_text :: "'f f64_ops \<Rightarrow> 'f json \<Rightarrow> bytes" where
  "json_text F (JBool b) = (if b then ascii_bytes ''true'' else ascii_bytes ''false'')"
| "json_text F (JInteger i) = dec_int (sint i)"
| "json_text F (JFloat x) = (if fl_finite F x then fl_debug F x else ascii_bytes ''null'')"
| "json_text F JNull = ascii_bytes ''null''"
| "json_text F (JString s) = write_string s"
| "json_text F (JArray vs) = [0x5B] @ comma_separated (map (json_text F) vs) @ [0x5D]"
| "json_text F (JObject kvs) =
     [0x7B] @ comma_separated (map (\<lambda>(k, v). write_string k @ [0x3A] @ json_text F v) kvs) @ [0x7D]"

section \<open>The reader\<close>

text \<open>
  A step of the reader returns a value and the next position, fails, panics (a slice of the
  text that is not at a character boundary), or the fuel of the model is used up.
\<close>

datatype 'a parsed = Parsed 'a nat | Failed json_error | Panicked string | OutOfFuel

text \<open>The operator \<open>?\<close>.\<close>

fun parsed_bind :: "'a parsed \<Rightarrow> ('a \<Rightarrow> nat \<Rightarrow> 'b parsed) \<Rightarrow> 'b parsed" where
  "parsed_bind (Parsed v p) f = f v p"
| "parsed_bind (Failed e) f = Failed e"
| "parsed_bind (Panicked m) f = Panicked m"
| "parsed_bind OutOfFuel f = OutOfFuel"

lemma parsed_bind_cong [fundef_cong]:
  "r = r' \<Longrightarrow> (\<And>v p. r' = Parsed v p \<Longrightarrow> f v p = g v p) \<Longrightarrow> parsed_bind r f = parsed_bind r' g"
  by (cases r') auto

lemma parsed_bind_eq_Parsed:
  "parsed_bind r f = Parsed w q \<longleftrightarrow> (\<exists>v p. r = Parsed v p \<and> f v p = Parsed w q)"
  by (cases r) auto

definition reader_error :: "string \<Rightarrow> nat \<Rightarrow> json_error" where
  "reader_error message p = JsonError (ascii_bytes message @ ascii_bytes '' at byte '' @ dec_nat p)"

definition fail_at :: "string \<Rightarrow> nat \<Rightarrow> 'a parsed" where
  "fail_at message p = Failed (reader_error message p)"

definition peek :: "bytes \<Rightarrow> nat \<Rightarrow> u8 option" where
  "peek text p = (if p < length text then Some (text ! p) else None)"

definition consume :: "u8 \<Rightarrow> bytes \<Rightarrow> nat \<Rightarrow> nat \<times> bool" where
  "consume b text p = (if peek text p = Some b then (p + 1, True) else (p, False))"

text \<open>A loop that advances while the next byte satisfies a condition.\<close>

definition advance_while :: "(u8 \<Rightarrow> bool) \<Rightarrow> bytes \<Rightarrow> nat \<Rightarrow> nat" where
  "advance_while P text p = p + length (takeWhile P (drop p text))"

definition is_space :: "u8 \<Rightarrow> bool" where
  "is_space b \<longleftrightarrow> b = 0x20 \<or> b = 0x09 \<or> b = 0x0A \<or> b = 0x0D"

definition is_digit :: "u8 \<Rightarrow> bool" where
  "is_digit b \<longleftrightarrow> 0x30 \<le> b \<and> b \<le> 0x39"

definition whitespace :: "bytes \<Rightarrow> nat \<Rightarrow> nat" where
  "whitespace text p = advance_while is_space text p"

text \<open>A slice of a \<open>str\<close>, which panics off the character boundaries.\<close>

definition char_boundary :: "bytes \<Rightarrow> nat \<Rightarrow> bool" where
  "char_boundary text i \<longleftrightarrow> i = length text \<or> (i < length text \<and> (i = 0 \<or> \<not> utf8_cont (text ! i)))"

definition str_slice :: "bytes \<Rightarrow> nat \<Rightarrow> nat \<Rightarrow> bytes option" where
  "str_slice text a b =
     (if a \<le> b \<and> char_boundary text a \<and> char_boundary text b then Some (take (b - a) (drop a text))
      else None)"

definition slice_panic :: string where
  "slice_panic = ''byte index is not a char boundary''"

section \<open>Strings\<close>

definition hex_value :: "u8 \<Rightarrow> nat option" where
  "hex_value b =
     (if 0x30 \<le> b \<and> b \<le> 0x39 then Some (unat b - 0x30)
      else if 0x61 \<le> b \<and> b \<le> 0x66 then Some (unat b - 0x61 + 10)
      else if 0x41 \<le> b \<and> b \<le> 0x46 then Some (unat b - 0x41 + 10)
      else None)"

fun hex_loop :: "nat \<Rightarrow> bytes \<Rightarrow> nat \<Rightarrow> nat \<Rightarrow> nat parsed" where
  "hex_loop 0 text p v = Parsed v p"
| "hex_loop (Suc k) text p v =
     (case peek text p of
        Some b \<Rightarrow>
          (case hex_value b of
             Some digit \<Rightarrow> hex_loop k text (p + 1) (v * 16 + digit)
           | None \<Rightarrow> fail_at ''invalid Unicode escape'' p)
      | None \<Rightarrow> fail_at ''invalid Unicode escape'' p)"

definition hex_quad :: "bytes \<Rightarrow> nat \<Rightarrow> nat parsed" where
  "hex_quad text p = hex_loop 4 text p 0"

text \<open>\<open>char::from_u32\<close> and the bytes of a character.\<close>

definition char_from_u32 :: "nat \<Rightarrow> nat option" where
  "char_from_u32 code =
     (if code \<le> 0x10FFFF \<and> \<not> (0xD800 \<le> code \<and> code \<le> 0xDFFF) then Some code else None)"

definition utf8_encode :: "nat \<Rightarrow> bytes" where
  "utf8_encode c =
     (if c < 0x80 then [of_nat c]
      else if c < 0x800 then [of_nat (0xC0 + c div 64), of_nat (0x80 + c mod 64)]
      else if c < 0x10000
      then [of_nat (0xE0 + c div 4096), of_nat (0x80 + c div 64 mod 64), of_nat (0x80 + c mod 64)]
      else [of_nat (0xF0 + c div 262144), of_nat (0x80 + c div 4096 mod 64),
            of_nat (0x80 + c div 64 mod 64), of_nat (0x80 + c mod 64)])"

text \<open>The escape after \<open>\u\<close>, with a second one for a surrogate pair.\<close>

definition checked_char :: "nat \<Rightarrow> nat \<Rightarrow> nat parsed" where
  "checked_char code p =
     (case char_from_u32 code of
        Some c \<Rightarrow> Parsed c p
      | None \<Rightarrow> fail_at ''invalid Unicode escape'' p)"

definition unicode_escape :: "bytes \<Rightarrow> nat \<Rightarrow> nat parsed" where
  "unicode_escape text p =
     parsed_bind (hex_quad text p) (\<lambda>first p1.
       if 0xD800 \<le> first \<and> first \<le> 0xDBFF
       then (case consume 0x5C text p1 of (p2, backslash) \<Rightarrow>
         if \<not> backslash then fail_at ''expected a low surrogate'' p2
         else (case consume 0x75 text p2 of (p3, u) \<Rightarrow>
           if \<not> u then fail_at ''expected a low surrogate'' p3
           else parsed_bind (hex_quad text p3) (\<lambda>second p4.
             if \<not> (0xDC00 \<le> second \<and> second \<le> 0xDFFF)
             then fail_at ''invalid low surrogate'' p4
             else checked_char (0x10000 + (first - 0xD800) * 2 ^ 10 + second - 0xDC00) p4)))
       else checked_char first p1)"

definition simple_escape :: "u8 \<Rightarrow> u8 option" where
  "simple_escape b =
     (if b = 0x22 then Some 0x22
      else if b = 0x5C then Some 0x5C
      else if b = 0x2F then Some 0x2F
      else if b = 0x62 then Some 0x08
      else if b = 0x66 then Some 0x0C
      else if b = 0x6E then Some 0x0A
      else if b = 0x72 then Some 0x0D
      else if b = 0x74 then Some 0x09
      else None)"

lemma hex_loop_pos: "hex_loop k text p v = Parsed w q \<Longrightarrow> q = p + k \<and> q \<le> max p (length text)"
proof (induction k arbitrary: p v)
  case (Suc k)
  then obtain b d where "peek text p = Some b" "hex_value b = Some d"
    "hex_loop k text (p + 1) (v * 16 + d) = Parsed w q"
    by (auto simp: fail_at_def split: option.splits)
  then show ?case using Suc.IH [of "p + 1"] by (auto simp: peek_def split: if_splits)
qed simp

lemma hex_quad_pos: "hex_quad text p = Parsed v q \<Longrightarrow> q = p + 4 \<and> q \<le> max p (length text)"
  unfolding hex_quad_def by (rule hex_loop_pos)

lemma consume_pos: "consume b text p = (q, True) \<Longrightarrow> q = p + 1 \<and> p < length text"
  by (auto simp: consume_def peek_def split: if_splits)

lemma unicode_escape_pos:
  "unicode_escape text p = Parsed c q \<Longrightarrow> p < q \<and> q \<le> max p (length text)"
  by (auto simp: unicode_escape_def checked_char_def parsed_bind_eq_Parsed fail_at_def
      dest!: hex_quad_pos consume_pos split: option.splits if_splits prod.splits)

text \<open>The loop of \<open>string\<close>: the position, the start of the pending slice, the text so far.\<close>

function string_loop :: "bytes \<Rightarrow> nat \<Rightarrow> nat \<Rightarrow> bytes \<Rightarrow> bytes parsed" where
  "string_loop text p start value =
     (case peek text p of
        None \<Rightarrow> fail_at ''unterminated string'' p
      | Some b \<Rightarrow>
          (if b = 0x22
           then (case str_slice text start p of
                   Some s \<Rightarrow> Parsed (value @ s) (p + 1)
                 | None \<Rightarrow> Panicked slice_panic)
           else if b = 0x5C
           then (case str_slice text start p of
                   None \<Rightarrow> Panicked slice_panic
                 | Some s \<Rightarrow>
                     (if peek text (p + 1) = Some 0x75
                      then parsed_bind (unicode_escape text (p + 2)) (\<lambda>c q.
                             string_loop text q q (value @ s @ utf8_encode c))
                      else (case Option.bind (peek text (p + 1)) simple_escape of
                              Some escaped \<Rightarrow>
                                string_loop text (p + 2) (p + 2) (value @ s @ [escaped])
                            | None \<Rightarrow> fail_at ''invalid string escape'' (p + 1))))
           else if b \<le> 0x1F then fail_at ''unescaped control character'' p
           else string_loop text (p + 1) start value))"
  by auto
termination
  by (relation "measure (\<lambda>(text, p, start, value). length text - p)")
    (auto simp: peek_def dest: unicode_escape_pos split: if_splits)

declare string_loop.simps [simp del]

definition json_string :: "bytes \<Rightarrow> nat \<Rightarrow> bytes parsed" where
  "json_string text p = string_loop text (p + 1) (p + 1) []"

section \<open>Numbers\<close>

text \<open>\<open>str::parse::<i64>\<close> on a token of the number grammar.\<close>

definition dec_value :: "bytes \<Rightarrow> nat" where
  "dec_value ds = foldl (\<lambda>v d. 10 * v + (unat d - 48)) 0 ds"

definition token_value :: "bytes \<Rightarrow> int" where
  "token_value token =
     (case token of
        [] \<Rightarrow> 0
      | d # ds \<Rightarrow> if d = 0x2D then - int (dec_value ds) else int (dec_value token))"

definition parse_i64 :: "bytes \<Rightarrow> i64 option" where
  "parse_i64 token =
     (let v = token_value token
      in if - (2 ^ 63) \<le> v \<and> v < 2 ^ 63 then Some (word_of_int v) else None)"

text \<open>The digits before, the fraction and the exponent; each returns the position after it.\<close>

definition number_int :: "bytes \<Rightarrow> nat \<Rightarrow> unit parsed" where
  "number_int text p =
     (case peek text p of
        Some b \<Rightarrow>
          (if b = 0x30 then Parsed () (p + 1)
           else if is_digit b then Parsed () (advance_while is_digit text p)
           else fail_at ''expected a digit'' p)
      | None \<Rightarrow> fail_at ''expected a digit'' p)"

definition number_fraction :: "bytes \<Rightarrow> nat \<Rightarrow> bool parsed" where
  "number_fraction text p =
     (case consume 0x2E text p of (p1, dot) \<Rightarrow>
        if dot
        then (let p2 = advance_while is_digit text p1
              in if p2 = p1 then fail_at ''expected a fraction digit'' p2 else Parsed True p2)
        else Parsed False p1)"

definition number_exponent :: "bytes \<Rightarrow> nat \<Rightarrow> bool parsed" where
  "number_exponent text p =
     (case consume 0x65 text p of (p1, e) \<Rightarrow>
        case (if e then (p1, True) else consume 0x45 text p1) of (p2, exponent) \<Rightarrow>
          if exponent
          then (case consume 0x2B text p2 of (p3, has_plus) \<Rightarrow>
                  let p4 = (if has_plus then p3 else fst (consume 0x2D text p3));
                      p5 = advance_while is_digit text p4
                  in if p5 = p4 then fail_at ''expected an exponent digit'' p5 else Parsed True p5)
          else Parsed False p2)"

definition number_value :: "'f f64_ops \<Rightarrow> bool \<Rightarrow> bytes \<Rightarrow> nat \<Rightarrow> 'f json parsed" where
  "number_value F float token p =
     (let as_float = (case fl_parse F token of
            None \<Rightarrow> fail_at ''invalid number'' p
          | Some x \<Rightarrow> if fl_finite F x then Parsed (JFloat x) p else fail_at ''number out of range'' p)
      in if \<not> float \<and> token \<noteq> [0x2D, 0x30]
         then (case parse_i64 token of Some i \<Rightarrow> Parsed (JInteger i) p | None \<Rightarrow> as_float)
         else as_float)"

definition json_number :: "'f f64_ops \<Rightarrow> bytes \<Rightarrow> nat \<Rightarrow> 'f json parsed" where
  "json_number F text start =
     parsed_bind (number_int text (fst (consume 0x2D text start))) (\<lambda>_ p1.
     parsed_bind (number_fraction text p1) (\<lambda>fraction p2.
     parsed_bind (number_exponent text p2) (\<lambda>exponent p3.
       case str_slice text start p3 of
         Some token \<Rightarrow> number_value F (fraction \<or> exponent) token p3
       | None \<Rightarrow> Panicked slice_panic)))"

section \<open>Values\<close>

text \<open>The literals \<open>true\<close>, \<open>false\<close> and \<open>null\<close>, after the first byte was seen.\<close>

definition json_literal :: "string \<Rightarrow> 'f json \<Rightarrow> bytes \<Rightarrow> nat \<Rightarrow> 'f json parsed" where
  "json_literal lit v text p =
     (case str_slice text p (length text) of
        None \<Rightarrow> Panicked slice_panic
      | Some rest \<Rightarrow>
          (if take (length lit) rest = ascii_bytes lit then Parsed v (p + length lit)
           else fail_at ''expected a JSON value'' p))"

text \<open>
  The loops of \<open>object\<close> and \<open>array\<close>; \<open>val\<close> reads a value at their depth. Each round reads
  some bytes, the fuel bounds the rounds.
\<close>

fun json_object_loop :: "bytes \<Rightarrow> (nat \<Rightarrow> 'f json parsed) \<Rightarrow> nat \<Rightarrow> (bytes \<times> 'f json) list \<Rightarrow> nat
    \<Rightarrow> 'f json parsed" where
  "json_object_loop text val 0 values p = OutOfFuel"
| "json_object_loop text val (Suc n) values p =
     (if peek text p \<noteq> Some 0x22 then fail_at ''expected an object key'' p
      else parsed_bind (json_string text p) (\<lambda>key p1.
        case consume 0x3A text (whitespace text p1) of (p2, colon) \<Rightarrow>
          if \<not> colon then fail_at ''expected `:`'' p2
          else parsed_bind (val p2) (\<lambda>value p3.
            case consume 0x7D text (whitespace text p3) of (p4, closed) \<Rightarrow>
              if closed then Parsed (JObject (bt_insert key value values)) p4
              else (case consume 0x2C text p4 of (p5, comma) \<Rightarrow>
                if \<not> comma then fail_at ''expected `,` or `}`'' p5
                else json_object_loop text val n (bt_insert key value values) (whitespace text p5)))))"

fun json_array_loop :: "bytes \<Rightarrow> (nat \<Rightarrow> 'f json parsed) \<Rightarrow> nat \<Rightarrow> 'f json list \<Rightarrow> nat
    \<Rightarrow> 'f json parsed" where
  "json_array_loop text val 0 values p = OutOfFuel"
| "json_array_loop text val (Suc n) values p =
     parsed_bind (val p) (\<lambda>value p1.
       case consume 0x5D text (whitespace text p1) of (p2, closed) \<Rightarrow>
         if closed then Parsed (JArray (values @ [value])) p2
         else (case consume 0x2C text p2 of (p3, comma) \<Rightarrow>
           if \<not> comma then fail_at ''expected `,` or `]`'' p3
           else json_array_loop text val n (values @ [value]) p3))"

definition json_object :: "bytes \<Rightarrow> (nat \<Rightarrow> 'f json parsed) \<Rightarrow> nat \<Rightarrow> 'f json parsed" where
  "json_object text val p =
     (case consume 0x7D text (whitespace text (p + 1)) of (q, closed) \<Rightarrow>
        if closed then Parsed (JObject []) q
        else json_object_loop text val (length text) [] q)"

definition json_array :: "bytes \<Rightarrow> (nat \<Rightarrow> 'f json parsed) \<Rightarrow> nat \<Rightarrow> 'f json parsed" where
  "json_array text val p =
     (case consume 0x5D text (whitespace text (p + 1)) of (q, closed) \<Rightarrow>
        if closed then Parsed (JArray []) q
        else json_array_loop text val (length text) [] q)"

text \<open>\<open>value\<close>; the recursion ends at the nesting limit.\<close>

function json_value :: "'f f64_ops \<Rightarrow> bytes \<Rightarrow> nat \<Rightarrow> nat \<Rightarrow> 'f json parsed" where
  "json_value F text depth p0 =
     (let p = whitespace text p0 in
      case peek text p of
        None \<Rightarrow> fail_at ''expected a JSON value'' p
      | Some b \<Rightarrow>
          (if (b = 0x7B \<or> b = 0x5B) \<and> 128 \<le> depth then fail_at ''nesting limit exceeded'' p
           else if b = 0x7B then json_object text (json_value F text (depth + 1)) p
           else if b = 0x5B then json_array text (json_value F text (depth + 1)) p
           else if b = 0x22 then parsed_bind (json_string text p) (\<lambda>s q. Parsed (JString s) q)
           else if b = 0x2D \<or> is_digit b then json_number F text p
           else if b = 0x74 then json_literal ''true'' (JBool True) text p
           else if b = 0x66 then json_literal ''false'' (JBool False) text p
           else if b = 0x6E then json_literal ''null'' JNull text p
           else fail_at ''expected a JSON value'' p))"
  by auto
termination by (relation "measure (\<lambda>(F, text, depth, p). 128 - depth)") auto

declare json_value.simps [simp del]

definition json_parse :: "'f f64_ops \<Rightarrow> bytes \<Rightarrow> 'f json parsed" where
  "json_parse F text =
     parsed_bind (json_value F text 0 0) (\<lambda>v p.
       let q = whitespace text p
       in if q \<noteq> length text then fail_at ''unexpected trailing data'' q else Parsed v q)"

end
