(* ===== verification/JsonSafety.thy ===== *)
theory JsonSafety
  imports Json
begin

text \<open>
  The JSON parser on valid UTF-8: it returns with the fuel of the model, never slices the text
  off a character boundary, and its values are well-formed.
\<close>

section \<open>Well-formed values and good results\<close>

text \<open>
  Strings and keys are valid UTF-8, keys are increasing, floats finite, and arrays and objects
  are nested at most \<open>d\<close> deep.
\<close>

fun json_wf :: "'f f64_ops \<Rightarrow> nat \<Rightarrow> 'f json \<Rightarrow> bool" where
  "json_wf F d JNull \<longleftrightarrow> True"
| "json_wf F d (JBool b) \<longleftrightarrow> True"
| "json_wf F d (JInteger i) \<longleftrightarrow> True"
| "json_wf F d (JFloat x) \<longleftrightarrow> fl_finite F x"
| "json_wf F d (JString s) \<longleftrightarrow> utf8_valid s"
| "json_wf F d (JArray vs) \<longleftrightarrow> 0 < d \<and> list_all (json_wf F (d - 1)) vs"
| "json_wf F d (JObject kvs) \<longleftrightarrow>
     0 < d \<and> bt_sorted kvs \<and> list_all (\<lambda>(k, v). utf8_valid k \<and> json_wf F (d - 1) v) kvs"

text \<open>
  A good result of a reader that started at a position: a value with a property at a later
  position within the text, or an error.
\<close>

fun good :: "('a \<Rightarrow> bool) \<Rightarrow> bytes \<Rightarrow> nat \<Rightarrow> 'a parsed \<Rightarrow> bool" where
  "good P text p (Parsed v q) \<longleftrightarrow> P v \<and> p < q \<and> q \<le> length text"
| "good P text p (Failed e) \<longleftrightarrow> True"
| "good P text p (Panicked m) \<longleftrightarrow> False"
| "good P text p OutOfFuel \<longleftrightarrow> False"

lemma good_fail [simp]: "good P text p (fail_at m q)"
  by (simp add: fail_at_def)

lemma good_bind:
  assumes "good Q text p r"
    and "\<And>v q. Q v \<Longrightarrow> p < q \<Longrightarrow> q \<le> length text \<Longrightarrow> good P text p (f v q)"
  shows "good P text p (parsed_bind r f)"
  using assms by (cases r) auto

lemma good_later: "good P text q r \<Longrightarrow> p \<le> q \<Longrightarrow> good P text p r"
  by (cases r) auto

lemma good_mono: "good P text p r \<Longrightarrow> (\<And>v. P v \<Longrightarrow> Q v) \<Longrightarrow> good Q text p r"
  by (cases r) auto

section \<open>Positions\<close>

lemma advance_le: "p \<le> length text \<Longrightarrow> advance_while P text p \<le> length text"
  using length_takeWhile_le [of P "drop p text"] by (simp add: advance_while_def)

lemma advance_ge: "p \<le> advance_while P text p"
  by (simp add: advance_while_def)

lemma whitespace_le: "p \<le> length text \<Longrightarrow> whitespace text p \<le> length text"
  by (simp add: whitespace_def advance_le)

lemma whitespace_ge: "p \<le> whitespace text p"
  by (simp add: whitespace_def advance_ge)

lemma peek_Some: "peek text p = Some b \<longleftrightarrow> p < length text \<and> text ! p = b"
  by (auto simp: peek_def)

lemma consume_False: "consume b text p = (q, False) \<Longrightarrow> q = p"
  by (auto simp: consume_def split: if_splits)

lemma advance_last:
  assumes "p < advance_while P text p"
  shows "P (text ! (advance_while P text p - 1))"
proof -
  let ?xs = "takeWhile P (drop p text)"
  have ne: "?xs \<noteq> []" using assms by (auto simp: advance_while_def)
  then have p: "p < length text" by (cases "p < length text") auto
  have "last ?xs = ?xs ! (length ?xs - 1)" using ne by (simp add: last_conv_nth)
  also have "\<dots> = drop p text ! (length ?xs - 1)" using ne by (intro takeWhile_nth) simp
  also have "\<dots> = text ! (p + (length ?xs - 1))" using p by (simp add: nth_drop)
  also have "p + (length ?xs - 1) = advance_while P text p - 1"
    using ne by (cases ?xs) (simp_all add: advance_while_def)
  finally have "text ! (advance_while P text p - 1) = last ?xs" ..
  moreover have "P (last ?xs)" using last_in_set [OF ne] by (rule set_takeWhileD [THEN conjunct2])
  ultimately show ?thesis by simp
qed

lemma is_digit_ascii: "is_digit b \<Longrightarrow> b < 0x80"
  unfolding is_digit_def using order_le_less_trans [of b "0x39" "0x80"] by simp

section \<open>Slices\<close>

text \<open>What follows an ASCII byte of a valid text is valid, and starts a character.\<close>

lemma valid_after_ascii:
  assumes "utf8_valid text" "0 < i" "i \<le> length text" "text ! (i - 1) < 0x80"
  shows "utf8_valid (drop i text)"
proof -
  have "text = take (i - 1) text @ text ! (i - 1) # drop i text"
    using id_take_nth_drop [of "i - 1" "text"] assms(2,3) by simp
  then show ?thesis using utf8_valid_split_ascii assms(1,4) by metis
qed

lemma boundary_after_ascii:
  assumes "utf8_valid text" "0 < i" "i \<le> length text" "text ! (i - 1) < 0x80"
  shows "char_boundary text i"
proof (cases "i = length text")
  case False
  then have "drop i text = text ! i # drop (Suc i) text"
    using assms(3) by (simp add: Cons_nth_drop_Suc)
  then have "\<not> utf8_cont (text ! i)"
    using utf8_valid_no_leading_cont valid_after_ascii [OF assms] by metis
  then show ?thesis using assms(3) False by (simp add: char_boundary_def)
qed (simp add: char_boundary_def)

lemma boundary_at_ascii: "p < length text \<Longrightarrow> text ! p < 0x80 \<Longrightarrow> char_boundary text p"
  using not_cont_ascii by (auto simp: char_boundary_def)

lemma slice_ok:
  assumes "utf8_valid text" "0 < start" "text ! (start - 1) < 0x80" "start \<le> p" "p < length text"
    "text ! p < 0x80"
  obtains s where "str_slice text start p = Some s" "utf8_valid s"
proof
  have le: "start \<le> length text" using assms(4,5) by simp
  show "str_slice text start p = Some (take (p - start) (drop start text))"
    using boundary_after_ascii [OF assms(1,2) le assms(3)] boundary_at_ascii [OF assms(5,6)] assms(4)
    by (simp add: str_slice_def)
  have "drop start text = take (p - start) (drop start text) @ text ! p # drop (Suc p) text"
    using id_take_nth_drop [of "p - start" "drop start text"] assms(4,5) by simp
  then show "utf8_valid (take (p - start) (drop start text))"
    using utf8_valid_split_ascii valid_after_ascii [OF assms(1,2) le assms(3)] assms(6) by metis
qed

section \<open>Characters\<close>

lemma unat_byte: "n < 256 \<Longrightarrow> unat (of_nat n :: u8) = n"
  by (simp only: unat_of_nat) (simp add: take_bit_nat_eq_self)

lemma byte_le: "n < 256 \<Longrightarrow> k < 256 \<Longrightarrow> (of_nat n :: u8) \<le> of_nat k \<longleftrightarrow> n \<le> k"
  by (simp add: word_le_nat_alt unat_byte)

lemma cont_byte: "utf8_cont (of_nat (0x80 + n mod 64))"
proof -
  have "n mod 64 < 64" by simp
  then show ?thesis by (simp add: utf8_cont_def word_le_nat_alt unat_byte del: of_nat_add)
qed

lemma utf8_bytes_2:
  assumes "2 \<le> a" "a < 32"
  shows "utf8_valid [of_nat (0xC0 + a), of_nat (0x80 + b mod 64)]"
proof -
  have l: "utf8_lead (of_nat (0xC0 + a)) = Some (1, 0x80, 0xBF)"
    using assms by (simp add: utf8_lead_def word_le_nat_alt unat_byte del: of_nat_add)
  have "\<not> (of_nat (0xC0 + a) :: u8) < 0x80"
    using assms by (simp add: word_less_nat_alt unat_byte del: of_nat_add)
  then have "utf8_step [of_nat (0xC0 + a), of_nat (0x80 + b mod 64)] = (2, True)"
    using l cont_byte [of b] by (simp add: utf8_cont_def Let_def del: of_nat_add)
  then show ?thesis by (subst utf8_valid.simps) simp
qed

lemma utf8_lead_3:
  assumes "a < 16" "b < 64" "a = 0 \<Longrightarrow> 32 \<le> b" "a = 13 \<Longrightarrow> b < 32"
  shows "\<exists>lo hi. utf8_lead (of_nat (0xE0 + a)) = Some (2, lo, hi)
    \<and> lo \<le> of_nat (0x80 + b) \<and> (of_nat (0x80 + b) :: u8) \<le> hi"
proof -
  consider "a = 0" | "a = 13" | "0 < a" "a \<noteq> 13" by blast
  then show ?thesis
  proof cases
    case 3
    have "utf8_lead (of_nat (0xE0 + a)) = Some (2, 0x80, 0xBF)"
      using 3 assms(1) by (simp add: utf8_lead_def word_le_nat_alt word_unat_eq_iff unat_byte del: of_nat_add)
    then show ?thesis using assms(2) by (simp add: word_le_nat_alt unat_byte del: of_nat_add)
  qed (use assms in \<open>simp_all add: utf8_lead_def word_le_nat_alt unat_byte del: of_nat_add\<close>)
qed

lemma utf8_lead_4:
  assumes "a < 5" "b < 64" "a = 0 \<Longrightarrow> 16 \<le> b" "a = 4 \<Longrightarrow> b < 16"
  shows "\<exists>lo hi. utf8_lead (of_nat (0xF0 + a)) = Some (3, lo, hi)
    \<and> lo \<le> of_nat (0x80 + b) \<and> (of_nat (0x80 + b) :: u8) \<le> hi"
proof -
  consider "a = 0" | "a = 4" | "0 < a" "a < 4" using assms(1) by linarith
  then show ?thesis
  proof cases
    case 3
    have "utf8_lead (of_nat (0xF0 + a)) = Some (3, 0x80, 0xBF)"
      using 3 assms(1) by (simp add: utf8_lead_def word_le_nat_alt word_unat_eq_iff unat_byte del: of_nat_add)
    then show ?thesis using assms(2) by (simp add: word_le_nat_alt unat_byte del: of_nat_add)
  qed (use assms in \<open>simp_all add: utf8_lead_def word_le_nat_alt unat_byte del: of_nat_add\<close>)
qed

lemma lead_not_ascii: "0x80 \<le> n \<Longrightarrow> n < 256 \<Longrightarrow> \<not> (of_nat n :: u8) < 0x80"
  by (simp add: word_less_nat_alt unat_byte)

lemma utf8_bytes_3:
  assumes "a < 16" "b < 64" "a = 0 \<Longrightarrow> 32 \<le> b" "a = 13 \<Longrightarrow> b < 32"
  shows "utf8_valid [of_nat (0xE0 + a), of_nat (0x80 + b), of_nat (0x80 + d mod 64)]"
proof -
  obtain lo hi where l: "utf8_lead (of_nat (0xE0 + a)) = Some (2, lo, hi)"
    "lo \<le> of_nat (0x80 + b)" "(of_nat (0x80 + b) :: u8) \<le> hi" using utf8_lead_3 [OF assms] by blast
  have "\<not> (of_nat (0xE0 + a) :: u8) < 0x80" using assms(1) by (intro lead_not_ascii) simp_all
  then have "utf8_step [of_nat (0xE0 + a), of_nat (0x80 + b), of_nat (0x80 + d mod 64)] = (3, True)"
    using l cont_byte [of d] by (simp add: Let_def del: of_nat_add)
  then show ?thesis by (subst utf8_valid.simps) simp
qed

lemma utf8_bytes_4:
  assumes "a < 5" "b < 64" "a = 0 \<Longrightarrow> 16 \<le> b" "a = 4 \<Longrightarrow> b < 16"
  shows "utf8_valid [of_nat (0xF0 + a), of_nat (0x80 + b), of_nat (0x80 + d mod 64), of_nat (0x80 + e mod 64)]"
proof -
  obtain lo hi where l: "utf8_lead (of_nat (0xF0 + a)) = Some (3, lo, hi)"
    "lo \<le> of_nat (0x80 + b)" "(of_nat (0x80 + b) :: u8) \<le> hi" using utf8_lead_4 [OF assms] by blast
  have "\<not> (of_nat (0xF0 + a) :: u8) < 0x80" using assms(1) by (intro lead_not_ascii) simp_all
  then have "utf8_step [of_nat (0xF0 + a), of_nat (0x80 + b), of_nat (0x80 + d mod 64), of_nat (0x80 + e mod 64)]
      = (4, True)"
    using l cont_byte [of d] cont_byte [of e] by (simp add: Let_def numeral_2_eq_2 del: of_nat_add)
  then show ?thesis by (subst utf8_valid.simps) simp
qed

lemma utf8_encode_valid:
  assumes "char_from_u32 code = Some c"
  shows "utf8_valid (utf8_encode c)"
proof -
  have c: "c \<le> 0x10FFFF" "\<not> (0xD800 \<le> c \<and> c \<le> 0xDFFF)"
    using assms by (auto simp: char_from_u32_def split: if_splits)
  consider "c < 0x80" | "0x80 \<le> c" "c < 0x800" | "0x800 \<le> c" "c < 0x10000" | "0x10000 \<le> c"
    by linarith
  then show ?thesis
  proof cases
    case 1
    then have "(of_nat c :: u8) < 0x80" by (simp add: word_less_nat_alt unat_byte)
    then show ?thesis using 1 by (simp add: utf8_encode_def utf8_valid_ascii_Cons)
  next
    case 2
    then have "2 \<le> c div 64" "c div 64 < 32" by linarith+
    from utf8_bytes_2 [OF this, of c] show ?thesis using 2 by (simp add: utf8_encode_def del: of_nat_add)
  next
    case 3
    define y where "y = c div 64"
    have y: "32 \<le> y" "c div 4096 = y div 64" "y < 864 \<or> 896 \<le> y"
    proof -
      show "32 \<le> y" using 3 unfolding y_def by linarith
      show "c div 4096 = y div 64" unfolding y_def by (simp add: div_mult2_eq [of c 64 64, simplified])
      have "c < 0xD800 \<or> 0xE000 \<le> c" using c(2) by linarith
      then show "y < 864 \<or> 896 \<le> y" unfolding y_def by (elim disjE) linarith+
    qed
    have e: "y = 64 * (y div 64) + y mod 64" "y mod 64 < 64" by simp_all
    have "c div 4096 < 16" using 3 by linarith
    moreover have "c div 64 mod 64 < 64" by simp
    moreover have "c div 4096 = 0 \<Longrightarrow> 32 \<le> c div 64 mod 64"
      using y(1,2) e unfolding y_def [symmetric] by linarith
    moreover have "c div 4096 = 13 \<Longrightarrow> c div 64 mod 64 < 32"
      using y(2,3) e unfolding y_def [symmetric] by linarith
    ultimately show ?thesis using 3 utf8_bytes_3 [of "c div 4096" "c div 64 mod 64" c]
      by (simp add: utf8_encode_def del: of_nat_add)
  next
    case 4
    define x where "x = c div 4096"
    have x: "16 \<le> x" "x \<le> 271" "c div 262144 = x div 64"
      using 4 c unfolding x_def by (linarith, linarith, simp add: div_mult2_eq [of c 4096 64, simplified])
    have e: "x = 64 * (x div 64) + x mod 64" "x mod 64 < 64" by simp_all
    have "c div 262144 < 5" using c by linarith
    moreover have "c div 4096 mod 64 < 64" by simp
    moreover have "c div 262144 = 0 \<Longrightarrow> 16 \<le> c div 4096 mod 64"
      using x e unfolding x_def [symmetric] by linarith
    moreover have "c div 262144 = 4 \<Longrightarrow> c div 4096 mod 64 < 16"
      using x e unfolding x_def [symmetric] by linarith
    ultimately show ?thesis using 4 utf8_bytes_4 [of "c div 262144" "c div 4096 mod 64" "c div 64" c]
      by (simp add: utf8_encode_def del: of_nat_add)
  qed
qed

section \<open>Strings\<close>

lemma hex_loop_good: "p + k \<le> p \<or> True \<Longrightarrow> \<exists>r. hex_loop k text p v = r \<and> (\<forall>m. r \<noteq> Panicked m) \<and> r \<noteq> OutOfFuel"
  by (induction k arbitrary: p v) (auto simp: fail_at_def split: option.splits)

lemma hex_quad_good: "good (\<lambda>_. True) text p (hex_quad text p) \<or> length text < p"
proof -
  have "\<exists>r. hex_loop 4 text p 0 = r \<and> (\<forall>m. r \<noteq> Panicked m) \<and> r \<noteq> OutOfFuel"
    by (rule hex_loop_good) simp
  then show ?thesis
    using hex_loop_pos [of 4 "text" p 0]
    by (cases "hex_loop 4 text p 0") (auto simp: hex_quad_def)
qed

lemma hex_loop_last:
  "hex_loop (Suc k) text p v = Parsed w q \<Longrightarrow> hex_value (text ! (q - 1)) \<noteq> None"
proof (induction k arbitrary: p v)
  case 0
  then show ?case by (auto simp: fail_at_def peek_def split: option.splits if_splits)
next
  case (Suc k)
  then show ?case by (auto simp: fail_at_def simp del: hex_loop.simps(2) elim!: Suc.IH
        simp: hex_loop.simps(2) [of "Suc k"] split: option.splits)
qed

lemma hex_value_ascii: "hex_value b \<noteq> None \<Longrightarrow> b < 0x80"
  by (auto simp: hex_value_def word_le_nat_alt word_less_nat_alt split: if_splits)

lemma hex_quad_last: "hex_quad text p = Parsed v q \<Longrightarrow> text ! (q - 1) < 0x80"
  using hex_loop_last [of 3 "text" p 0 v q] hex_value_ascii
  by (simp add: hex_quad_def eval_nat_numeral del: hex_loop.simps)

lemma checked_char_Parsed:
  "checked_char code p = Parsed c q \<longleftrightarrow> char_from_u32 code = Some c \<and> q = p"
  by (auto simp: checked_char_def fail_at_def split: option.splits)

lemma checked_char_not [simp]: "checked_char code p \<noteq> Panicked m" "checked_char code p \<noteq> OutOfFuel"
  by (simp_all add: checked_char_def fail_at_def split: option.splits)

lemma hex_quad_not [simp]: "hex_quad text p \<noteq> Panicked m" "hex_quad text p \<noteq> OutOfFuel"
  using hex_loop_good [of p 4 "text" 0] by (auto simp: hex_quad_def)

lemma parsed_bind_not:
  "parsed_bind r f = Panicked m \<longleftrightarrow> r = Panicked m \<or> (\<exists>v p. r = Parsed v p \<and> f v p = Panicked m)"
  "parsed_bind r f = OutOfFuel \<longleftrightarrow> r = OutOfFuel \<or> (\<exists>v p. r = Parsed v p \<and> f v p = OutOfFuel)"
  by (cases r; simp)+

lemma unicode_escape_not: "unicode_escape text p \<noteq> Panicked m" "unicode_escape text p \<noteq> OutOfFuel"
  by (auto simp: unicode_escape_def parsed_bind_not fail_at_def split: prod.splits if_splits)

lemma unicode_escape_Parsed:
  assumes "unicode_escape text p = Parsed c q"
  shows "utf8_valid (utf8_encode c) \<and> text ! (q - 1) < 0x80"
proof -
  obtain v1 p1 where 1: "hex_quad text p = Parsed v1 p1"
    and r: "(if 0xD800 \<le> v1 \<and> v1 \<le> 0xDBFF
       then (case consume 0x5C text p1 of (p2, backslash) \<Rightarrow>
         if \<not> backslash then fail_at ''expected a low surrogate'' p2
         else (case consume 0x75 text p2 of (p3, u) \<Rightarrow>
           if \<not> u then fail_at ''expected a low surrogate'' p3
           else parsed_bind (hex_quad text p3) (\<lambda>second p4.
             if \<not> (0xDC00 \<le> second \<and> second \<le> 0xDFFF)
             then fail_at ''invalid low surrogate'' p4
             else checked_char (0x10000 + (v1 - 0xD800) * 2 ^ 10 + second - 0xDC00) p4)))
       else checked_char v1 p1) = Parsed c q"
    using assms unfolding unicode_escape_def parsed_bind_eq_Parsed by blast
  have "\<exists>code p'. char_from_u32 code = Some c \<and> (\<exists>v. hex_quad text p' = Parsed v q)"
  proof (cases "0xD800 \<le> v1 \<and> v1 \<le> 0xDBFF")
    case True
    obtain p2 b where c1: "consume 0x5C text p1 = (p2, b)" by fastforce
    obtain p3 u where c2: "consume 0x75 text p2 = (p3, u)" by fastforce
    have "b" "u" using r True c1 c2 by (auto simp: fail_at_def split: if_splits)
    then have "parsed_bind (hex_quad text p3) (\<lambda>second p4.
             if \<not> (0xDC00 \<le> second \<and> second \<le> 0xDFFF)
             then fail_at ''invalid low surrogate'' p4
             else checked_char (0x10000 + (v1 - 0xD800) * 2 ^ 10 + second - 0xDC00) p4) = Parsed c q"
      using r True c1 c2 by simp
    then show ?thesis unfolding parsed_bind_eq_Parsed
      by (elim exE conjE) (auto simp: fail_at_def checked_char_Parsed split: if_splits)
  next
    case False
    then have "checked_char v1 p1 = Parsed c q" using r by (simp only: if_False)
    then show ?thesis using 1 by (auto simp: checked_char_Parsed)
  qed
  then show ?thesis using utf8_encode_valid hex_quad_last by blast
qed

lemma simple_escape_ascii: "simple_escape b = Some e \<Longrightarrow> b < 0x80 \<and> e < 0x80"
  by (auto simp: simple_escape_def split: if_splits)

lemma string_loop_good:
  assumes "utf8_valid text"
  shows "0 < start \<Longrightarrow> text ! (start - 1) < 0x80 \<Longrightarrow> start \<le> p \<Longrightarrow> p \<le> length text \<Longrightarrow> utf8_valid value
    \<Longrightarrow> good utf8_valid text p (string_loop text p start value)"
  using assms
proof (induction "text" p start "value" rule: string_loop.induct)
  case (1 "text" p start "value")
  show ?case
  proof (cases "peek text p")
    case None
    then show ?thesis by (simp add: string_loop.simps [of "text" p])
  next
    case (Some b)
    then have p: "p < length text" "text ! p = b" by (simp_all add: peek_Some)
    show ?thesis
    proof (cases "b = 0x22 \<or> b = 0x5C")
      case True
      then have "text ! p < 0x80" using p by auto
      then obtain s where s: "str_slice text start p = Some s" "utf8_valid s"
        using slice_ok [of "text" start p] 1 p(1) by blast
      show ?thesis
      proof (cases "b = 0x22")
        case True
        then show ?thesis using Some s p 1(8) utf8_valid_append
          by (simp add: string_loop.simps [of "text" p])
      next
        case quote: False
        then have b: "b = 0x5C" using True by simp
        show ?thesis
        proof (cases "peek text (p + 1) = Some 0x75")
          case u: True
          show ?thesis
          proof (cases "unicode_escape text (p + 2)")
            case (Parsed c q)
            have q: "p + 2 < q" "q \<le> length text" "utf8_valid (utf8_encode c)" "text ! (q - 1) < 0x80"
              using unicode_escape_pos [OF Parsed] unicode_escape_Parsed [OF Parsed] u
              by (auto simp: peek_Some)
            have "utf8_valid (value @ s @ utf8_encode c)"
              using 1(8) s(2) q(3) utf8_valid_append by blast
            then have "good utf8_valid text q (string_loop text q q (value @ s @ utf8_encode c))"
              using 1(1) [OF Some _ b s(1) u Parsed] quote q 1(9) by simp
            then show ?thesis
              using good_later [of utf8_valid "text" q _ p] q(1) Some b s(1) u Parsed
              by (subst string_loop.simps) simp
          qed (use Some b s u unicode_escape_not in \<open>simp_all add: string_loop.simps [of "text" p]\<close>)
        next
          case u: False
          show ?thesis
          proof (cases "Option.bind (peek text (p + 1)) simple_escape")
            case None
            then show ?thesis using Some b s u by (simp add: string_loop.simps [of "text" p])
          next
            case (Some e)
            then obtain d where d: "peek text (p + 1) = Some d" "simple_escape d = Some e"
              by (auto simp: bind_eq_Some_conv)
            have "d < 0x80" "e < 0x80" using simple_escape_ascii [OF d(2)] by simp_all
            have "utf8_valid (value @ s @ [e])"
              using 1(8) s(2) utf8_valid_append utf8_valid_ascii_Cons [OF \<open>e < 0x80\<close>, of "[]"] by simp
            then have "good utf8_valid text (p + 2) (string_loop text (p + 2) (p + 2) (value @ s @ [e]))"
              using 1(2) [OF \<open>peek text p = Some b\<close> _ b s(1) u Some] quote 1(9) d(1) \<open>d < 0x80\<close>
              by (simp add: peek_Some)
            then show ?thesis
              using good_later [of utf8_valid "text" "p + 2" _ p] \<open>peek text p = Some b\<close> b s(1) u Some
              by (subst string_loop.simps) simp
          qed
        qed
      qed
    next
      case False
      show ?thesis
      proof (cases "b \<le> 0x1F")
        case True
        then show ?thesis using Some False by (simp add: string_loop.simps [of "text" p])
      next
        case ctl: False
        have "good utf8_valid text (p + 1) (string_loop text (p + 1) start value)"
          using 1(3) [OF Some] False ctl 1(4-9) p(1) by simp
        then show ?thesis
          using good_later [of utf8_valid "text" "p + 1" _ p] Some False ctl
          by (subst string_loop.simps) simp
      qed
    qed
  qed
qed

lemma json_string_good:
  assumes "utf8_valid text" "peek text p = Some 0x22"
  shows "good utf8_valid text p (json_string text p)"
proof -
  have "good utf8_valid text (p + 1) (string_loop text (p + 1) (p + 1) [])"
    using string_loop_good [OF assms(1), of "p + 1" "p + 1" "[]"] assms(2) by (simp add: peek_Some)
  then show ?thesis unfolding json_string_def by (rule good_later) simp
qed

section \<open>Numbers and literals\<close>

lemma advance_digits_last:
  "p < advance_while is_digit text p \<Longrightarrow> text ! (advance_while is_digit text p - 1) < 0x80"
  by (rule is_digit_ascii [OF advance_last])

lemma advance_digits_start:
  "p < length text \<Longrightarrow> P (text ! p) \<Longrightarrow> p < advance_while P text p"
  using Cons_nth_drop_Suc [of p "text"] by (metis advance_while_def length_greater_0_conv less_add_same_cancel1
      list.discI takeWhile.simps(2))

lemma number_int_Parsed:
  assumes "number_int text p = Parsed u q"
  shows "p < q \<and> q \<le> length text \<and> text ! (q - 1) < 0x80"
proof -
  obtain b where b: "peek text p = Some b" "b = 0x30 \<or> is_digit b"
    "q = (if b = 0x30 then p + 1 else advance_while is_digit text p)"
    using assms by (auto simp: number_int_def fail_at_def split: option.splits if_splits)
  then have p: "p < length text" "text ! p = b" by (simp_all add: peek_Some)
  show ?thesis
  proof (cases "b = 0x30")
    case False
    then have "p < q" using b p advance_digits_start by auto
    then show ?thesis using b(3) False advance_digits_last advance_le [of p "text" is_digit] p(1) by simp
  qed (use b p in simp)
qed

lemma number_fraction_Parsed:
  assumes "number_fraction text p = Parsed f q" "p \<le> length text"
  shows "p \<le> q \<and> q \<le> length text \<and> (q = p \<or> text ! (q - 1) < 0x80)"
proof (cases "peek text p = Some 0x2E")
  case True
  then have q: "q = advance_while is_digit text (p + 1)" "p + 1 \<noteq> q" "p < length text"
    using assms(1) by (auto simp: number_fraction_def consume_def Let_def fail_at_def peek_Some split: if_splits)
  then have "p + 1 < q" using advance_ge [of "p + 1" is_digit "text"] by simp
  then show ?thesis using q advance_digits_last advance_le [of "p + 1" "text" is_digit] by simp
next
  case False
  then show ?thesis using assms by (simp add: number_fraction_def consume_def)
qed

lemma number_exponent_Parsed:
  assumes "number_exponent text p = Parsed f q" "p \<le> length text"
  shows "p \<le> q \<and> q \<le> length text \<and> (q = p \<or> text ! (q - 1) < 0x80)"
proof (cases "peek text p = Some 0x65 \<or> peek text p = Some 0x45")
  case True
  then have p: "p < length text" by (auto simp: peek_Some)
  obtain p4 where p4: "p < p4" "p4 \<le> length text" "q = advance_while is_digit text p4" "q \<noteq> p4"
  proof -
    define p3 where "p3 = (if peek text (p + 1) = Some 0x2B \<or> peek text (p + 1) = Some 0x2D then p + 2 else p + 1)"
    have "p3 \<le> length text" using p by (auto simp: p3_def peek_Some)
    moreover have "q = advance_while is_digit text p3 \<and> q \<noteq> p3"
      using True assms(1) by (auto simp: number_exponent_def consume_def Let_def fail_at_def p3_def split: if_splits)
    ultimately show ?thesis using that [of p3] by (auto simp: p3_def)
  qed
  then have "p4 < q" using advance_ge [of p4 is_digit "text"] by simp
  then show ?thesis using p4 advance_digits_last advance_le [of p4 "text" is_digit] by simp
next
  case False
  then show ?thesis using assms by (simp add: number_exponent_def consume_def)
qed

lemma number_parts_not:
  "number_int text p \<noteq> Panicked m" "number_int text p \<noteq> OutOfFuel"
  "number_fraction text p \<noteq> Panicked m" "number_fraction text p \<noteq> OutOfFuel"
  "number_exponent text p \<noteq> Panicked m" "number_exponent text p \<noteq> OutOfFuel"
  by (auto simp: number_int_def number_fraction_def number_exponent_def fail_at_def Let_def
      split: option.splits prod.splits if_splits)

lemma number_value_good:
  assumes "p < q" "q \<le> length text"
  shows "good (json_wf F d) text p (number_value F fl token q)"
  using assms by (auto simp: number_value_def Let_def split: option.splits)

lemma json_number_good:
  assumes "utf8_valid text" "peek text p = Some b" "b = 0x2D \<or> is_digit b"
  shows "good (json_wf F d) text p (json_number F text p)"
proof -
  have p: "p < length text" "text ! p < 0x80"
    using assms(2,3) is_digit_ascii by (auto simp: peek_Some)
  let ?p0 = "fst (consume 0x2D text p)"
  have p0: "p \<le> ?p0" by (simp add: consume_def)
  show ?thesis
  proof (cases "number_int text ?p0")
    case i: (Parsed u p1)
    have p1: "?p0 < p1" "p1 \<le> length text" "text ! (p1 - 1) < 0x80" using number_int_Parsed [OF i] by simp_all
    show ?thesis
    proof (cases "number_fraction text p1")
      case f: (Parsed fr p2)
      have p2: "p1 \<le> p2" "p2 \<le> length text" "p2 = p1 \<or> text ! (p2 - 1) < 0x80"
        using number_fraction_Parsed [OF f p1(2)] by simp_all
      show ?thesis
      proof (cases "number_exponent text p2")
        case e: (Parsed ex p3)
        have p3: "p2 \<le> p3" "p3 \<le> length text" "p3 = p2 \<or> text ! (p3 - 1) < 0x80"
          using number_exponent_Parsed [OF e p2(2)] by simp_all
        have last: "text ! (p3 - 1) < 0x80" using p1(3) p2(3) p3(3) by auto
        have "0 < p3" "p < p3" using p0 p1(1) p2(1) p3(1) by simp_all
        then obtain token where "str_slice text p p3 = Some token"
          using boundary_after_ascii [OF assms(1) _ p3(2) last] boundary_at_ascii [OF p]
          by (simp add: str_slice_def)
        then show ?thesis using i f e number_value_good [OF \<open>p < p3\<close> p3(2)]
          by (simp add: json_number_def)
      qed (use i f number_parts_not in \<open>simp_all add: json_number_def\<close>)
    qed (use i number_parts_not in \<open>simp_all add: json_number_def\<close>)
  qed (use number_parts_not in \<open>simp_all add: json_number_def\<close>)
qed

lemma json_literal_good:
  assumes "peek text p = Some b" "b < 0x80" "0 < length lit" "json_wf F d v"
  shows "good (json_wf F d) text p (json_literal lit v text p)"
proof -
  have p: "p < length text" "text ! p < 0x80" using assms(1,2) by (simp_all add: peek_Some)
  then have s: "str_slice text p (length text) = Some (drop p text)"
    using boundary_at_ascii [OF p] by (simp add: str_slice_def char_boundary_def)
  have "p + length lit \<le> length text" if "take (length lit) (drop p text) = ascii_bytes lit"
  proof -
    have "length (take (length lit) (drop p text)) = length lit" using that by (simp add: ascii_bytes_def)
    then show ?thesis using p(1) by simp
  qed
  then show ?thesis using s assms(3,4) by (simp add: json_literal_def)
qed

section \<open>Arrays, objects and values\<close>

lemma consume_good: "consume b text p = (q, True) \<Longrightarrow> q = p + 1 \<and> q \<le> length text"
  using consume_pos [of b "text" p q] by simp

lemma json_array_loop_good:
  assumes val: "\<And>p. p \<le> length text \<Longrightarrow> good (json_wf F d) text p (val p)"
  shows "p \<le> length text \<Longrightarrow> length text - p < n \<Longrightarrow> list_all (json_wf F d) values
    \<Longrightarrow> good (json_wf F (d + 1)) text p (json_array_loop text val n values p)"
proof (induction n arbitrary: "values" p)
  case (Suc n)
  show ?case unfolding json_array_loop.simps
  proof (rule good_bind [OF val [OF Suc.prems(1)]])
    fix v p1 assume v: "json_wf F d v" and p1: "p < p1" "p1 \<le> length text"
    obtain p2 cl where c: "consume 0x5D text (whitespace text p1) = (p2, cl)" by fastforce
    have ws: "p1 \<le> whitespace text p1" "whitespace text p1 \<le> length text"
      using whitespace_ge whitespace_le p1(2) by simp_all
    show "good (json_wf F (d + 1)) text p (case consume 0x5D text (whitespace text p1) of (p2, closed) \<Rightarrow>
         if closed then Parsed (JArray (values @ [v])) p2
         else (case consume 0x2C text p2 of (p3, comma) \<Rightarrow>
           if \<not> comma then fail_at ''expected `,` or `]`'' p3
           else json_array_loop text val n (values @ [v]) p3))"
    proof (cases cl)
      case True
      then have "p2 = whitespace text p1 + 1" "p2 \<le> length text" using c by (auto dest: consume_good)
      then show ?thesis using c True ws p1 v Suc.prems(3) by simp
    next
      case False
      then have p2: "p2 = whitespace text p1" using c by (auto dest: consume_False)
      obtain p3 cm where c': "consume 0x2C text p2 = (p3, cm)" by fastforce
      show ?thesis
      proof (cases cm)
        case True
        then have p3: "p3 = p2 + 1" "p3 \<le> length text" using c' by (auto dest: consume_good)
        have "good (json_wf F (d + 1)) text p3 (json_array_loop text val n (values @ [v]) p3)"
          using Suc.IH [of p3 "values @ [v]"] Suc.prems p3 p2 ws p1 v by simp
        then show ?thesis using c c' False True p3 p2 ws p1
            good_later [of "json_wf F (d + 1)" "text" p3 _ p] by simp
      qed (use c c' False in simp)
    qed
  qed
qed simp

lemma json_object_loop_good:
  assumes valid: "utf8_valid text"
    and val: "\<And>p. p \<le> length text \<Longrightarrow> good (json_wf F d) text p (val p)"
  shows "p \<le> length text \<Longrightarrow> length text - p < n \<Longrightarrow> json_wf F (d + 1) (JObject values)
    \<Longrightarrow> good (json_wf F (d + 1)) text p (json_object_loop text val n values p)"
proof (induction n arbitrary: "values" p)
  case (Suc n)
  show ?case
  proof (cases "peek text p = Some 0x22")
    case q: True
    have "good (json_wf F (d + 1)) text p (parsed_bind (json_string text p) (\<lambda>key p1.
        case consume 0x3A text (whitespace text p1) of (p2, colon) \<Rightarrow>
          if \<not> colon then fail_at ''expected `:`'' p2
          else parsed_bind (val p2) (\<lambda>value p3.
            case consume 0x7D text (whitespace text p3) of (p4, closed) \<Rightarrow>
              if closed then Parsed (JObject (bt_insert key value values)) p4
              else (case consume 0x2C text p4 of (p5, comma) \<Rightarrow>
                if \<not> comma then fail_at ''expected `,` or `}`'' p5
                else json_object_loop text val n (bt_insert key value values) (whitespace text p5)))))"
    proof (rule good_bind [OF json_string_good [OF valid q]])
      fix key p1 assume key: "utf8_valid key" and p1: "p < p1" "p1 \<le> length text"
      obtain p2 co where c: "consume 0x3A text (whitespace text p1) = (p2, co)" by fastforce
      have ws: "p1 \<le> whitespace text p1" using whitespace_ge .
      show "good (json_wf F (d + 1)) text p (case consume 0x3A text (whitespace text p1) of (p2, colon) \<Rightarrow>
          if \<not> colon then fail_at ''expected `:`'' p2
          else parsed_bind (val p2) (\<lambda>value p3.
            case consume 0x7D text (whitespace text p3) of (p4, closed) \<Rightarrow>
              if closed then Parsed (JObject (bt_insert key value values)) p4
              else (case consume 0x2C text p4 of (p5, comma) \<Rightarrow>
                if \<not> comma then fail_at ''expected `,` or `}`'' p5
                else json_object_loop text val n (bt_insert key value values) (whitespace text p5))))"
      proof (cases co)
        case True
        then have p2: "p2 = whitespace text p1 + 1" "p2 \<le> length text" using c by (auto dest: consume_good)
        have "good (json_wf F (d + 1)) text p2 (parsed_bind (val p2) (\<lambda>value p3.
            case consume 0x7D text (whitespace text p3) of (p4, closed) \<Rightarrow>
              if closed then Parsed (JObject (bt_insert key value values)) p4
              else (case consume 0x2C text p4 of (p5, comma) \<Rightarrow>
                if \<not> comma then fail_at ''expected `,` or `}`'' p5
                else json_object_loop text val n (bt_insert key value values) (whitespace text p5))))"
        proof (rule good_bind [OF val [OF p2(2)]])
          fix v p3 assume v: "json_wf F d v" and p3: "p2 < p3" "p3 \<le> length text"
          have wf: "json_wf F (d + 1) (JObject (bt_insert key v values))"
            using Suc.prems(3) key v by (simp add: bt_insert_sorted bt_insert_all)
          obtain p4 cl where c4: "consume 0x7D text (whitespace text p3) = (p4, cl)" by fastforce
          have ws3: "p3 \<le> whitespace text p3" "whitespace text p3 \<le> length text"
            using whitespace_ge whitespace_le p3(2) by simp_all
          show "good (json_wf F (d + 1)) text p2 (case consume 0x7D text (whitespace text p3) of (p4, closed) \<Rightarrow>
              if closed then Parsed (JObject (bt_insert key v values)) p4
              else (case consume 0x2C text p4 of (p5, comma) \<Rightarrow>
                if \<not> comma then fail_at ''expected `,` or `}`'' p5
                else json_object_loop text val n (bt_insert key v values) (whitespace text p5)))"
          proof (cases cl)
            case True
            then have "p4 = whitespace text p3 + 1" "p4 \<le> length text" using c4 by (auto dest: consume_good)
            then show ?thesis using c4 True ws3 p3 wf by simp
          next
            case False
            then have p4: "p4 = whitespace text p3" using c4 by (auto dest: consume_False)
            obtain p5 cm where c5: "consume 0x2C text p4 = (p5, cm)" by fastforce
            show ?thesis
            proof (cases cm)
              case True
              then have p5: "p5 = p4 + 1" "p5 \<le> length text" using c5 by (auto dest: consume_good)
              let ?q = "whitespace text p5"
              have q: "p5 \<le> ?q" "?q \<le> length text" using whitespace_ge whitespace_le p5(2) by simp_all
              have "length text - ?q < n"
                using Suc.prems(2) p1 p2 p3 p4 p5 ws ws3 q by linarith
              then have "good (json_wf F (d + 1)) text ?q
                  (json_object_loop text val n (bt_insert key v values) ?q)"
                using Suc.IH [of ?q "bt_insert key v values"] q wf by blast
              then show ?thesis using c4 c5 False True p5 p4 ws3 p3 q
                  good_later [of "json_wf F (d + 1)" "text" ?q _ p2] by simp
            qed (use c4 c5 False in simp)
          qed
        qed
        then show ?thesis using c True p2 p1 ws good_later [of "json_wf F (d + 1)" "text" p2 _ p] by simp
      qed (use c in simp)
    qed
    then show ?thesis using q by (simp only: json_object_loop.simps) simp
  qed simp
qed simp

lemma json_array_good:
  assumes val: "\<And>p. p \<le> length text \<Longrightarrow> good (json_wf F d) text p (val p)" and p: "p < length text"
  shows "good (json_wf F (d + 1)) text p (json_array text val p)"
proof -
  let ?w = "whitespace text (p + 1)"
  have w: "p < ?w" "?w \<le> length text"
    using whitespace_ge [of "p + 1" "text"] whitespace_le [of "p + 1" "text"] p by simp_all
  have "good (json_wf F (d + 1)) text ?w (json_array_loop text val (length text) [] ?w)"
    by (rule json_array_loop_good [OF val]) (use w in auto)
  then show ?thesis
    using w good_later [of "json_wf F (d + 1)" "text" ?w _ p]
    by (auto simp: json_array_def consume_def peek_Some)
qed

lemma json_object_good:
  assumes valid: "utf8_valid text"
    and val: "\<And>p. p \<le> length text \<Longrightarrow> good (json_wf F d) text p (val p)" and p: "p < length text"
  shows "good (json_wf F (d + 1)) text p (json_object text val p)"
proof -
  let ?w = "whitespace text (p + 1)"
  have w: "p < ?w" "?w \<le> length text"
    using whitespace_ge [of "p + 1" "text"] whitespace_le [of "p + 1" "text"] p by simp_all
  have "good (json_wf F (d + 1)) text ?w (json_object_loop text val (length text) [] ?w)"
    by (rule json_object_loop_good [OF valid val]) (use w in \<open>auto simp: bt_sorted_def\<close>)
  then show ?thesis
    using w good_later [of "json_wf F (d + 1)" "text" ?w _ p]
    by (auto simp: json_object_def consume_def peek_Some bt_sorted_def)
qed

lemma json_value_good:
  "utf8_valid text \<Longrightarrow> p0 \<le> length text \<Longrightarrow> good (json_wf F (128 - depth)) text p0 (json_value F text depth p0)"
proof (induction F "text" depth p0 rule: json_value.induct)
  case (1 F "text" depth p0)
  let ?p = "whitespace text p0"
  have p: "p0 \<le> ?p" by (rule whitespace_ge)
  have "good (json_wf F (128 - depth)) text ?p (json_value F text depth p0)"
  proof (cases "peek text ?p")
    case None
    then show ?thesis by (subst json_value.simps) (simp add: Let_def)
  next
    case (Some b)
    then have pl: "?p < length text" by (simp add: peek_Some)
    show ?thesis
    proof (cases "b = 0x7B \<or> b = 0x5B")
      case nest: True
      show ?thesis
      proof (cases "128 \<le> depth")
        case True
        then show ?thesis using Some nest by (subst json_value.simps) (simp add: Let_def)
      next
        case False
        then have d: "128 - (depth + 1) + 1 = 128 - depth" by simp
        have val: "q \<le> length text \<Longrightarrow> good (json_wf F (128 - (depth + 1))) text q (json_value F text (depth + 1) q)" for q
          using 1(1,2) Some nest False 1(3) by (cases "b = 0x7B") (simp_all del: One_nat_def)
        show ?thesis
        proof (cases "b = 0x7B")
          case True
          then show ?thesis using Some False json_object_good [OF 1(3) val pl] d
            by (subst json_value.simps) (simp add: Let_def)
        next
          case False
          then show ?thesis using Some nest \<open>\<not> 128 \<le> depth\<close> json_array_good [OF val pl] d
            by (subst json_value.simps) (simp add: Let_def)
        qed
      qed
    next
      case flat: False
      consider "b = 0x22" | "b = 0x2D \<or> is_digit b" "b \<noteq> 0x22" | "b = 0x74" | "b = 0x66" | "b = 0x6E"
        | "b \<noteq> 0x22" "\<not> (b = 0x2D \<or> is_digit b)" "b \<noteq> 0x74" "b \<noteq> 0x66" "b \<noteq> 0x6E" by blast
      then show ?thesis
      proof cases
        case 1
        have "good (json_wf F (128 - depth)) text ?p
            (parsed_bind (json_string text ?p) (\<lambda>s q. Parsed (JString s) q))"
          by (rule good_bind [OF json_string_good [OF \<open>utf8_valid text\<close>]]) (use Some 1 in simp_all)
        then show ?thesis using Some flat 1 by (subst json_value.simps) (simp add: Let_def)
      next
        case 2
        then show ?thesis using Some flat json_number_good [OF \<open>utf8_valid text\<close> Some, of F "128 - depth"]
          by (subst json_value.simps) (auto simp: Let_def)
      next
        case 3
        then show ?thesis using Some json_literal_good [OF Some, of "''true''" F "128 - depth" "JBool True"]
          by (subst json_value.simps) (simp add: Let_def is_digit_def)
      next
        case 4
        then show ?thesis using Some json_literal_good [OF Some, of "''false''" F "128 - depth" "JBool False"]
          by (subst json_value.simps) (simp add: Let_def is_digit_def)
      next
        case 5
        then show ?thesis using Some json_literal_good [OF Some, of "''null''" F "128 - depth" JNull]
          by (subst json_value.simps) (simp add: Let_def is_digit_def)
      next
        case 6
        then show ?thesis using Some flat by (subst json_value.simps) (simp add: Let_def)
      qed
    qed
  qed
  then show ?case using good_later p by blast
qed

section \<open>Parsing a text\<close>

lemma json_parse_good:
  assumes "utf8_valid text"
  shows "good (json_wf F 128) text 0 (json_parse F text)"
  unfolding json_parse_def
proof (rule good_bind)
  show "good (json_wf F 128) text 0 (json_value F text 0 0)"
    using json_value_good [OF assms, of 0 F 0] by simp
qed (use whitespace_ge in \<open>auto simp: Let_def intro: order_less_le_trans\<close>)

text \<open>
  C11. The parser returns, on any text that is valid UTF-8: within the fuel of the model, which
  bounds the rounds of the loops over the items of arrays and objects by the length of the
  text, and without a panic, since every slice is at character boundaries.
\<close>

theorem json_parse_returns:
  assumes "utf8_valid text"
  shows "(\<exists>v. json_parse F text = Parsed v (length text)) \<or> (\<exists>e. json_parse F text = Failed e)"
proof (cases "json_parse F text")
  case (Parsed v q)
  then have "q = length text"
    by (auto simp: json_parse_def parsed_bind_eq_Parsed Let_def fail_at_def split: if_splits)
  then show ?thesis using Parsed by blast
qed (use json_parse_good [OF assms, of F] in auto)

definition nat_floats :: "nat f64_ops" where
  "nat_floats = \<lparr>fl_parse = (\<lambda>token. None), fl_finite = (\<lambda>x. True), fl_debug = (\<lambda>x. [0x30, 0x2E, 0x30]),
     fl_of_i64 = (\<lambda>i. 0)\<rparr>"

theorem json_parse_returns_witness:
  "(\<exists>v. json_parse nat_floats (ascii_bytes ''[1, true'') = Parsed v 8)
   \<or> (\<exists>e. json_parse nat_floats (ascii_bytes ''[1, true'') = Failed e)"
proof -
  have "utf8_valid (ascii_bytes ''[1, true'')"
    by (rule utf8_valid_ascii) (simp add: ascii_bytes_def)
  from json_parse_returns [OF this, of nat_floats] show ?thesis by (simp add: ascii_bytes_def eval_nat_numeral)
qed

text \<open>
  C10. A value that the parser returns is well-formed: its strings and keys are valid UTF-8, the
  keys of its objects increase, its floats are finite and it is nested at most 128 deep.
\<close>

theorem json_parse_well_formed:
  assumes "utf8_valid text" and "json_parse F text = Parsed v p"
  shows "json_wf F 128 v"
  using json_parse_good [OF assms(1), of F] assms(2) by simp

lemmas json_eval = json_parse_def json_value.simps json_array_def json_object_def json_string_def
  json_number_def json_literal_def number_int_def number_fraction_def number_exponent_def number_value_def
  parse_i64_def token_value_def dec_value_def str_slice_def char_boundary_def utf8_cont_def
  whitespace_def advance_while_def is_space_def is_digit_def consume_def peek_def string_loop.simps
  fail_at_def

theorem json_parse_well_formed_witness:
  "json_parse nat_floats [0x5B, 0x31, 0x5D] = Parsed (JArray [JInteger 1]) 3
   \<and> json_wf nat_floats 128 (JArray [JInteger 1])"
proof -
  have "json_parse nat_floats [0x5B, 0x31, 0x5D] = Parsed (JArray [JInteger 1]) 3"
    by (simp add: json_eval Let_def)
  moreover have "utf8_valid [0x5B, 0x31, 0x5D]" by (rule utf8_valid_ascii) simp
  ultimately show ?thesis using json_parse_well_formed by blast
qed

end
