(* ===== verification/JsonRoundtrip.thy ===== *)
theory JsonRoundtrip
  imports JsonSafety
begin

text \<open>
  The text of a well-formed JSON value parses to the value. The reader is followed through the
  text by what is left of it at a position.
\<close>

section \<open>What is left at a position\<close>

definition rest_at :: "bytes \<Rightarrow> nat \<Rightarrow> bytes \<Rightarrow> bool" where
  "rest_at text p s \<longleftrightarrow> p \<le> length text \<and> drop p text = s"

lemma rest_at_append: "rest_at text p (s @ r) \<Longrightarrow> rest_at text (p + length s) r"
proof -
  assume a: "rest_at text p (s @ r)"
  then have d: "drop p text = s @ r" and "p \<le> length text" by (simp_all add: rest_at_def)
  then have "length text - p = length s + length r" using length_drop [of p "text"] by simp
  then have "p + length s \<le> length text" using \<open>p \<le> length text\<close> by linarith
  moreover have "drop (p + length s) text = r"
    using d by (metis add.commute append_eq_conv_conj drop_drop)
  ultimately show ?thesis by (simp add: rest_at_def)
qed

lemma rest_at_Cons: "rest_at text p (b # r) \<Longrightarrow> rest_at text (p + 1) r"
  using rest_at_append [of "text" p "[b]" r] by simp

lemma rest_at_nth: "rest_at text p (b # r) \<Longrightarrow> p < length text \<and> text ! p = b"
  by (metis rest_at_def drop_eq_Nil2 list.distinct(1) list.sel(1) hd_drop_conv_nth not_le_imp_less)

lemma peek_rest: "rest_at text p (b # r) \<Longrightarrow> peek text p = Some b"
  using rest_at_nth by (simp add: peek_Some)

lemma peek_end: "rest_at text p [] \<Longrightarrow> peek text p = None"
  by (simp add: rest_at_def peek_def)

lemma consume_rest: "rest_at text p (b # r) \<Longrightarrow> consume b text p = (p + 1, True)"
  by (simp add: consume_def peek_rest)

lemma consume_other: "rest_at text p (c # r) \<Longrightarrow> c \<noteq> b \<Longrightarrow> consume b text p = (p, False)"
  by (simp add: consume_def peek_rest)

lemma consume_end: "rest_at text p [] \<Longrightarrow> consume b text p = (p, False)"
  by (simp add: consume_def peek_end)

text \<open>The next byte does not satisfy a condition.\<close>

fun stops :: "(u8 \<Rightarrow> bool) \<Rightarrow> bytes \<Rightarrow> bool" where
  "stops P [] \<longleftrightarrow> True"
| "stops P (b # r) \<longleftrightarrow> \<not> P b"

lemma consume_stops: "rest_at text p r \<Longrightarrow> stops (\<lambda>c. c = b) r \<Longrightarrow> consume b text p = (p, False)"
  by (cases r) (auto simp: consume_end consume_other)

lemma advance_rest:
  assumes "rest_at text p (ds @ r)" "list_all P ds" "stops P r"
  shows "advance_while P text p = p + length ds"
proof -
  have "takeWhile P (ds @ r) = ds"
    using assms(2,3) by (induction ds) (simp_all, cases r, simp_all)
  then show ?thesis using assms(1) by (simp add: advance_while_def rest_at_def)
qed

lemma whitespace_rest: "rest_at text p r \<Longrightarrow> stops is_space r \<Longrightarrow> whitespace text p = p"
  using advance_rest [of "text" p "[]" r is_space] by (simp add: whitespace_def)

lemma boundary_rest:
  assumes "rest_at text p r" "stops utf8_cont r"
  shows "char_boundary text p"
proof (cases r)
  case Nil
  then show ?thesis using assms(1) by (simp add: rest_at_def char_boundary_def)
next
  case (Cons b s)
  then show ?thesis using assms rest_at_nth [of "text" p b s] by (simp add: char_boundary_def)
qed

lemma slice_rest:
  assumes "rest_at text p (s @ r)" "stops utf8_cont (s @ r)" "stops utf8_cont r"
  shows "str_slice text p (p + length s) = Some s"
proof -
  have "rest_at text (p + length s) r" by (rule rest_at_append [OF assms(1)])
  moreover have "take (length s) (drop p text) = s" using assms(1) by (simp add: rest_at_def)
  ultimately show ?thesis
    using boundary_rest assms by (simp add: str_slice_def)
qed

lemma stops_ascii: "b < 0x80 \<Longrightarrow> stops utf8_cont (b # r)"
  by (simp add: not_cont_ascii)

lemma stops_valid: "utf8_valid s \<Longrightarrow> stops utf8_cont r \<Longrightarrow> stops utf8_cont (s @ r)"
  by (cases s) (auto dest: utf8_valid_no_leading_cont)

section \<open>Strings\<close>

text \<open>Bytes that the loop steps over.\<close>

definition plain :: "u8 \<Rightarrow> bool" where
  "plain b \<longleftrightarrow> b \<noteq> 0x22 \<and> b \<noteq> 0x5C \<and> \<not> b \<le> 0x1F"

lemma string_loop_plain:
  "rest_at text p (s @ r) \<Longrightarrow> list_all plain s
   \<Longrightarrow> string_loop text p start value = string_loop text (p + length s) start value"
proof (induction s arbitrary: p)
  case (Cons b s)
  then have "rest_at text (p + 1) (s @ r)" using rest_at_Cons by simp
  then have "string_loop text (p + 1) start value = string_loop text (p + 1 + length s) start value"
    using Cons by simp
  moreover have "peek text p = Some b" using Cons.prems(1) peek_rest by simp
  ultimately show ?case using Cons.prems(2)
    by (subst string_loop.simps) (simp add: plain_def)
qed simp

lemma cont_plain: "utf8_cont b \<Longrightarrow> plain b"
  by (auto simp: plain_def utf8_cont_def word_le_nat_alt)

lemma hex_value_digit: "d < 16 \<Longrightarrow> hex_value (hex_digit d) = Some d"
proof -
  assume "d < 16"
  then have "d \<in> {0,1,2,3,4,5,6,7,8,9,10,11,12,13,14,15}" by (simp, presburger)
  then show ?thesis
    by (elim insertE emptyE) (simp_all add: hex_value_def hex_digit_def)
qed

lemma hex_quad_rest:
  assumes "rest_at text p (0x30 # 0x30 # hex_digit a # hex_digit b # r)" "a < 16" "b < 16"
  shows "hex_quad text p = Parsed (16 * a + b) (p + 4)"
proof -
  have 1: "rest_at text (Suc p) (0x30 # hex_digit a # hex_digit b # r)" using rest_at_Cons [OF assms(1)] by simp
  have 2: "rest_at text (Suc (Suc p)) (hex_digit a # hex_digit b # r)" using rest_at_Cons [OF 1] by simp
  have 3: "rest_at text (Suc (Suc (Suc p))) (hex_digit b # r)" using rest_at_Cons [OF 2] by simp
  have "hex_value 0x30 = Some 0" by (simp add: hex_value_def)
  then show ?thesis
    using peek_rest [OF assms(1)] peek_rest [OF 1] peek_rest [OF 2] peek_rest [OF 3] hex_value_digit assms(2,3)
    by (simp add: hex_quad_def eval_nat_numeral)
qed

lemma unicode_escape_control:
  assumes "rest_at text p (0x30 # 0x30 # hex_digit (n div 16) # hex_digit (n mod 16) # r)" "n < 32"
  shows "unicode_escape text p = Parsed n (p + 4)"
proof -
  have "hex_quad text p = Parsed (16 * (n div 16) + n mod 16) (p + 4)"
    using hex_quad_rest [OF assms(1)] assms(2) by simp
  then show ?thesis using assms(2)
    by (simp add: unicode_escape_def checked_char_def char_from_u32_def)
qed

lemma unat_less_byte: "(b :: u8) \<le> 0x1F \<Longrightarrow> unat b < 32"
  by (simp add: word_le_nat_alt)

text \<open>One character: the loop goes on after its text, with its bytes pending or written.\<close>

lemma string_loop_escaped:
  assumes "rest_at text start (pend @ 0x5C # c # r)" "stops utf8_cont (pend @ [0x5C])"
    "simple_escape c = Some e" "c \<noteq> 0x75"
  shows "string_loop text (start + length pend) start value
     = string_loop text (start + length pend + 2) (start + length pend + 2) (value @ pend @ [e])"
proof -
  have r: "rest_at text (start + length pend) (0x5C # c # r)" using rest_at_append [OF assms(1)] .
  have r': "rest_at text (start + length pend + 1) (c # r)" using rest_at_Cons [OF r] .
  have "str_slice text start (start + length pend) = Some pend"
    using assms(1,2) by (intro slice_rest) (cases pend; simp add: utf8_cont_def)+
  then show ?thesis using peek_rest [OF r] peek_rest [OF r'] assms(3,4)
    by (subst string_loop.simps) simp
qed

lemma string_loop_control:
  assumes "rest_at text start (pend @ [0x5C, 0x75, 0x30, 0x30, hex_digit (unat b div 16), hex_digit (unat b mod 16)] @ r)"
    "stops utf8_cont (pend @ [0x5C])" "b \<le> 0x1F"
  shows "string_loop text (start + length pend) start value
     = string_loop text (start + length pend + 6) (start + length pend + 6) (value @ pend @ [b])"
proof -
  let ?h = "0x30 # 0x30 # hex_digit (unat b div 16) # hex_digit (unat b mod 16) # r"
  have r: "rest_at text (start + length pend) (0x5C # 0x75 # ?h)" using rest_at_append [OF assms(1)] by simp
  have r1: "rest_at text (start + length pend + 1) (0x75 # ?h)" using rest_at_Cons [OF r] .
  have r2: "rest_at text (start + length pend + 2) ?h" using rest_at_Cons [OF r1] by simp
  have u: "unicode_escape text (start + length pend + 2) = Parsed (unat b) (start + length pend + 6)"
    using unicode_escape_control [OF r2 unat_less_byte [OF assms(3)]] by simp
  have e: "utf8_encode (unat b) = [b]"
    using unat_less_byte [OF assms(3)] by (simp add: utf8_encode_def)
  have "str_slice text start (start + length pend) = Some pend"
    using assms(1,2) by (intro slice_rest) (cases pend; simp add: utf8_cont_def)+
  then show ?thesis using peek_rest [OF r] peek_rest [OF r1] u e
    by (subst string_loop.simps) simp
qed

lemma string_loop_char:
  assumes "rest_at text start (pend @ write_char ch @ r)" "utf8_valid pend"
    and ch: "(\<exists>b. ch = [b] \<and> b < 0x80) \<or> (2 \<le> length ch \<and> list_all plain ch)"
  obtains start' pend' value' where
    "string_loop text (start + length pend) start value
       = string_loop text (start' + length pend') start' value'"
    "start' + length pend' = start + length pend + length (write_char ch)"
    "value' @ pend' = value @ pend @ ch" "rest_at text start' (pend' @ r)" "start \<le> start'"
    "pend' = [] \<or> pend' = pend @ ch"
proof -
  have st: "stops utf8_cont (pend @ [0x5C])"
    by (rule stops_valid [OF assms(2)]) (simp add: utf8_cont_def)
  note got = that
  note skip = that [of start "pend @ ch" "value"]
  have plain_case: thesis if w: "write_char ch = ch" and p: "list_all plain ch"
  proof (rule skip)
    have "rest_at text (start + length pend) (ch @ r)"
      using rest_at_append [of "text" start pend "ch @ r"] assms(1) w by simp
    from string_loop_plain [OF this p]
    show "string_loop text (start + length pend) start value
        = string_loop text (start + length (pend @ ch)) start value" by (simp add: add.assoc)
    show "rest_at text start ((pend @ ch) @ r)" using assms(1) w by simp
  qed (use w in simp_all)
  have esc_case: thesis if w: "write_char ch = [0x5C, c]" and c: "simple_escape c = Some e" "c \<noteq> 0x75" "ch = [e]" for c e
  proof (rule got [of "start + length pend + 2" "[]" "value @ pend @ [e]"])
    have a: "rest_at text start (pend @ 0x5C # c # r)" using assms(1) w by simp
    show "string_loop text (start + length pend) start value
        = string_loop text (start + length pend + 2 + length []) (start + length pend + 2) (value @ pend @ [e])"
      using string_loop_escaped [OF a st c(1,2)] by simp
    show "rest_at text (start + length pend + 2) ([] @ r)"
      using rest_at_append [of "text" start "pend @ [0x5C, c]" r] assms(1) w by simp
  qed (use w c in simp_all)
  show thesis
  proof (cases "\<exists>b. ch = [b] \<and> b < 0x80")
    case False
    then have l: "2 \<le> length ch" "list_all plain ch" using ch by auto
    then have "write_char ch = ch" by (auto simp: write_char_def split: list.splits)
    then show ?thesis using plain_case l(2) by blast
  next
    case True
    then obtain b where b: "ch = [b]" by blast
    consider "b = 0x22" | "b = 0x5C" | "b = 0x08" | "b = 0x0C" | "b = 0x0A" | "b = 0x0D" | "b = 0x09"
      | "b \<noteq> 0x22" "b \<noteq> 0x5C" "b \<noteq> 0x08" "b \<noteq> 0x0C" "b \<noteq> 0x0A" "b \<noteq> 0x0D" "b \<noteq> 0x09" "b \<le> 0x1F"
      | "b \<noteq> 0x22" "b \<noteq> 0x5C" "\<not> b \<le> 0x1F" by blast
    then show ?thesis
    proof cases
      case 8
      have w: "write_char ch = [0x5C, 0x75, 0x30, 0x30, hex_digit (unat b div 16), hex_digit (unat b mod 16)]"
        using 8 b by (simp add: write_char_def)
      then have a: "rest_at text start (pend @ [0x5C, 0x75, 0x30, 0x30, hex_digit (unat b div 16), hex_digit (unat b mod 16)] @ r)"
        using assms(1) by simp
      show ?thesis
      proof (rule got [of "start + length pend + 6" "[]" "value @ pend @ [b]"])
        show "string_loop text (start + length pend) start value
          = string_loop text (start + length pend + 6 + length []) (start + length pend + 6) (value @ pend @ [b])"
          using string_loop_control [OF a st \<open>b \<le> 0x1F\<close>] by simp
        have "rest_at text (start + length (pend @ [0x5C, 0x75, 0x30, 0x30, hex_digit (unat b div 16), hex_digit (unat b mod 16)])) r"
          by (rule rest_at_append) (use a in simp)
        moreover have "length (pend @ [0x5C, 0x75, 0x30, 0x30, hex_digit (unat b div 16), hex_digit (unat b mod 16)]) = length pend + 6" by simp
        ultimately show "rest_at text (start + length pend + 6) ([] @ r)"
          by (simp only: append_Nil add.assoc)
      qed (use w b in simp_all)
    next
      case 9
      then have "write_char ch = ch" "list_all plain ch"
        using b by (auto simp: write_char_def plain_def word_le_nat_alt)
      then show ?thesis using plain_case by blast
    next
      case 1
      then show ?thesis using esc_case [of "0x22" "0x22"] b by (simp add: write_char_def simple_escape_def)
    next
      case 2
      then show ?thesis using esc_case [of "0x5C" "0x5C"] b by (simp add: write_char_def simple_escape_def)
    next
      case 3
      then show ?thesis using esc_case [of "0x62" "0x08"] b by (simp add: write_char_def simple_escape_def)
    next
      case 4
      then show ?thesis using esc_case [of "0x66" "0x0C"] b by (simp add: write_char_def simple_escape_def)
    next
      case 5
      then show ?thesis using esc_case [of "0x6E" "0x0A"] b by (simp add: write_char_def simple_escape_def)
    next
      case 6
      then show ?thesis using esc_case [of "0x72" "0x0D"] b by (simp add: write_char_def simple_escape_def)
    next
      case 7
      then show ?thesis using esc_case [of "0x74" "0x09"] b by (simp add: write_char_def simple_escape_def)
    qed
  qed
qed

text \<open>A character of a valid string is an ASCII byte or at least two plain bytes.\<close>

lemma utf8_step_char:
  assumes "snd (utf8_step bs)" "bs \<noteq> []"
  defines "ch \<equiv> take (fst (utf8_step bs)) bs"
  shows "(\<exists>b. ch = [b] \<and> b < 0x80) \<or> (2 \<le> length ch \<and> list_all plain ch)"
proof -
  obtain b cs where bs: "bs = b # cs" using assms(2) by (cases bs) auto
  show ?thesis
  proof (cases "b < 0x80")
    case True
    then show ?thesis by (simp add: ch_def bs)
  next
    case False
    obtain n lo hi where l: "utf8_lead b = Some (n, lo, hi)"
      using assms(1) False bs by (auto split: option.splits list.splits)
    obtain c ds where c: "cs = c # ds"
      using assms(1) False bs by (auto split: option.splits list.splits)
    have n: "fst (utf8_step bs) = n + 1" "0 < n"
      using assms(1) False bs l c utf8_lead_pos [OF l] by (auto simp: Let_def split: if_splits)
    have "length ch = fst (utf8_step bs)" using utf8_step_le [of bs] by (simp add: ch_def)
    then have len: "2 \<le> length ch" using n by simp
    have "list_all utf8_cont (take (fst (utf8_step (b # cs)) - 1) cs)"
      by (rule utf8_step_conts) (use assms(1) bs in simp)
    then have "list_all plain (take n cs)" using n(1) bs cont_plain by (simp add: list_all_iff)
    moreover have "plain b" using False by (auto simp: plain_def word_le_nat_alt word_less_nat_alt)
    moreover have "ch = b # take n cs" using n(1) by (simp add: ch_def bs)
    ultimately show ?thesis using len by simp
  qed
qed

lemma string_loop_text:
  "utf8_valid s \<Longrightarrow> rest_at text start (pend @ concat (map write_char (chars s)) @ 0x22 # r)
   \<Longrightarrow> utf8_valid pend \<Longrightarrow> string_loop text (start + length pend) start value
     = Parsed (value @ pend @ s) (start + length pend + length (concat (map write_char (chars s))) + 1)"
proof (induction s arbitrary: start pend "value" rule: chars.induct)
  case (1 s)
  show ?case
  proof (cases "s = []")
    case True
    then have a: "rest_at text start (pend @ 0x22 # r)" using 1(3) by (simp add: chars.simps [of "[]"])
    then have "rest_at text (start + length pend) (0x22 # r)" using rest_at_append by blast
    moreover have "str_slice text start (start + length pend) = Some pend"
      using a stops_valid [OF 1(4), of "0x22 # r"] slice_rest [of "text" start pend "0x22 # r"]
      by (simp add: utf8_cont_def)
    ultimately show ?thesis using True
      by (subst string_loop.simps) (simp add: peek_rest chars.simps [of "[]"])
  next
    case False
    define n where "n = fst (utf8_step s)"
    define ch where "ch = take n s"
    have v: "snd (utf8_step s)" "utf8_valid (drop n s)"
      using utf8_valid_step [OF 1(2) False] by (simp_all add: n_def)
    have chs: "chars s = ch # chars (drop n s)"
      using False by (subst chars.simps) (simp add: ch_def n_def)
    let ?more = "concat (map write_char (chars (drop n s))) @ 0x22 # r"
    have A: "rest_at text start (pend @ write_char ch @ ?more)" using 1(3) chs by simp
    have B: "(\<exists>b. ch = [b] \<and> b < 0x80) \<or> (2 \<le> length ch \<and> list_all plain ch)"
      using utf8_step_char [OF v(1) False] unfolding ch_def n_def .
    obtain start' pend' value' where st:
      "string_loop text (start + length pend) start value
         = string_loop text (start' + length pend') start' value'"
      "start' + length pend' = start + length pend + length (write_char ch)"
      "value' @ pend' = value @ pend @ ch"
      "rest_at text start' (pend' @ ?more)"
      "pend' = [] \<or> pend' = pend @ ch"
      by (rule string_loop_char [OF A 1(4) B, of "value"])
    have "utf8_valid ch"
      using utf8_valid_append_step [OF v(1), of "[]"] by (simp add: ch_def n_def)
    then have "utf8_valid pend'" using st(5) utf8_valid_append [OF 1(4)] by auto
    then have "string_loop text (start' + length pend') start' value'
      = Parsed (value' @ pend' @ drop n s)
          (start' + length pend' + length (concat (map write_char (chars (drop n s)))) + 1)"
      using 1(1) [OF False] v(2) st(4) unfolding n_def by blast
    moreover have "value' @ pend' @ drop n s = value @ pend @ s"
      using st(3) by (metis append.assoc append_take_drop_id ch_def)
    ultimately show ?thesis using st(1,2) chs by simp
  qed
qed

lemma json_string_text:
  assumes "rest_at text p (write_string s @ r)" "utf8_valid s"
  shows "json_string text p = Parsed s (p + length (write_string s))"
proof -
  have "rest_at text (p + 1) (concat (map write_char (chars s)) @ 0x22 # r)"
    using assms(1) rest_at_Cons [of "text" p "0x22" "concat (map write_char (chars s)) @ 0x22 # r"]
    by (simp add: write_string_def)
  then show ?thesis
    using string_loop_text [OF assms(2), of "text" "p + 1" "[]" r "[]"]
    by (simp add: json_string_def write_string_def)
qed

section \<open>Numbers\<close>

lemma dec_nat_digits: "list_all is_digit (dec_nat n) \<and> dec_nat n \<noteq> []"
proof (induction n rule: dec_nat.induct)
  case (1 n)
  have d: "is_digit (of_nat (48 + m))" if "m < 10" for m
    using that by (simp add: is_digit_def word_le_nat_alt unat_byte del: of_nat_add)
  show ?case
  proof (cases "n < 10")
    case True
    then show ?thesis using d by (subst (1 2) dec_nat.simps) (simp del: of_nat_add)
  next
    case False
    then show ?thesis using 1 d [of "n mod 10"]
      by (subst (1 2) dec_nat.simps) (simp del: of_nat_add)
  qed
qed

lemma dec_value_snoc: "dec_value (ds @ [d]) = 10 * dec_value ds + (unat d - 48)"
  by (simp add: dec_value_def)

lemma dec_value_dec_nat: "dec_value (dec_nat n) = n"
proof (induction n rule: dec_nat.induct)
  case (1 n)
  show ?case
  proof (cases "n < 10")
    case True
    then show ?thesis by (subst dec_nat.simps) (simp add: dec_value_def unat_byte del: of_nat_add)
  next
    case False
    have "n mod 10 < 10" by simp
    then have "unat (of_nat (48 + n mod 10) :: u8) = 48 + n mod 10" by (intro unat_byte) simp
    then show ?thesis using 1 False
      by (subst dec_nat.simps) (simp add: dec_value_snoc del: of_nat_add)
  qed
qed

lemma dec_nat_head: "n \<noteq> 0 \<Longrightarrow> hd (dec_nat n) \<noteq> 0x30"
proof (induction n rule: dec_nat.induct)
  case (1 n)
  show ?case
  proof (cases "n < 10")
    case True
    have "(of_nat (48 + n) :: u8) \<noteq> 0x30"
      using True 1(2) by (simp add: word_unat_eq_iff unat_byte del: of_nat_add)
    then show ?thesis using True by (subst dec_nat.simps) (simp del: of_nat_add)
  next
    case False
    then show ?thesis using 1 dec_nat_digits [of "n div 10"]
      by (subst dec_nat.simps) (simp del: of_nat_add)
  qed
qed

text \<open>The parts of a number, and a number made of them.\<close>

definition int_part :: "bytes \<Rightarrow> bool" where
  "int_part ds \<longleftrightarrow> ds = [0x30] \<or> (ds \<noteq> [] \<and> hd ds \<noteq> 0x30 \<and> list_all is_digit ds)"

fun fraction_part :: "bytes \<Rightarrow> bool" where
  "fraction_part [] \<longleftrightarrow> True"
| "fraction_part (b # ds) \<longleftrightarrow> b = 0x2E \<and> ds \<noteq> [] \<and> list_all is_digit ds"

definition exponent_digits :: "bytes \<Rightarrow> bool" where
  "exponent_digits ds \<longleftrightarrow> ds \<noteq> [] \<and> list_all is_digit ds"

fun exponent_part :: "bytes \<Rightarrow> bool" where
  "exponent_part [] \<longleftrightarrow> True"
| "exponent_part (b # ds) \<longleftrightarrow> b = 0x65 \<and> (exponent_digits ds \<or> (\<exists>es. ds = 0x2D # es \<and> exponent_digits es))"

text \<open>What may follow a value: the end, or a comma or bracket.\<close>

definition delimiter :: "u8 \<Rightarrow> bool" where
  "delimiter b \<longleftrightarrow> b = 0x2C \<or> b = 0x5D \<or> b = 0x7D"

definition delimited :: "bytes \<Rightarrow> bool" where
  "delimited r \<longleftrightarrow> stops (\<lambda>b. \<not> delimiter b) r"

lemma delimited_Nil [simp]: "delimited []"
  by (simp add: delimited_def)

lemma delimited_Cons [simp]: "delimited (b # r) \<longleftrightarrow> delimiter b"
  by (simp add: delimited_def)

lemma delimited_stops:
  assumes "delimited r"
  shows "stops is_digit r" "stops (\<lambda>c. c = 0x2E) r" "stops (\<lambda>c. c = 0x65) r" "stops (\<lambda>c. c = 0x45) r"
    "stops is_space r" "stops utf8_cont r"
  using assms by (cases r; auto simp: delimiter_def is_digit_def is_space_def utf8_cont_def)+

lemma int_part_rest:
  assumes "rest_at text p (ds @ r)" "int_part ds" "stops is_digit r"
  shows "number_int text p = Parsed () (p + length ds)"
proof (cases "ds = [0x30]")
  case True
  then show ?thesis using assms(1) peek_rest [of "text" p "0x30" r] by (simp add: number_int_def)
next
  case False
  then have d: "ds \<noteq> []" "hd ds \<noteq> 0x30" "list_all is_digit ds" using assms(2) by (auto simp: int_part_def)
  then obtain b es where ds: "ds = b # es" by (cases ds) auto
  have "advance_while is_digit text p = p + length ds"
    by (rule advance_rest [OF assms(1) d(3) assms(3)])
  moreover have "peek text p = Some b" using assms(1) peek_rest ds by simp
  ultimately show ?thesis using d ds by (simp add: number_int_def)
qed

lemma fraction_part_rest:
  assumes "rest_at text p (ds @ r)" "fraction_part ds" "stops is_digit r" "stops (\<lambda>c. c = 0x2E) r"
  shows "number_fraction text p = Parsed (ds \<noteq> []) (p + length ds)"
proof (cases ds)
  case Nil
  then show ?thesis using assms consume_stops [of "text" p r "0x2E"] by (simp add: number_fraction_def)
next
  case (Cons b es)
  then have b: "b = 0x2E" "es \<noteq> []" "list_all is_digit es" using assms(2) by simp_all
  have r: "rest_at text (p + 1) (es @ r)" using assms(1) rest_at_Cons Cons by simp
  have "advance_while is_digit text (p + 1) = p + 1 + length es"
    by (rule advance_rest [OF r b(3) assms(3)])
  moreover have "consume 0x2E text p = (p + 1, True)" using assms(1) consume_rest Cons b(1) by simp
  ultimately show ?thesis using b Cons by (simp add: number_fraction_def)
qed

lemma exponent_part_rest:
  assumes "rest_at text p (ds @ r)" "exponent_part ds" "stops is_digit r"
    "stops (\<lambda>c. c = 0x65) r" "stops (\<lambda>c. c = 0x45) r"
  shows "number_exponent text p = Parsed (ds \<noteq> []) (p + length ds)"
proof (cases ds)
  case Nil
  then show ?thesis
    using assms consume_stops [of "text" p r "0x65"] consume_stops [of "text" p r "0x45"]
    by (simp add: number_exponent_def)
next
  case (Cons b es)
  then have b: "b = 0x65" using assms(2) by simp
  have r: "rest_at text (p + 1) (es @ r)" using assms(1) rest_at_Cons Cons by simp
  have e: "consume 0x65 text p = (p + 1, True)" using assms(1) consume_rest Cons b by simp
  have "exponent_digits es \<or> (\<exists>fs. es = 0x2D # fs \<and> exponent_digits fs)" using assms(2) Cons by simp
  then show ?thesis
  proof
    assume es: "exponent_digits es"
    then obtain d fs where d: "es = d # fs" "is_digit d" by (cases es) (auto simp: exponent_digits_def)
    have "d \<noteq> 0x2B" "d \<noteq> 0x2D" using d(2) by (auto simp: is_digit_def)
    then have "consume 0x2B text (p + 1) = (p + 1, False)" "consume 0x2D text (p + 1) = (p + 1, False)"
      using r d(1) consume_other by simp_all
    moreover have "advance_while is_digit text (p + 1) = p + 1 + length es"
      by (rule advance_rest [OF r _ assms(3)]) (use es in \<open>simp add: exponent_digits_def\<close>)
    ultimately show ?thesis using e d Cons by (simp add: number_exponent_def Let_def)
  next
    assume "\<exists>fs. es = 0x2D # fs \<and> exponent_digits fs"
    then obtain fs where fs: "es = 0x2D # fs" "exponent_digits fs" by blast
    have r2: "rest_at text (p + 1 + 1) (fs @ r)" using r rest_at_Cons fs(1) by simp
    have "consume 0x2B text (p + 1) = (p + 1, False)"
      using r fs(1) consume_other [of "text" "p + 1" "0x2D" "fs @ r" "0x2B"] by simp
    moreover have "consume 0x2D text (p + 1) = (p + 1 + 1, True)" using r fs(1) consume_rest by simp
    moreover have "advance_while is_digit text (p + 1 + 1) = p + 1 + 1 + length fs"
      by (rule advance_rest [OF r2 _ assms(3)]) (use fs in \<open>simp add: exponent_digits_def\<close>)
    ultimately show ?thesis using e fs Cons by (simp add: number_exponent_def Let_def exponent_digits_def)
  qed
qed

lemma json_number_rest:
  assumes r: "rest_at text p ((sign @ ds @ fs @ es) @ r)"
    and parts: "sign = [] \<or> sign = [0x2D]" "int_part ds" "fraction_part fs" "exponent_part es"
    and del: "delimited r"
  shows "json_number F text p
    = number_value F (fs \<noteq> [] \<or> es \<noteq> []) (sign @ ds @ fs @ es) (p + length (sign @ ds @ fs @ es))"
proof -
  have ne: "ds \<noteq> []" using parts(2) by (auto simp: int_part_def)
  have d: "is_digit (hd ds)"
    using parts(2) ne by (cases ds) (auto simp: int_part_def is_digit_def)
  have st_es: "stops is_digit (es @ r)" "stops (\<lambda>c. c = 0x2E) (es @ r)"
    using parts(4) delimited_stops [OF del] by (cases es; simp add: is_digit_def)+
  have st_fs: "stops is_digit (fs @ es @ r)"
    using parts(3) st_es by (cases fs) (simp_all add: is_digit_def)
  have hd_sign: "stops (\<lambda>c. c = 0x2D) (ds @ fs @ es @ r)"
    using d ne by (cases ds) (auto simp: is_digit_def)
  have p0: "fst (consume 0x2D text p) = p + length sign"
    using parts(1) r consume_rest [of "text" p "0x2D"] consume_stops [of "text" p, OF _ hd_sign] by auto
  have r0: "rest_at text (p + length sign) (ds @ fs @ es @ r)" using rest_at_append [of "text" p sign] r by simp
  have r1: "rest_at text (p + length sign + length ds) (fs @ es @ r)" using rest_at_append [OF r0] .
  have r2: "rest_at text (p + length sign + length ds + length fs) (es @ r)" using rest_at_append [OF r1] .
  have 1: "number_int text (p + length sign) = Parsed () (p + length sign + length ds)"
    by (rule int_part_rest [OF r0 parts(2) st_fs])
  have 2: "number_fraction text (p + length sign + length ds)
      = Parsed (fs \<noteq> []) (p + length sign + length ds + length fs)"
    by (rule fraction_part_rest [OF r1 parts(3) st_es])
  have 3: "number_exponent text (p + length sign + length ds + length fs)
      = Parsed (es \<noteq> []) (p + length sign + length ds + length fs + length es)"
    by (rule exponent_part_rest [OF r2 parts(4)]) (use delimited_stops [OF del] in simp_all)
  have "stops utf8_cont ((sign @ ds @ fs @ es) @ r)"
  proof -
    have "\<not> utf8_cont (hd ds)" using is_digit_ascii [OF d] not_cont_ascii by blast
    then show ?thesis using parts(1) ne by (cases ds) (auto simp: utf8_cont_def)
  qed
  then have "str_slice text p (p + length (sign @ ds @ fs @ es)) = Some (sign @ ds @ fs @ es)"
    by (rule slice_rest [OF r]) (rule delimited_stops(6) [OF del])
  then show ?thesis using 1 2 3 p0 by (simp add: json_number_def add.assoc)
qed

lemma token_value_dec_int: "token_value (dec_int n) = n"
proof (cases "n < 0")
  case True
  then show ?thesis by (simp add: dec_int_def token_value_def dec_value_dec_nat)
next
  case False
  obtain d ds where d: "dec_nat (nat n) = d # ds" "is_digit d"
    using dec_nat_digits [of "nat n"] by (cases "dec_nat (nat n)") auto
  have "d \<noteq> 0x2D" using d(2) by (auto simp: is_digit_def)
  then show ?thesis using False d(1) dec_value_dec_nat [of "nat n"]
    by (simp add: dec_int_def token_value_def)
qed

lemma dec_int_not_minus_zero: "dec_int n \<noteq> [0x2D, 0x30]"
proof
  assume eq: "dec_int n = [0x2D, 0x30]"
  then have "token_value (dec_int n) = 0" by (simp add: token_value_def dec_value_def)
  then have "n = 0" using token_value_dec_int by simp
  then show False using eq by (simp add: dec_int_def dec_nat.simps [of 0])
qed

text \<open>The decimal digits of any integer, of any size, are one token.\<close>

lemma json_number_dec_int:
  assumes r: "rest_at text p (dec_int n @ r)" and del: "delimited r"
  shows "json_number F text p = number_value F False (dec_int n) (p + length (dec_int n))"
proof -
  define m where "m = nat \<bar>n\<bar>"
  define sign where "sign = (if n < 0 then [0x2D :: u8] else [])"
  have t: "dec_int n = sign @ dec_nat m @ [] @ []"
    by (simp add: dec_int_def m_def sign_def)
  have digits: "list_all is_digit (dec_nat m)" "dec_nat m \<noteq> []" using dec_nat_digits by blast+
  have ip: "int_part (dec_nat m)"
  proof (cases "m = 0")
    case True
    then show ?thesis by (simp add: int_part_def dec_nat.simps [of 0])
  next
    case False
    then show ?thesis using digits dec_nat_head by (simp add: int_part_def)
  qed
  have "json_number F text p
      = number_value F ([] \<noteq> ([]::bytes) \<or> [] \<noteq> ([]::bytes)) (sign @ dec_nat m @ [] @ []) (p + length (sign @ dec_nat m @ [] @ []))"
    by (rule json_number_rest [OF _ _ ip _ _ del]) (use r t in \<open>simp_all add: sign_def\<close>)
  then show ?thesis unfolding t [symmetric] by simp
qed

lemma parse_i64_dec_int:
  "parse_i64 (dec_int n) = (if - (2 ^ 63) \<le> n \<and> n < 2 ^ 63 then Some (word_of_int n) else None)"
  by (simp add: parse_i64_def token_value_dec_int Let_def)

lemma json_integer_text:
  assumes "rest_at text p (dec_int (sint i) @ r)" and "delimited r"
  shows "json_number F text p = Parsed (JInteger i) (p + length (dec_int (sint i)))"
proof -
  have "- (2 ^ 63) \<le> sint i" "sint i < 2 ^ 63"
    using sint_range_size [of i] by (simp_all add: word_size)
  then show ?thesis using json_number_dec_int [OF assms] dec_int_not_minus_zero
    by (simp add: number_value_def parse_i64_dec_int)
qed

text \<open>
  What the round trip needs of the floats: the \<open>{:?}\<close> text of a finite float is a number with a
  fraction or an exponent, and parses to the float.
\<close>

definition float_text :: "bytes \<Rightarrow> bool" where
  "float_text t \<longleftrightarrow> (\<exists>sign ds fs es. t = sign @ ds @ fs @ es \<and> (sign = [] \<or> sign = [0x2D])
     \<and> int_part ds \<and> fraction_part fs \<and> exponent_part es \<and> (fs \<noteq> [] \<or> es \<noteq> []))"

definition f64_ok :: "'f f64_ops \<Rightarrow> bool" where
  "f64_ok F \<longleftrightarrow> (\<forall>x. fl_finite F x \<longrightarrow> float_text (fl_debug F x) \<and> fl_parse F (fl_debug F x) = Some x)"

lemma json_float_text:
  assumes ok: "f64_ok F" "fl_finite F x" and r: "rest_at text p (fl_debug F x @ r)" and del: "delimited r"
  shows "json_number F text p = Parsed (JFloat x) (p + length (fl_debug F x))"
proof -
  have f: "float_text (fl_debug F x)" "fl_parse F (fl_debug F x) = Some x"
    using ok unfolding f64_ok_def by blast+
  then obtain sign ds fs es where t: "fl_debug F x = sign @ ds @ fs @ es"
    and parts: "sign = [] \<or> sign = [0x2D]" "int_part ds" "fraction_part fs" "exponent_part es"
    and fl: "fs \<noteq> [] \<or> es \<noteq> []" unfolding float_text_def by blast
  have "json_number F text p
    = number_value F (fs \<noteq> [] \<or> es \<noteq> []) (sign @ ds @ fs @ es) (p + length (sign @ ds @ fs @ es))"
    using r unfolding t by (rule json_number_rest [OF _ parts del])
  then show ?thesis using f(2) ok(2) fl unfolding t
    by (cases "fs = []") (simp_all add: number_value_def)
qed

section \<open>Values\<close>

lemma json_literal_rest:
  assumes r: "rest_at text p (ascii_bytes lit @ r)" and b: "ascii_bytes lit = b # bs" "b < 0x80"
  shows "json_literal lit v text p = Parsed v (p + length lit)"
proof -
  have p: "p < length text" "text ! p = b" using r b(1) rest_at_nth [of "text" p b] by simp_all
  have "char_boundary text p" using boundary_at_ascii p b(2) by simp
  then have "str_slice text p (length text) = Some (drop p text)"
    using p(1) by (simp add: str_slice_def char_boundary_def)
  moreover have "take (length lit) (drop p text) = ascii_bytes lit"
    using r by (simp add: rest_at_def ascii_bytes_def)
  ultimately show ?thesis by (simp add: json_literal_def)
qed

text \<open>A reader of values reads the text of a value wherever a delimiter follows.\<close>

definition reads :: "bytes \<Rightarrow> (nat \<Rightarrow> 'f json parsed) \<Rightarrow> bytes \<Rightarrow> 'f json \<Rightarrow> bool" where
  "reads text val t v \<longleftrightarrow>
     (\<forall>p r. rest_at text p (t @ r) \<longrightarrow> delimited r \<longrightarrow> val p = Parsed v (p + length t))"

lemma readsD: "reads text val t v \<Longrightarrow> rest_at text p (t @ r) \<Longrightarrow> delimited r \<Longrightarrow> val p = Parsed v (p + length t)"
  by (simp add: reads_def)

lemma json_array_loop_text:
  "list_all (\<lambda>v. reads text val (T v) v) vs \<Longrightarrow> vs \<noteq> [] \<Longrightarrow> length vs \<le> n
   \<Longrightarrow> rest_at text p (comma_separated (map T vs) @ 0x5D # r)
   \<Longrightarrow> json_array_loop text val n acc p
     = Parsed (JArray (acc @ vs)) (p + length (comma_separated (map T vs)) + 1)"
proof (induction vs arbitrary: n acc p)
  case (Cons v vs)
  obtain m where n: "n = Suc m" using Cons.prems(3) by (cases n) simp_all
  show ?case
  proof (cases vs)
    case Nil
    then have a: "rest_at text p (T v @ 0x5D # r)" using Cons.prems(4) by simp
    have "val p = Parsed v (p + length (T v))"
      by (rule readsD [OF _ a]) (use Cons.prems(1) in \<open>simp_all add: delimiter_def\<close>)
    moreover have "rest_at text (p + length (T v)) (0x5D # r)" using rest_at_append [OF a] .
    ultimately show ?thesis using Nil n consume_rest whitespace_rest
      by (simp add: is_space_def)
  next
    case (Cons w ws)
    have a: "rest_at text p (T v @ 0x2C # comma_separated (map T vs) @ 0x5D # r)"
      using Cons.prems(4) Cons by simp
    have "val p = Parsed v (p + length (T v))"
      by (rule readsD [OF _ a]) (use Cons.prems(1) in \<open>simp_all add: delimiter_def\<close>)
    moreover have c: "rest_at text (p + length (T v)) (0x2C # comma_separated (map T vs) @ 0x5D # r)"
      using rest_at_append [OF a] .
    moreover have "whitespace text (p + length (T v)) = p + length (T v)"
      by (rule whitespace_rest [OF c]) (simp add: is_space_def)
    moreover have "consume 0x5D text (p + length (T v)) = (p + length (T v), False)"
      by (rule consume_other [OF c]) simp
    moreover have "consume 0x2C text (p + length (T v)) = (p + length (T v) + 1, True)"
      by (rule consume_rest [OF c])
    moreover have "json_array_loop text val m (acc @ [v]) (p + length (T v) + 1)
      = Parsed (JArray ((acc @ [v]) @ vs)) (p + length (T v) + 1 + length (comma_separated (map T vs)) + 1)"
      by (rule Cons.IH) (use Cons.prems Cons n rest_at_Cons [OF c] in simp_all)
    ultimately show ?thesis using n Cons by simp
  qed
qed simp

lemma bt_insert_last:
  "list_all (\<lambda>(k', v'). k' < k) m \<Longrightarrow> bt_insert k v m = m @ [(k, v)]"
  by (induction k v m rule: bt_insert.induct) auto

lemma bt_sorted_snoc:
  "bt_sorted (m @ (k, v) # kvs) \<Longrightarrow> list_all (\<lambda>(k', v'). k' < k) m"
  by (auto simp: bt_sorted_def sorted_wrt_append list_all_iff)

lemma write_string_head: "\<exists>s. write_string k = 0x22 # s"
  by (simp add: write_string_def)

lemma json_object_loop_text:
  "list_all (\<lambda>(k, v). utf8_valid k \<and> reads text val (T v) v) kvs \<Longrightarrow> kvs \<noteq> [] \<Longrightarrow> length kvs \<le> n
   \<Longrightarrow> bt_sorted (acc @ kvs)
   \<Longrightarrow> rest_at text p (comma_separated (map (\<lambda>(k, v). write_string k @ [0x3A] @ T v) kvs) @ 0x7D # r)
   \<Longrightarrow> json_object_loop text val n acc p
     = Parsed (JObject (acc @ kvs))
         (p + length (comma_separated (map (\<lambda>(k, v). write_string k @ [0x3A] @ T v) kvs)) + 1)"
proof (induction kvs arbitrary: n acc p)
  case (Cons kv kvs)
  obtain k v where kv: "kv = (k, v)" by (cases kv)
  obtain m where n: "n = Suc m" using Cons.prems(3) by (cases n) simp_all
  let ?E = "\<lambda>(k, v). write_string k @ [0x3A] @ T v"
  define tail where "tail = (if kvs = [] then 0x7D # r else 0x2C # comma_separated (map ?E kvs) @ 0x7D # r)"
  have a: "rest_at text p (write_string k @ 0x3A # T v @ tail)"
    using Cons.prems(5) kv by (cases kvs) (simp_all add: tail_def)
  let ?p1 = "p + length (write_string k)"
  have q: "peek text p = Some 0x22" using a write_string_head [of k] peek_rest [of "text" p "0x22"] by auto
  have key: "json_string text p = Parsed k ?p1"
    by (rule json_string_text [OF a]) (use Cons.prems(1) kv in simp)
  have c: "rest_at text ?p1 (0x3A # T v @ tail)" using rest_at_append [OF a] .
  have w1: "whitespace text ?p1 = ?p1" by (rule whitespace_rest [OF c]) (simp add: is_space_def)
  have co: "consume 0x3A text ?p1 = (?p1 + 1, True)" by (rule consume_rest [OF c])
  have d: "rest_at text (?p1 + 1) (T v @ tail)" using rest_at_Cons [OF c] .
  let ?p3 = "?p1 + 1 + length (T v)"
  have val: "val (?p1 + 1) = Parsed v ?p3"
    by (rule readsD [OF _ d]) (use Cons.prems(1) kv in \<open>auto simp: tail_def delimiter_def\<close>)
  have e: "rest_at text ?p3 tail" using rest_at_append [OF d] .
  have w3: "whitespace text ?p3 = ?p3"
    by (rule whitespace_rest [OF e]) (simp add: tail_def is_space_def)
  have ins: "bt_insert k v acc = acc @ [(k, v)]"
    using bt_insert_last bt_sorted_snoc Cons.prems(4) kv by metis
  show ?case
  proof (cases kvs)
    case Nil
    then have "consume 0x7D text ?p3 = (?p3 + 1, True)" using consume_rest e by (simp add: tail_def)
    then show ?thesis using n q key w1 co val w3 ins kv Nil by simp
  next
    case (Cons x xs)
    then have t: "rest_at text ?p3 (0x2C # comma_separated (map ?E kvs) @ 0x7D # r)"
      using e by (simp add: tail_def)
    have c1: "consume 0x7D text ?p3 = (?p3, False)" by (rule consume_other [OF t]) simp
    have c2: "consume 0x2C text ?p3 = (?p3 + 1, True)" by (rule consume_rest [OF t])
    have f: "rest_at text (?p3 + 1) (comma_separated (map ?E kvs) @ 0x7D # r)" using rest_at_Cons [OF t] .
    have "\<exists>s. comma_separated (map ?E kvs) = 0x22 # s"
      using Cons write_string_head [of "fst x"] by (cases xs) (auto simp: case_prod_unfold)
    then have w5: "whitespace text (?p3 + 1) = ?p3 + 1"
      using f whitespace_rest [OF f] by (auto simp: is_space_def)
    have "json_object_loop text val m (acc @ [(k, v)]) (?p3 + 1)
      = Parsed (JObject ((acc @ [(k, v)]) @ kvs)) (?p3 + 1 + length (comma_separated (map ?E kvs)) + 1)"
      by (rule Cons.IH) (use Cons.prems Cons n kv f in simp_all)
    then show ?thesis using n q key w1 co val w3 ins kv c1 c2 w5 Cons by simp
  qed
qed simp

text \<open>The first byte of the text of a value.\<close>

definition value_head :: "u8 \<Rightarrow> bool" where
  "value_head b \<longleftrightarrow> b \<in> {0x6E, 0x74, 0x66, 0x22, 0x5B, 0x7B, 0x2D} \<or> is_digit b"

lemma value_head_not: "value_head b \<Longrightarrow> \<not> is_space b \<and> b \<noteq> 0x5D"
  by (auto simp: value_head_def is_space_def is_digit_def)

lemma dec_int_head: "\<exists>b s. dec_int i = b # s \<and> (b = 0x2D \<or> is_digit b)"
proof (cases "i < 0")
  case False
  then show ?thesis using dec_nat_digits [of "nat i"]
    by (cases "dec_nat (nat i)") (auto simp: dec_int_def)
qed (simp add: dec_int_def)

lemma float_text_head: "float_text t \<Longrightarrow> \<exists>b s. t = b # s \<and> (b = 0x2D \<or> is_digit b)"
proof -
  assume "float_text t"
  then obtain sign ds fs es where t: "t = sign @ ds @ fs @ es" "sign = [] \<or> sign = [0x2D]" "int_part ds"
    unfolding float_text_def by blast
  then obtain b s where "ds = b # s" "is_digit b"
    by (cases ds) (auto simp: int_part_def is_digit_def)
  then show ?thesis using t by auto
qed

lemma json_text_head:
  assumes "f64_ok F" "json_wf F d v"
  shows "\<exists>b s. json_text F v = b # s \<and> value_head b"
proof (cases v)
  case (JInteger i)
  then show ?thesis using dec_int_head [of "sint i"] by (auto simp: value_head_def)
next
  case (JFloat x)
  then have "float_text (fl_debug F x)" using assms by (simp add: f64_ok_def)
  then show ?thesis using JFloat assms(2) float_text_head by (fastforce simp: value_head_def)
qed (auto simp: value_head_def ascii_bytes_def write_string_def)

lemma comma_separated_length: "length xs \<le> length (comma_separated xs) + 1"
  by (induction xs rule: comma_separated.induct) simp_all

lemma comma_separated_rest: "\<exists>r. comma_separated (x # xs) = x @ r"
  by (cases xs) auto

lemma rest_at_length: "rest_at text p s \<Longrightarrow> length text = p + length s"
  by (auto simp: rest_at_def)

text \<open>The value of a text that starts with a byte that is no space.\<close>

lemma json_value_rest:
  assumes "rest_at text p (b # s)" "\<not> is_space b"
  shows "json_value F text depth p =
    (if (b = 0x7B \<or> b = 0x5B) \<and> 128 \<le> depth then fail_at ''nesting limit exceeded'' p
     else if b = 0x7B then json_object text (json_value F text (depth + 1)) p
     else if b = 0x5B then json_array text (json_value F text (depth + 1)) p
     else if b = 0x22 then parsed_bind (json_string text p) (\<lambda>s q. Parsed (JString s) q)
     else if b = 0x2D \<or> is_digit b then json_number F text p
     else if b = 0x74 then json_literal ''true'' (JBool True) text p
     else if b = 0x66 then json_literal ''false'' (JBool False) text p
     else if b = 0x6E then json_literal ''null'' JNull text p
     else fail_at ''expected a JSON value'' p)"
proof -
  have "whitespace text p = p" using whitespace_rest [OF assms(1)] assms(2) by simp
  moreover have "peek text p = Some b" using peek_rest [OF assms(1)] .
  ultimately show ?thesis by (subst json_value.simps) (simp only: Let_def option.case)
qed

lemma value_head_cases:
  "\<not> is_space 0x22" "\<not> is_space 0x5B" "\<not> is_space 0x7B" "\<not> is_space 0x6E" "\<not> is_space 0x74" "\<not> is_space 0x66"
  "\<not> is_digit 0x6E" "\<not> is_digit 0x74" "\<not> is_digit 0x66"
  by (simp_all add: is_space_def is_digit_def)

lemma json_null_text:
  assumes "rest_at text p (ascii_bytes ''null'' @ r)"
  shows "json_value F text depth p = Parsed JNull (p + length (ascii_bytes ''null''))"
proof -
  have b: "ascii_bytes ''null'' = 0x6E # [0x75, 0x6C, 0x6C]" by (simp add: ascii_bytes_def)
  then have h: "rest_at text p (0x6E # [0x75, 0x6C, 0x6C] @ r)" using assms by simp
  have "(0x6E :: u8) < 0x80" by simp
  then have "json_literal ''null'' JNull text p = Parsed JNull (p + length ''null'')"
    by (rule json_literal_rest [OF assms b])
  then show ?thesis unfolding json_value_rest [OF h value_head_cases(4)] by (simp add: value_head_cases ascii_bytes_def)
qed

lemma json_true_text:
  assumes "rest_at text p (ascii_bytes ''true'' @ r)"
  shows "json_value F text depth p = Parsed (JBool True) (p + length (ascii_bytes ''true''))"
proof -
  have b: "ascii_bytes ''true'' = 0x74 # [0x72, 0x75, 0x65]" by (simp add: ascii_bytes_def)
  then have h: "rest_at text p (0x74 # [0x72, 0x75, 0x65] @ r)" using assms by simp
  have "(0x74 :: u8) < 0x80" by simp
  then have "json_literal ''true'' (JBool True) text p = Parsed (JBool True) (p + length ''true'')"
    by (rule json_literal_rest [OF assms b])
  then show ?thesis unfolding json_value_rest [OF h value_head_cases(5)] by (simp add: value_head_cases ascii_bytes_def)
qed

lemma json_false_text:
  assumes "rest_at text p (ascii_bytes ''false'' @ r)"
  shows "json_value F text depth p = Parsed (JBool False) (p + length (ascii_bytes ''false''))"
proof -
  have b: "ascii_bytes ''false'' = 0x66 # [0x61, 0x6C, 0x73, 0x65]" by (simp add: ascii_bytes_def)
  then have h: "rest_at text p (0x66 # [0x61, 0x6C, 0x73, 0x65] @ r)" using assms by simp
  have "(0x66 :: u8) < 0x80" by simp
  then have "json_literal ''false'' (JBool False) text p = Parsed (JBool False) (p + length ''false'')"
    by (rule json_literal_rest [OF assms b])
  then show ?thesis unfolding json_value_rest [OF h value_head_cases(6)] by (simp add: value_head_cases ascii_bytes_def)
qed

lemma json_array_text:
  assumes r: "rest_at text p (json_text F (JArray vs) @ r)"
    and vs: "list_all (\<lambda>v. reads text val (json_text F v) v) vs"
    and hd: "list_all (\<lambda>v. \<exists>b s. json_text F v = b # s \<and> value_head b) vs"
  shows "json_array text val p = Parsed (JArray vs) (p + length (json_text F (JArray vs)))"
proof -
  let ?items = "comma_separated (map (json_text F) vs)"
  have a: "rest_at text (p + 1) (?items @ 0x5D # r)"
    using rest_at_Cons [of "text" p "0x5B" "?items @ 0x5D # r"] r by simp
  show ?thesis
  proof (cases vs)
    case Nil
    then have c: "rest_at text (p + 1) (0x5D # r)" using a by simp
    have "whitespace text (p + 1) = p + 1" by (rule whitespace_rest [OF c]) (simp add: is_space_def)
    moreover have "consume 0x5D text (p + 1) = (p + 1 + 1, True)" by (rule consume_rest [OF c])
    ultimately show ?thesis using Nil by (simp add: json_array_def)
  next
    case (Cons v ws)
    obtain b s where b: "json_text F v = b # s" "value_head b" using hd Cons by auto
    obtain m where m: "?items = json_text F v @ m" using comma_separated_rest Cons by (metis list.simps(9))
    then have c: "rest_at text (p + 1) (b # s @ m @ 0x5D # r)" using a b by simp
    have "whitespace text (p + 1) = p + 1"
      by (rule whitespace_rest [OF c]) (use value_head_not [OF b(2)] in simp)
    moreover have "consume 0x5D text (p + 1) = (p + 1, False)"
      by (rule consume_other [OF c]) (use value_head_not [OF b(2)] in simp)
    moreover have "json_array_loop text val (length text) [] (p + 1)
        = Parsed (JArray ([] @ vs)) (p + 1 + length ?items + 1)"
    proof (rule json_array_loop_text [OF vs _ _ a])
      show "length vs \<le> length text"
        using rest_at_length [OF a] comma_separated_length [of "map (json_text F) vs"] by simp
    qed (simp add: Cons)
    ultimately show ?thesis by (simp add: json_array_def)
  qed
qed

lemma json_object_text:
  assumes r: "rest_at text p (json_text F (JObject kvs) @ r)"
    and kvs: "list_all (\<lambda>(k, v). utf8_valid k \<and> reads text val (json_text F v) v) kvs" "bt_sorted kvs"
  shows "json_object text val p = Parsed (JObject kvs) (p + length (json_text F (JObject kvs)))"
proof -
  let ?E = "\<lambda>(k, v). write_string k @ [0x3A] @ json_text F v"
  let ?items = "comma_separated (map ?E kvs)"
  have a: "rest_at text (p + 1) (?items @ 0x7D # r)"
    using rest_at_Cons [of "text" p "0x7B" "?items @ 0x7D # r"] r by simp
  show ?thesis
  proof (cases kvs)
    case Nil
    then have c: "rest_at text (p + 1) (0x7D # r)" using a by simp
    have "whitespace text (p + 1) = p + 1" by (rule whitespace_rest [OF c]) (simp add: is_space_def)
    moreover have "consume 0x7D text (p + 1) = (p + 1 + 1, True)" by (rule consume_rest [OF c])
    ultimately show ?thesis using Nil by (simp add: json_object_def)
  next
    case (Cons kv ws)
    have "\<exists>m. ?items = 0x22 # m"
      using Cons write_string_head [of "fst kv"] by (cases ws) (auto simp: case_prod_unfold)
    then obtain m where c: "rest_at text (p + 1) (0x22 # m @ 0x7D # r)" using a by auto
    have "whitespace text (p + 1) = p + 1" by (rule whitespace_rest [OF c]) (simp add: is_space_def)
    moreover have "consume 0x7D text (p + 1) = (p + 1, False)" by (rule consume_other [OF c]) simp
    moreover have "json_object_loop text val (length text) [] (p + 1)
        = Parsed (JObject ([] @ kvs)) (p + 1 + length ?items + 1)"
    proof (rule json_object_loop_text [OF kvs(1) _ _ _ a])
      show "length kvs \<le> length text"
        using rest_at_length [OF a] comma_separated_length [of "map ?E kvs"] by simp
    qed (simp_all add: Cons kvs(2) [unfolded Cons])
    ultimately show ?thesis by (simp add: json_object_def)
  qed
qed

lemma json_value_text:
  assumes ok: "f64_ok F"
  shows "json_wf F d v \<Longrightarrow> depth + d \<le> 128 \<Longrightarrow> reads text (json_value F text depth) (json_text F v) v"
proof (induction v arbitrary: d depth)
  case JNull
  then show ?case by (auto simp: reads_def intro: json_null_text)
next
  case (JBool b)
  then show ?case by (cases b) (auto simp: reads_def intro: json_true_text json_false_text)
next
  case (JInteger i)
  show ?case unfolding reads_def
  proof (intro allI impI)
    fix p r assume r: "rest_at text p (json_text F (JInteger i) @ r)" and del: "delimited r"
    obtain b s where b: "dec_int (sint i) = b # s" "b = 0x2D \<or> is_digit b" using dec_int_head by blast
    have "\<not> is_space b" "b \<noteq> 0x7B" "b \<noteq> 0x5B" "b \<noteq> 0x22"
      using b(2) by (auto simp: is_space_def is_digit_def)
    moreover have "rest_at text p (b # s @ r)" using r b(1) by simp
    ultimately show "json_value F text depth p = Parsed (JInteger i) (p + length (json_text F (JInteger i)))"
      using b(2) json_integer_text [of "text" p i r F] r del by (subst json_value_rest) auto
  qed
next
  case (JFloat x)
  then have fin: "fl_finite F x" by simp
  show ?case unfolding reads_def
  proof (intro allI impI)
    fix p r assume r: "rest_at text p (json_text F (JFloat x) @ r)" and del: "delimited r"
    have "float_text (fl_debug F x)" using ok fin by (simp add: f64_ok_def)
    then obtain b s where b: "fl_debug F x = b # s" "b = 0x2D \<or> is_digit b" using float_text_head by blast
    have "\<not> is_space b" "b \<noteq> 0x7B" "b \<noteq> 0x5B" "b \<noteq> 0x22"
      using b(2) by (auto simp: is_space_def is_digit_def)
    moreover have "rest_at text p (b # s @ r)" using r b(1) fin by simp
    ultimately show "json_value F text depth p = Parsed (JFloat x) (p + length (json_text F (JFloat x)))"
      using b(2) json_float_text [OF ok fin, of "text" p r] r del fin by (subst json_value_rest) auto
  qed
next
  case (JString s)
  show ?case unfolding reads_def
  proof (intro allI impI)
    fix p r assume r: "rest_at text p (json_text F (JString s) @ r)" and del: "delimited r"
    obtain m where m: "write_string s = 0x22 # m" using write_string_head by blast
    then have h: "rest_at text p (0x22 # m @ r)" using r by simp
    show "json_value F text depth p = Parsed (JString s) (p + length (json_text F (JString s)))"
      unfolding json_value_rest [OF h value_head_cases(1)]
      using json_string_text [of "text" p s r] r JString by simp
  qed
next
  case (JArray vs)
  have d: "0 < d" "list_all (json_wf F (d - 1)) vs" using JArray.prems by simp_all
  have rd: "list_all (\<lambda>v. reads text (json_value F text (depth + 1)) (json_text F v) v) vs"
    unfolding list_all_iff
  proof
    fix v assume v: "v \<in> set vs"
    then have "json_wf F (d - 1) v" using d(2) by (simp add: list_all_iff)
    then show "reads text (json_value F text (depth + 1)) (json_text F v) v"
      using JArray.IH [OF v] d(1) JArray.prems(2) by simp
  qed
  have hd: "list_all (\<lambda>v. \<exists>b s. json_text F v = b # s \<and> value_head b) vs"
    using d(2) json_text_head [OF ok] by (auto simp: list_all_iff)
  show ?case unfolding reads_def
  proof (intro allI impI)
    fix p r assume r: "rest_at text p (json_text F (JArray vs) @ r)"
    obtain m where m: "json_text F (JArray vs) = 0x5B # m" by simp
    then have h: "rest_at text p (0x5B # m @ r)" using r by simp
    have "json_value F text depth p = json_array text (json_value F text (depth + 1)) p"
      unfolding json_value_rest [OF h value_head_cases(2)] using d(1) JArray.prems(2) by simp
    then show "json_value F text depth p = Parsed (JArray vs) (p + length (json_text F (JArray vs)))"
      using json_array_text [OF r rd hd] by (simp only:)
  qed
next
  case (JObject kvs)
  have d: "0 < d" "bt_sorted kvs" "list_all (\<lambda>(k, v). utf8_valid k \<and> json_wf F (d - 1) v) kvs"
    using JObject.prems by simp_all
  have rd: "list_all (\<lambda>(k, v). utf8_valid k \<and> reads text (json_value F text (depth + 1)) (json_text F v) v) kvs"
    unfolding list_all_iff
  proof
    fix kv assume kv: "kv \<in> set kvs"
    obtain k v where e: "kv = (k, v)" by (cases kv)
    then have "utf8_valid k" "json_wf F (d - 1) v" using d(3) kv by (auto simp: list_all_iff)
    moreover have "reads text (json_value F text (depth + 1)) (json_text F v) v"
      using JObject.IH [OF kv, of v "d - 1" "depth + 1"] e d(1) JObject.prems(2) calculation by simp
    ultimately show "case kv of (k, v) \<Rightarrow> utf8_valid k \<and> reads text (json_value F text (depth + 1)) (json_text F v) v"
      using e by simp
  qed
  show ?case unfolding reads_def
  proof (intro allI impI)
    fix p r assume r: "rest_at text p (json_text F (JObject kvs) @ r)"
    obtain m where m: "json_text F (JObject kvs) = 0x7B # m" by simp
    then have h: "rest_at text p (0x7B # m @ r)" using r by simp
    have "json_value F text depth p = json_object text (json_value F text (depth + 1)) p"
      unfolding json_value_rest [OF h value_head_cases(3)] using d(1) JObject.prems(2) by simp
    then show "json_value F text depth p = Parsed (JObject kvs) (p + length (json_text F (JObject kvs)))"
      using json_object_text [OF r rd d(2)] by (simp only:)
  qed
qed

text \<open>
  C9. The text of a well-formed value parses to the value: for values nested at most 128 deep,
  whose floats are finite and written by the standard library in a form it reads back.
\<close>

theorem json_roundtrip:
  assumes "f64_ok F" and "json_wf F 128 v"
  shows "json_parse F (json_text F v) = Parsed v (length (json_text F v))"
proof -
  let ?t = "json_text F v"
  have "rest_at ?t 0 (?t @ [])" by (simp add: rest_at_def)
  then have "json_value F ?t 0 0 = Parsed v (0 + length ?t)"
    using readsD [OF json_value_text [OF assms(1,2)], of 0 "?t" 0 "[]"] by simp
  moreover have "whitespace ?t (length ?t) = length ?t"
    by (simp add: whitespace_def advance_while_def)
  ultimately show ?thesis by (simp add: json_parse_def Let_def)
qed

text \<open>Floats that are natural numbers, written with \<open>.0\<close>, as an instance of the laws.\<close>

definition point_floats :: "nat f64_ops" where
  "point_floats = \<lparr>fl_parse = (\<lambda>token. Some (dec_value (takeWhile is_digit token))), fl_finite = (\<lambda>x. True),
     fl_debug = (\<lambda>x. dec_nat x @ [0x2E, 0x30]), fl_of_i64 = (\<lambda>i. nat (sint i))\<rparr>"

lemma point_floats_ok: "f64_ok point_floats"
proof -
  have "float_text (dec_nat x @ [0x2E, 0x30])" for x
    unfolding float_text_def
  proof (intro exI conjI)
    show "dec_nat x @ [0x2E, 0x30] = [] @ dec_nat x @ [0x2E, 0x30] @ []" by simp
    show "int_part (dec_nat x)"
      using dec_nat_digits [of x] dec_nat_head [of x]
      by (cases "x = 0") (simp_all add: int_part_def dec_nat.simps [of 0])
  qed (simp_all add: is_digit_def)
  moreover have "takeWhile is_digit (dec_nat x @ [0x2E, 0x30]) = dec_nat x" for x
  proof -
    have "\<forall>d \<in> set (dec_nat x). is_digit d" using dec_nat_digits [of x] by (simp add: list_all_iff)
    then show ?thesis by (simp add: takeWhile_append2 is_digit_def)
  qed
  ultimately show ?thesis by (simp add: f64_ok_def point_floats_def dec_value_dec_nat)
qed

definition json_sample :: "nat json" where
  "json_sample = JObject [([0x61, 0x22], JArray [JInteger (- 1), JFloat 25, JNull]), ([0x62], JString [0xC3, 0xA9, 0x0A])]"

theorem json_roundtrip_witness:
  "json_parse point_floats (json_text point_floats json_sample)
     = Parsed json_sample (length (json_text point_floats json_sample))"
proof -
  have "utf8_valid [0xC3, 0xA9, 0x0A]"
    by (simp add: utf8_valid.simps utf8_lead_def utf8_cont_def Let_def)
  moreover have "utf8_valid [0x61, 0x22]" "utf8_valid [0x62]"
    by (simp_all add: utf8_valid_ascii)
  ultimately have "json_wf point_floats 128 json_sample"
    by (simp add: json_sample_def bt_sorted_def point_floats_def)
  then show ?thesis by (rule json_roundtrip [OF point_floats_ok])
qed

end
