(* ===== verification/JsonDecode.thy ===== *)
theory JsonDecode
  imports JsonRoundtrip
begin

text \<open>
  The conversions from JSON values (\<open>FromJson\<close> of \<open>src/json.rs\<close>), each a function to an error or
  a value; an instance for a type with a parameter takes the conversion of the parameter.
\<close>

type_synonym ('f, 'a) decoder = "'f json \<Rightarrow> json_error + 'a"

definition decode_error :: "string \<Rightarrow> json_error + 'a" where
  "decode_error message = Inl (JsonError (ascii_bytes message))"

definition fj_value :: "('f, 'f json) decoder" where
  "fj_value v = Inr v"

fun fj_bool :: "('f, bool) decoder" where
  "fj_bool (JBool b) = Inr b"
| "fj_bool _ = decode_error ''expected a boolean''"

text \<open>The integer types, their names and their ranges.\<close>

datatype int_type = I8 | I16 | I32 | I64 | I128 | Isize | U8 | U16 | U32 | U64 | U128 | Usize

fun int_name :: "int_type \<Rightarrow> string" where
  "int_name I8 = ''i8''" | "int_name I16 = ''i16''" | "int_name I32 = ''i32''" | "int_name I64 = ''i64''"
| "int_name I128 = ''i128''" | "int_name Isize = ''isize''" | "int_name U8 = ''u8''" | "int_name U16 = ''u16''"
| "int_name U32 = ''u32''" | "int_name U64 = ''u64''" | "int_name U128 = ''u128''" | "int_name Usize = ''usize''"

fun int_signed_bits :: "int_type \<Rightarrow> bool \<times> nat" where
  "int_signed_bits I8 = (True, 8)" | "int_signed_bits I16 = (True, 16)" | "int_signed_bits I32 = (True, 32)"
| "int_signed_bits I64 = (True, 64)" | "int_signed_bits I128 = (True, 128)" | "int_signed_bits Isize = (True, 64)"
| "int_signed_bits U8 = (False, 8)" | "int_signed_bits U16 = (False, 16)" | "int_signed_bits U32 = (False, 32)"
| "int_signed_bits U64 = (False, 64)" | "int_signed_bits U128 = (False, 128)" | "int_signed_bits Usize = (False, 64)"

definition int_in_range :: "int_type \<Rightarrow> int \<Rightarrow> bool" where
  "int_in_range ty n =
     (case int_signed_bits ty of
        (True, k) \<Rightarrow> - (2 ^ (k - 1)) \<le> n \<and> n < 2 ^ (k - 1)
      | (False, k) \<Rightarrow> 0 \<le> n \<and> n < 2 ^ k)"

fun fj_int :: "int_type \<Rightarrow> ('f, int) decoder" where
  "fj_int ty (JInteger i) =
     (if int_in_range ty (sint i) then Inr (sint i)
      else decode_error (''integer out of range for '' @ int_name ty))"
| "fj_int ty _ = decode_error (''expected an integer for '' @ int_name ty)"

text \<open>The floats; \<open>of_f64\<close> is the cast of a 64-bit float (the identity for \<open>f64\<close>), \<open>of_i64\<close> that of an integer.\<close>

fun fj_float :: "(i64 \<Rightarrow> 'g) \<Rightarrow> ('f \<Rightarrow> 'g) \<Rightarrow> ('f, 'g) decoder" where
  "fj_float of_i64 of_f64 (JInteger i) = Inr (of_i64 i)"
| "fj_float of_i64 of_f64 (JFloat x) = Inr (of_f64 x)"
| "fj_float of_i64 of_f64 _ = decode_error ''expected a number''"

definition fj_f64 :: "'f f64_ops \<Rightarrow> ('f, 'f) decoder" where
  "fj_f64 F = fj_float (fl_of_i64 F) (\<lambda>x. x)"

fun fj_string :: "('f, bytes) decoder" where
  "fj_string (JString s) = Inr s"
| "fj_string _ = decode_error ''expected a string''"

fun fj_option :: "('f, 'a) decoder \<Rightarrow> ('f, 'a option) decoder" where
  "fj_option T JNull = Inr None"
| "fj_option T v = (case T v of Inl e \<Rightarrow> Inl e | Inr x \<Rightarrow> Inr (Some x))"

text \<open>\<open>collect\<close> of results: the first error, or all values.\<close>

fun collect_results :: "(json_error + 'a) list \<Rightarrow> json_error + 'a list" where
  "collect_results [] = Inr []"
| "collect_results (Inl e # rs) = Inl e"
| "collect_results (Inr x # rs) =
     (case collect_results rs of Inl e \<Rightarrow> Inl e | Inr xs \<Rightarrow> Inr (x # xs))"

fun fj_vec :: "('f, 'a) decoder \<Rightarrow> ('f, 'a list) decoder" where
  "fj_vec T (JArray vs) = collect_results (map T vs)"
| "fj_vec T _ = decode_error ''expected an array''"

definition fj_entry :: "('f, 'a) decoder \<Rightarrow> bytes \<times> 'f json \<Rightarrow> json_error + bytes \<times> 'a" where
  "fj_entry T kv = (case kv of (k, v) \<Rightarrow> (case T v of Inl e \<Rightarrow> Inl e | Inr x \<Rightarrow> Inr (k, x)))"

text \<open>The entries are collected into an ordered map.\<close>

fun fj_map :: "('f, 'a) decoder \<Rightarrow> ('f, (bytes \<times> 'a) list) decoder" where
  "fj_map T (JObject kvs) =
     (case collect_results (map (fj_entry T) kvs) of
        Inl e \<Rightarrow> Inl e
      | Inr es \<Rightarrow> Inr (fold (\<lambda>(k, x). bt_insert k x) es []))"
| "fj_map T _ = decode_error ''expected an object''"

definition json_field :: "('f, 'a) decoder \<Rightarrow> bytes \<Rightarrow> ('f, 'a) decoder" where
  "json_field T key v =
     (case v of
        JObject kvs \<Rightarrow>
          (case map_of kvs key of
             None \<Rightarrow>
               (case T JNull of
                  Inl _ \<Rightarrow> Inl (JsonError (ascii_bytes ''missing field `'' @ key @ ascii_bytes ''`''))
                | Inr x \<Rightarrow> Inr x)
           | Some w \<Rightarrow> T w)
      | _ \<Rightarrow> decode_error ''expected an object'')"

section \<open>Properties\<close>

lemma collect_results_Inr:
  "collect_results rs = Inr xs \<longleftrightarrow> rs = map Inr xs"
proof (induction rs arbitrary: xs)
  case Nil
  then show ?case by auto
next
  case (Cons r rs)
  show ?case
  proof (cases r)
    case (Inr x)
    then show ?thesis
      using Cons.IH [of "tl xs"] by (cases xs; cases "collect_results rs") auto
  qed auto
qed

lemma fold_bt_insert:
  "bt_sorted (acc @ es) \<Longrightarrow> fold (\<lambda>(k, x). bt_insert k x) es acc = acc @ es"
proof (induction es arbitrary: acc)
  case (Cons e es)
  obtain k x where e: "e = (k, x)" by (cases e)
  have "list_all (\<lambda>(k', v'). k' < k) acc"
    using Cons.prems e by (auto simp: bt_sorted_def sorted_wrt_append list_all_iff)
  then have "bt_insert k x acc = acc @ [(k, x)]"
    by (induction k x acc rule: bt_insert.induct) auto
  then show ?case using Cons e by simp
qed simp

text \<open>The whole text of an integer: the digits are read as an integer when they fit in 64 bits.\<close>

lemma json_parse_dec_int:
  "json_parse F (dec_int n) =
     (if - (2 ^ 63) \<le> n \<and> n < 2 ^ 63 then Parsed (JInteger (word_of_int n)) (length (dec_int n))
      else case fl_parse F (dec_int n) of
        None \<Rightarrow> fail_at ''invalid number'' (length (dec_int n))
      | Some x \<Rightarrow> if fl_finite F x then Parsed (JFloat x) (length (dec_int n))
                  else fail_at ''number out of range'' (length (dec_int n)))"
proof -
  let ?t = "dec_int n"
  have r: "rest_at ?t 0 (?t @ [])" by (simp add: rest_at_def)
  obtain b s where b: "?t = b # s" "b = 0x2D \<or> is_digit b" using dec_int_head by blast
  have h: "\<not> is_space b" "b \<noteq> 0x7B" "b \<noteq> 0x5B" "b \<noteq> 0x22"
    using b(2) by (auto simp: is_space_def is_digit_def)
  have "rest_at ?t 0 (b # s)" using b(1) by (simp add: rest_at_def)
  then have "json_value F ?t 0 0 = json_number F ?t 0"
    by (subst json_value_rest [OF _ h(1)]) (use h b(2) in auto)
  also have "\<dots> = number_value F False ?t (length ?t)"
    using json_number_dec_int [OF r] by simp
  finally have v: "json_value F ?t 0 0 = number_value F False ?t (length ?t)" .
  have "whitespace ?t (length ?t) = length ?t"
    by (simp add: whitespace_def advance_while_def)
  then show ?thesis
    using dec_int_not_minus_zero [of n]
    by (simp add: json_parse_def v number_value_def parse_i64_dec_int fail_at_def split: option.split)
qed

text \<open>
  C40. The decimal digits of an integer of any size, parsed and decoded as each of the twelve
  integer types: inside the range of the type (written out below) the integer itself; outside it, but
  inside 64 bits, the error that names the type; beyond 64 bits the text is a float, if the
  standard library reads it as a finite one, which no integer type accepts. The parser never
  panics on it.
\<close>

theorem fj_int_exact:
  "list_all (\<lambda>(ty, name, least, greatest).
     case json_parse F (dec_int n) of
       Parsed v p \<Rightarrow> p = length (dec_int n) \<and>
         fj_int ty v =
           (if n < - 9223372036854775808 \<or> 9223372036854775807 < n
            then Inl (JsonError (ascii_bytes (''expected an integer for '' @ name)))
            else if least \<le> n \<and> n \<le> greatest then Inr n
            else Inl (JsonError (ascii_bytes (''integer out of range for '' @ name))))
     | Failed e \<Rightarrow> (n < - 9223372036854775808 \<or> 9223372036854775807 < n)
         \<and> (case fl_parse F (dec_int n) of Some x \<Rightarrow> \<not> fl_finite F x | None \<Rightarrow> True)
     | _ \<Rightarrow> False)
   [(I8, ''i8'', - 128, 127), (I16, ''i16'', - 32768, 32767),
    (I32, ''i32'', - 2147483648, 2147483647),
    (I64, ''i64'', - 9223372036854775808, 9223372036854775807),
    (I128, ''i128'', - (2 ^ 127), 2 ^ 127 - 1),
    (Isize, ''isize'', - 9223372036854775808, 9223372036854775807),
    (U8, ''u8'', 0, 255), (U16, ''u16'', 0, 65535), (U32, ''u32'', 0, 4294967295),
    (U64, ''u64'', 0, 18446744073709551615), (U128, ''u128'', 0, 2 ^ 128 - 1),
    (Usize, ''usize'', 0, 18446744073709551615)]"
proof (cases "n < - 9223372036854775808 \<or> 9223372036854775807 < n")
  case True
  then have "\<not> (- (2 ^ 63) \<le> n \<and> n < 2 ^ 63)" by auto
  then have p: "json_parse F (dec_int n) = (case fl_parse F (dec_int n) of
        None \<Rightarrow> fail_at ''invalid number'' (length (dec_int n))
      | Some x \<Rightarrow> if fl_finite F x then Parsed (JFloat x) (length (dec_int n))
                  else fail_at ''number out of range'' (length (dec_int n)))"
    by (simp only: json_parse_dec_int if_False)
  show ?thesis
  proof (cases "fl_parse F (dec_int n)")
    case None
    then show ?thesis using True by (simp add: p fail_at_def)
  next
    case (Some x)
    then show ?thesis using True by (cases "fl_finite F x") (simp_all add: p fail_at_def decode_error_def)
  qed
next
  case False
  then have "sint (word_of_int n :: i64) = n"
    by (simp add: sint_sbintrunc' signed_take_bit_int_eq_self)
  moreover have "json_parse F (dec_int n) = Parsed (JInteger (word_of_int n)) (length (dec_int n))"
    using False by (simp add: json_parse_dec_int)
  ultimately show ?thesis using False by (simp add: decode_error_def int_in_range_def)
qed

text \<open>
  Decoding an object into a map keeps its keys and their order, and succeeds exactly when
  every value decodes.
\<close>

theorem fj_map_fields:
  assumes "json_wf F d (JObject kvs)"
  shows "(fj_map T (JObject kvs) = Inr es \<longleftrightarrow>
      map fst es = map fst kvs \<and> map (T \<circ> snd) kvs = map (Inr \<circ> snd) es)"
proof -
  have entry: "fj_entry T kv = Inr (k, x) \<longleftrightarrow> k = fst kv \<and> T (snd kv) = Inr x" for kv k x
    by (cases kv) (auto simp: fj_entry_def split: sum.splits)
  have ent: "map (fj_entry T) kvs = map Inr fs
      \<longleftrightarrow> map fst fs = map fst kvs \<and> map (T \<circ> snd) kvs = map (Inr \<circ> snd) fs" for fs
  proof (induction kvs arbitrary: fs)
    case step: (Cons kv kvs)
    show ?case
    proof (cases fs)
      case (Cons f gs)
      then show ?thesis using step.IH [of gs] entry [of kv "fst f" "snd f"] by (cases f) auto
    qed simp
  qed auto
  have sorted: "bt_sorted fs" if "map fst fs = map fst kvs" for fs :: "(bytes \<times> 'b) list"
    using assms that by (simp add: bt_sorted_def)
  show ?thesis
  proof
    assume "fj_map T (JObject kvs) = Inr es"
    then obtain fs where fs: "map (fj_entry T) kvs = map Inr fs" "es = fold (\<lambda>(k, x). bt_insert k x) fs []"
      by (auto simp: collect_results_Inr split: sum.splits)
    then have "es = fs" using fold_bt_insert [of "[]" fs] sorted ent by simp
    then show "map fst es = map fst kvs \<and> map (T \<circ> snd) kvs = map (Inr \<circ> snd) es" using ent fs(1) by blast
  next
    assume e: "map fst es = map fst kvs \<and> map (T \<circ> snd) kvs = map (Inr \<circ> snd) es"
    then have "collect_results (map (fj_entry T) kvs) = Inr es" using ent collect_results_Inr by blast
    then show "fj_map T (JObject kvs) = Inr es" using fold_bt_insert [of "[]" es] sorted e by simp
  qed
qed

theorem fj_map_fields_witness:
  "fj_map fj_bool (JObject [([0x61], JBool True), ([0x62], JBool False)] :: nat json)
     = Inr [([0x61], True), ([0x62], False)]"
proof -
  have "json_wf nat_floats 1 (JObject [([0x61], JBool True), ([0x62], JBool False)])"
    by (simp add: bt_sorted_def utf8_valid_ascii)
  from fj_map_fields [OF this, of fj_bool "[([0x61], True), ([0x62], False)]"] show ?thesis by simp
qed

end
