(* ===== verification/Spec2Isabelle.thy ===== *)
theory Spec2Isabelle
  imports WakerPanic SpscThreads Spsc FutureThreads StreamModel ArrayVec SmallVec SlotMap AsyncMutex Combinators
    FourCharCode FfiString PanicSafe CallbackThreads Completion AsyncCompletion
    JsonRoundtrip JsonDecode
begin

text \<open>
  A verification library for the crate \<open>doom-fish-utils\<close> (Rust sources under \<open>src/src/\<close>): the
  helpers that Rust bindings of C and Swift frameworks share.

  \<^bold>\<open>The program\<close>

  The crate has no main program. Its parts are: wakers and single-producer rings
  (\<open>atomic_waker/mod.rs\<close>, \<open>spsc.rs\<close>), a bounded stream between callbacks and futures
  (\<open>stream.rs\<close>), small futures (\<open>future/*.rs\<close>), completions and contexts that C code calls back
  (\<open>completion.rs\<close>, \<open>callback_context.rs\<close>) behind a panic boundary (\<open>panic_safe.rs\<close>), strings and
  codes of C (\<open>ffi_string.rs\<close>, \<open>four_char_code.rs\<close>), JSON (\<open>json.rs\<close>) and collections
  (\<open>collections/*.rs\<close>).

  \<^bold>\<open>Theories and sources\<close>

  \<^item> \<open>Prelude\<close>: outcomes of a call (value, panic with message, undefined behaviour), \<open>Poll\<close>,
    wakers and what a wake does to parked tasks, machine integers, raw memory, runs of calls.
    \<open>OrderedMap\<close>: the \<open>BTreeMap\<close> of the standard library. \<open>ArcMem\<close>: memory of reference-counted
    allocations and their raw pointers. \<open>Utf8\<close>: validation, repair and iteration of UTF-8.
  \<^item> \<open>AtomicWaker\<close>: \<open>atomic_waker/mod.rs\<close>. \<open>aw_step\<close> is one atomic access of \<open>register\<close> or \<open>take\<close>,
    and \<open>flag_step\<close> the flag protocol of the module documentation; any number of threads.
    \<open>WakeReach\<close>: the same threads, observed, for the contract of the waker without a flag.
    \<open>TaskWaker\<close>: what one task that registers knows while other threads wake. \<open>WeakWaker\<close>: the
    waker with the memory orderings of the source, and the flag protocol with a \<open>Relaxed\<close> flag.
    \<open>WakerPanic\<close>: a \<open>clone\<close> of a waker that panics in \<open>register\<close>.
  \<^item> \<open>SpscRing\<close>: \<open>Ring\<close> of \<open>spsc.rs\<close>; \<open>rg_step\<close> is one access of the stamped ring with 64-bit
    positions, and the calls that run alone are here. \<open>RingThreads\<close>: any number of threads that
    push, overwrite, pop and count, with their accesses interleaved, beside a bounded queue.
    \<open>WeakRing\<close>: the same threads with the memory orderings of the stamps.
  \<^item> \<open>Spsc\<close>: the handles of \<open>spsc.rs\<close>, each call of the ring and of the waker one step, with a
    ledger of what the calls take and return.
    \<open>SpscThreads\<close>: the consumer and the producer again, interleaved at every atomic access of the
    ring, of the waker and of \<open>producer_closed\<close>, with the orderings of all three.
  \<^item> \<open>StreamModel\<close>: \<open>stream.rs\<close>. Each call is one critical section of \<open>Shared\<close>; the wakes and
    notifications after it, and the waits of \<open>push_or_block\<close>, are steps of their own.
  \<^item> \<open>Oneshot\<close>, \<open>Mpsc\<close>, \<open>AsyncMutex\<close>, \<open>Combinators\<close>: \<open>future/oneshot.rs\<close>, \<open>future/mpsc.rs\<close>,
    \<open>future/mutex.rs\<close>, \<open>future/mod.rs\<close>. \<open>WakeProtocol\<close>: the protocol of the two channels (test,
    register, test again; change the state, then wake), with the accesses of the waker opened up
    as in \<open>WeakWaker\<close>. \<open>FutureThreads\<close>: the two channels
    as its instances.
  \<^item> \<open>Completion\<close> and \<open>AsyncCompletion\<close>: \<open>completion.rs\<close>. The steps of a callback (\<open>sc_complete_step\<close>,
    \<open>ac_complete_step\<close>) and of the owner interleave on \<open>ArcMem\<close>.
  \<^item> \<open>CallbackContext\<close>: \<open>callback_context.rs\<close> on \<open>ArcMem\<close> and \<open>PanicSafe\<close>. \<open>CallbackThreads\<close>:
    callbacks on any number of threads, whose steps interleave with the calls of the owner.
  \<^item> \<open>PanicSafe\<close>: \<open>panic_safe.rs\<close>. User code returns, unwinds with a payload, or aborts.
  \<^item> \<open>FourCharCode\<close>, \<open>FfiString\<close>: \<open>four_char_code.rs\<close>, \<open>ffi_string.rs\<close>.
  \<^item> \<open>Json\<close> (values, text, reader), \<open>JsonSafety\<close>, \<open>JsonRoundtrip\<close>, \<open>JsonDecode\<close>: \<open>json.rs\<close>.
  \<^item> \<open>ArrayVec\<close>, \<open>SmallVec\<close>, \<open>SlotMap\<close>: \<open>collections/*.rs\<close>; a \<open>MaybeUninit\<close> array is a list of
    options, so that a result is also a statement that only initialised memory was read.

  \<^bold>\<open>Interfaces\<close>

  The locales are \<open>waker_slot\<close> (interpreted as \<open>aw\<close> on the atomic waker), \<open>ring_queue\<close> (\<open>rg\<close>, on
  the ring), \<open>wake_protocol\<close> (\<open>mpw\<close> on the queue channel, \<open>osr\<close> and \<open>osc\<close> on the receiver and the
  cancellation of the one-shot channel), \<open>list_store\<close> (\<open>av\<close> and \<open>sv\<close>, on the two vectors) and
  \<open>key_map\<close> (\<open>sm\<close>, on the slot map); their clients are proved once from the laws.

  \<^bold>\<open>What the lemmas show\<close>

  \<^item> Concurrency: in every reachable state of the step relations no wake-up is lost, no item is
    lost or duplicated, cells are accessed exclusively, and ends are final.
  \<^item> The ring: calls of any number of threads are linearisable to a bounded queue, an overwriting
    push being a pop and a push; no two threads access the cell of a slot; a thread that runs
    alone from any reachable state, with the latest stamps and no spurious failure, finishes its
    call, if no other holds a slot; a ring at rest is the queue.
  \<^item> Memory orderings: when a load of a stamp, or a failed exchange of the waker, may return an old
    value, calls of the ring remain linearisable and no wake-up is lost, neither of a \<open>Relaxed\<close> flag
    nor in the three channels; the accesses to every cell are ordered by happens-before, which only
    acquiring accesses that read from releasing ones give.
  \<^item> Panics of a waker's clone leave the waker safe but silent: it is never woken again.
  \<^item> Foreign memory: under the documented contracts no order of calls and no interleaving is
    undefined behaviour, and allocations and values are freed exactly once.
  \<^item> Collections: refinement of lists and maps by every sequence of calls, panics included. The
    specification of the small vector says when it is on the heap, which shows only in the messages
    of panics and in what a closure of \<open>retain\<close> leaves when it panics.
  \<^item> JSON: the parser returns on every UTF-8 text without a panic, its values are well-formed,
    the text of a well-formed value parses to the value, and the digits of an integer decode as
    an integer type exactly when they are in its range and in 64 bits.

  \<^bold>\<open>Bounds and fuel\<close>

  A call of the ring that runs alone has fuel for its retries, shown sufficient by
  \<open>ring_call_terminates\<close>; \<open>aw_exec\<close> has six steps, the longest path of a call; the loops over the
  items of a JSON array or object have the length of the text as fuel, shown sufficient by
  \<open>json_parse_returns\<close>, and values are read at most 128 deep, as in the code. Sizes are
  those of a 64-bit target. The results on threads of the ring are for schedules of at most
  \<open>2 ^ 61\<close> accesses, so that no position is used twice (a position repeats after at least \<open>2 ^ 62\<close>
  operations); 13 accesses bound a call that nobody disturbs. Additions that the code does not
  check are those of a build with overflow checks.

  \<^bold>\<open>Not modelled\<close>

  \<open>AtomicWaker\<close>, \<open>WakeReach\<close>, \<open>TaskWaker\<close>, \<open>RingThreads\<close> and the single calls of the channels are
  the sequentially consistent layer below the theories with memory orderings. The flag of a
  completion is only swapped, so that each access reads the latest value, and what a lock protects
  is seen as the lock orders it; \<open>read\<close> and \<open>write\<close> of the ring are \<open>SeqCst\<close> in the source, and the
  counts of references are those of the standard library.
  Not modelled are \<open>Debug\<close> and \<open>Hash\<close> instances, the diagnostic of a duplicate callback, the
  allocator, and a panic of a waker's \<open>wake\<close> or \<open>drop\<close> or of an inner future. The floats of JSON and
  their conversion from and to text are those of the
  standard library and a parameter; the round trip names what it needs of them (\<open>f64_ok\<close>).
  \<open>ffi_callbacks.rs\<close> (type aliases) and the module declarations have no behaviour.
\<close>

end
